(* ===== verification/Prelude.thy ===== *)
theory Prelude
  imports Main "HOL-Library.Word" "HOL-Library.Monad_Syntax"
begin

unbundle bit_operations_syntax

text \<open>
  Shared vocabulary of the development: the C integer types of the 386 and ARM
  ports as words, byte buffers with an explicit in-bounds write, NUL-terminated
  strings, and the collections of rewrite rules the component proofs draw on.
\<close>

section \<open>C types\<close>

type_synonym uchar = "8 word"
type_synonym ushort = "16 word"
type_synonym uint = "32 word"
type_synonym uvlong = "64 word"
type_synonym bytes = "uchar list"

named_theorems buf_simps \<open>rewriting of buffer reads and writes\<close>
named_theorems cur_rules \<open>advancing a decoding cursor\<close>

lemma unat_of_nat_small: "n < 2 ^ LENGTH('a) \<Longrightarrow> unat (of_nat n :: 'a::len word) = n"
  by (simp add: unat_of_nat take_bit_nat_eq_self)

lemma unat_of_nat_uint [simp]: "n < 4294967296 \<Longrightarrow> unat (of_nat n :: uint) = n"
  by (rule unat_of_nat_small) simp

text \<open>Offsets such as \<open>p + 2\<close> stay as they are written.\<close>

declare add_2_eq_Suc [simp del] add_2_eq_Suc' [simp del]

section \<open>Byte buffers\<close>

text \<open>
  A buffer is a list of bytes. A read outside the list yields 0 (the byte that
  ends a C string); a write replaces the bytes at an offset. A write that would run
  past the end makes the list longer, so \<open>length (poke m i bs) = length m\<close>
  is exactly the statement that the write stayed inside the buffer.
\<close>

definition rd :: "bytes \<Rightarrow> nat \<Rightarrow> uchar" where
  "rd m i = (if i < length m then m ! i else 0)"

definition poke :: "bytes \<Rightarrow> nat \<Rightarrow> bytes \<Rightarrow> bytes" where
  "poke m i bs = take i m @ bs @ drop (i + length bs) m"

lemma poke_Nil [simp]: "poke m i [] = m"
  by (simp add: poke_def)

lemma length_poke [simp]: "i + length bs \<le> length m \<Longrightarrow> length (poke m i bs) = length m"
  by (simp add: poke_def)

lemma poke_inside_iff:
  "i \<le> length m \<Longrightarrow> length (poke m i bs) = length m \<longleftrightarrow> i + length bs \<le> length m"
  by (auto simp: poke_def)

lemma nth_poke:
  "i + length bs \<le> length m \<Longrightarrow> k < length m \<Longrightarrow>
    poke m i bs ! k = (if i \<le> k \<and> k < i + length bs then bs ! (k - i) else m ! k)"
  by (auto simp: poke_def nth_append)

lemma poke_poke_adjacent [buf_simps]:
  "i \<le> length m \<Longrightarrow> poke (poke m i as) (i + length as) bs = poke m i (as @ bs)"
  by (simp add: poke_def add.assoc add.commute add.left_commute)

lemma take_poke [simp]: "i \<le> length m \<Longrightarrow> take i (poke m i bs) = take i m"
  by (simp add: poke_def)

lemma drop_poke_after:
  "i + length bs \<le> j \<Longrightarrow> i + length bs \<le> length m \<Longrightarrow> drop j (poke m i bs) = drop j m"
  by (simp add: poke_def)

lemma drop_poke_here: "i \<le> length m \<Longrightarrow> drop i (poke m i bs) = bs @ drop (i + length bs) m"
  by (simp add: poke_def)

lemma take_poke_0: "length bs \<le> length m \<Longrightarrow> take (length bs) (poke m 0 bs) = bs"
  by (simp add: poke_def)

lemma rd_append_left [buf_simps]: "i < length xs \<Longrightarrow> rd (xs @ ys) i = rd xs i"
  by (simp add: rd_def nth_append)

lemma rd_drop [buf_simps]: "rd (drop k m) i = rd m (k + i)"
  by (auto simp: rd_def)

lemma rd_Cons [buf_simps]: "rd (x # xs) 0 = x" "rd (x # xs) (Suc i) = rd xs i"
  by (simp_all add: rd_def)

lemma rd_Cons_numeral [buf_simps]: "rd (x # xs) (numeral k) = rd xs (pred_numeral k)"
  by (simp add: numeral_eq_Suc buf_simps)

lemma rd_Nil [simp]: "rd [] i = 0"
  by (simp add: rd_def)

lemma rd_conv_drop: "rd m i = rd (drop i m) 0"
  by (simp add: rd_drop)

lemma take_drop_update:
  assumes "i + Suc k \<le> length xs"
  shows "take (Suc i) (xs[i := v]) @ ys @ drop (Suc i + k) (xs[i := v])
    = take i xs @ v # ys @ drop (i + Suc k) xs"
  using assms by (simp add: take_Suc_conv_app_nth)

lemma drop_append_advance: "drop i m = xs @ r \<Longrightarrow> drop (i + length xs) m = r"
  by (metis add.commute append_eq_conv_conj drop_drop)

section \<open>C strings\<close>

text \<open>
  The C string that starts at an offset: the bytes up to, and without, the first
  NUL. A string argument of the model is such a byte list (no NUL in it), a \<open>char*\<close>
  that may be nil an option of one.
\<close>

definition cstr :: "bytes \<Rightarrow> nat \<Rightarrow> bytes" where
  "cstr m i = takeWhile (\<lambda>b. b \<noteq> 0) (drop i m)"

definition nulfree :: "bytes \<Rightarrow> bool" where
  "nulfree s \<longleftrightarrow> 0 \<notin> set s"

lemma cstr_terminated:
  "nulfree s \<Longrightarrow> drop i m = s @ 0 # r \<Longrightarrow> cstr m i = s"
  by (auto simp: cstr_def nulfree_def takeWhile_append)

lemma nulfree_cstr [simp]: "nulfree (cstr m i)"
  by (auto simp: nulfree_def cstr_def dest: set_takeWhileD)

end
