(* ===== verification/Bits.thy ===== *)
theory Bits
  imports Prelude
begin

text \<open>
  The little-endian integer macros of \<^verbatim>\<open>include/ipc/fcall.h\<close> (GBIT8 \<dots> GBIT64, PBIT8 \<dots>
  PBIT64) and the pointer arithmetic the message routines do with them. A pointer is
  a 32-bit address, so \<open>p + n\<close> wraps as it does on the 386 and ARM; the buffer a
  routine is given starts at the address \<open>ap\<close>, and \<open>idx ap p\<close> is the index that \<open>p\<close>
  denotes in it.
\<close>

section \<open>Sizes\<close>

abbreviation (input) BIT8SZ :: "'a::len word" where "BIT8SZ \<equiv> 1"
abbreviation (input) BIT16SZ :: "'a::len word" where "BIT16SZ \<equiv> 2"
abbreviation (input) BIT32SZ :: "'a::len word" where "BIT32SZ \<equiv> 4"
abbreviation (input) BIT64SZ :: "'a::len word" where "BIT64SZ \<equiv> 8"
abbreviation (input) QIDSZ :: "'a::len word" where "QIDSZ \<equiv> BIT8SZ + BIT32SZ + BIT64SZ"
abbreviation (input) STATFIXLEN :: "'a::len word" where
  "STATFIXLEN \<equiv> BIT16SZ + QIDSZ + 5 * BIT16SZ + 4 * BIT32SZ + 1 * BIT64SZ"

section \<open>Putting and getting integers\<close>

definition PBIT8 :: "uchar \<Rightarrow> bytes" where
  "PBIT8 v = [v]"

definition PBIT16 :: "'a::len word \<Rightarrow> bytes" where
  "PBIT16 v = [ucast v, ucast (drop_bit 8 v)]"

definition PBIT32 :: "'a::len word \<Rightarrow> bytes" where
  "PBIT32 v = [ucast v, ucast (drop_bit 8 v), ucast (drop_bit 16 v), ucast (drop_bit 24 v)]"

definition PBIT64 :: "'a::len word \<Rightarrow> bytes" where
  "PBIT64 v = [ucast v, ucast (drop_bit 8 v), ucast (drop_bit 16 v), ucast (drop_bit 24 v),
     ucast (drop_bit 32 v), ucast (drop_bit 40 v), ucast (drop_bit 48 v), ucast (drop_bit 56 v)]"

definition GBIT8 :: "bytes \<Rightarrow> nat \<Rightarrow> uchar" where
  "GBIT8 m i = rd m i"

definition GBIT16 :: "bytes \<Rightarrow> nat \<Rightarrow> uint" where
  "GBIT16 m i = ucast (rd m i) OR push_bit 8 (ucast (rd m (i + 1)))"

definition GBIT32 :: "bytes \<Rightarrow> nat \<Rightarrow> uint" where
  "GBIT32 m i = ucast (rd m i) OR push_bit 8 (ucast (rd m (i + 1)))
     OR push_bit 16 (ucast (rd m (i + 2))) OR push_bit 24 (ucast (rd m (i + 3)))"

definition GBIT64 :: "bytes \<Rightarrow> nat \<Rightarrow> uvlong" where
  "GBIT64 m i = ucast (GBIT32 m i) OR push_bit 32 (scast (GBIT32 m (i + 4)))"

lemma length_PBIT [simp]:
  "length (PBIT8 b) = 1" "length (PBIT16 v) = 2" "length (PBIT32 w) = 4" "length (PBIT64 x) = 8"
  by (simp_all add: PBIT8_def PBIT16_def PBIT32_def PBIT64_def)

lemma GBIT_shift:
  "GBIT8 m i = GBIT8 (drop i m) 0" "GBIT16 m i = GBIT16 (drop i m) 0"
  "GBIT32 m i = GBIT32 (drop i m) 0" "GBIT64 m i = GBIT64 (drop i m) 0"
  by (simp_all add: GBIT8_def GBIT16_def GBIT32_def GBIT64_def rd_drop add.commute)

lemma GBIT8_PBIT8: "GBIT8 (PBIT8 v @ r) 0 = v"
  by (simp add: GBIT8_def PBIT8_def buf_simps)

lemma GBIT16_PBIT16: "GBIT16 (PBIT16 v @ r) 0 = ucast (ucast v :: ushort)"
  by (rule bit_word_eqI)
    (auto simp: GBIT16_def PBIT16_def buf_simps bit_simps)

lemma GBIT32_PBIT32: "GBIT32 (PBIT32 v @ r) 0 = (ucast v :: uint)"
proof (rule bit_word_eqI)
  fix n assume n: "n < LENGTH(32)"
  consider "n < 8" | "8 \<le> n" "n < 16" | "16 \<le> n" "n < 24" | "24 \<le> n" "n < 32"
    using n by fastforce
  then show "bit (GBIT32 (PBIT32 v @ r) 0) n = bit (ucast v :: uint) n"
    by cases (auto simp: GBIT32_def PBIT32_def buf_simps bit_simps)
qed

lemma PBIT64_halves:
  "PBIT64 (v :: uvlong) = PBIT32 (ucast v :: uint) @ PBIT32 (ucast (drop_bit 32 v) :: uint)"
  by (simp add: PBIT64_def PBIT32_def) (auto intro!: bit_word_eqI simp: bit_simps)

lemma join_halves:
  "(ucast (ucast v :: uint) :: uvlong) OR push_bit 32 (scast (ucast (drop_bit 32 v) :: uint)) = v"
  by (rule bit_word_eqI) (auto simp: bit_simps)

lemma GBIT64_PBIT64: "GBIT64 (PBIT64 (v :: uvlong) @ r) 0 = v"
  by (simp add: GBIT64_def PBIT64_halves GBIT_shift(3) [of _ 4] GBIT32_PBIT32 join_halves)

lemma ucast_ushort_uint [simp]: "ucast (ucast (v :: ushort) :: uint) = v"
  by (rule bit_word_eqI) (auto simp: bit_simps)

lemma unat_ushort_uint [simp]: "unat (ucast (v :: ushort) :: uint) = unat v"
proof -
  have "unat v < 2 ^ 16" using unsigned_less [of v] by simp
  then show ?thesis by (simp add: unsigned_ucast_eq unsigned_take_bit_eq take_bit_nat_eq_self)
qed

lemma GBIT_at:
  "drop i m = PBIT8 b @ r \<Longrightarrow> GBIT8 m i = b"
  "drop i m = PBIT16 v @ r \<Longrightarrow> GBIT16 m i = ucast (ucast v :: ushort)"
  "drop i m = PBIT32 w @ r \<Longrightarrow> GBIT32 m i = ucast w"
  "drop i m = PBIT64 x @ r \<Longrightarrow> GBIT64 m i = (x :: uvlong)"
  by (simp_all add: GBIT_shift [of _ i] GBIT8_PBIT8 GBIT16_PBIT16 GBIT32_PBIT32 GBIT64_PBIT64)

lemma GBIT16_count:
  "drop i m = PBIT16 (of_nat n :: uint) @ r \<Longrightarrow> n < 2 ^ 16 \<Longrightarrow> GBIT16 m i = of_nat n"
  by (simp add: GBIT_at(2) word_unat_eq_iff unsigned_ucast_eq unsigned_take_bit_eq take_bit_nat_eq_self)

end
