(* ===== verification/Fcall.thy ===== *)
theory Fcall
  imports Bits
begin

text \<open>
  The data model of 9P2000 messages: \<^verbatim>\<open>struct Fcall\<close>, \<^verbatim>\<open>struct Qid\<close> and the message
  types of \<^verbatim>\<open>include/ipc/fcall.h\<close>, and the encoder \<^verbatim>\<open>sizeS2M\<close>/\<^verbatim>\<open>convS2M\<close> of
  \<^verbatim>\<open>lib_core/libc/9sys/convS2M.c\<close>. The fields that the C declaration overlays in a union
  are separate fields here: every message type reads and writes the members of one
  struct of the union only. A \<open>char*\<close> field is an optional byte string (\<open>None\<close> is nil).
\<close>

section \<open>Messages\<close>

record qid =
  q_path :: uvlong
  q_vers :: uint
  q_type :: uchar

record fcall =
  f_type :: uchar
  f_fid :: uint
  f_tag :: ushort
  f_msize :: uint
  f_version :: "bytes option"
  f_oldtag :: ushort
  f_ename :: "bytes option"
  f_qid :: qid
  f_iounit :: uint
  f_aqid :: qid
  f_afid :: uint
  f_uname :: "bytes option"
  f_aname :: "bytes option"
  f_perm :: uint
  f_name :: "bytes option"
  f_mode :: uchar
  f_newfid :: uint
  f_nwname :: ushort
  f_wname :: "bytes option list"
  f_nwqid :: ushort
  f_wqid :: "qid list"
  f_offset :: uvlong
  f_count :: uint
  f_data :: bytes
  f_nstat :: ushort
  f_stat :: bytes

abbreviation (input) Tversion :: uchar where "Tversion \<equiv> 100"
abbreviation (input) Rversion :: uchar where "Rversion \<equiv> 101"
abbreviation (input) Tauth :: uchar where "Tauth \<equiv> 102"
abbreviation (input) Rauth :: uchar where "Rauth \<equiv> 103"
abbreviation (input) Tattach :: uchar where "Tattach \<equiv> 104"
abbreviation (input) Rattach :: uchar where "Rattach \<equiv> 105"
abbreviation (input) Terror :: uchar where "Terror \<equiv> 106"
abbreviation (input) Rerror :: uchar where "Rerror \<equiv> 107"
abbreviation (input) Tflush :: uchar where "Tflush \<equiv> 108"
abbreviation (input) Rflush :: uchar where "Rflush \<equiv> 109"
abbreviation (input) Twalk :: uchar where "Twalk \<equiv> 110"
abbreviation (input) Rwalk :: uchar where "Rwalk \<equiv> 111"
abbreviation (input) Topen :: uchar where "Topen \<equiv> 112"
abbreviation (input) Ropen :: uchar where "Ropen \<equiv> 113"
abbreviation (input) Tcreate :: uchar where "Tcreate \<equiv> 114"
abbreviation (input) Rcreate :: uchar where "Rcreate \<equiv> 115"
abbreviation (input) Tread :: uchar where "Tread \<equiv> 116"
abbreviation (input) Rread :: uchar where "Rread \<equiv> 117"
abbreviation (input) Twrite :: uchar where "Twrite \<equiv> 118"
abbreviation (input) Rwrite :: uchar where "Rwrite \<equiv> 119"
abbreviation (input) Tclunk :: uchar where "Tclunk \<equiv> 120"
abbreviation (input) Rclunk :: uchar where "Rclunk \<equiv> 121"
abbreviation (input) Tremove :: uchar where "Tremove \<equiv> 122"
abbreviation (input) Rremove :: uchar where "Rremove \<equiv> 123"
abbreviation (input) Tstat :: uchar where "Tstat \<equiv> 124"
abbreviation (input) Rstat :: uchar where "Rstat \<equiv> 125"
abbreviation (input) Twstat :: uchar where "Twstat \<equiv> 126"
abbreviation (input) Rwstat :: uchar where "Rwstat \<equiv> 127"

abbreviation (input) MAXWELEM :: nat where "MAXWELEM \<equiv> 16"

text \<open>
  The arrays \<open>wname\<close> and \<open>wqid\<close> have \<^verbatim>\<open>MAXWELEM\<close> entries. An access outside the
  array is undefined in C; it reads as nil (a zero qid) here, and the theorems are
  about messages whose counts stay inside.
\<close>

definition wname_at :: "fcall \<Rightarrow> nat \<Rightarrow> bytes option" where
  "wname_at f i = (if i < length (f_wname f) then f_wname f ! i else None)"

definition wqid_at :: "fcall \<Rightarrow> nat \<Rightarrow> qid" where
  "wqid_at f i = (if i < length (f_wqid f) then f_wqid f ! i
     else \<lparr>q_path = 0, q_vers = 0, q_type = 0\<rparr>)"

text \<open>\<open>memmove(p, data, n)\<close> from a separate object reads the first \<open>n\<close> bytes of it.\<close>

definition cpy :: "bytes \<Rightarrow> nat \<Rightarrow> bytes" where
  "cpy d n = map (rd d) [0..<n]"

lemma cpy_all [simp]: "cpy d (length d) = d"
  by (auto simp: cpy_def rd_def intro: nth_equalityI)

lemma cpy_append [simp]: "cpy (d @ r) (length d) = d"
proof -
  have "cpy (d @ r) (length d) = cpy d (length d)"
    unfolding cpy_def by (rule map_cong) (simp_all add: rd_append_left)
  then show ?thesis by simp
qed

lemma length_cpy [simp]: "length (cpy d n) = n"
  by (simp add: cpy_def)

section \<open>Encoding\<close>

text \<open>
  The write pointer is the offset from the start of the buffer. \<open>put bs\<close> is the idiom
  \<^verbatim>\<open>PBITn(p, v); p += BITnSZ;\<close> (and \<^verbatim>\<open>memmove(p, d, n); p += n;\<close>), and \<open>steps\<close> runs a
  sequence of such statements in the order written.
\<close>

type_synonym wstate = "bytes \<times> nat"

definition put :: "bytes \<Rightarrow> wstate \<Rightarrow> wstate" where
  "put bs = (\<lambda>(m, p). (poke m p bs, p + length bs))"

definition steps :: "('s \<Rightarrow> 's) list \<Rightarrow> 's \<Rightarrow> 's" where
  "steps ops s = foldl (\<lambda>t g. g t) s ops"

definition pstring :: "bytes option \<Rightarrow> wstate \<Rightarrow> wstate" where
  "pstring s = (\<lambda>(m, p). case s of
       None \<Rightarrow> (poke m p (PBIT16 (0 :: uint)), p + 2)
     | Some b \<Rightarrow>
         (let n = of_nat (length b) :: uint;
              m1 = poke m (p + 2) b;
              m2 = poke m1 p (PBIT16 n)
          in (m2, p + (length b + 2))))"

definition pqid :: "qid \<Rightarrow> wstate \<Rightarrow> wstate" where
  "pqid q = steps [put (PBIT8 (q_type q)), put (PBIT32 (q_vers q)), put (PBIT64 (q_path q))]"

definition stringsz :: "bytes option \<Rightarrow> uint" where
  "stringsz s = (case s of None \<Rightarrow> BIT16SZ | Some b \<Rightarrow> BIT16SZ + of_nat (length b))"

definition sizeS2M :: "fcall \<Rightarrow> uint" where
  "sizeS2M f = (let n = 0 + BIT32SZ + BIT8SZ + BIT16SZ; t = f_type f in
     if t = Tversion then n + BIT32SZ + stringsz (f_version f)
     else if t = Tflush then n + BIT16SZ
     else if t = Tauth then n + BIT32SZ + stringsz (f_uname f) + stringsz (f_aname f)
     else if t = Tattach then
       n + BIT32SZ + BIT32SZ + stringsz (f_uname f) + stringsz (f_aname f)
     else if t = Twalk then
       foldl (\<lambda>n i. n + stringsz (wname_at f i)) (n + BIT32SZ + BIT32SZ + BIT16SZ)
         [0..<unat (f_nwname f)]
     else if t = Topen then n + BIT32SZ + BIT8SZ
     else if t = Tcreate then n + BIT32SZ + stringsz (f_name f) + BIT32SZ + BIT8SZ
     else if t = Tread then n + BIT32SZ + BIT64SZ + BIT32SZ
     else if t = Twrite then n + BIT32SZ + BIT64SZ + BIT32SZ + f_count f
     else if t = Tclunk \<or> t = Tremove then n + BIT32SZ
     else if t = Tstat then n + BIT32SZ
     else if t = Twstat then n + BIT32SZ + BIT16SZ + ucast (f_nstat f)
     else if t = Rversion then n + BIT32SZ + stringsz (f_version f)
     else if t = Rerror then n + stringsz (f_ename f)
     else if t = Rflush then n
     else if t = Rauth then n + QIDSZ
     else if t = Rattach then n + QIDSZ
     else if t = Rwalk then n + BIT16SZ + ucast (f_nwqid f) * QIDSZ
     else if t = Ropen \<or> t = Rcreate then n + QIDSZ + BIT32SZ
     else if t = Rread then n + BIT32SZ + f_count f
     else if t = Rwrite then n + BIT32SZ
     else if t = Rclunk then n
     else if t = Rremove then n
     else if t = Rstat then n + BIT16SZ + ucast (f_nstat f)
     else if t = Rwstat then n
     else 0)"

text \<open>
  The switch of \<open>convS2M\<close>, in its two halves. The result is the buffer and the
  write offset after the switch, or \<open>None\<close> where a case returns \<open>ERROR_0\<close>.
\<close>

definition convS2M_T :: "fcall \<Rightarrow> wstate \<Rightarrow> bytes \<times> nat option" where
  "convS2M_T f st = (let t = f_type f; ok = (\<lambda>ops. apsnd Some (steps ops st)) in
     if t = Tversion then ok [put (PBIT32 (f_msize f)), pstring (f_version f)]
     else if t = Tflush then ok [put (PBIT16 (f_oldtag f))]
     else if t = Tauth then
       ok [put (PBIT32 (f_afid f)), pstring (f_uname f), pstring (f_aname f)]
     else if t = Tattach then
       ok [put (PBIT32 (f_fid f)), put (PBIT32 (f_afid f)),
           pstring (f_uname f), pstring (f_aname f)]
     else if t = Twalk then
       (let st1 = steps [put (PBIT32 (f_fid f)), put (PBIT32 (f_newfid f)),
                         put (PBIT16 (f_nwname f))] st
        in if unat (f_nwname f) > MAXWELEM then (fst st1, None)
           else apsnd Some
             (steps (map (\<lambda>i. pstring (wname_at f i)) [0..<unat (f_nwname f)]) st1))
     else if t = Topen then ok [put (PBIT32 (f_fid f)), put (PBIT8 (f_mode f))]
     else if t = Tcreate then
       ok [put (PBIT32 (f_fid f)), pstring (f_name f), put (PBIT32 (f_perm f)),
           put (PBIT8 (f_mode f))]
     else if t = Tread then
       ok [put (PBIT32 (f_fid f)), put (PBIT64 (f_offset f)), put (PBIT32 (f_count f))]
     else if t = Twrite then
       ok [put (PBIT32 (f_fid f)), put (PBIT64 (f_offset f)), put (PBIT32 (f_count f)),
           put (cpy (f_data f) (unat (f_count f)))]
     else if t = Tclunk \<or> t = Tremove then ok [put (PBIT32 (f_fid f))]
     else if t = Tstat then ok [put (PBIT32 (f_fid f))]
     else if t = Twstat then
       ok [put (PBIT32 (f_fid f)), put (PBIT16 (f_nstat f)),
           put (cpy (f_stat f) (unat (f_nstat f)))]
     else (fst st, None))"

definition convS2M_R :: "fcall \<Rightarrow> wstate \<Rightarrow> bytes \<times> nat option" where
  "convS2M_R f st = (let t = f_type f; ok = (\<lambda>ops. apsnd Some (steps ops st)) in
     if t = Rversion then ok [put (PBIT32 (f_msize f)), pstring (f_version f)]
     else if t = Rerror then ok [pstring (f_ename f)]
     else if t = Rflush then ok []
     else if t = Rauth then ok [pqid (f_aqid f)]
     else if t = Rattach then ok [pqid (f_qid f)]
     else if t = Rwalk then
       (let st1 = put (PBIT16 (f_nwqid f)) st
        in if unat (f_nwqid f) > MAXWELEM then (fst st1, None)
           else apsnd Some
             (steps (map (\<lambda>i. pqid (wqid_at f i)) [0..<unat (f_nwqid f)]) st1))
     else if t = Ropen \<or> t = Rcreate then ok [pqid (f_qid f), put (PBIT32 (f_iounit f))]
     else if t = Rread then
       ok [put (PBIT32 (f_count f)), put (cpy (f_data f) (unat (f_count f)))]
     else if t = Rwrite then ok [put (PBIT32 (f_count f))]
     else if t = Rclunk then ok []
     else if t = Rremove then ok []
     else if t = Rstat then
       ok [put (PBIT16 (f_nstat f)), put (cpy (f_stat f) (unat (f_nstat f)))]
     else if t = Rwstat then ok []
     else (fst st, None))"

definition is_T :: "uchar \<Rightarrow> bool" where
  "is_T t \<longleftrightarrow> t \<in> {Tversion, Tflush, Tauth, Tattach, Twalk, Topen, Tcreate, Tread, Twrite,
     Tclunk, Tremove, Tstat, Twstat}"

text \<open>
  \<open>convS2M f m nap\<close> returns the value of the C function (0 is \<open>ERROR_0\<close>) and the
  buffer afterwards.
\<close>

definition convS2M :: "fcall \<Rightarrow> bytes \<Rightarrow> uint \<Rightarrow> uint \<times> bytes" where
  "convS2M f m nap = (let size = sizeS2M f in
     if size = 0 then (0, m)
     else if size > nap then (0, m)
     else
       let st = steps [put (PBIT32 size), put (PBIT8 (f_type f)), put (PBIT16 (f_tag f))] (m, 0)
       in case (if is_T (f_type f) then convS2M_T f st else convS2M_R f st) of
            (m', None) \<Rightarrow> (0, m')
          | (m', Some p) \<Rightarrow> if size \<noteq> of_nat p then (0, m') else (size, m'))"

end
