(* ===== verification/Fcall_Wire.thy ===== *)
theory Fcall_Wire
  imports Fcall
begin

text \<open>
  The wire format as a specification (\<open>wire\<close>: the bytes of a message, as the 9P2000
  manual pages lay them out) and the refinement of the pointer-moving encoder to it:
  \<open>sizeS2M\<close> computes the length of \<open>wire f\<close> modulo \<open>2 ^ 32\<close>, and \<open>convS2M\<close> writes
  exactly \<open>wire f\<close> at the start of the buffer and nothing else.
\<close>

section \<open>The wire format\<close>

definition enc_str :: "bytes option \<Rightarrow> bytes" where
  "enc_str s = (let b = (case s of None \<Rightarrow> [] | Some b \<Rightarrow> b)
     in PBIT16 (of_nat (length b) :: uint) @ b)"

definition str :: "bytes option \<Rightarrow> bytes" where
  "str s = (case s of None \<Rightarrow> [] | Some b \<Rightarrow> b)"

definition str_ok :: "bytes option \<Rightarrow> bool" where
  "str_ok s \<longleftrightarrow> nulfree (str s) \<and> length (str s) < 2 ^ 16"

lemma enc_str_str: "enc_str s = PBIT16 (of_nat (length (str s)) :: uint) @ str s"
  by (simp add: enc_str_def str_def Let_def)

definition enc_qid :: "qid \<Rightarrow> bytes" where
  "enc_qid q = PBIT8 (q_type q) @ PBIT32 (q_vers q) @ PBIT64 (q_path q)"

definition wire_body :: "fcall \<Rightarrow> bytes" where
  "wire_body f = (let t = f_type f in
     if t = Tversion \<or> t = Rversion then PBIT32 (f_msize f) @ enc_str (f_version f)
     else if t = Tflush then PBIT16 (f_oldtag f)
     else if t = Tauth then PBIT32 (f_afid f) @ enc_str (f_uname f) @ enc_str (f_aname f)
     else if t = Tattach then
       PBIT32 (f_fid f) @ PBIT32 (f_afid f) @ enc_str (f_uname f) @ enc_str (f_aname f)
     else if t = Twalk then
       PBIT32 (f_fid f) @ PBIT32 (f_newfid f) @ PBIT16 (f_nwname f) @
         concat (map (\<lambda>i. enc_str (wname_at f i)) [0..<unat (f_nwname f)])
     else if t = Topen then PBIT32 (f_fid f) @ PBIT8 (f_mode f)
     else if t = Tcreate then
       PBIT32 (f_fid f) @ enc_str (f_name f) @ PBIT32 (f_perm f) @ PBIT8 (f_mode f)
     else if t = Tread then PBIT32 (f_fid f) @ PBIT64 (f_offset f) @ PBIT32 (f_count f)
     else if t = Twrite then
       PBIT32 (f_fid f) @ PBIT64 (f_offset f) @ PBIT32 (f_count f) @
         cpy (f_data f) (unat (f_count f))
     else if t = Tclunk \<or> t = Tremove \<or> t = Tstat then PBIT32 (f_fid f)
     else if t = Twstat then
       PBIT32 (f_fid f) @ PBIT16 (f_nstat f) @ cpy (f_stat f) (unat (f_nstat f))
     else if t = Rerror then enc_str (f_ename f)
     else if t = Rauth then enc_qid (f_aqid f)
     else if t = Rattach then enc_qid (f_qid f)
     else if t = Rwalk then
       PBIT16 (f_nwqid f) @ concat (map (\<lambda>i. enc_qid (wqid_at f i)) [0..<unat (f_nwqid f)])
     else if t = Ropen \<or> t = Rcreate then enc_qid (f_qid f) @ PBIT32 (f_iounit f)
     else if t = Rread then PBIT32 (f_count f) @ cpy (f_data f) (unat (f_count f))
     else if t = Rwrite then PBIT32 (f_count f)
     else if t = Rstat then PBIT16 (f_nstat f) @ cpy (f_stat f) (unat (f_nstat f))
     else [])"

definition wire_len :: "fcall \<Rightarrow> nat" where
  "wire_len f = 7 + length (wire_body f)"

definition wire :: "fcall \<Rightarrow> bytes" where
  "wire f = PBIT32 (of_nat (wire_len f) :: uint) @ PBIT8 (f_type f) @ PBIT16 (f_tag f) @ wire_body f"

text \<open>
  A message the encoder is meant for: one of the legal types, walk counts within
  \<^verbatim>\<open>MAXWELEM\<close>, and a total length that a 32-bit size field can hold.
\<close>

definition legal_type :: "uchar \<Rightarrow> bool" where
  "legal_type t \<longleftrightarrow> is_T t \<or> t \<in> {Rversion, Rerror, Rflush, Rauth, Rattach, Rwalk, Ropen,
     Rcreate, Rread, Rwrite, Rclunk, Rremove, Rstat, Rwstat}"

definition fcall_ok :: "fcall \<Rightarrow> bool" where
  "fcall_ok f \<longleftrightarrow> legal_type (f_type f)
     \<and> (f_type f = Twalk \<longrightarrow> unat (f_nwname f) \<le> MAXWELEM)
     \<and> (f_type f = Rwalk \<longrightarrow> unat (f_nwqid f) \<le> MAXWELEM)
     \<and> wire_len f < 2 ^ 32"

lemma wire_len_ge: "7 \<le> wire_len f"
  by (simp add: wire_len_def)

lemma length_wire: "length (wire f) = wire_len f"
  by (simp add: wire_def wire_len_def)

section \<open>Statements that emit bytes\<close>

text \<open>\<open>op\<close> emits \<open>bs\<close>: run where \<open>bs\<close> fits, it writes \<open>bs\<close> at the pointer and moves past it.\<close>

definition emits :: "(wstate \<Rightarrow> wstate) \<Rightarrow> bytes \<Rightarrow> bool" where
  "emits g bs \<longleftrightarrow> (\<forall>m p. p + length bs \<le> length m \<longrightarrow> g (m, p) = (poke m p bs, p + length bs))"

named_theorems emit_intros \<open>the bytes each statement of the encoder emits\<close>

lemma emitsD: "emits g bs \<Longrightarrow> p + length bs \<le> length m \<Longrightarrow> g (m, p) = (poke m p bs, p + length bs)"
  by (simp add: emits_def)

lemma emits_put [emit_intros]: "emits (put bs) bs"
  by (simp add: emits_def put_def)

lemma emits_Nil [emit_intros]: "emits (steps []) []"
  by (simp add: emits_def steps_def)

lemma emits_Cons [emit_intros]:
  assumes g: "emits g as" and gs: "emits (steps gs) bs"
  shows "emits (steps (g # gs)) (as @ bs)"
  unfolding emits_def
proof (intro allI impI)
  fix m :: bytes and p assume p: "p + length (as @ bs) \<le> length m"
  then have "g (m, p) = (poke m p as, p + length as)"
    by (intro emitsD [OF g]) simp
  moreover have "steps gs (poke m p as, p + length as)
      = (poke (poke m p as) (p + length as) bs, p + length as + length bs)"
    using p by (intro emitsD [OF gs]) simp
  ultimately show "steps (g # gs) (m, p) = (poke m p (as @ bs), p + length (as @ bs))"
    using p by (simp add: steps_def poke_poke_adjacent)
qed

lemma emits_single [emit_intros]: "emits g bs \<Longrightarrow> emits (steps [g]) bs"
  by (simp add: emits_def steps_def)

lemma emits_map [emit_intros]:
  "(\<And>i. i \<in> set is \<Longrightarrow> emits (g i) (enc i)) \<Longrightarrow> emits (steps (map g is)) (concat (map enc is))"
  by (induction "is") (auto intro: emits_Nil emits_Cons)

lemma poke_backwards:
  "p + length as + length bs \<le> length m \<Longrightarrow> poke (poke m (p + length as) bs) p as = poke m p (as @ bs)"
  by (simp add: poke_def add.assoc min_absorb1)

lemma emits_pstring [emit_intros]: "emits (pstring s) (enc_str s)"
  using poke_backwards [of _ "PBIT16 (of_nat (length (the s)) :: uint)"]
  by (auto simp: emits_def pstring_def enc_str_def Let_def split: option.splits)

lemma emits_pqid [emit_intros]: "emits (pqid q) (enc_qid q)"
proof -
  have "emits (pqid q) (PBIT8 (q_type q) @ PBIT32 (q_vers q) @ PBIT64 (q_path q) @ [])"
    unfolding pqid_def by (intro emit_intros)
  then show ?thesis by (simp add: enc_qid_def)
qed

section \<open>The encoder refines the wire format\<close>

lemma stringsz_enc_str: "stringsz s = of_nat (length (enc_str s))"
  by (simp add: stringsz_def enc_str_def split: option.split)

lemma length_enc_qid [simp]: "length (enc_qid q) = 13"
  by (simp add: enc_qid_def)

lemma foldl_add_lengths:
  "foldl (\<lambda>n i. n + of_nat (length (enc_str (w i)))) n is
     = (n + of_nat (length (concat (map (\<lambda>i. enc_str (w i)) is))) :: uint)"
  by (induction "is" arbitrary: n) (simp_all add: algebra_simps)

lemma length_concat_qids: "length (concat (map (\<lambda>i. enc_qid (w i)) is)) = 13 * length is"
  by (induction "is") simp_all

text \<open>The size the encoder announces is the length of the encoding, as a 32-bit number.\<close>

lemma sizeS2M_wire_len: "legal_type (f_type f) \<Longrightarrow> sizeS2M f = of_nat (wire_len f)"
  unfolding legal_type_def is_T_def
  by (auto simp: sizeS2M_def wire_len_def wire_body_def stringsz_enc_str foldl_add_lengths
      length_concat_qids simp del: length_concat)

lemma emits_ok:
  "emits (steps ops) bs \<Longrightarrow> p + length bs \<le> length m \<Longrightarrow>
   apsnd Some (steps ops (m, p)) = (poke m p bs, Some (p + length bs))"
  by (simp add: emitsD)

lemma emits_then_ok:
  assumes "emits (steps xs) as" and "emits (steps ys) bs" and "p + length (as @ bs) \<le> length m"
  shows "apsnd Some (steps ys (steps xs (m, p))) = (poke m p (as @ bs), Some (p + length (as @ bs)))"
  using assms(3)
  by (simp add: emitsD [OF assms(1)] emitsD [OF assms(2)] poke_poke_adjacent)

lemma convS2M_T_body:
  assumes "is_T (f_type f)" "f_type f = Twalk \<longrightarrow> unat (f_nwname f) \<le> MAXWELEM"
    and "p + length (wire_body f) \<le> length m"
  shows "convS2M_T f (m, p) = (poke m p (wire_body f), Some (p + length (wire_body f)))"
proof (cases "f_type f = Twalk")
  case True
  let ?hd = "[put (PBIT32 (f_fid f)), put (PBIT32 (f_newfid f)), put (PBIT16 (f_nwname f))]"
  let ?ns = "map (\<lambda>i. pstring (wname_at f i)) [0..<unat (f_nwname f)]"
  have body: "wire_body f = (PBIT32 (f_fid f) @ PBIT32 (f_newfid f) @ PBIT16 (f_nwname f)) @
      concat (map (\<lambda>i. enc_str (wname_at f i)) [0..<unat (f_nwname f)])"
    using True by (simp add: wire_body_def)
  have "apsnd Some (steps ?ns (steps ?hd (m, p)))
      = (poke m p (wire_body f), Some (p + length (wire_body f)))"
    using assms(3) unfolding body by (intro emits_then_ok emit_intros)
  then show ?thesis using True assms(2) by (simp add: convS2M_T_def Let_def)
next
  case False
  then show ?thesis using assms(1,3) unfolding is_T_def
    by (auto simp: convS2M_T_def wire_body_def Let_def simp del: length_append length_PBIT
        intro!: emits_ok emit_intros)
qed

lemma convS2M_R_body:
  assumes "legal_type (f_type f)" "\<not> is_T (f_type f)"
    and "f_type f = Rwalk \<longrightarrow> unat (f_nwqid f) \<le> MAXWELEM"
    and "p + length (wire_body f) \<le> length m"
  shows "convS2M_R f (m, p) = (poke m p (wire_body f), Some (p + length (wire_body f)))"
proof (cases "f_type f = Rwalk")
  case True
  have body: "wire_body f = PBIT16 (f_nwqid f) @
      concat (map (\<lambda>i. enc_qid (wqid_at f i)) [0..<unat (f_nwqid f)])"
    using True by (simp add: wire_body_def)
  have "apsnd Some (steps (map (\<lambda>i. pqid (wqid_at f i)) [0..<unat (f_nwqid f)])
      (steps [put (PBIT16 (f_nwqid f))] (m, p)))
      = (poke m p (wire_body f), Some (p + length (wire_body f)))"
    using assms(4) unfolding body by (intro emits_then_ok emit_intros)
  then show ?thesis using True assms(3) by (simp add: convS2M_R_def Let_def steps_def)
next
  case False
  then show ?thesis using assms(1,2,4) unfolding legal_type_def
    by (auto simp: convS2M_R_def wire_body_def Let_def
        simp del: length_append length_PBIT length_enc_qid intro!: emits_ok emit_intros)
      (simp_all add: steps_def)
qed

lemma convS2M_wire:
  assumes ok: "fcall_ok f" and fits: "wire_len f \<le> unat nap" and nap: "unat nap \<le> length m"
  shows "convS2M f m nap = (of_nat (wire_len f), poke m 0 (wire f))"
proof -
  let ?hdr = "PBIT32 (of_nat (wire_len f) :: uint) @ PBIT8 (f_type f) @ PBIT16 (f_tag f)"
  have size: "sizeS2M f = of_nat (wire_len f)" and lt: "wire_len f < 2 ^ 32"
    using ok sizeS2M_wire_len by (auto simp: fcall_ok_def)
  have hdr: "steps [put (PBIT32 (of_nat (wire_len f) :: uint)), put (PBIT8 (f_type f)),
      put (PBIT16 (f_tag f))] (m, 0) = (poke m 0 ?hdr, 0 + length ?hdr)"
    using fits nap by (intro emitsD emit_intros) (simp add: wire_len_def)
  have len: "length (poke m 0 ?hdr) = length m"
    using fits nap by (simp add: wire_len_def)
  have body: "(if is_T (f_type f) then convS2M_T f (poke m 0 ?hdr, 7) else convS2M_R f (poke m 0 ?hdr, 7))
      = (poke (poke m 0 ?hdr) 7 (wire_body f), Some (7 + length (wire_body f)))"
    using ok fits nap len
    by (auto intro!: convS2M_T_body convS2M_R_body simp: fcall_ok_def wire_len_def)
  have join: "poke (poke m 0 ?hdr) 7 (wire_body f) = poke m 0 (wire f)"
    using poke_poke_adjacent [of 0 m ?hdr "wire_body f"] by (simp add: wire_def)
  have pos: "of_nat (wire_len f) \<noteq> (0 :: uint)" "\<not> nap < (of_nat (wire_len f) :: uint)"
    using fits lt wire_len_ge [of f] by (auto simp: word_less_nat_alt word_unat_eq_iff)
  show ?thesis
    using pos body join by (simp add: convS2M_def size hdr Let_def flip: wire_len_def)
qed

end
