(* ===== verification/Fcall_Decode.thy ===== *)
theory Fcall_Decode
  imports Fcall
begin

text \<open>
  The 9P2000 message decoder \<^verbatim>\<open>convM2S\<close> of \<^verbatim>\<open>lib_core/libc/9sys/convM2S.c\<close>. The message
  is the buffer \<open>m\<close> at address \<open>ap\<close>; pointers are 32-bit addresses. The decoder moves
  every string down over its count to make room for the terminating NUL, so it returns
  the changed buffer beside the decoded message. \<open>None\<close> is \<open>ERROR_0\<close> (the C code then
  leaves a partly filled Fcall that its callers ignore).
\<close>

section \<open>Decoding\<close>

definition idx :: "uint \<Rightarrow> uint \<Rightarrow> nat" where
  "idx ap p = unat (p - ap)"

definition gstring :: "bytes \<Rightarrow> uint \<Rightarrow> uint \<Rightarrow> uint \<Rightarrow> (bytes \<times> uint \<times> bytes) option" where
  "gstring m ap p ep =
     (if p + BIT16SZ > ep then None
      else
        let n = GBIT16 m (idx ap p);
            p1 = p + (BIT16SZ - 1)
        in if p1 + n + 1 > ep then None
           else
             let i = idx ap p1;
                 m1 = poke m i (cpy (drop (i + 1) m) (unat n));
                 m2 = poke m1 (i + unat n) [0]
             in Some (m2, p1 + (n + 1), cstr m2 i))"

definition gqid :: "bytes \<Rightarrow> uint \<Rightarrow> uint \<Rightarrow> uint \<Rightarrow> (uint \<times> qid) option" where
  "gqid m ap p ep =
     (if p + QIDSZ > ep then None
      else
        let ty = GBIT8 m (idx ap p);
            p1 = p + BIT8SZ;
            vers = GBIT32 m (idx ap p1);
            p2 = p1 + BIT32SZ;
            path = GBIT64 m (idx ap p2);
            p3 = p2 + BIT64SZ
        in Some (p3, \<lparr>q_path = path, q_vers = vers, q_type = ty\<rparr>))"

type_synonym dstate = "fcall \<times> bytes \<times> uint"

text \<open>The loops over the names of a Twalk and the qids of an Rwalk: \<open>k\<close> entries are left,
  \<open>i\<close> is the loop index.\<close>

fun gwname :: "uint \<Rightarrow> uint \<Rightarrow> nat \<Rightarrow> nat \<Rightarrow> dstate \<Rightarrow> dstate option" where
  "gwname ap ep 0 i (f, m, p) = Some (f, m, p)"
| "gwname ap ep (Suc k) i (f, m, p) =
     (case gstring m ap p ep of None \<Rightarrow> None
      | Some (m', p', s) \<Rightarrow>
          gwname ap ep k (Suc i) (f\<lparr>f_wname := (f_wname f)[i := Some s]\<rparr>, m', p'))"

fun gwqid :: "uint \<Rightarrow> uint \<Rightarrow> nat \<Rightarrow> nat \<Rightarrow> dstate \<Rightarrow> dstate option" where
  "gwqid ap ep 0 i (f, m, p) = Some (f, m, p)"
| "gwqid ap ep (Suc k) i (f, m, p) =
     (case gqid m ap p ep of None \<Rightarrow> None
      | Some (p', q) \<Rightarrow> gwqid ap ep k (Suc i) (f\<lparr>f_wqid := (f_wqid f)[i := q]\<rparr>, m, p'))"

definition convM2S_T :: "uint \<Rightarrow> uint \<Rightarrow> dstate \<Rightarrow> dstate option" where
  "convM2S_T ap ep = (\<lambda>(f, m, p). let t = f_type f in
     if t = Tversion then
       if p + BIT32SZ > ep then None
       else do {
         let f = f\<lparr>f_msize := GBIT32 m (idx ap p)\<rparr>;
         let p = p + BIT32SZ;
         (m, p, s) \<leftarrow> gstring m ap p ep;
         Some (f\<lparr>f_version := Some s\<rparr>, m, p) }
     else if t = Tflush then
       if p + BIT16SZ > ep then None
       else Some (f\<lparr>f_oldtag := ucast (GBIT16 m (idx ap p))\<rparr>, m, p + BIT16SZ)
     else if t = Tauth then
       if p + BIT32SZ > ep then None
       else do {
         let f = f\<lparr>f_afid := GBIT32 m (idx ap p)\<rparr>;
         let p = p + BIT32SZ;
         (m, p, s) \<leftarrow> gstring m ap p ep;
         let f = f\<lparr>f_uname := Some s\<rparr>;
         (m, p, s) \<leftarrow> gstring m ap p ep;
         Some (f\<lparr>f_aname := Some s\<rparr>, m, p) }
     else if t = Tattach then
       if p + BIT32SZ > ep then None
       else
         let f = f\<lparr>f_fid := GBIT32 m (idx ap p)\<rparr>; p = p + BIT32SZ
         in if p + BIT32SZ > ep then None
         else do {
           let f = f\<lparr>f_afid := GBIT32 m (idx ap p)\<rparr>;
           let p = p + BIT32SZ;
           (m, p, s) \<leftarrow> gstring m ap p ep;
           let f = f\<lparr>f_uname := Some s\<rparr>;
           (m, p, s) \<leftarrow> gstring m ap p ep;
           Some (f\<lparr>f_aname := Some s\<rparr>, m, p) }
     else if t = Twalk then
       if p + BIT32SZ + BIT32SZ + BIT16SZ > ep then None
       else
         let f = f\<lparr>f_fid := GBIT32 m (idx ap p)\<rparr>; p = p + BIT32SZ;
             f = f\<lparr>f_newfid := GBIT32 m (idx ap p)\<rparr>; p = p + BIT32SZ;
             f = f\<lparr>f_nwname := ucast (GBIT16 m (idx ap p))\<rparr>; p = p + BIT16SZ
         in if unat (f_nwname f) > MAXWELEM then None
            else gwname ap ep (unat (f_nwname f)) 0 (f, m, p)
     else if t = Topen then
       if p + BIT32SZ + BIT8SZ > ep then None
       else
         let f = f\<lparr>f_fid := GBIT32 m (idx ap p)\<rparr>; p = p + BIT32SZ
         in Some (f\<lparr>f_mode := GBIT8 m (idx ap p)\<rparr>, m, p + BIT8SZ)
     else if t = Tcreate then
       if p + BIT32SZ > ep then None
       else do {
         let f = f\<lparr>f_fid := GBIT32 m (idx ap p)\<rparr>;
         let p = p + BIT32SZ;
         (m, p, s) \<leftarrow> gstring m ap p ep;
         let f = f\<lparr>f_name := Some s\<rparr>;
         if p + BIT32SZ + BIT8SZ > ep then None
         else
           let f = f\<lparr>f_perm := GBIT32 m (idx ap p)\<rparr>; p = p + BIT32SZ
           in Some (f\<lparr>f_mode := GBIT8 m (idx ap p)\<rparr>, m, p + BIT8SZ) }
     else if t = Tread then
       if p + BIT32SZ + BIT64SZ + BIT32SZ > ep then None
       else
         let f = f\<lparr>f_fid := GBIT32 m (idx ap p)\<rparr>; p = p + BIT32SZ;
             f = f\<lparr>f_offset := GBIT64 m (idx ap p)\<rparr>; p = p + BIT64SZ
         in Some (f\<lparr>f_count := GBIT32 m (idx ap p)\<rparr>, m, p + BIT32SZ)
     else if t = Twrite then
       if p + BIT32SZ + BIT64SZ + BIT32SZ > ep then None
       else
         let f = f\<lparr>f_fid := GBIT32 m (idx ap p)\<rparr>; p = p + BIT32SZ;
             f = f\<lparr>f_offset := GBIT64 m (idx ap p)\<rparr>; p = p + BIT64SZ;
             f = f\<lparr>f_count := GBIT32 m (idx ap p)\<rparr>; p = p + BIT32SZ
         in if p + f_count f > ep then None
            else Some (f\<lparr>f_data := take (unat (f_count f)) (drop (idx ap p) m)\<rparr>, m, p + f_count f)
     else if t = Tclunk \<or> t = Tremove then
       if p + BIT32SZ > ep then None
       else Some (f\<lparr>f_fid := GBIT32 m (idx ap p)\<rparr>, m, p + BIT32SZ)
     else if t = Tstat then
       if p + BIT32SZ > ep then None
       else Some (f\<lparr>f_fid := GBIT32 m (idx ap p)\<rparr>, m, p + BIT32SZ)
     else if t = Twstat then
       if p + BIT32SZ + BIT16SZ > ep then None
       else
         let f = f\<lparr>f_fid := GBIT32 m (idx ap p)\<rparr>; p = p + BIT32SZ;
             f = f\<lparr>f_nstat := ucast (GBIT16 m (idx ap p))\<rparr>; p = p + BIT16SZ
         in if p + ucast (f_nstat f) > ep then None
            else Some (f\<lparr>f_stat := take (unat (f_nstat f)) (drop (idx ap p) m)\<rparr>, m,
                       p + ucast (f_nstat f))
     else None)"

definition convM2S_R :: "uint \<Rightarrow> uint \<Rightarrow> dstate \<Rightarrow> dstate option" where
  "convM2S_R ap ep = (\<lambda>(f, m, p). let t = f_type f in
     if t = Rversion then
       if p + BIT32SZ > ep then None
       else do {
         let f = f\<lparr>f_msize := GBIT32 m (idx ap p)\<rparr>;
         let p = p + BIT32SZ;
         (m, p, s) \<leftarrow> gstring m ap p ep;
         Some (f\<lparr>f_version := Some s\<rparr>, m, p) }
     else if t = Rerror then do {
       (m, p, s) \<leftarrow> gstring m ap p ep;
       Some (f\<lparr>f_ename := Some s\<rparr>, m, p) }
     else if t = Rflush then Some (f, m, p)
     else if t = Rauth then do {
       (p, q) \<leftarrow> gqid m ap p ep;
       Some (f\<lparr>f_aqid := q\<rparr>, m, p) }
     else if t = Rattach then do {
       (p, q) \<leftarrow> gqid m ap p ep;
       Some (f\<lparr>f_qid := q\<rparr>, m, p) }
     else if t = Rwalk then
       if p + BIT16SZ > ep then None
       else
         let f = f\<lparr>f_nwqid := ucast (GBIT16 m (idx ap p))\<rparr>; p = p + BIT16SZ
         in if unat (f_nwqid f) > MAXWELEM then None
            else gwqid ap ep (unat (f_nwqid f)) 0 (f, m, p)
     else if t = Ropen \<or> t = Rcreate then do {
       (p, q) \<leftarrow> gqid m ap p ep;
       let f = f\<lparr>f_qid := q\<rparr>;
       if p + BIT32SZ > ep then None
       else Some (f\<lparr>f_iounit := GBIT32 m (idx ap p)\<rparr>, m, p + BIT32SZ) }
     else if t = Rread then
       if p + BIT32SZ > ep then None
       else
         let f = f\<lparr>f_count := GBIT32 m (idx ap p)\<rparr>; p = p + BIT32SZ
         in if p + f_count f > ep then None
            else Some (f\<lparr>f_data := take (unat (f_count f)) (drop (idx ap p) m)\<rparr>, m, p + f_count f)
     else if t = Rwrite then
       if p + BIT32SZ > ep then None
       else Some (f\<lparr>f_count := GBIT32 m (idx ap p)\<rparr>, m, p + BIT32SZ)
     else if t = Rclunk \<or> t = Rremove then Some (f, m, p)
     else if t = Rstat then
       if p + BIT16SZ > ep then None
       else
         let f = f\<lparr>f_nstat := ucast (GBIT16 m (idx ap p))\<rparr>; p = p + BIT16SZ
         in if p + ucast (f_nstat f) > ep then None
            else Some (f\<lparr>f_stat := take (unat (f_nstat f)) (drop (idx ap p) m)\<rparr>, m,
                       p + ucast (f_nstat f))
     else if t = Rwstat then Some (f, m, p)
     else None)"

definition convM2S :: "bytes \<Rightarrow> uint \<Rightarrow> uint \<Rightarrow> fcall \<Rightarrow> (uint \<times> fcall \<times> bytes) option" where
  "convM2S m ap nap f =
     (let p = ap; ep = p + nap in
      if p + BIT32SZ + BIT8SZ + BIT16SZ > ep then None
      else
        let size = GBIT32 m (idx ap p); p = p + BIT32SZ in
        if size < BIT32SZ + BIT8SZ + BIT16SZ then None
        else
          let f = f\<lparr>f_type := GBIT8 m (idx ap p)\<rparr>; p = p + BIT8SZ;
              f = f\<lparr>f_tag := ucast (GBIT16 m (idx ap p))\<rparr>; p = p + BIT16SZ
          in do {
            (f, m, p) \<leftarrow> (if is_T (f_type f) then convM2S_T ap ep (f, m, p)
                          else convM2S_R ap ep (f, m, p));
            if p = 0 \<or> p > ep then None
            else if ap + size = p then Some (size, f, m)
            else None })"

end
