(* ===== verification/Fcall_Roundtrip.thy ===== *)
theory Fcall_Roundtrip
  imports Fcall_Wire Fcall_Decode
begin

text \<open>
  Decoding inverts encoding: \<open>convM2S\<close> run on the bytes \<open>convS2M\<close> produces returns the
  announced size and the message, with a nil string read back as the empty one.
\<close>

section \<open>The decoding cursor\<close>

text \<open>
  The pointer \<open>p\<close> stands in the buffer \<open>m\<close>, which starts at \<open>ap\<close> and ends at \<open>ep\<close>, with
  the bytes \<open>bs\<close> from there to the end. The buffer does not reach into the last 128 KB
  of the address space, so that no pointer the decoder forms for a string wraps around.
\<close>

definition cur :: "uint \<Rightarrow> uint \<Rightarrow> bytes \<Rightarrow> uint \<Rightarrow> bytes \<Rightarrow> bool" where
  "cur ap ep m p bs \<longleftrightarrow> drop (idx ap p) m = bs \<and> idx ap p + length bs = length m
     \<and> ep = ap + of_nat (length m) \<and> unat ap + length m + 2 ^ 17 < 2 ^ 32"

lemma unat_plus_small: "unat (a :: uint) + unat b < 4294967296 \<Longrightarrow> unat (a + b) = unat a + unat b"
  by (simp add: unat_add_lem [THEN iffD1])

lemma unat_idx: "unat ap + idx ap p < 4294967296 \<Longrightarrow> unat p = unat ap + idx ap p"
  using unat_plus_small [of ap "p - ap"] by (simp add: idx_def)

lemma idx_add:
  "unat ap + idx ap p + unat x < 4294967296 \<Longrightarrow> idx ap (p + x) = idx ap p + unat x"
  using unat_plus_small [of "p - ap" x] by (simp add: idx_def algebra_simps)

lemma cur_unat:
  assumes "cur ap ep m p bs"
  shows "unat p = unat ap + idx ap p" "unat ep = unat p + length bs" "unat ep < 4294836224"
    "unat ap + length m < 4294836224"
  using assms unat_idx [of ap p] unat_plus_small [of ap "of_nat (length m)"]
  by (auto simp: cur_def)

lemma cur_idx: "cur ap ep m p bs \<Longrightarrow> drop (idx ap p) m = bs"
  by (simp add: cur_def)

lemma cur_room [cur_rules]:
  assumes "cur ap ep m p bs" and "unat x \<le> length bs"
  shows "\<not> ep < p + x"
  using cur_unat [OF assms(1)] assms(2) unat_plus_small [of p x] by (simp add: word_less_nat_alt)

lemma cur_advance:
  assumes c: "cur ap ep m p (xs @ r)" and x: "unat x = length xs"
  shows "cur ap ep m (p + x) r"
proof -
  have "idx ap (p + x) = idx ap p + length xs"
    using cur_unat [OF c] c x idx_add [of ap p x] by (simp add: cur_def)
  moreover have "drop (idx ap p + length xs) m = r"
    using cur_idx [OF c] by (metis add.commute append_eq_conv_conj drop_drop)
  ultimately show ?thesis using c by (auto simp: cur_def)
qed

lemma cur_GBIT [cur_rules]:
  "cur ap ep m p (PBIT8 b @ r) \<Longrightarrow> GBIT8 m (idx ap p) = b"
  "cur ap ep m p (PBIT16 v @ r) \<Longrightarrow> GBIT16 m (idx ap p) = ucast (ucast v :: ushort)"
  "cur ap ep m p (PBIT32 w @ r) \<Longrightarrow> GBIT32 m (idx ap p) = ucast w"
  "cur ap ep m p (PBIT64 x @ r) \<Longrightarrow> GBIT64 m (idx ap p) = (x :: uvlong)"
  by (simp_all add: GBIT_shift [of _ "idx ap p"] cur_idx GBIT8_PBIT8 GBIT16_PBIT16
      GBIT32_PBIT32 GBIT64_PBIT64)

lemma cur_start:
  "unat ap + length m + 2 ^ 17 < 2 ^ 32 \<Longrightarrow> cur ap (ap + of_nat (length m)) m ap m"
  by (simp add: cur_def idx_def)

lemma drop_shift_down:
  assumes "drop i m = a # b # s @ r"
  shows "drop (Suc i) (poke (poke m (Suc i) s) (Suc i + length s) [0]) = s @ 0 # r"
    and "length (poke (poke m (Suc i) s) (Suc i + length s) [0]) = length m"
proof -
  have i: "i + (2 + length s + length r) = length m"
    using arg_cong [OF assms, of length] by simp
  have r: "drop (i + 2 + length s) m = r"
    using arg_cong [OF assms, of "drop (2 + length s)"]
    by (simp add: add.commute add.left_commute numeral_2_eq_2)
  have "poke (poke m (Suc i) s) (Suc i + length s) [0] = poke m (Suc i) (s @ [0])"
    using i by (intro poke_poke_adjacent) simp
  moreover have "drop (Suc i) (poke m (Suc i) (s @ [0])) = s @ 0 # r"
    using i r by (subst drop_poke_here) (simp_all add: add.assoc numeral_2_eq_2)
  ultimately show "drop (Suc i) (poke (poke m (Suc i) s) (Suc i + length s) [0]) = s @ 0 # r"
    and "length (poke (poke m (Suc i) s) (Suc i + length s) [0]) = length m"
    using i by simp_all
qed

lemma gstring_cur:
  assumes c: "cur ap ep m p (enc_str s @ r)" and s: "str_ok s"
  obtains m' where "gstring m ap p ep = Some (m', p + of_nat (length (enc_str s)), str s)"
    and "cur ap ep m' (p + of_nat (length (enc_str s))) r"
proof -
  let ?n = "length (str s)" and ?i = "idx ap p" and ?b = "PBIT16 (of_nat (length (str s)) :: uint)"
  let ?m2 = "poke (poke m (Suc ?i) (str s)) (Suc ?i + ?n) [0]"
  have n: "?n < 65536" using s by (simp add: str_ok_def)
  have c': "cur ap ep m p (?b @ str s @ r)" using c by (simp add: enc_str_str)
  obtain a0 a1 where d: "drop ?i m = a0 # a1 # str s @ r"
    using cur_idx [OF c'] by (simp add: PBIT16_def)
  have i1: "idx ap (p + 1) = Suc ?i"
    using cur_unat [OF c] c idx_add [of ap p 1] by (simp add: cur_def enc_str_str)
  have g: "GBIT16 m ?i = of_nat ?n"
    using cur_GBIT(2) [OF c'] n by (simp add: unsigned_ucast_eq word_unat_eq_iff unsigned_take_bit_eq take_bit_nat_eq_self)
  have src: "cpy (drop (Suc (Suc ?i)) m) ?n = str s"
    using arg_cong [OF d, of "drop 2"] by (simp add: numeral_2_eq_2)
  have room: "\<not> ep < p + 2" "\<not> ep < p + (of_nat ?n + 2)"
    using cur_room [OF c, of 2] cur_room [OF c, of "of_nat ?n + 2"] n
      unat_plus_small [of "of_nat ?n" 2]
    by (simp_all add: enc_str_str)
  have str: "cstr ?m2 (Suc ?i) = str s"
    using s drop_shift_down(1) [OF d] by (intro cstr_terminated) (auto simp: str_ok_def)
  have adv: "p + 1 + (of_nat ?n + 1) = p + of_nat (length (enc_str s))"
    by (simp add: enc_str_str algebra_simps)
  show ?thesis
  proof (rule that)
    show "gstring m ap p ep = Some (?m2, p + of_nat (length (enc_str s)), str s)"
      using room n str by (simp add: gstring_def Let_def i1 i1 [unfolded add.commute [of p]] g src adv [symmetric] algebra_simps)
    have "drop (?i + length (enc_str s)) ?m2 = r"
      using arg_cong [OF drop_shift_down(1) [OF d], of "drop (Suc ?n)"]
      by (simp add: enc_str_str add.commute add.left_commute numeral_2_eq_2)
    then show "cur ap ep ?m2 (p + of_nat (length (enc_str s))) r"
      using c drop_shift_down(2) [OF d] cur_unat [OF c] n
        idx_add [of ap p "of_nat (length (enc_str s))"] unat_plus_small [of 2 "of_nat ?n"]
      by (simp add: cur_def enc_str_str)
  qed
qed

lemma gqid_cur:
  assumes c: "cur ap ep m p (enc_qid q @ r)"
  shows "gqid m ap p ep = Some (p + 13, q)" and "cur ap ep m (p + 13) r"
proof -
  have c0: "cur ap ep m p (PBIT8 (q_type q) @ PBIT32 (q_vers q) @ PBIT64 (q_path q) @ r)"
    using c by (simp add: enc_qid_def)
  have c1: "cur ap ep m (p + 1) (PBIT32 (q_vers q) @ PBIT64 (q_path q) @ r)"
    by (rule cur_advance [OF c0]) simp
  have c2: "cur ap ep m (p + 1 + 4) (PBIT64 (q_path q) @ r)"
    by (rule cur_advance [OF c1]) simp
  show "gqid m ap p ep = Some (p + 13, q)"
    using cur_room [OF c, of 13] cur_GBIT(1) [OF c0] cur_GBIT(3) [OF c1] cur_GBIT(4) [OF c2]
    by (simp add: gqid_def Let_def)
  show "cur ap ep m (p + 13) r"
    by (rule cur_advance [OF c]) simp
qed

section \<open>What the receiver ends up with\<close>

text \<open>
  \<open>recv f g\<close> is the receiver's Fcall \<open>g\<close> with the type, the tag and the fields of the
  message \<open>f\<close> stored into it; every other field keeps its old value.
\<close>

definition recv_body :: "fcall \<Rightarrow> fcall \<Rightarrow> fcall" where
  "recv_body f g = (let t = f_type f; s = (\<lambda>x. Some (str x)) in
     if t = Tversion \<or> t = Rversion then g\<lparr>f_msize := f_msize f, f_version := s (f_version f)\<rparr>
     else if t = Tflush then g\<lparr>f_oldtag := f_oldtag f\<rparr>
     else if t = Tauth then
       g\<lparr>f_afid := f_afid f, f_uname := s (f_uname f), f_aname := s (f_aname f)\<rparr>
     else if t = Tattach then
       g\<lparr>f_fid := f_fid f, f_afid := f_afid f, f_uname := s (f_uname f), f_aname := s (f_aname f)\<rparr>
     else if t = Twalk then
       g\<lparr>f_fid := f_fid f, f_newfid := f_newfid f, f_nwname := f_nwname f,
         f_wname := map (\<lambda>i. s (wname_at f i)) [0..<unat (f_nwname f)]
                      @ drop (unat (f_nwname f)) (f_wname g)\<rparr>
     else if t = Topen then g\<lparr>f_fid := f_fid f, f_mode := f_mode f\<rparr>
     else if t = Tcreate then
       g\<lparr>f_fid := f_fid f, f_name := s (f_name f), f_perm := f_perm f, f_mode := f_mode f\<rparr>
     else if t = Tread then
       g\<lparr>f_fid := f_fid f, f_offset := f_offset f, f_count := f_count f\<rparr>
     else if t = Twrite then
       g\<lparr>f_fid := f_fid f, f_offset := f_offset f, f_count := f_count f, f_data := f_data f\<rparr>
     else if t = Tclunk \<or> t = Tremove \<or> t = Tstat then g\<lparr>f_fid := f_fid f\<rparr>
     else if t = Twstat then g\<lparr>f_fid := f_fid f, f_nstat := f_nstat f, f_stat := f_stat f\<rparr>
     else if t = Rerror then g\<lparr>f_ename := s (f_ename f)\<rparr>
     else if t = Rauth then g\<lparr>f_aqid := f_aqid f\<rparr>
     else if t = Rattach then g\<lparr>f_qid := f_qid f\<rparr>
     else if t = Rwalk then
       g\<lparr>f_nwqid := f_nwqid f,
         f_wqid := map (wqid_at f) [0..<unat (f_nwqid f)] @ drop (unat (f_nwqid f)) (f_wqid g)\<rparr>
     else if t = Ropen \<or> t = Rcreate then g\<lparr>f_qid := f_qid f, f_iounit := f_iounit f\<rparr>
     else if t = Rread then g\<lparr>f_count := f_count f, f_data := f_data f\<rparr>
     else if t = Rwrite then g\<lparr>f_count := f_count f\<rparr>
     else if t = Rstat then g\<lparr>f_nstat := f_nstat f, f_stat := f_stat f\<rparr>
     else g)"

definition recv :: "fcall \<Rightarrow> fcall \<Rightarrow> fcall" where
  "recv f g = recv_body f (g\<lparr>f_type := f_type f, f_tag := f_tag f\<rparr>)"

text \<open>
  A message whose fields are consistent: strings are NUL-free and shorter than 64 KB, the
  byte counts are the lengths of the data they count.
\<close>

definition fcall_wf :: "fcall \<Rightarrow> bool" where
  "fcall_wf f \<longleftrightarrow> fcall_ok f
     \<and> str_ok (f_version f) \<and> str_ok (f_ename f) \<and> str_ok (f_uname f) \<and> str_ok (f_aname f)
     \<and> str_ok (f_name f) \<and> (\<forall>s \<in> set (f_wname f). str_ok s)
     \<and> (f_type f \<in> {Twrite, Rread} \<longrightarrow> length (f_data f) = unat (f_count f))
     \<and> (f_type f \<in> {Twstat, Rstat} \<longrightarrow> length (f_stat f) = unat (f_nstat f))"

lemma gwname_cur:
  assumes "cur ap ep m p (concat (map (\<lambda>i. enc_str (w i)) [i..<i + k]) @ r)"
    and "\<And>j. j < i + k \<Longrightarrow> str_ok (w j)" and "i + k \<le> length (f_wname g)"
  shows "\<exists>m' p'. gwname ap ep k i (g, m, p) =
      Some (g\<lparr>f_wname := take i (f_wname g) @ map (\<lambda>j. Some (str (w j))) [i..<i + k]
        @ drop (i + k) (f_wname g)\<rparr>, m', p') \<and> cur ap ep m' p' r"
  using assms
proof (induction k arbitrary: i g m p)
  case 0
  then show ?case by simp
next
  case (Suc k)
  have sp: "[i..<i + Suc k] = i # [Suc i..<Suc i + k]" by (simp add: upt_rec)
  obtain m1 where g1: "gstring m ap p ep = Some (m1, p + of_nat (length (enc_str (w i))), str (w i))"
    and c1: "cur ap ep m1 (p + of_nat (length (enc_str (w i))))
        (concat (map (\<lambda>i. enc_str (w i)) [Suc i..<Suc i + k]) @ r)"
    using Suc.prems(1,2) unfolding sp by (auto intro: gstring_cur [of ap ep m p "w i"])
  let ?g = "g\<lparr>f_wname := (f_wname g)[i := Some (str (w i))]\<rparr>"
  obtain m' p' where "gwname ap ep k (Suc i) (?g, m1, p + of_nat (length (enc_str (w i)))) =
      Some (?g\<lparr>f_wname := take (Suc i) (f_wname ?g) @ map (\<lambda>j. Some (str (w j))) [Suc i..<Suc i + k]
        @ drop (Suc i + k) (f_wname ?g)\<rparr>, m', p')" and "cur ap ep m' p' r"
    using Suc.IH [OF c1, of ?g] Suc.prems(2,3) by auto
  then show ?case using g1 Suc.prems(3) unfolding sp
    using take_drop_update [of i k "f_wname g"] by simp
qed

lemma gwqid_cur:
  assumes "cur ap ep m p (concat (map (\<lambda>i. enc_qid (w i)) [i..<i + k]) @ r)"
    and "i + k \<le> length (f_wqid g)"
  shows "\<exists>p'. gwqid ap ep k i (g, m, p) =
      Some (g\<lparr>f_wqid := take i (f_wqid g) @ map w [i..<i + k] @ drop (i + k) (f_wqid g)\<rparr>, m, p')
      \<and> cur ap ep m p' r"
  using assms
proof (induction k arbitrary: i g p)
  case 0
  then show ?case by simp
next
  case (Suc k)
  have sp: "[i..<i + Suc k] = i # [Suc i..<Suc i + k]" by (simp add: upt_rec)
  have c: "cur ap ep m p (enc_qid (w i) @ concat (map (\<lambda>i. enc_qid (w i)) [Suc i..<Suc i + k]) @ r)"
    using Suc.prems(1) unfolding sp by simp
  let ?g = "g\<lparr>f_wqid := (f_wqid g)[i := w i]\<rparr>"
  have "\<exists>p'. gwqid ap ep k (Suc i) (?g, m, p + 13) =
      Some (?g\<lparr>f_wqid := take (Suc i) (f_wqid ?g) @ map w [Suc i..<Suc i + k]
        @ drop (Suc i + k) (f_wqid ?g)\<rparr>, m, p') \<and> cur ap ep m p' r"
    using Suc.IH [OF gqid_cur(2) [OF c], of ?g] Suc.prems(2) by auto
  then show ?case using gqid_cur(1) [OF c] Suc.prems(2) unfolding sp
    using take_drop_update [of i k "f_wqid g"] by simp
qed

section \<open>Decoding the body, message type by message type\<close>

definition decoded :: "dstate option \<Rightarrow> uint \<Rightarrow> uint \<Rightarrow> fcall \<Rightarrow> fcall \<Rightarrow> bytes \<Rightarrow> bool" where
  "decoded res ap ep f g r \<longleftrightarrow>
     (\<exists>m' p'. res = Some (recv_body f g, m', p') \<and> cur ap ep m' p' r)"

lemma cur_end: "cur ap ep m p bs \<Longrightarrow> ep < p \<longleftrightarrow> False"
  using cur_room [of ap ep m p bs 0] by simp

lemma cur_room_iff: "cur ap ep m p bs \<Longrightarrow> unat x \<le> length bs \<Longrightarrow> ep < p + x \<longleftrightarrow> False"
  by (simp add: cur_room)

lemma cur_adv:
  "cur ap ep m p (PBIT8 b @ r) \<Longrightarrow> cur ap ep m (p + 1) r"
  "cur ap ep m p (PBIT16 v @ r) \<Longrightarrow> cur ap ep m (p + 2) r"
  "cur ap ep m p (PBIT32 w @ r) \<Longrightarrow> cur ap ep m (p + 4) r"
  "cur ap ep m p (PBIT64 x @ r) \<Longrightarrow> cur ap ep m (p + 8) r"
  by (auto elim: cur_advance)

lemmas dec_simps = decoded_def convM2S_T_def convM2S_R_def recv_body_def Let_def cur_room_iff cur_end cur_GBIT

lemma dec_Tflush:
  assumes "cur ap ep m p (wire_body f @ r)" and "f_type f = Tflush" and "f_type g = f_type f"
  shows "decoded (convM2S_T ap ep (g, m, p)) ap ep f g r"
proof -
  have c0: "cur ap ep m p (PBIT16 (f_oldtag f) @ r)"
    using assms by (auto simp: wire_body_def)
  note c1 = cur_adv(2) [OF c0]
  show ?thesis using assms(2-) c0 c1 by (simp add: dec_simps)
qed

lemma dec_Topen:
  assumes "cur ap ep m p (wire_body f @ r)" and "f_type f = Topen" and "f_type g = f_type f"
  shows "decoded (convM2S_T ap ep (g, m, p)) ap ep f g r"
proof -
  have c0: "cur ap ep m p (PBIT32 (f_fid f) @ PBIT8 (f_mode f) @ r)"
    using assms by (auto simp: wire_body_def)
  note c1 = cur_adv(3) [OF c0]
  note c2 = cur_adv(1) [OF c1]
  show ?thesis using assms(2-) c0 c1 c2 by (simp add: dec_simps)
qed

lemma dec_Tread:
  assumes "cur ap ep m p (wire_body f @ r)" and "f_type f = Tread" and "f_type g = f_type f"
  shows "decoded (convM2S_T ap ep (g, m, p)) ap ep f g r"
proof -
  have c0: "cur ap ep m p (PBIT32 (f_fid f) @ PBIT64 (f_offset f) @ PBIT32 (f_count f) @ r)"
    using assms by (auto simp: wire_body_def)
  note c1 = cur_adv(3) [OF c0]
  note c2 = cur_adv(4) [OF c1]
  note c3 = cur_adv(3) [OF c2]
  show ?thesis using assms(2-) c0 c1 c2 c3 by (simp add: dec_simps)
qed

lemma dec_Tclunk:
  assumes "cur ap ep m p (wire_body f @ r)" and "f_type f = Tclunk \<or> f_type f = Tremove \<or> f_type f = Tstat" and "f_type g = f_type f"
  shows "decoded (convM2S_T ap ep (g, m, p)) ap ep f g r"
proof -
  have c0: "cur ap ep m p (PBIT32 (f_fid f) @ r)"
    using assms by (auto simp: wire_body_def)
  note c1 = cur_adv(3) [OF c0]
  show ?thesis using assms(2-) c0 c1 by (elim disjE) (simp_all add: dec_simps)
qed

lemma dec_Rwrite:
  assumes "cur ap ep m p (wire_body f @ r)" and "f_type f = Rwrite" and "f_type g = f_type f"
  shows "decoded (convM2S_R ap ep (g, m, p)) ap ep f g r"
proof -
  have c0: "cur ap ep m p (PBIT32 (f_count f) @ r)"
    using assms by (auto simp: wire_body_def)
  note c1 = cur_adv(3) [OF c0]
  show ?thesis using assms(2-) c0 c1 by (simp add: dec_simps)
qed

lemma dec_Rflush:
  assumes "cur ap ep m p (wire_body f @ r)" and "f_type f = Rflush \<or> f_type f = Rclunk \<or> f_type f = Rremove \<or> f_type f = Rwstat" and "f_type g = f_type f"
  shows "decoded (convM2S_R ap ep (g, m, p)) ap ep f g r"
proof -
  have c0: "cur ap ep m p (r)"
    using assms by (auto simp: wire_body_def)
  show ?thesis using assms(2-) c0 by (elim disjE) (simp_all add: dec_simps)
qed

lemma dec_Twrite:
  assumes "cur ap ep m p (wire_body f @ r)" and "f_type f = Twrite" and "f_type g = f_type f"
    and len: "length (f_data f) = unat (f_count f)"
  shows "decoded (convM2S_T ap ep (g, m, p)) ap ep f g r"
proof -
  have c0: "cur ap ep m p (PBIT32 (f_fid f) @ PBIT64 (f_offset f) @ PBIT32 (f_count f) @ f_data f @ r)"
    using assms cpy_all [of "f_data f"] by (simp add: wire_body_def)
  note c1 = cur_adv(3) [OF c0]
  note c2 = cur_adv(4) [OF c1]
  note c3 = cur_adv(3) [OF c2]
  note c4 = cur_advance [OF c3, of "f_count f", simplified assms]
  show ?thesis using assms(2-) c0 c1 c2 c3 c4 by (simp add: dec_simps cur_idx)
qed

lemma dec_Twstat:
  assumes "cur ap ep m p (wire_body f @ r)" and "f_type f = Twstat" and "f_type g = f_type f"
    and len: "length (f_stat f) = unat (f_nstat f)"
  shows "decoded (convM2S_T ap ep (g, m, p)) ap ep f g r"
proof -
  have c0: "cur ap ep m p (PBIT32 (f_fid f) @ PBIT16 (f_nstat f) @ f_stat f @ r)"
    using assms cpy_all [of "f_stat f"] by (simp add: wire_body_def)
  note c1 = cur_adv(3) [OF c0]
  note c2 = cur_adv(2) [OF c1]
  note c3 = cur_advance [OF c2, of "ucast (f_nstat f)", simplified assms]
  show ?thesis using assms(2-) c0 c1 c2 c3 by (simp add: dec_simps cur_idx)
qed

lemma dec_Rread:
  assumes "cur ap ep m p (wire_body f @ r)" and "f_type f = Rread" and "f_type g = f_type f"
    and len: "length (f_data f) = unat (f_count f)"
  shows "decoded (convM2S_R ap ep (g, m, p)) ap ep f g r"
proof -
  have c0: "cur ap ep m p (PBIT32 (f_count f) @ f_data f @ r)"
    using assms cpy_all [of "f_data f"] by (simp add: wire_body_def)
  note c1 = cur_adv(3) [OF c0]
  note c2 = cur_advance [OF c1, of "f_count f", simplified assms]
  show ?thesis using assms(2-) c0 c1 c2 by (simp add: dec_simps cur_idx)
qed

lemma dec_Rstat:
  assumes "cur ap ep m p (wire_body f @ r)" and "f_type f = Rstat" and "f_type g = f_type f"
    and len: "length (f_stat f) = unat (f_nstat f)"
  shows "decoded (convM2S_R ap ep (g, m, p)) ap ep f g r"
proof -
  have c0: "cur ap ep m p (PBIT16 (f_nstat f) @ f_stat f @ r)"
    using assms cpy_all [of "f_stat f"] by (simp add: wire_body_def)
  note c1 = cur_adv(2) [OF c0]
  note c2 = cur_advance [OF c1, of "ucast (f_nstat f)", simplified assms]
  show ?thesis using assms(2-) c0 c1 c2 by (simp add: dec_simps cur_idx)
qed

lemma dec_Rauth:
  assumes "cur ap ep m p (wire_body f @ r)" and "f_type f = Rauth" and "f_type g = f_type f"
  shows "decoded (convM2S_R ap ep (g, m, p)) ap ep f g r"
proof -
  have c0: "cur ap ep m p (enc_qid (f_aqid f) @ r)"
    using assms by (auto simp: wire_body_def)
  note q0 = gqid_cur(1) [OF c0] and c1 = gqid_cur(2) [OF c0]
  show ?thesis using assms(2-) c0 q0 c1 by (simp add: dec_simps)
qed

lemma dec_Rattach:
  assumes "cur ap ep m p (wire_body f @ r)" and "f_type f = Rattach" and "f_type g = f_type f"
  shows "decoded (convM2S_R ap ep (g, m, p)) ap ep f g r"
proof -
  have c0: "cur ap ep m p (enc_qid (f_qid f) @ r)"
    using assms by (auto simp: wire_body_def)
  note q0 = gqid_cur(1) [OF c0] and c1 = gqid_cur(2) [OF c0]
  show ?thesis using assms(2-) c0 q0 c1 by (simp add: dec_simps)
qed

lemma dec_Ropen:
  assumes "cur ap ep m p (wire_body f @ r)" and "f_type f = Ropen \<or> f_type f = Rcreate" and "f_type g = f_type f"
  shows "decoded (convM2S_R ap ep (g, m, p)) ap ep f g r"
proof -
  have c0: "cur ap ep m p (enc_qid (f_qid f) @ PBIT32 (f_iounit f) @ r)"
    using assms by (auto simp: wire_body_def)
  note q0 = gqid_cur(1) [OF c0] and c1 = gqid_cur(2) [OF c0]
  note c2 = cur_adv(3) [OF c1]
  show ?thesis using assms(2-) c0 q0 c1 c2 by (elim disjE) (simp_all add: dec_simps)
qed

lemma dec_Tversion:
  assumes "cur ap ep m p (wire_body f @ r)" and "f_type f = Tversion" and "f_type g = f_type f"
    and "str_ok (f_version f)"
  shows "decoded (convM2S_T ap ep (g, m, p)) ap ep f g r"
proof -
  have c0: "cur ap ep m p (PBIT32 (f_msize f) @ enc_str (f_version f) @ r)"
    using assms by (auto simp: wire_body_def)
  note c1 = cur_adv(3) [OF c0]
  obtain m1 p1 where s1: "gstring m ap (p + 4) ep = Some (m1, p1, str (f_version f))"
    and c2: "cur ap ep m1 p1 (r)"
    using gstring_cur [OF c1] assms by blast
  show ?thesis using assms(2-) c0 c1 s1 c2 by (simp add: dec_simps)
qed

lemma dec_Rversion:
  assumes "cur ap ep m p (wire_body f @ r)" and "f_type f = Rversion" and "f_type g = f_type f"
    and "str_ok (f_version f)"
  shows "decoded (convM2S_R ap ep (g, m, p)) ap ep f g r"
proof -
  have c0: "cur ap ep m p (PBIT32 (f_msize f) @ enc_str (f_version f) @ r)"
    using assms by (auto simp: wire_body_def)
  note c1 = cur_adv(3) [OF c0]
  obtain m1 p1 where s1: "gstring m ap (p + 4) ep = Some (m1, p1, str (f_version f))"
    and c2: "cur ap ep m1 p1 (r)"
    using gstring_cur [OF c1] assms by blast
  show ?thesis using assms(2-) c0 c1 s1 c2 by (simp add: dec_simps)
qed

lemma dec_Tauth:
  assumes "cur ap ep m p (wire_body f @ r)" and "f_type f = Tauth" and "f_type g = f_type f"
    and "str_ok (f_uname f)" "str_ok (f_aname f)"
  shows "decoded (convM2S_T ap ep (g, m, p)) ap ep f g r"
proof -
  have c0: "cur ap ep m p (PBIT32 (f_afid f) @ enc_str (f_uname f) @ enc_str (f_aname f) @ r)"
    using assms by (auto simp: wire_body_def)
  note c1 = cur_adv(3) [OF c0]
  obtain m1 p1 where s1: "gstring m ap (p + 4) ep = Some (m1, p1, str (f_uname f))"
    and c2: "cur ap ep m1 p1 (enc_str (f_aname f) @ r)"
    using gstring_cur [OF c1] assms by blast
  obtain m2 p2 where s2: "gstring m1 ap (p1) ep = Some (m2, p2, str (f_aname f))"
    and c3: "cur ap ep m2 p2 (r)"
    using gstring_cur [OF c2] assms by blast
  show ?thesis using assms(2-) c0 c1 s1 c2 s2 c3 by (simp add: dec_simps)
qed

lemma dec_Tattach:
  assumes "cur ap ep m p (wire_body f @ r)" and "f_type f = Tattach" and "f_type g = f_type f"
    and "str_ok (f_uname f)" "str_ok (f_aname f)"
  shows "decoded (convM2S_T ap ep (g, m, p)) ap ep f g r"
proof -
  have c0: "cur ap ep m p (PBIT32 (f_fid f) @ PBIT32 (f_afid f) @ enc_str (f_uname f) @ enc_str (f_aname f) @ r)"
    using assms by (auto simp: wire_body_def)
  note c1 = cur_adv(3) [OF c0]
  note c2 = cur_adv(3) [OF c1]
  obtain m2 p2 where s2: "gstring m ap (p + 4 + 4) ep = Some (m2, p2, str (f_uname f))"
    and c3: "cur ap ep m2 p2 (enc_str (f_aname f) @ r)"
    using gstring_cur [OF c2] assms by blast
  obtain m3 p3 where s3: "gstring m2 ap (p2) ep = Some (m3, p3, str (f_aname f))"
    and c4: "cur ap ep m3 p3 (r)"
    using gstring_cur [OF c3] assms by blast
  show ?thesis using assms(2-) c0 c1 c2 s2 c3 s3 c4 by (simp add: dec_simps)
qed

lemma dec_Tcreate:
  assumes "cur ap ep m p (wire_body f @ r)" and "f_type f = Tcreate" and "f_type g = f_type f"
    and "str_ok (f_name f)"
  shows "decoded (convM2S_T ap ep (g, m, p)) ap ep f g r"
proof -
  have c0: "cur ap ep m p (PBIT32 (f_fid f) @ enc_str (f_name f) @ PBIT32 (f_perm f) @ PBIT8 (f_mode f) @ r)"
    using assms by (auto simp: wire_body_def)
  note c1 = cur_adv(3) [OF c0]
  obtain m1 p1 where s1: "gstring m ap (p + 4) ep = Some (m1, p1, str (f_name f))"
    and c2: "cur ap ep m1 p1 (PBIT32 (f_perm f) @ PBIT8 (f_mode f) @ r)"
    using gstring_cur [OF c1] assms by blast
  note c3 = cur_adv(3) [OF c2]
  note c4 = cur_adv(1) [OF c3]
  show ?thesis using assms(2-) c0 c1 s1 c2 c3 c4 by (simp add: dec_simps)
qed

lemma dec_Rerror:
  assumes "cur ap ep m p (wire_body f @ r)" and "f_type f = Rerror" and "f_type g = f_type f"
    and "str_ok (f_ename f)"
  shows "decoded (convM2S_R ap ep (g, m, p)) ap ep f g r"
proof -
  have c0: "cur ap ep m p (enc_str (f_ename f) @ r)"
    using assms by (auto simp: wire_body_def)
  obtain m0 p0 where s0: "gstring m ap (p) ep = Some (m0, p0, str (f_ename f))"
    and c1: "cur ap ep m0 p0 (r)"
    using gstring_cur [OF c0] assms by blast
  show ?thesis using assms(2-) c0 s0 c1 by (simp add: dec_simps)
qed

lemma dec_Twalk:
  assumes "cur ap ep m p (wire_body f @ r)" and "f_type f = Twalk" and "f_type g = f_type f"
    and n: "unat (f_nwname f) \<le> MAXWELEM" and names: "\<forall>s \<in> set (f_wname f). str_ok s"
    and arr: "length (f_wname g) = MAXWELEM"
  shows "decoded (convM2S_T ap ep (g, m, p)) ap ep f g r"
proof -
  have c0: "cur ap ep m p (PBIT32 (f_fid f) @ PBIT32 (f_newfid f) @ PBIT16 (f_nwname f) @
      concat (map (\<lambda>i. enc_str (wname_at f i)) [0..<0 + unat (f_nwname f)]) @ r)"
    using assms by (auto simp: wire_body_def)
  note c1 = cur_adv(3) [OF c0]
  note c2 = cur_adv(3) [OF c1]
  note c3 = cur_adv(2) [OF c2]
  have nil: "str_ok None" by (simp add: str_ok_def str_def nulfree_def)
  have "str_ok (wname_at f j)" for j
    using names nil by (auto simp: wname_at_def)
  then obtain m' p' where "gwname ap ep (unat (f_nwname f)) 0
      (g\<lparr>f_fid := f_fid f, f_newfid := f_newfid f, f_nwname := f_nwname f\<rparr>, m, p + 4 + 4 + 2) =
      Some (g\<lparr>f_fid := f_fid f, f_newfid := f_newfid f, f_nwname := f_nwname f,
          f_wname := map (\<lambda>j. Some (str (wname_at f j))) [0..<unat (f_nwname f)]
            @ drop (unat (f_nwname f)) (f_wname g)\<rparr>, m', p')" and "cur ap ep m' p' r"
    using gwname_cur [OF c3, of "g\<lparr>f_fid := f_fid f, f_newfid := f_newfid f, f_nwname := f_nwname f\<rparr>"]
      n arr by auto
  then show ?thesis using assms(2,3) n c0 c1 c2 c3 by (simp add: dec_simps)
qed

lemma dec_Rwalk:
  assumes "cur ap ep m p (wire_body f @ r)" and "f_type f = Rwalk" and "f_type g = f_type f"
    and n: "unat (f_nwqid f) \<le> MAXWELEM" and arr: "length (f_wqid g) = MAXWELEM"
  shows "decoded (convM2S_R ap ep (g, m, p)) ap ep f g r"
proof -
  have c0: "cur ap ep m p (PBIT16 (f_nwqid f) @
      concat (map (\<lambda>i. enc_qid (wqid_at f i)) [0..<0 + unat (f_nwqid f)]) @ r)"
    using assms by (auto simp: wire_body_def)
  note c1 = cur_adv(2) [OF c0]
  obtain p' where "gwqid ap ep (unat (f_nwqid f)) 0 (g\<lparr>f_nwqid := f_nwqid f\<rparr>, m, p + 2) =
      Some (g\<lparr>f_nwqid := f_nwqid f,
          f_wqid := map (wqid_at f) [0..<unat (f_nwqid f)] @ drop (unat (f_nwqid f)) (f_wqid g)\<rparr>, m, p')"
    and "cur ap ep m p' r"
    using gwqid_cur [OF c1, of "g\<lparr>f_nwqid := f_nwqid f\<rparr>"] n arr by auto
  then show ?thesis using assms(2,3) n c0 c1 by (simp add: dec_simps)
qed

lemmas dec_T_rules = dec_Tflush dec_Topen dec_Tread dec_Tclunk dec_Twrite dec_Twstat dec_Tversion
  dec_Tauth dec_Tattach dec_Tcreate dec_Twalk

lemmas dec_R_rules = dec_Rwrite dec_Rflush dec_Rread dec_Rstat dec_Rauth dec_Rattach dec_Ropen
  dec_Rversion dec_Rerror dec_Rwalk

lemma dec_T:
  assumes "cur ap ep m p (wire_body f @ r)" "fcall_wf f" "is_T (f_type f)" "f_type g = f_type f"
    "length (f_wname g) = MAXWELEM"
  shows "decoded (convM2S_T ap ep (g, m, p)) ap ep f g r"
  using assms(3) unfolding is_T_def
  by (elim insertE emptyE)
    (rule dec_T_rules [OF assms(1)],
     use assms in \<open>simp_all add: fcall_wf_def fcall_ok_def\<close>)+

lemma dec_R:
  assumes "cur ap ep m p (wire_body f @ r)" "fcall_wf f" "\<not> is_T (f_type f)" "f_type g = f_type f"
    "length (f_wqid g) = MAXWELEM"
  shows "decoded (convM2S_R ap ep (g, m, p)) ap ep f g r"
proof -
  have "f_type f \<in> {Rversion, Rerror, Rflush, Rauth, Rattach, Rwalk, Ropen,
     Rcreate, Rread, Rwrite, Rclunk, Rremove, Rstat, Rwstat}"
    using assms(2,3) by (simp add: fcall_wf_def fcall_ok_def legal_type_def)
  then show ?thesis
    by (elim insertE emptyE)
      (rule dec_R_rules [OF assms(1)],
       use assms in \<open>simp_all add: fcall_wf_def fcall_ok_def\<close>)+
qed

section \<open>The round trip\<close>

lemma convM2S_wire:
  assumes wf: "fcall_wf f" and arr: "length (f_wname g) = MAXWELEM" "length (f_wqid g) = MAXWELEM"
    and space: "unat ap + length (wire f @ r) + 2 ^ 17 < 2 ^ 32"
  shows "\<exists>m'. convM2S (wire f @ r) ap (of_nat (length (wire f @ r))) g
      = Some (of_nat (wire_len f), recv f g, m')"
proof -
  define nap :: uint where "nap = of_nat (length (wire f @ r))"
  let ?m = "wire f @ r" and ?ep = "ap + nap"
  let ?g = "g\<lparr>f_type := f_type f, f_tag := f_tag f\<rparr>"
  have c0: "cur ap ?ep ?m ap (PBIT32 (of_nat (wire_len f) :: uint) @ PBIT8 (f_type f) @ PBIT16 (f_tag f)
      @ wire_body f @ r)"
    using cur_start [OF space] by (simp add: wire_def nap_def)
  note c1 = cur_adv(3) [OF c0]
  note c2 = cur_adv(1) [OF c1]
  note c3 = cur_adv(2) [OF c2]
  have "decoded (if is_T (f_type f) then convM2S_T ap ?ep (?g, ?m, ap + 4 + 1 + 2)
      else convM2S_R ap ?ep (?g, ?m, ap + 4 + 1 + 2)) ap ?ep f ?g r"
    using dec_T [OF c3 wf, of ?g] dec_R [OF c3 wf, of ?g] arr by simp
  then obtain m' p' where
    body: "(if is_T (f_type f) then convM2S_T ap ?ep (?g, ?m, ap + 4 + 1 + 2)
      else convM2S_R ap ?ep (?g, ?m, ap + 4 + 1 + 2)) = Some (recv f g, m', p')"
    and c: "cur ap ?ep m' p' r"
    by (auto simp: decoded_def recv_def)
  have "unat ?ep = unat p' + length r" "unat ?ep = unat ap + (wire_len f + length r)"
    using cur_unat(2) [OF c] cur_unat(2) [OF c0] by (simp_all add: wire_len_def)
  then have up: "unat p' = unat ap + wire_len f" by simp
  have size: "unat (of_nat (wire_len f) :: uint) = wire_len f"
    using wf by (intro unat_of_nat_small) (simp add: fcall_wf_def fcall_ok_def)
  have p': "p' = ap + of_nat (wire_len f)" "p' \<noteq> 0" "\<not> ?ep < p'" "\<not> (of_nat (wire_len f) :: uint) < 7"
    using up size cur_end [OF c] wire_len_ge [of f] cur_unat [OF c]
      unat_plus_small [of ap "of_nat (wire_len f)"]
    by (auto simp: word_unat_eq_iff word_less_nat_alt)
  show ?thesis unfolding nap_def [symmetric]
    using body p' cur_end [OF c3] cur_GBIT(3) [OF c0] cur_GBIT(1) [OF c1] cur_GBIT(2) [OF c2]
    by (cases "is_T (f_type f)") (simp_all add: convM2S_def Let_def)
qed

end
