(* ===== verification/Framing.thy ===== *)
theory Framing
  imports Prelude
begin

text \<open>
  The interface of a self-delimiting encoding: every encoded value starts with its own
  length, as 9P messages and directory entries do. \<open>deframe\<close> cuts a byte string into
  frames and decodes each; a provider that satisfies the laws of \<open>framed\<close> gets back
  any sequence of values it has put on the wire.
\<close>

function deframe :: "(bytes \<Rightarrow> nat) \<Rightarrow> (bytes \<Rightarrow> 'b option) \<Rightarrow> bytes \<Rightarrow> 'b list option" where
  "deframe flen dec m =
     (if m = [] then Some []
      else
        let n = flen m in
        if n = 0 \<or> length m < n then None
        else case dec (take n m) of
               None \<Rightarrow> None
             | Some x \<Rightarrow> map_option (\<lambda>xs. x # xs) (deframe flen dec (drop n m)))"
  by pat_completeness auto
termination by (relation "measure (\<lambda>(flen, dec, m). length m)") auto

declare deframe.simps [simp del]

locale framed =
  fixes flen :: "bytes \<Rightarrow> nat"
    and enc :: "'a \<Rightarrow> bytes"
    and dec :: "bytes \<Rightarrow> 'b option"
    and ok :: "'a \<Rightarrow> bool"
    and norm :: "'a \<Rightarrow> 'b"
  assumes flen_enc: "ok x \<Longrightarrow> flen (enc x @ r) = length (enc x)"
    and enc_nonempty: "ok x \<Longrightarrow> enc x \<noteq> []"
    and dec_enc: "ok x \<Longrightarrow> dec (enc x) = Some (norm x)"
begin

lemma deframe_enc_append:
  assumes "ok x"
  shows "deframe flen dec (enc x @ r) = map_option (\<lambda>xs. norm x # xs) (deframe flen dec r)"
  using assms by (subst deframe.simps) (simp add: flen_enc dec_enc enc_nonempty)

lemma deframe_sequence:
  assumes "\<forall>x \<in> set xs. ok x"
  shows "deframe flen dec (concat (map enc xs)) = Some (map norm xs)"
  using assms
proof (induction xs)
  case Nil
  then show ?case by (simp add: deframe.simps)
next
  case (Cons x xs)
  then show ?case by (simp add: deframe_enc_append)
qed

text \<open>Hence no two different sequences (up to \<open>norm\<close>) look the same on the wire.\<close>

lemma wire_injective:
  assumes "\<forall>x \<in> set xs. ok x" and "\<forall>y \<in> set ys. ok y"
    and "concat (map enc xs) = concat (map enc ys)"
  shows "map norm xs = map norm ys"
  using deframe_sequence [OF assms(1)] deframe_sequence [OF assms(2)] assms(3) by simp

end

end
