(* ===== verification/Transport.thy ===== *)
theory Transport
  imports Fcall_Roundtrip Framing
begin

text \<open>
  Reading whole 9P messages from a file descriptor: \<^verbatim>\<open>readn\<close> (\<^verbatim>\<open>libc/port/readn.c\<close>) and
  \<^verbatim>\<open>read9pmsg\<close> (\<^verbatim>\<open>libc/9sys/read9pmsg.c\<close>). The descriptor is the sequence of results that
  successive \<^verbatim>\<open>read\<close> system calls find: a chunk of data, of which one call returns at most
  as much as it asks for and leaves the rest, or an error. After the last result
  every read returns 0 (end of file).
\<close>

datatype rdres = Chunk bytes | RdErr

type_synonym fd = "rdres list"

fun fd_read :: "fd \<Rightarrow> nat \<Rightarrow> int \<times> bytes \<times> fd" where
  "fd_read [] n = (0, [], [])"
| "fd_read (RdErr # cs) n = (-1, [], cs)"
| "fd_read (Chunk bs # cs) n =
     (if length bs \<le> n then (int (length bs), bs, cs)
      else (int n, take n bs, Chunk (drop n bs) # cs))"

lemma fd_read_len: "fd_read f n = (m, bs, f') \<Longrightarrow> 0 < m \<Longrightarrow> m = int (length bs) \<and> length bs \<le> n"
  by (cases "(f, n)" rule: fd_read.cases) (auto split: if_splits)

text \<open>\<open>readn_loop fd n a\<close> is the loop of \<open>readn\<close> with the \<open>t = length a\<close> bytes \<open>a\<close> read.\<close>

function readn_loop :: "fd \<Rightarrow> nat \<Rightarrow> bytes \<Rightarrow> int \<times> bytes \<times> fd" where
  "readn_loop f n a =
     (let t = length a in
      if t < n then
        case fd_read f (n - t) of (m, bs, f') \<Rightarrow>
          if m \<le> 0 then (if t = 0 then (m, a, f') else (int t, a, f'))
          else readn_loop f' n (a @ bs)
      else (int t, a, f))"
  by pat_completeness auto
termination
  by (relation "measure (\<lambda>(f, n, a). n - length a)")
    (auto dest!: fd_read_len [OF sym] simp: diff_less_mono2 simp flip: length_greater_0_conv)

definition readn :: "fd \<Rightarrow> nat \<Rightarrow> int \<times> bytes \<times> fd" where
  "readn f n = readn_loop f n []"

text \<open>
  \<open>read9pmsg f n\<close>: the return value, the bytes stored in the buffer (whose size is \<open>n\<close>)
  and the descriptor afterwards.
\<close>

definition read9pmsg :: "fd \<Rightarrow> uint \<Rightarrow> int \<times> bytes \<times> fd" where
  "read9pmsg f n =
     (case readn f 4 of (m, buf, f1) \<Rightarrow>
        if m \<noteq> 4 then (if m < 0 then (-1, buf, f1) else (0, buf, f1))
        else
          let len = sint (GBIT32 buf 0) in
          if len \<le> 4 \<or> word_of_int len > n then (-1, buf, f1)
          else
            let len = len - 4 in
            case readn f1 (nat len) of (m, rest, f2) \<Rightarrow>
              if m < len then (0, buf @ rest, f2)
              else (4 + m, buf @ rest, f2))"

section \<open>readn delivers exactly the bytes asked for, however they arrive\<close>

fun content :: "fd \<Rightarrow> bytes" where
  "content [] = []"
| "content (Chunk bs # cs) = bs @ content cs"
| "content (RdErr # cs) = content cs"

text \<open>A descriptor that reports no error and no premature end of file.\<close>

definition flowing :: "fd \<Rightarrow> bool" where
  "flowing f \<longleftrightarrow> (\<forall>c \<in> set f. \<exists>bs. c = Chunk bs \<and> bs \<noteq> [])"

lemma fd_read_flowing:
  assumes "flowing f" and "0 < n" and "fd_read f n = (m, bs, f')"
  shows "flowing f'" and "content f = bs @ content f'" and "content f \<noteq> [] \<Longrightarrow> 0 < m"
  using assms by (cases "(f, n)" rule: fd_read.cases; auto simp: flowing_def split: if_splits)+

declare readn_loop.simps [simp del]

lemma readn_loop_flowing:
  assumes "flowing f" and "length a \<le> n" and "n \<le> length a + length (content f)"
  shows "\<exists>f'. readn_loop f n a = (int n, a @ take (n - length a) (content f), f')
    \<and> flowing f' \<and> content f' = drop (n - length a) (content f)"
  using assms
proof (induction f n a rule: readn_loop.induct)
  case (1 f n a)
  show ?case
  proof (cases "length a < n")
    case False
    with 1 show ?thesis by (simp add: readn_loop.simps [of f])
  next
    case True
    obtain m bs f' where r: "fd_read f (n - length a) = (m, bs, f')" by (metis prod_cases3)
    note fl = fd_read_flowing [OF "1.prems"(1) _ r]
    have "content f \<noteq> []" using True "1.prems"(3) by auto
    then have m: "0 < m" using fl(3) True by simp
    have len: "m = int (length bs)" "length bs \<le> n - length a"
      using fd_read_len [OF r m] by auto
    have c: "content f = bs @ content f'" "flowing f'" using fl True by auto
    have "\<exists>f''. readn_loop f' n (a @ bs) = (int n, (a @ bs) @ take (n - length (a @ bs)) (content f'), f'')
        \<and> flowing f'' \<and> content f'' = drop (n - length (a @ bs)) (content f')"
      using "1.IH" [OF refl True r [symmetric] refl] m len c "1.prems" True by simp
    then show ?thesis
      using True r m len c by (simp add: readn_loop.simps [of f n a] Let_def)
  qed
qed

lemma readn_flowing:
  assumes "flowing f" and "n \<le> length (content f)"
  obtains f' where "readn f n = (int n, take n (content f), f')"
    and "flowing f'" and "content f' = drop n (content f)"
  using readn_loop_flowing [OF assms(1), of "[]" n] assms(2) by (auto simp: readn_def)

section \<open>read9pmsg delivers one message\<close>

lemma GBIT32_wire: "GBIT32 (take 4 (wire f @ r)) 0 = of_nat (wire_len f)"
  using GBIT32_PBIT32 [of "of_nat (wire_len f) :: uint" "[]"]
  by (simp add: wire_def take_Cons' PBIT32_def)

lemma read9pmsg_flowing:
  assumes fl: "flowing fd" and c: "content fd = wire f @ r"
    and len: "wire_len f < 2 ^ 31" "wire_len f \<le> unat n"
  obtains fd' where "read9pmsg fd n = (int (wire_len f), wire f, fd')"
    and "flowing fd'" and "content fd' = r"
proof -
  have ge: "7 \<le> wire_len f" by (rule wire_len_ge)
  obtain f1 where r1: "readn fd 4 = (4, take 4 (wire f @ r), f1)"
    and fl1: "flowing f1" and c1: "content f1 = drop 4 (wire f @ r)"
    using readn_flowing [OF fl, of 4] c ge by (auto simp: length_wire)
  obtain f2 where r2: "readn f1 (wire_len f - 4) = (int (wire_len f - 4), drop 4 (wire f), f2)"
    and fl2: "flowing f2" and c2: "content f2 = r"
    by (rule readn_flowing [OF fl1, of "wire_len f - 4"]) (use c1 ge in \<open>auto simp: length_wire\<close>)
  have s: "sint (GBIT32 (take 4 (wire f @ r)) 0) = int (wire_len f)"
    unfolding GBIT32_wire using len(1) by (simp add: sint_uint unsigned_of_nat signed_take_bit_int_eq_self
        take_bit_nat_eq_self)
  have n: "\<not> n < (word_of_int (int (wire_len f)) :: uint)"
    using len by (simp add: word_less_nat_alt)
  have j: "take 4 (wire f @ r) @ drop 4 (wire f) = wire f"
    using ge by (simp add: length_wire)
  have "read9pmsg fd n = (int (wire_len f), wire f, f2)"
    using r1 r2 s n ge j
    by (simp add: read9pmsg_def Let_def nat_diff_distrib GBIT32_wire [of f r, simplified])
  with that fl2 c2 show ?thesis by blast
qed

section \<open>read9pmsg stays inside its buffer\<close>

text \<open>Whatever the descriptor does, \<open>readn\<close> stores at most the bytes asked for.\<close>

lemma readn_loop_bound:
  assumes "readn_loop f n a = (m, bs, f')" and "length a \<le> n"
  shows "length bs \<le> n \<and> (0 < m \<longrightarrow> m = int (length bs))"
  using assms
proof (induction f n a rule: readn_loop.induct)
  case (1 f n a)
  obtain k cs f1 where r: "fd_read f (n - length a) = (k, cs, f1)" by (metis prod_cases3)
  show ?case
  proof (cases "length a < n \<and> 0 < k")
    case False
    then show ?thesis
      using "1.prems" r by (auto simp: readn_loop.simps [of f] Let_def split: if_splits)
  next
    case True
    note len = fd_read_len [OF r]
    have "readn_loop f1 n (a @ cs) = (m, bs, f')"
      using "1.prems"(1) r True by (simp add: readn_loop.simps [of f] Let_def)
    then show ?thesis using "1.IH" [OF refl _ r [symmetric] refl] len True by auto
  qed
qed

lemma readn_bound: "readn f n = (m, bs, f') \<Longrightarrow> length bs \<le> n \<and> (0 < m \<longrightarrow> m = int (length bs))"
  using readn_loop_bound [of f n "[]"] by (simp add: readn_def)

lemma read9pmsg_bound:
  assumes r: "read9pmsg f n = (k, buf, f')" and n: "4 \<le> unat n"
  shows "length buf \<le> unat n \<and> (0 < k \<longrightarrow> k = int (length buf) \<and> k = sint (GBIT32 buf 0))"
proof -
  obtain m1 b1 f1 where r1: "readn f 4 = (m1, b1, f1)" by (metis prod_cases3)
  note b1 = readn_bound [OF r1]
  define len where "len = sint (GBIT32 b1 0)"
  show ?thesis
  proof (cases "m1 = 4 \<and> 4 < len \<and> \<not> word_of_int len > n")
    case False
    then show ?thesis using r r1 b1 n
      by (auto simp: read9pmsg_def Let_def len_def split: if_splits prod.splits)
  next
    case True
    obtain m2 b2 f2 where r2: "readn f1 (nat (len - 4)) = (m2, b2, f2)" by (metis prod_cases3)
    note b2 = readn_bound [OF r2]
    have res: "(k, buf) = (if m2 < len - 4 then (0, b1 @ b2) else (4 + m2, b1 @ b2))"
      using r r1 r2 True by (auto simp: read9pmsg_def Let_def len_def split: if_splits)
    have l4: "length b1 = 4" using b1 True by simp
    then have g: "GBIT32 (b1 @ b2) 0 = GBIT32 b1 0" by (simp add: GBIT32_def rd_append_left)
    have "len < 2 ^ 31" using sint_lt [of "GBIT32 b1 0"] by (simp add: len_def)
    then have "nat len \<le> unat n"
      using True unat_of_nat_uint [of "nat len"] by (auto simp: word_less_nat_alt)
    then show ?thesis using res b2 l4 True g by (auto simp: len_def split: if_splits)
  qed
qed

end
