(* ===== verification/Fcall_Safety.thy ===== *)
theory Fcall_Safety
  imports Transport
begin

text \<open>
  What \<open>convM2S\<close> does with bytes no encoder produced. Every string it stores stays inside the
  buffer, and where the size field of the message is the number of bytes it was given
  (what \<open>read9pmsg\<close> hands to it), so do the data and stat blocks it points to.
\<close>

section \<open>Pointers that stay inside the buffer\<close>

definition inside :: "uint \<Rightarrow> uint \<Rightarrow> bytes \<Rightarrow> uint \<Rightarrow> bool" where
  "inside ap ep m p \<longleftrightarrow> idx ap p \<le> length m \<and> ep = ap + of_nat (length m)
     \<and> unat ap + length m + 2 ^ 17 < 2 ^ 32"

lemma inside_cur: "inside ap ep m p \<longleftrightarrow> cur ap ep m p (drop (idx ap p) m)"
  by (auto simp: inside_def cur_def)

lemma inside_unat:
  assumes "inside ap ep m p"
  shows "unat p = unat ap + idx ap p" "unat ep = unat ap + length m" "unat ep < 4294836224"
  using assms cur_unat [of ap ep m p "drop (idx ap p) m"] by (auto simp: inside_cur [symmetric] inside_def)

lemma inside_advance:
  assumes "inside ap ep m p" and "\<not> ep < p + x" and "unat x \<le> 2 ^ 17"
  shows "inside ap ep m (p + x)" and "idx ap (p + x) = idx ap p + unat x"
proof -
  have p: "unat p = unat ap + idx ap p" "idx ap p \<le> length m" "unat ap + length m < 4294836224"
    using inside_unat [OF assms(1)] assms(1) by (auto simp: inside_def)
  show i: "idx ap (p + x) = idx ap p + unat x"
    using p assms(3) by (intro idx_add) simp
  have "unat (p + x) = unat p + unat x"
    using p assms(3) by (intro unat_plus_small) simp
  then have "idx ap p + unat x \<le> length m"
    using assms(2) p inside_unat(2) [OF assms(1)] by (simp add: word_less_nat_alt)
  then show "inside ap ep m (p + x)"
    using assms(1) i by (simp add: inside_def)
qed

lemma inside_length: "inside ap ep m p \<Longrightarrow> length m' = length m \<Longrightarrow> inside ap ep m' p"
  by (simp add: inside_def)

lemma GBIT16_bound: "unat (GBIT16 m i) < 65536"
proof -
  have "GBIT16 m i = take_bit 16 (GBIT16 m i)"
    by (rule bit_word_eqI) (auto simp: GBIT16_def bit_simps dest: bit_imp_le_length)
  then have "unat (GBIT16 m i) = take_bit 16 (unat (GBIT16 m i))"
    by (metis unsigned_take_bit_eq)
  then show ?thesis using take_bit_nat_less_exp [of 16 "unat (GBIT16 m i)"] by simp
qed

lemma gstring_inside:
  assumes g: "gstring m ap p ep = Some (m', p', s)" and p: "inside ap ep m p"
  shows "length m' = length m" and "inside ap ep m' p'"
proof -
  let ?n = "GBIT16 m (idx ap p)"
  have nb: "unat ?n < 65536" by (rule GBIT16_bound)
  have c2: "\<not> ep < p + 2" and c: "\<not> ep < p + (1 + ?n + 1)"
    and m': "m' = poke (poke m (idx ap (p + 1)) (cpy (drop (idx ap (p + 1) + 1) m) (unat ?n)))
        (idx ap (p + 1) + unat ?n) [0]"
    and p': "p' = p + (1 + ?n + 1)"
    using g by (auto simp: gstring_def Let_def algebra_simps split: if_splits)
  have u: "unat (1 + ?n + 1) = unat ?n + 2"
    using nb unat_plus_small [of 1 ?n] unat_plus_small [of "1 + ?n" 1] by simp
  note a = inside_advance [OF p c, unfolded u]
  have i1: "idx ap (p + 1) = idx ap p + 1"
    using inside_unat [OF p] p idx_add [of ap p 1] by (simp add: inside_def)
  have "idx ap p + (unat ?n + 2) \<le> length m"
    using a nb by (simp add: inside_def)
  then show len: "length m' = length m"
    unfolding m' i1 by simp
  show "inside ap ep m' p'"
    using a nb inside_length [OF _ len] by (simp add: p')
qed

lemma gstring_twice:
  "gstring m ap p ep = Some (m1, p1, s1) \<Longrightarrow> gstring m1 ap p1 ep = Some (m2, p2, s2) \<Longrightarrow>
   inside ap ep m p \<Longrightarrow> length m2 = length m"
  using gstring_inside [of m ap p ep] gstring_inside(1) [of m1 ap p1 ep] by simp

lemma gqid_inside:
  "gqid m ap p ep = Some (p', q) \<Longrightarrow> inside ap ep m p \<Longrightarrow> inside ap ep m p'"
  using inside_advance [of ap ep m p 13]
  by (auto simp: gqid_def Let_def add.commute [of 13] split: if_splits)

lemma gwname_inside:
  "gwname ap ep k i (f, m, p) = Some (f', m', p') \<Longrightarrow> inside ap ep m p \<Longrightarrow>
   length m' = length m \<and> f_type f' = f_type f"
proof (induction k arbitrary: i f m p)
  case 0
  then show ?case by simp
next
  case (Suc k)
  then obtain m1 p1 s where g: "gstring m ap p ep = Some (m1, p1, s)"
    and r: "gwname ap ep k (Suc i) (f\<lparr>f_wname := (f_wname f)[i := Some s]\<rparr>, m1, p1) = Some (f', m', p')"
    by (auto split: option.splits)
  note gi = gstring_inside [OF g Suc.prems(2)]
  show ?case using Suc.IH [OF r gi(2)] gi(1) by simp
qed

lemma gwqid_inside:
  "gwqid ap ep k i (f, m, p) = Some (f', m', p') \<Longrightarrow> m' = m \<and> f_type f' = f_type f"
  by (induction k arbitrary: i f p) (fastforce split: option.splits)+

section \<open>What a decoded body looks like\<close>

text \<open>
  The invariant of the decoding switch: the buffer keeps its length, and a data or stat
  block starts at a pointer inside the buffer.
\<close>

definition body_inv :: "uint \<Rightarrow> uint \<Rightarrow> fcall \<Rightarrow> bytes \<Rightarrow> dstate \<Rightarrow> bool" where
  "body_inv ap ep f m = (\<lambda>(f', m', p').
     f_type f' = f_type f \<and> length m' = length m
     \<and> (f_type f \<in> {Twrite, Rread} \<longrightarrow>
         (\<exists>q. inside ap ep m q \<and> p' = q + f_count f'
            \<and> f_data f' = take (unat (f_count f')) (drop (idx ap q) m)))
     \<and> (f_type f \<in> {Twstat, Rstat} \<longrightarrow> length (f_stat f') = unat (f_nstat f')))"

lemma unat_ushort_bound: "unat (v :: ushort) \<le> 2 ^ 17"
proof -
  have "unat v < 2 ^ 16" using unsigned_less [of v] by simp
  then show ?thesis by simp
qed

lemma stat_block:
  assumes "inside ap ep m p" and "\<not> ep < p + ucast (v :: ushort)"
  shows "length (take (unat v) (drop (idx ap p) m)) = unat v"
  using inside_advance [OF assms] unat_ushort_bound [of v] by (auto simp: inside_def)

lemma convM2S_T_inv:
  assumes T: "convM2S_T ap ep (f, m, p) = Some st" and p: "inside ap ep m p"
  shows "body_inv ap ep f m st"
proof -
  consider "f_type f = Twrite" | "f_type f = Twstat" | "f_type f \<notin> {Twrite, Twstat}" by blast
  then show ?thesis
  proof cases
    case 1
    then have "\<not> ep < p + 16"
      using T by (auto simp: convM2S_T_def Let_def add.commute [of 16] split: if_splits)
    then have "inside ap ep m (p + 16)" using inside_advance(1) [OF p, of 16] by simp
    then show ?thesis using T 1
      by (auto simp: convM2S_T_def body_inv_def Let_def add.commute [of 16] split: if_splits)
  next
    case 2
    then have "\<not> ep < p + 6"
      using T by (auto simp: convM2S_T_def Let_def add.commute [of 6] split: if_splits)
    then have i: "inside ap ep m (p + 6)" using inside_advance(1) [OF p, of 6] by simp
    show ?thesis using T 2 stat_block [OF i]
      by (auto simp: convM2S_T_def body_inv_def Let_def add.commute [of 6] simp del: length_take
          split: if_splits)
  next
    case 3
    have adv: "\<not> ep < p + 4 \<Longrightarrow> inside ap ep m (p + 4)" "\<not> ep < 8 + p \<Longrightarrow> inside ap ep m (8 + p)"
      "\<not> ep < 10 + p \<Longrightarrow> inside ap ep m (10 + p)"
      using inside_advance(1) [OF p, of 4] inside_advance(1) [OF p, of 8] inside_advance(1) [OF p, of 10]
      by (simp_all add: add.commute)
    from 3 T show ?thesis
      unfolding convM2S_T_def body_inv_def Let_def
      by (auto simp: Option.bind_eq_Some_conv split: if_splits
          dest!: gwname_inside [OF _ adv(3)] dest: adv gstring_inside gstring_twice)
  qed
qed

lemma convM2S_R_inv:
  assumes R: "convM2S_R ap ep (f, m, p) = Some st" and p: "inside ap ep m p"
  shows "body_inv ap ep f m st"
proof -
  consider "f_type f = Rread" | "f_type f = Rstat" | "f_type f \<notin> {Rread, Rstat}" by blast
  then show ?thesis
  proof cases
    case 1
    then have "\<not> ep < p + 4"
      using R by (auto simp: convM2S_R_def Let_def split: if_splits)
    then have "inside ap ep m (p + 4)" using inside_advance(1) [OF p, of 4] by simp
    then show ?thesis using R 1
      by (auto simp: convM2S_R_def body_inv_def Let_def split: if_splits)
  next
    case 2
    then have "\<not> ep < p + 2"
      using R by (auto simp: convM2S_R_def Let_def split: if_splits)
    then have i: "inside ap ep m (p + 2)" using inside_advance(1) [OF p, of 2] by simp
    show ?thesis using R 2 stat_block [OF i]
      by (auto simp: convM2S_R_def body_inv_def Let_def simp del: length_take split: if_splits)
  next
    case 3
    have adv: "\<not> ep < p + 4 \<Longrightarrow> inside ap ep m (p + 4)"
      using inside_advance(1) [OF p, of 4] by simp
    from 3 R show ?thesis
      unfolding convM2S_R_def body_inv_def Let_def
      by (auto simp: Option.bind_eq_Some_conv split: if_splits
          dest!: gwqid_inside dest: adv gstring_inside(1) [OF _ p] gstring_inside)
  qed
qed

text \<open>A block that ends where the buffer ends has the length it announces.\<close>

lemma block_to_end:
  assumes "inside ap ep m q" and "q + c = ep"
  shows "length (take (unat c) (drop (idx ap q) m)) = unat c"
proof -
  have "c = ep - q" using assms(2) by (simp add: algebra_simps)
  moreover have "q \<le> ep"
    using inside_unat [OF assms(1)] assms(1) by (simp add: word_le_nat_alt inside_def)
  ultimately have "unat c = unat ep - unat q" by (simp add: unat_sub)
  then show ?thesis using inside_unat [OF assms(1)] by simp
qed

lemma convM2S_accepts:
  assumes acc: "convM2S m ap (of_nat (length m)) g = Some (n, f, m')"
    and size: "n = of_nat (length m)"
    and space: "unat ap + length m + 2 ^ 17 < 2 ^ 32"
  shows "length m' = length m"
    and "f_type f \<in> {Twrite, Rread} \<Longrightarrow> length (f_data f) = unat (f_count f)"
    and "f_type f \<in> {Twstat, Rstat} \<Longrightarrow> length (f_stat f) = unat (f_nstat f)"
proof -
  let ?ep = "ap + of_nat (length m)"
  let ?f = "g\<lparr>f_type := GBIT8 m (idx ap (ap + 4)), f_tag := ucast (GBIT16 m (idx ap (5 + ap)))\<rparr>"
  have i0: "inside ap ?ep m ap" using space by (simp add: inside_def idx_def)
  have "\<not> ?ep < ap + 7" using acc by (auto simp: convM2S_def Let_def add.commute [of 7] split: if_splits)
  then have i7: "inside ap ?ep m (7 + ap)"
    using inside_advance(1) [OF i0, of 7] by (simp add: add.commute)
  obtain p' where body: "(if is_T (f_type ?f) then convM2S_T ap ?ep (?f, m, 7 + ap)
        else convM2S_R ap ?ep (?f, m, 7 + ap)) = Some (f, m', p')"
    and e: "ap + n = p'"
    using acc by (auto simp: convM2S_def Let_def Option.bind_eq_Some_conv split: if_splits)
  have "body_inv ap ?ep ?f m (f, m', p')"
    using body convM2S_T_inv [OF _ i7] convM2S_R_inv [OF _ i7] by (simp split: if_splits)
  then have b: "f_type f = f_type ?f" "length m' = length m"
      "f_type f \<in> {Twrite, Rread} \<Longrightarrow> \<exists>q. inside ap ?ep m q \<and> p' = q + f_count f
            \<and> f_data f = take (unat (f_count f)) (drop (idx ap q) m)"
      "f_type f \<in> {Twstat, Rstat} \<Longrightarrow> length (f_stat f) = unat (f_nstat f)"
    by (auto simp: body_inv_def)
  show "length m' = length m" by (rule b(2))
  show "f_type f \<in> {Twrite, Rread} \<Longrightarrow> length (f_data f) = unat (f_count f)"
    using b(3) block_to_end [of ap ?ep m] e size by metis
  show "f_type f \<in> {Twstat, Rstat} \<Longrightarrow> length (f_stat f) = unat (f_nstat f)" by (rule b(4))
qed

end
