(* ===== verification/Ninep.thy ===== *)
theory Ninep
  imports Fcall_Safety
begin

text \<open>
  A 9P connection end to end: the part of \<^verbatim>\<open>getreq\<close> (\<^verbatim>\<open>lib_networking/lib9p/srv.c\<close>) that
  reads a message and decodes it, the loop that does so until the connection ends, and
  the theorems about the message layer as a whole.
\<close>

section \<open>Receiving messages\<close>

definition getmsg :: "uint \<Rightarrow> uint \<Rightarrow> fcall \<Rightarrow> fd \<Rightarrow> (fcall \<times> fd) option" where
  "getmsg msize ap f infd =
     (case read9pmsg infd msize of (n, rbuf, infd') \<Rightarrow>
        if n \<le> 0 then None
        else
          let buf = take (nat n) rbuf in
          case convM2S buf ap (word_of_int n) f of
            None \<Rightarrow> None
          | Some (k, f', _) \<Rightarrow> if k \<noteq> word_of_int n then None else Some (f', infd'))"

text \<open>The messages received before \<open>getmsg\<close> fails, at most \<open>k\<close> of them.\<close>

fun getmsgs :: "nat \<Rightarrow> uint \<Rightarrow> uint \<Rightarrow> fcall \<Rightarrow> fd \<Rightarrow> fcall list" where
  "getmsgs 0 msize ap f infd = []"
| "getmsgs (Suc k) msize ap f infd =
     (case getmsg msize ap f infd of
        None \<Rightarrow> []
      | Some (f', infd') \<Rightarrow> f' # getmsgs k msize ap f infd')"

section \<open>The receive buffer as a framed decoder\<close>

text \<open>
  What the receiver provides: a buffer at \<open>ap\<close> for messages of up to \<open>msize\<close> bytes that does
  not touch the end of the address space, and an Fcall whose arrays have their C size.
\<close>

locale rbuf =
  fixes ap msize :: uint and g :: fcall
  assumes space: "unat ap + unat msize + 2 ^ 17 < 2 ^ 32"
    and wname16: "length (f_wname g) = MAXWELEM"
    and wqid16: "length (f_wqid g) = MAXWELEM"
begin

definition sendable :: "fcall \<Rightarrow> bool" where
  "sendable f \<longleftrightarrow> fcall_wf f \<and> wire_len f < 2 ^ 31 \<and> wire_len f \<le> unat msize"

definition msg_dec :: "bytes \<Rightarrow> fcall option" where
  "msg_dec m = map_option (\<lambda>(n, f, m'). f) (convM2S m ap (of_nat (length m)) g)"

lemma convM2S_sendable:
  assumes "sendable f"
  obtains m' where "convM2S (wire f) ap (of_nat (wire_len f)) g = Some (of_nat (wire_len f), recv f g, m')"
  using convM2S_wire [of f g ap "[]"] assms space wname16 wqid16
  by (auto simp: sendable_def length_wire)

lemma getmsg_sendable:
  assumes s: "sendable f" and fl: "flowing fd" and c: "content fd = wire f @ r"
  shows "\<exists>fd'. getmsg msize ap g fd = Some (recv f g, fd') \<and> flowing fd' \<and> content fd' = r"
proof -
  have w: "wire_len f < 2 ^ 31" "wire_len f \<le> unat msize" using s by (auto simp: sendable_def)
  obtain fd' where rd: "read9pmsg fd msize = (int (wire_len f), wire f, fd')"
    and "flowing fd'" "content fd' = r"
    using read9pmsg_flowing [OF fl c w] by blast
  moreover obtain m' where
    "convM2S (wire f) ap (of_nat (wire_len f)) g = Some (of_nat (wire_len f), recv f g, m')"
    by (rule convM2S_sendable [OF s])
  moreover have "0 < wire_len f" using wire_len_ge [of f] by simp
  ultimately show ?thesis by (simp add: getmsg_def Let_def length_wire)
qed

lemma getmsgs_sendable:
  assumes "\<forall>f \<in> set fs. sendable f" and "flowing fd" and "content fd = concat (map wire fs)"
    and "length fs < k"
  shows "getmsgs k msize ap g fd = map (\<lambda>f. recv f g) fs"
  using assms
proof (induction fs arbitrary: fd k)
  case Nil
  have "fd = []" using Nil.prems(2,3) by (cases fd rule: content.cases) (auto simp: flowing_def)
  then have "getmsg msize ap g fd = None"
    by (simp add: getmsg_def read9pmsg_def readn_def readn_loop.simps)
  then show ?case using Nil.prems(4) by (cases k) auto
next
  case (Cons f fs)
  obtain k' where k: "k = Suc k'" "length fs < k'" using Cons.prems(4) by (cases k) auto
  obtain fd' where "getmsg msize ap g fd = Some (recv f g, fd')" "flowing fd'"
    "content fd' = concat (map wire fs)"
    using getmsg_sendable [of f fd] Cons.prems by auto
  then show ?case using Cons.IH [of fd' k'] Cons.prems(1) k by simp
qed

end

sublocale rbuf \<subseteq> msg: framed "\<lambda>m. unat (GBIT32 m 0)" wire msg_dec sendable "\<lambda>f. recv f g"
proof
  fix f r assume s: "sendable f"
  have n: "wire_len f < 4294967296" using s by (simp add: sendable_def)
  have "GBIT32 (wire f @ r) 0 = of_nat (wire_len f)"
    using GBIT32_PBIT32 [of "of_nat (wire_len f) :: uint"] by (simp add: wire_def)
  then show "unat (GBIT32 (wire f @ r) 0) = length (wire f)" using n by (simp add: length_wire)
  show "wire f \<noteq> []" using wire_len_ge [of f] length_wire [of f] by auto
  obtain m' where "convM2S (wire f) ap (of_nat (wire_len f)) g = Some (of_nat (wire_len f), recv f g, m')"
    by (rule convM2S_sendable [OF s])
  then show "msg_dec (wire f) = Some (recv f g)" by (simp add: msg_dec_def length_wire)
qed

text \<open>The buffer lib9p starts with: \<open>8192 + IOHDRSZ\<close> bytes, here at the start of the heap.\<close>

definition fcall0 :: fcall where
  "fcall0 = \<lparr>f_type = 0, f_fid = 0, f_tag = 0, f_msize = 0, f_version = None, f_oldtag = 0,
     f_ename = None, f_qid = \<lparr>q_path = 0, q_vers = 0, q_type = 0\<rparr>, f_iounit = 0,
     f_aqid = \<lparr>q_path = 0, q_vers = 0, q_type = 0\<rparr>, f_afid = 0, f_uname = None, f_aname = None,
     f_perm = 0, f_name = None, f_mode = 0, f_newfid = 0, f_nwname = 0,
     f_wname = replicate 16 None, f_nwqid = 0,
     f_wqid = replicate 16 \<lparr>q_path = 0, q_vers = 0, q_type = 0\<rparr>, f_offset = 0, f_count = 0,
     f_data = [], f_nstat = 0, f_stat = []\<rparr>"

lemma fcall0_arrays [simp]: "length (f_wname fcall0) = MAXWELEM" "length (f_wqid fcall0) = MAXWELEM"
  by (simp_all add: fcall0_def)

interpretation srvbuf: rbuf "0x10000" "8192 + 24" fcall0
  by unfold_locales simp_all

section \<open>Properties of the message layer\<close>

text \<open>A message of each direction for the concrete instances: a Tversion and an Rerror.\<close>

definition tversion_msg :: fcall where
  "tversion_msg = fcall0\<lparr>f_type := Tversion, f_tag := 0xFFFF, f_msize := 8216,
     f_version := Some [0x39, 0x50, 0x32, 0x30, 0x30, 0x30]\<rparr>"

definition rerror_msg :: fcall where
  "rerror_msg = fcall0\<lparr>f_type := Rerror, f_tag := 3, f_ename := Some [0x65, 0x6F, 0x66]\<rparr>"

lemma tversion_msg_wf: "fcall_wf tversion_msg" "wire_len tversion_msg = 19"
  by (simp_all add: fcall_wf_def fcall_ok_def tversion_msg_def fcall0_def wire_len_def wire_body_def
      Let_def legal_type_def is_T_def str_ok_def str_def nulfree_def enc_str_def)

lemma rerror_msg_wf: "fcall_wf rerror_msg" "wire_len rerror_msg = 12"
  by (simp_all add: fcall_wf_def fcall_ok_def rerror_msg_def fcall0_def wire_len_def wire_body_def
      Let_def legal_type_def is_T_def str_ok_def str_def nulfree_def enc_str_def)

text \<open>
  C1: Round trip. A well-formed message that fits in the sender's buffer is encoded by
  \<^verbatim>\<open>convS2M\<close>, and \<^verbatim>\<open>convM2S\<close> applied to the bytes written accepts them, consumes all of them, and
  stores the message's type, tag and every field of that type into the receiver's
  Fcall (\<open>recv\<close>: nil strings arrive as empty ones, other fields keep their old value).
\<close>

theorem fcall_roundtrip:
  assumes "fcall_wf f" and "wire_len f \<le> unat nap" and "unat nap \<le> length m"
    and "length (f_wname g) = MAXWELEM" and "length (f_wqid g) = MAXWELEM"
    and "unat ap + wire_len f + 2 ^ 17 < 2 ^ 32"
  shows "case convS2M f m nap of (n, m1) \<Rightarrow>
     unat n = wire_len f \<and> (\<exists>m'. convM2S (take (unat n) m1) ap n g = Some (n, recv f g, m'))"
proof -
  have ok: "fcall_ok f" and n: "wire_len f < 4294967296"
    using assms(1) by (auto simp: fcall_wf_def fcall_ok_def)
  have "take (wire_len f) (poke m 0 (wire f)) = wire f"
    using take_poke_0 [of "wire f" m] assms(2,3) by (simp add: length_wire)
  then show ?thesis
    using convM2S_wire [OF assms(1,4,5), of ap "[]"] assms(6) n
    by (simp add: convS2M_wire [OF ok assms(2,3)] length_wire)
qed

theorem fcall_roundtrip_witness:
  "case convS2M tversion_msg (replicate 64 0) 64 of (n, m1) \<Rightarrow>
     unat n = 19 \<and> (\<exists>m'. convM2S (take (unat n) m1) 0x10000 n fcall0 = Some (n, recv tversion_msg fcall0, m'))"
  using fcall_roundtrip [where f = tversion_msg and nap = 64 and m = "replicate 64 0" and g = fcall0
      and ap = "0x10000"] tversion_msg_wf
  by simp

text \<open>
  C2: The encoder writes the wire image of the message, reports its length, and touches
  no other byte: the buffer keeps its size and everything after the message is unchanged.
\<close>

theorem convS2M_writes_wire:
  assumes "fcall_ok f" and "wire_len f \<le> unat nap" and "unat nap \<le> length m"
  shows "convS2M f m nap = (of_nat (wire_len f), wire f @ drop (wire_len f) m)
    \<and> length (snd (convS2M f m nap)) = length m"
  using assms by (simp_all add: convS2M_wire poke_def length_wire)

theorem convS2M_writes_wire_witness:
  "convS2M rerror_msg (replicate 16 7) 16
     = (12, [12, 0, 0, 0, 107, 3, 0, 3, 0, 0x65, 0x6F, 0x66] @ replicate 4 7)"
proof -
  have "fcall_ok rerror_msg" using rerror_msg_wf(1) by (simp add: fcall_wf_def)
  moreover have "wire rerror_msg = [12, 0, 0, 0, 107, 3, 0, 3, 0, 0x65, 0x6F, 0x66]"
    unfolding wire_def rerror_msg_wf(2) by code_simp
  ultimately show ?thesis
    using convS2M_writes_wire [of rerror_msg 16 "replicate 16 7"] rerror_msg_wf(2) by simp
qed

text \<open>
  C3: The encoder's errors. A message of an unknown type, and one that does not fit in
  the \<open>nap\<close> bytes of the buffer, yield 0 and leave the buffer as it was.
\<close>

theorem convS2M_refuses:
  assumes "\<not> legal_type (f_type f) \<or> fcall_ok f \<and> unat nap < wire_len f"
  shows "convS2M f m nap = (0, m)"
  using assms
proof
  assume "\<not> legal_type (f_type f)"
  then have "sizeS2M f = 0" by (simp add: sizeS2M_def legal_type_def is_T_def)
  then show ?thesis by (simp add: convS2M_def)
next
  assume "fcall_ok f \<and> unat nap < wire_len f"
  then have "nap < sizeS2M f"
    using sizeS2M_wire_len [of f] by (auto simp: fcall_ok_def word_less_nat_alt)
  then show ?thesis by (simp add: convS2M_def Let_def)
qed

theorem convS2M_refuses_witness:
  "convS2M (fcall0\<lparr>f_type := Terror\<rparr>) (replicate 9 0) 9 = (0, replicate 9 0)
   \<and> convS2M rerror_msg (replicate 11 0) 11 = (0, replicate 11 0)"
  using convS2M_refuses [of "fcall0\<lparr>f_type := Terror\<rparr>" 9 "replicate 9 0"]
    convS2M_refuses [of rerror_msg 11 "replicate 11 0"] rerror_msg_wf
  by (simp add: legal_type_def is_T_def fcall_wf_def fcall0_def)

text \<open>
  C4: Safety of the decoder on arbitrary bytes. When \<^verbatim>\<open>convM2S\<close> accepts a buffer and returns
  its whole length (the test every 9P server makes), its in-place moves have stayed
  inside the buffer, and the data and stat blocks it hands out lie inside the buffer:
  they have exactly the length the message announces.
\<close>

theorem convM2S_memory_safe:
  assumes "convM2S m ap (of_nat (length m)) g = Some (n, f, m')" and "n = of_nat (length m)"
    and "unat ap + length m + 2 ^ 17 < 2 ^ 32"
  shows "length m' = length m
    \<and> (f_type f \<in> {Twrite, Rread} \<longrightarrow> length (f_data f) = unat (f_count f))
    \<and> (f_type f \<in> {Twstat, Rstat} \<longrightarrow> length (f_stat f) = unat (f_nstat f))"
  using convM2S_accepts [OF assms] by blast

definition twrite_bytes :: bytes where
  "twrite_bytes = [25, 0, 0, 0, 118, 1, 0, 9, 0, 0, 0] @ replicate 8 0 @ [2, 0, 0, 0, 65, 66]"

theorem convM2S_memory_safe_witness:
  "\<exists>f m'. convM2S twrite_bytes 0x10000 25 fcall0 = Some (25, f, m')
     \<and> f_type f = Twrite \<and> f_count f = 2 \<and> length (f_data f) = unat (f_count f)"
proof -
  have c: "convM2S twrite_bytes 0x10000 25 fcall0 = Some (25, fcall0\<lparr>f_type := 118, f_tag := 1,
      f_fid := 9, f_offset := 0, f_count := 2, f_data := [65, 66]\<rparr>, twrite_bytes)"
    by code_simp
  show ?thesis
    using convM2S_memory_safe [of twrite_bytes "0x10000" fcall0, simplified twrite_bytes_def, simplified,
        folded twrite_bytes_def] c
    by (simp add: twrite_bytes_def)
qed

text \<open>
  The body of a Twrite, after the header: the fixed fields are decoded, and the only
  test on the count compares 32-bit addresses.
\<close>

lemma convM2S_Twrite:
  assumes m: "23 \<le> length m" "unat ap + length m < 2 ^ 32" and t: "GBIT8 m 4 = Twrite"
    and size: "7 \<le> GBIT32 m 0" "GBIT32 m 0 = 23 + GBIT32 m 19" and z: "ap + GBIT32 m 0 \<noteq> 0"
  shows "convM2S m ap (of_nat (length m)) g =
    (if ap + (23 + GBIT32 m 19) > ap + of_nat (length m) then None
     else Some (GBIT32 m 0, g\<lparr>f_type := Twrite, f_tag := ucast (GBIT16 m 5), f_fid := GBIT32 m 7,
       f_offset := GBIT64 m 11, f_count := GBIT32 m 19,
       f_data := take (unat (GBIT32 m 19)) (drop 23 m)\<rparr>, m))"
proof -
  have adv: "\<not> ap + of_nat (length m) < ap + of_nat k" if "k \<le> length m" for k
    using m that by (simp add: word_less_nat_alt unat_plus_small)
  have p: "\<not> ap + of_nat (length m) < ap + 7" "\<not> ap + of_nat (length m) < ap + 23"
    using adv [of 7] adv [of 23] m by simp_all
  have i: "idx ap ap = 0" "idx ap (ap + 4) = 4" "idx ap (ap + 5) = 5" "idx ap (ap + 7) = 7"
    "idx ap (ap + 11) = 11" "idx ap (ap + 19) = 19" "idx ap (ap + 23) = 23"
    by (simp_all add: idx_def)
  have s7: "\<not> GBIT32 m 0 < 7" using size by simp
  show ?thesis
    using p s7 t z size(2)
    by (simp add: convM2S_def convM2S_T_def is_T_def Let_def i add.assoc)
qed

text \<open>
  C5: What the bounds check of Twrite decides, and why C4 asks for the length test. For
  every Twrite message with all its fixed fields whose size field agrees with its count, is
  at least 7 (the decoder refuses less) and does not lead to address 0 (the decoder takes
  that for an error), in a buffer that does not reach the end of the address space, \<^verbatim>\<open>convM2S\<close> accepts exactly when the announced data
  lies in the buffer, or when \<^verbatim>\<open>p+f->count\<close> wraps around at \<open>2 ^ 32\<close>; in the
  second case the decoded count is the announced one, and fewer bytes than it counts are
  left in the buffer.
\<close>

theorem convM2S_count_wraps:
  assumes "23 \<le> length m" and "unat ap + length m < 2 ^ 32" and "GBIT8 m 4 = Twrite"
    and "7 \<le> GBIT32 m 0" and "GBIT32 m 0 = 23 + GBIT32 m 19" and "ap + GBIT32 m 0 \<noteq> 0"
  shows "(convM2S m ap (of_nat (length m)) g \<noteq> None \<longleftrightarrow>
      23 + unat (GBIT32 m 19) \<le> length m \<or> 2 ^ 32 \<le> unat ap + 23 + unat (GBIT32 m 19))
    \<and> (2 ^ 32 \<le> unat ap + 23 + unat (GBIT32 m 19) \<longrightarrow>
        (\<exists>f. convM2S m ap (of_nat (length m)) g = Some (GBIT32 m 0, f, m)
           \<and> f_type f = Twrite \<and> f_count f = GBIT32 m 19 \<and> f_data f = drop 23 m
           \<and> length (f_data f) < unat (f_count f)))"
proof -
  let ?c = "GBIT32 m 19"
  have sum: "unat (ap + (23 + ?c)) = (unat ap + 23 + unat ?c) mod 2 ^ 32"
    by (simp add: unat_word_ariths mod_simps add.assoc)
  have len: "unat (ap + of_nat (length m)) = unat ap + length m"
    using assms by (simp add: unat_plus_small)
  have c: "unat ?c < 2 ^ 32" using unsigned_less [of ?c] by simp
  have gt: "ap + (23 + ?c) > ap + of_nat (length m) \<longleftrightarrow>
      length m < 23 + unat ?c \<and> unat ap + 23 + unat ?c < 2 ^ 32"
  proof (cases "unat ap + 23 + unat ?c < 2 ^ 32")
    case True
    then show ?thesis by (simp add: word_less_nat_alt sum len)
  next
    case False
    then have "(unat ap + 23 + unat ?c) mod 2 ^ 32 = unat ap + 23 + unat ?c - 2 ^ 32"
      using assms c by (simp add: le_mod_geq)
    then show ?thesis using False assms c by (simp add: word_less_nat_alt sum len)
  qed
  have short: "length m < 23 + unat ?c" if "2 ^ 32 \<le> unat ap + 23 + unat ?c"
    using that assms by simp
  show ?thesis
    using convM2S_Twrite [OF assms, of g] gt short assms by (auto simp: not_less)
qed

definition twrite_wrap :: bytes where
  "twrite_wrap = [7, 0, 0, 0, 118, 1, 0, 9, 0, 0, 0, 0, 0, 0, 0, 0, 0, 0, 0, 0xF0, 0xFF, 0xFF, 0xFF]"

text \<open>This 23-byte message, whose size field says 7, announces 4294967280 bytes of data.\<close>

theorem convM2S_count_wraps_witness:
  "\<exists>f. convM2S twrite_wrap 0x10000 23 fcall0 = Some (7, f, twrite_wrap)
     \<and> f_type f = Twrite \<and> f_count f = 4294967280 \<and> f_data f = []"
proof -
  have g: "GBIT8 twrite_wrap 4 = 118" "GBIT32 twrite_wrap 0 = 7" "GBIT32 twrite_wrap 19 = 4294967280"
    "length twrite_wrap = 23"
    by (simp_all add: twrite_wrap_def GBIT8_def GBIT32_def buf_simps)
  show ?thesis
    using convM2S_count_wraps [of twrite_wrap "0x10000" fcall0] g by (auto simp: twrite_wrap_def)
qed

text \<open>
  \<^verbatim>\<open>read9pmsg\<close> stays inside the caller's buffer of \<open>n\<close> bytes whatever the peer sends and
  however the reads fail, and a positive result is the number of bytes stored and the
  size the message announces.
\<close>

lemma read9pmsg_safe:
  assumes "4 \<le> unat n"
  shows "case read9pmsg f n of (k, buf, f') \<Rightarrow>
     length buf \<le> unat n \<and> (k > 0 \<longrightarrow> k = int (length buf) \<and> k = sint (GBIT32 buf 0))"
  using read9pmsg_bound [OF _ assms] by (auto split: prod.splits)

theorem read9pmsg_safe_witness:
  "case read9pmsg [Chunk [9, 0], Chunk [0, 0, 1], Chunk [2, 3], Chunk [4, 5, 6]] 16 of (k, buf, f') \<Rightarrow>
     length buf \<le> 16 \<and> (k > 0 \<longrightarrow> k = int (length buf) \<and> k = sint (GBIT32 buf 0))"
  using read9pmsg_safe [of 16 "[Chunk [9, 0], Chunk [0, 0, 1], Chunk [2, 3], Chunk [4, 5, 6]]"] by simp

text \<open>
  \<^verbatim>\<open>readn\<close> hides the boundaries of the underlying reads: on a connection that
  delivers at least \<open>n\<close> more bytes, in chunks of any size, it returns exactly the next
  \<open>n\<close> bytes and leaves the rest to be read.
\<close>

theorem readn_exact:
  assumes "flowing f" and "n \<le> length (content f)"
  shows "\<exists>f'. readn f n = (int n, take n (content f), f') \<and> flowing f' \<and> content f' = drop n (content f)"
  using readn_flowing [OF assms] by blast

theorem readn_exact_witness:
  "\<exists>f'. readn [Chunk [1, 2], Chunk [3], Chunk [4, 5]] 4 = (4, [1, 2, 3, 4], f')
     \<and> flowing f' \<and> content f' = [5]"
  using readn_exact [of "[Chunk [1, 2], Chunk [3], Chunk [4, 5]]" 4]
  by (simp add: flowing_def eval_nat_numeral)

text \<open>
  C6: End to end. When the bytes of any sequence of well-formed messages that fit the
  receive buffer arrive on a connection, split into reads in any way, the receive loop of a
  9P server gets exactly these messages, in order, and then the end of the connection.
\<close>

theorem getmsgs_stream:
  assumes "\<forall>f \<in> set fs. fcall_wf f \<and> wire_len f < 2 ^ 31 \<and> wire_len f \<le> unat msize"
    and "flowing fd" and "content fd = concat (map wire fs)" and "length fs < k"
    and "unat ap + unat msize + 2 ^ 17 < 2 ^ 32"
    and "length (f_wname g) = MAXWELEM" and "length (f_wqid g) = MAXWELEM"
  shows "getmsgs k msize ap g fd = map (\<lambda>f. recv f g) fs"
proof -
  have "rbuf ap msize g" using assms(5-7) by unfold_locales
  then show ?thesis
    using rbuf.getmsgs_sendable [of ap msize g fs fd k] assms(1-4) by (simp add: rbuf.sendable_def)
qed

theorem getmsgs_stream_witness:
  "getmsgs 3 8216 0x10000 fcall0
     [Chunk (take 9 (wire tversion_msg)), Chunk (drop 9 (wire tversion_msg) @ wire rerror_msg)]
   = [recv tversion_msg fcall0, recv rerror_msg fcall0]"
proof -
  have "length (wire tversion_msg) = 19" "length (wire rerror_msg) = 12"
    by (simp_all add: length_wire tversion_msg_wf rerror_msg_wf)
  moreover from this have "wire tversion_msg \<noteq> []" by auto
  ultimately show ?thesis
    using getmsgs_stream [where fs = "[tversion_msg, rerror_msg]" and msize = 8216 and k = 3
        and ap = "0x10000" and g = fcall0 and fd = "[Chunk (take 9 (wire tversion_msg)),
          Chunk (drop 9 (wire tversion_msg) @ wire rerror_msg)]"] tversion_msg_wf rerror_msg_wf
    by (auto simp: flowing_def)
qed

end
