(* ===== verification/Dirstat.thy ===== *)
theory Dirstat
  imports Fcall_Wire
begin

text \<open>
  Directory entries on the wire: \<^verbatim>\<open>sizeD2M\<close> and \<^verbatim>\<open>convD2M\<close> (\<^verbatim>\<open>9sys/convD2M.c\<close>), \<^verbatim>\<open>statcheck\<close>
  and \<^verbatim>\<open>convM2D\<close> (\<^verbatim>\<open>9sys/convM2D.c\<close>). Sums of string lengths are natural numbers: the C
  code adds them as \<open>int\<close>, so the model is about strings of less than \<open>2 ^ 31\<close> bytes
  in total. A pointer into the buffer is its offset from the start.
\<close>

record dir =
  d_type :: ushort
  d_dev :: uint
  d_qid :: qid
  d_mode :: uint
  d_atime :: uint
  d_mtime :: uint
  d_length :: uvlong
  d_name :: "bytes option"
  d_uid :: "bytes option"
  d_gid :: "bytes option"
  d_muid :: "bytes option"

definition dir_sv :: "dir \<Rightarrow> bytes option list" where
  "dir_sv d = [d_name d, d_uid d, d_gid d, d_muid d]"

definition nsv :: "bytes option \<Rightarrow> nat" where
  "nsv s = (case s of None \<Rightarrow> 0 | Some b \<Rightarrow> length b)"

abbreviation (input) STATFIX :: nat where "STATFIX \<equiv> 49"

definition sizeD2M :: "dir \<Rightarrow> nat" where
  "sizeD2M d = STATFIX + foldl (\<lambda>ns s. ns + nsv s) 0 (dir_sv d)"

section \<open>convD2M\<close>

text \<open>The loop over the four strings; \<open>None\<close> is the \<open>return 0\<close> inside it.\<close>

fun putstrs :: "nat \<Rightarrow> bytes option list \<Rightarrow> wstate \<Rightarrow> bytes \<times> nat option" where
  "putstrs ebuf [] (m, p) = (m, Some p)"
| "putstrs ebuf (s # sv) (m, p) =
     (let ns = nsv s in
      if p + ns + 2 > ebuf then (m, None)
      else
        let m = poke m p (PBIT16 (of_nat ns :: uint)); p = p + 2;
            m = (if ns \<noteq> 0 then poke m p (the s) else m);
            p = p + ns
        in putstrs ebuf sv (m, p))"

definition convD2M :: "dir \<Rightarrow> bytes \<Rightarrow> nat \<Rightarrow> nat \<times> bytes" where
  "convD2M d m nbuf =
     (if nbuf < 2 then (0, m)
      else
        let ss = STATFIX + foldl (\<lambda>ns s. ns + nsv s) 0 (dir_sv d);
            (m, p) = put (PBIT16 (of_nat (ss - 2) :: uint)) (m, 0)
        in if ss > nbuf then (2, m)
           else
             let st = steps [put (PBIT16 (d_type d)), put (PBIT32 (d_dev d)),
                   put (PBIT8 (q_type (d_qid d))), put (PBIT32 (q_vers (d_qid d))),
                   put (PBIT64 (q_path (d_qid d))), put (PBIT32 (d_mode d)),
                   put (PBIT32 (d_atime d)), put (PBIT32 (d_mtime d)),
                   put (PBIT64 (d_length d))] (m, p)
             in case putstrs nbuf (dir_sv d) st of
                  (m, None) \<Rightarrow> (0, m)
                | (m, Some p) \<Rightarrow> if ss \<noteq> p then (0, m) else (p, m))"

section \<open>statcheck and convM2D\<close>

text \<open>\<open>statcheck m i nbuf\<close> is \<open>statcheck(&m[i], nbuf) = 0\<close>.\<close>

fun stat_strs :: "bytes \<Rightarrow> nat \<Rightarrow> nat \<Rightarrow> nat \<Rightarrow> nat option" where
  "stat_strs m ebuf 0 buf = Some buf"
| "stat_strs m ebuf (Suc k) buf =
     (if buf + 2 > ebuf then None
      else stat_strs m ebuf k (buf + (2 + unat (GBIT16 m buf))))"

definition statcheck :: "bytes \<Rightarrow> nat \<Rightarrow> nat \<Rightarrow> bool" where
  "statcheck m i nbuf =
     (let ebuf = i + nbuf in
      if nbuf < STATFIX \<or> nbuf \<noteq> 2 + unat (GBIT16 m i) then False
      else case stat_strs m ebuf 4 (i + (STATFIX - 4 * 2)) of
             None \<Rightarrow> False
           | Some buf \<Rightarrow> buf = ebuf)"

text \<open>
  The string loop of \<open>convM2D\<close> with \<open>strs\<close> non-nil: \<open>strs\<close> is what has been stored in
  the caller's string area so far, and each entry of the result is the C string that
  starts at the place the string was copied to.
\<close>

fun getstrs :: "bytes \<Rightarrow> nat \<Rightarrow> nat \<Rightarrow> nat \<Rightarrow> bytes \<Rightarrow> (bytes list \<times> bytes \<times> nat) option" where
  "getstrs m ebuf 0 p strs = Some ([], strs, p)"
| "getstrs m ebuf (Suc k) p strs =
     (if p + 2 > ebuf then None
      else
        let ns = unat (GBIT16 m p); p = p + 2 in
        if p + ns > ebuf then None
        else
          let s0 = length strs; strs = strs @ cpy (drop p m) ns @ [0] in
          case getstrs m ebuf k (p + ns) strs of
            None \<Rightarrow> None
          | Some (sv, strs', p') \<Rightarrow> Some (cstr strs s0 # sv, strs', p'))"

text \<open>The same loop with \<open>strs\<close> nil only checks the counts.\<close>

fun skipstrs :: "bytes \<Rightarrow> nat \<Rightarrow> nat \<Rightarrow> nat \<Rightarrow> nat option" where
  "skipstrs m ebuf 0 p = Some p"
| "skipstrs m ebuf (Suc k) p =
     (if p + 2 > ebuf then None
      else let ns = unat (GBIT16 m p); p = p + 2 in
        if p + ns > ebuf then None else skipstrs m ebuf k (p + ns))"

definition convM2D_fixed :: "bytes \<Rightarrow> nat \<Rightarrow> dir \<Rightarrow> dir" where
  "convM2D_fixed m p d =
     d\<lparr>d_type := ucast (GBIT16 m (p + 2)), d_dev := GBIT32 m (p + 4),
       d_qid := \<lparr>q_path = GBIT64 m (p + 13), q_vers = GBIT32 m (p + 9), q_type = GBIT8 m (p + 8)\<rparr>,
       d_mode := GBIT32 m (p + 21), d_atime := GBIT32 m (p + 25), d_mtime := GBIT32 m (p + 29),
       d_length := GBIT64 m (p + 33)\<rparr>"

text \<open>
  \<open>convM2D m i nbuf d strs\<close> converts the entry at offset \<open>i\<close>; \<open>strs\<close> is the content of
  the caller's string area (\<open>None\<close>: the pointer is nil). The result is the value
  returned, the Dir and the string area; \<open>None\<close> is the return value 0.
\<close>

definition convM2D :: "bytes \<Rightarrow> nat \<Rightarrow> nat \<Rightarrow> dir \<Rightarrow> bytes option \<Rightarrow> (nat \<times> dir \<times> bytes option) option" where
  "convM2D m i nbuf d strs =
     (if nbuf < STATFIX then None
      else
        let ebuf = i + nbuf; d = convM2D_fixed m i d; p = i + 41 in
        case strs of
          Some st \<Rightarrow> (case getstrs m ebuf 4 p st of
              None \<Rightarrow> None
            | Some (sv, st', p') \<Rightarrow>
                Some (p' - i, d\<lparr>d_name := Some (sv ! 0), d_uid := Some (sv ! 1),
                  d_gid := Some (sv ! 2), d_muid := Some (sv ! 3)\<rparr>, Some st'))
        | None \<Rightarrow> (case skipstrs m ebuf 4 p of
              None \<Rightarrow> None
            | Some p' \<Rightarrow>
                Some (p' - i, d\<lparr>d_name := Some [], d_uid := Some [],
                  d_gid := Some [], d_muid := Some []\<rparr>, None)))"

section \<open>dirpackage\<close>

text \<open>
  \<open>dirpackage(buf, ts, d)\<close> of \<^verbatim>\<open>9sys/dirread.c\<close>. The first pass counts the entries and
  stops at the first that does not look like one; the second converts them into the
  array it allocates (\<open>alloc\<close>: whether \<open>malloc\<close> succeeds). \<open>Inl ()\<close> is the return value -1.
\<close>

function dirscan :: "bytes \<Rightarrow> nat \<Rightarrow> nat \<Rightarrow> nat \<Rightarrow> nat \<times> nat" where
  "dirscan m ts i n =
     (if i < ts then
        let k = 2 + unat (GBIT16 m i) in
        if \<not> statcheck m i k then (i, n)
        else dirscan m ts (i + k) (n + 1)
      else (i, n))"
  by pat_completeness auto
termination by (relation "measure (\<lambda>(m, ts, i, n). ts - i)") auto

definition dir0 :: dir where
  "dir0 = \<lparr>d_type = 0, d_dev = 0, d_qid = \<lparr>q_path = 0, q_vers = 0, q_type = 0\<rparr>, d_mode = 0,
     d_atime = 0, d_mtime = 0, d_length = 0, d_name = None, d_uid = None, d_gid = None, d_muid = None\<rparr>"

function dirconv :: "bytes \<Rightarrow> nat \<Rightarrow> nat \<Rightarrow> nat \<Rightarrow> nat \<Rightarrow> dir list \<Rightarrow> unit + dir list" where
  "dirconv m ts n i nn acc =
     (if i < ts then
        let k = 2 + unat (GBIT16 m i) in
        if nn \<ge> n then Inl ()
        else case convM2D m i k dir0 (Some []) of
               None \<Rightarrow> Inl ()
             | Some (r, d, _) \<Rightarrow>
                 if r \<noteq> k then Inl () else dirconv m ts n (i + k) (nn + 1) (acc @ [d])
      else Inr acc)"
  by pat_completeness auto
termination by (relation "measure (\<lambda>(m, ts, n, i, nn, acc). ts - i)") auto

definition dirpackage :: "bytes \<Rightarrow> int \<Rightarrow> bool \<Rightarrow> unit + dir list" where
  "dirpackage m ts alloc =
     (if ts \<le> 0 then Inr []
      else
        let (i, n) = dirscan m (nat ts) 0 0 in
        if i \<noteq> nat ts then Inl ()
        else if \<not> alloc then Inl ()
        else dirconv m (nat ts) n 0 0 [])"

end
