(* ===== verification/Dir_Roundtrip.thy ===== *)
theory Dir_Roundtrip
  imports Dirstat Framing
begin

text \<open>
  Directory entries: \<open>convD2M\<close> refines the stat wire format, \<open>convM2D\<close> inverts it, and
  \<open>statcheck\<close> is the contract that makes the two passes of \<open>dirpackage\<close> agree.
\<close>

section \<open>The stat format\<close>

definition stat_wire :: "dir \<Rightarrow> bytes" where
  "stat_wire d = PBIT16 (of_nat (sizeD2M d - 2) :: uint) @ PBIT16 (d_type d) @ PBIT32 (d_dev d) @
     enc_qid (d_qid d) @ PBIT32 (d_mode d) @ PBIT32 (d_atime d) @ PBIT32 (d_mtime d) @
     PBIT64 (d_length d) @ concat (map enc_str (dir_sv d))"

text \<open>Strings are C strings and the entry fits its 16-bit count.\<close>

definition dir_wf :: "dir \<Rightarrow> bool" where
  "dir_wf d \<longleftrightarrow> (\<forall>s \<in> set (dir_sv d). nulfree (str s)) \<and> sizeD2M d - 2 < 2 ^ 16"

lemma nsv_str: "nsv s = length (str s)"
  by (simp add: nsv_def str_def split: option.split)

lemma length_enc_str: "length (enc_str s) = 2 + length (str s)"
  by (simp add: enc_str_str)

lemma sizeD2M_strs: "sizeD2M d = 41 + length (concat (map enc_str (dir_sv d)))"
  by (simp add: sizeD2M_def dir_sv_def nsv_str length_enc_str)

lemma length_stat_wire: "length (stat_wire d) = sizeD2M d"
  by (simp add: stat_wire_def sizeD2M_strs del: length_concat)

lemma sizeD2M_ge: "49 \<le> sizeD2M d"
  by (simp add: sizeD2M_def)

lemma dir_strs_ok: "dir_wf d \<Longrightarrow> s \<in> set (dir_sv d) \<Longrightarrow> str_ok s"
  by (auto simp: dir_wf_def str_ok_def sizeD2M_def dir_sv_def nsv_str)

section \<open>convD2M\<close>

lemma putstr_step:
  "p + length (enc_str s) \<le> length m \<Longrightarrow>
   (if nsv s \<noteq> 0 then poke (poke m p (PBIT16 (of_nat (nsv s) :: uint))) (p + 2) (the s)
    else poke m p (PBIT16 (of_nat (nsv s) :: uint))) = poke m p (enc_str s)"
  using poke_poke_adjacent [of p m "PBIT16 (of_nat (nsv s) :: uint)" "str s"]
  by (cases s) (auto simp: enc_str_str nsv_str str_def)

lemma putstrs_enc:
  assumes "p + length (concat (map enc_str sv)) \<le> ebuf" and "ebuf \<le> length m"
  shows "putstrs ebuf sv (m, p)
    = (poke m p (concat (map enc_str sv)), Some (p + length (concat (map enc_str sv))))"
  using assms
proof (induction sv arbitrary: m p)
  case Nil
  then show ?case by simp
next
  case (Cons s sv)
  let ?m = "poke m p (enc_str s)" and ?p = "p + length (enc_str s)"
  have "putstrs ebuf (s # sv) (m, p) = putstrs ebuf sv (?m, ?p)"
    using Cons.prems putstr_step [of p s m]
    by (simp add: Let_def length_enc_str nsv_str add.assoc del: length_concat split: if_splits)
  also have "\<dots> = (poke ?m ?p (concat (map enc_str sv)), Some (?p + length (concat (map enc_str sv))))"
    using Cons.prems by (intro Cons.IH) simp_all
  finally show ?case using Cons.prems by (simp add: poke_poke_adjacent)
qed

lemma convD2M_wire:
  assumes fits: "sizeD2M d \<le> nbuf" and m: "nbuf \<le> length m"
  shows "convD2M d m nbuf = (sizeD2M d, poke m 0 (stat_wire d))"
proof -
  let ?c = "PBIT16 (of_nat (sizeD2M d - 2) :: uint)"
  let ?ops = "[put (PBIT16 (d_type d)), put (PBIT32 (d_dev d)), put (PBIT8 (q_type (d_qid d))),
    put (PBIT32 (q_vers (d_qid d))), put (PBIT64 (q_path (d_qid d))), put (PBIT32 (d_mode d)),
    put (PBIT32 (d_atime d)), put (PBIT32 (d_mtime d)), put (PBIT64 (d_length d))]"
  let ?fix = "PBIT16 (d_type d) @ PBIT32 (d_dev d) @ PBIT8 (q_type (d_qid d)) @
    PBIT32 (q_vers (d_qid d)) @ PBIT64 (q_path (d_qid d)) @ PBIT32 (d_mode d) @
    PBIT32 (d_atime d) @ PBIT32 (d_mtime d) @ PBIT64 (d_length d)"
  let ?s = "concat (map enc_str (dir_sv d))"
  have big: "49 \<le> length m" using fits m sizeD2M_ge [of d] by simp
  have "steps ?ops (poke m 0 ?c, 2) = (poke (poke m 0 ?c) 2 ?fix, 2 + length ?fix)"
    using big by (intro emitsD emit_intros) simp
  then have 1: "steps ?ops (poke m 0 ?c, 2) = (poke m 0 (?c @ ?fix), 41)"
    using poke_poke_adjacent [of 0 m ?c ?fix] by simp
  have "putstrs nbuf (dir_sv d) (poke m 0 (?c @ ?fix), 41)
      = (poke (poke m 0 (?c @ ?fix)) 41 ?s, Some (41 + length ?s))"
    using fits m big by (intro putstrs_enc) (simp_all add: sizeD2M_strs del: length_concat)
  then have 2: "putstrs nbuf (dir_sv d) (poke m 0 (?c @ ?fix), 41)
      = (poke m 0 (stat_wire d), Some (sizeD2M d))"
    using poke_poke_adjacent [of 0 m "?c @ ?fix" ?s]
    by (simp add: stat_wire_def enc_qid_def sizeD2M_strs del: length_concat)
  show ?thesis
    using fits sizeD2M_ge [of d] 1 2
    by (simp add: convD2M_def put_def Let_def sizeD2M_def [symmetric])
qed

text \<open>
  A buffer too small for the entry: with room for the count, the result is 2, and the 2-byte count the
  caller needs to size its buffer is written; with less room it is 0; no other byte changes.
\<close>

lemma convD2M_short:
  assumes "nbuf < sizeD2M d" and "nbuf \<le> length m"
  shows "convD2M d m nbuf = (if nbuf < 2 then (0, m)
     else (2, PBIT16 (of_nat (sizeD2M d - 2) :: uint) @ drop 2 m))"
proof (cases "nbuf < 2")
  case True
  then show ?thesis by (simp add: convD2M_def)
next
  case False
  have "foldl (\<lambda>ns s. ns + nsv s) 0 (dir_sv d) = sizeD2M d - 49" by (simp add: sizeD2M_def)
  moreover have "49 + (sizeD2M d - 49) = sizeD2M d" using sizeD2M_ge [of d] by simp
  ultimately show ?thesis using False assms(1)
    by (simp add: convD2M_def Let_def put_def poke_def)
qed

section \<open>convM2D inverts convD2M\<close>

lemma getstrs_enc:
  assumes "drop p m = concat (map enc_str sv) @ r" and "\<forall>s \<in> set sv. str_ok s"
    and "p + length (concat (map enc_str sv)) \<le> ebuf"
  shows "\<exists>st'. getstrs m ebuf (length sv) p st
    = Some (map str sv, st', p + length (concat (map enc_str sv)))"
  using assms
proof (induction sv arbitrary: p st)
  case Nil
  then show ?case by simp
next
  case (Cons s sv)
  let ?n = "length (str s)"
  have ok: "nulfree (str s)" "?n < 2 ^ 16" using Cons.prems(2) by (auto simp: str_ok_def)
  have d0: "drop p m = PBIT16 (of_nat ?n :: uint) @ str s @ concat (map enc_str sv) @ r"
    using Cons.prems(1) by (simp add: enc_str_str [of s])
  have d1: "drop (p + 2) m = str s @ concat (map enc_str sv) @ r"
    using drop_append_advance [OF d0] by simp
  have d2: "drop (p + 2 + ?n) m = concat (map enc_str sv) @ r"
    using drop_append_advance [OF d1] by simp
  have cnt: "unat (GBIT16 m p) = ?n"
    using GBIT16_count [OF d0 ok(2)] ok(2) by simp
  have cs: "cstr (st @ str s @ [0]) (length st) = str s"
    using ok(1) by (intro cstr_terminated [where r = "[]"]) simp_all
  obtain st' where "getstrs m ebuf (length sv) (p + 2 + ?n) (st @ str s @ [0])
      = Some (map str sv, st', p + 2 + ?n + length (concat (map enc_str sv)))"
    using Cons.IH [OF d2] Cons.prems(2,3) by (force simp: length_enc_str)
  then show ?case
    using Cons.prems(3) cnt cs d1 by (simp add: Let_def length_enc_str del: length_concat)
qed

definition dir_norm :: "dir \<Rightarrow> dir" where
  "dir_norm d = d\<lparr>d_name := Some (str (d_name d)), d_uid := Some (str (d_uid d)),
     d_gid := Some (str (d_gid d)), d_muid := Some (str (d_muid d))\<rparr>"

lemma convM2D_fixed_wire:
  assumes "drop i m = stat_wire d @ r"
  shows "convM2D_fixed m i d0 = d\<lparr>d_name := d_name d0, d_uid := d_uid d0, d_gid := d_gid d0,
      d_muid := d_muid d0\<rparr>"
    and "drop (i + 41) m = concat (map enc_str (dir_sv d)) @ r"
proof -
  note w0 = assms [unfolded stat_wire_def enc_qid_def append.assoc]
  note w1 = drop_append_advance [OF w0, unfolded length_PBIT]
  note w2 = drop_append_advance [OF w1, unfolded length_PBIT]
  note w3 = drop_append_advance [OF w2, unfolded length_PBIT]
  note w4 = drop_append_advance [OF w3, unfolded length_PBIT]
  note w5 = drop_append_advance [OF w4, unfolded length_PBIT]
  note w6 = drop_append_advance [OF w5, unfolded length_PBIT]
  note w7 = drop_append_advance [OF w6, unfolded length_PBIT]
  note w8 = drop_append_advance [OF w7, unfolded length_PBIT]
  note w9 = drop_append_advance [OF w8, unfolded length_PBIT]
  note w10 = drop_append_advance [OF w9, unfolded length_PBIT]
  show "convM2D_fixed m i d0 = d\<lparr>d_name := d_name d0, d_uid := d_uid d0, d_gid := d_gid d0,
      d_muid := d_muid d0\<rparr>"
    using GBIT_at(2) [OF w1] GBIT_at(3) [OF w2] GBIT_at(1) [OF w3] GBIT_at(3) [OF w4]
      GBIT_at(4) [OF w5] GBIT_at(3) [OF w6] GBIT_at(3) [OF w7] GBIT_at(3) [OF w8] GBIT_at(4) [OF w9]
    by (cases d0, cases d, cases "d_qid d") (simp add: convM2D_fixed_def add.commute)
  show "drop (i + 41) m = concat (map enc_str (dir_sv d)) @ r"
    using w10 by (simp add: add.commute)
qed

lemma convM2D_wire:
  assumes d: "drop i m = stat_wire d @ r" and wf: "dir_wf d" and n: "sizeD2M d \<le> nbuf"
  shows "\<exists>st'. convM2D m i nbuf d0 (Some st) = Some (sizeD2M d, dir_norm d, Some st')"
proof -
  have len: "length (dir_sv d) = 4" by (simp add: dir_sv_def)
  have "i + 41 + length (concat (map enc_str (dir_sv d))) \<le> i + nbuf"
    using n by (simp add: sizeD2M_strs del: length_concat)
  then obtain st' where "getstrs m (i + nbuf) 4 (i + 41) st
      = Some (map str (dir_sv d), st', i + 41 + length (concat (map enc_str (dir_sv d))))"
    using getstrs_enc [OF convM2D_fixed_wire(2) [OF d], of "i + nbuf" st] dir_strs_ok [OF wf]
    unfolding len by blast
  then show ?thesis
    using n sizeD2M_ge [of d]
    by (simp add: convM2D_def Let_def convM2D_fixed_wire(1) [OF d] dir_norm_def dir_sv_def
        sizeD2M_strs del: length_concat)
qed

section \<open>statcheck is the contract of convM2D\<close>

lemma stat_strs_mono: "stat_strs m e k b = Some b' \<Longrightarrow> b \<le> b'"
  by (induction m e k b rule: stat_strs.induct) (auto split: if_splits)

lemma stat_strs_getstrs:
  assumes "stat_strs m e k b = Some e"
  shows "\<exists>sv st'. getstrs m e k b st = Some (sv, st', e) \<and> length st' + k = length st + (e - b)"
  using assms
proof (induction k arbitrary: b st)
  case 0
  then show ?case by simp
next
  case (Suc k)
  let ?n = "unat (GBIT16 m b)" and ?st = "st @ cpy (drop (b + 2) m) (unat (GBIT16 m b)) @ [0]"
  have b: "b + 2 \<le> e" and s: "stat_strs m e k (b + (2 + ?n)) = Some e"
    using Suc.prems by (auto split: if_splits)
  have le: "b + (2 + ?n) \<le> e" using stat_strs_mono [OF s] .
  obtain sv st' where "getstrs m e k (b + (2 + ?n)) ?st = Some (sv, st', e)"
    and "length st' + k = length ?st + (e - (b + (2 + ?n)))"
    using Suc.IH [OF s] by blast
  then show ?case using b le by (simp add: Let_def add.assoc)
qed

text \<open>An entry that passes the check converts, consumes exactly its own bytes, and its four
  strings with their NULs fit in as many bytes as the entry has.\<close>

lemma statcheck_convM2D:
  assumes "statcheck m i n"
  shows "\<exists>d st'. convM2D m i n d0 (Some []) = Some (n, d, Some st') \<and> length st' \<le> n"
proof -
  have n: "49 \<le> n" and s: "stat_strs m (i + n) 4 (i + 41) = Some (i + n)"
    using assms by (auto simp: statcheck_def Let_def split: if_splits option.splits)
  obtain sv st' where "getstrs m (i + n) 4 (i + 41) [] = Some (sv, st', i + n)"
    and "length st' + 4 = i + n - (i + 41)"
    using stat_strs_getstrs [OF s, of "[]"] by auto
  then show ?thesis using n by (simp add: convM2D_def Let_def)
qed

section \<open>The two passes of dirpackage\<close>

declare dirscan.simps [simp del] dirconv.simps [simp del]

lemma dirscan_dirconv:
  assumes "dirscan m ts i n = (ts, n')"
  shows "n \<le> n' \<and> (\<forall>acc. \<exists>ds. dirconv m ts n' i n acc = Inr (acc @ ds) \<and> length ds = n' - n)"
  using assms
proof (induction m ts i n rule: dirscan.induct)
  case (1 m ts i n)
  show ?case
  proof (cases "i < ts")
    case False
    with 1 show ?thesis by (simp add: dirscan.simps [of m ts i n] dirconv.simps [of m ts])
  next
    case True
    let ?k = "2 + unat (GBIT16 m i)"
    have chk: "statcheck m i ?k" and scan: "dirscan m ts (i + ?k) (n + 1) = (ts, n')"
      using "1.prems" True by (auto simp: dirscan.simps [of m ts i n] Let_def split: if_splits)
    have IH: "n + 1 \<le> n' \<and> (\<forall>acc. \<exists>ds. dirconv m ts n' (i + ?k) (n + 1) acc = Inr (acc @ ds)
        \<and> length ds = n' - (n + 1))"
      using "1.IH" [OF True refl] chk scan by simp
    obtain d st where "convM2D m i ?k dir0 (Some []) = Some (?k, d, Some st)"
      using statcheck_convM2D [OF chk] by blast
    then have "dirconv m ts n' i n acc = dirconv m ts n' (i + ?k) (n + 1) (acc @ [d])" for acc
      using True IH by (simp add: dirconv.simps [of m ts n' i] Let_def)
    then show ?thesis using IH
      by (metis Suc_diff_le Suc_eq_plus1 add_leD1 append.assoc append_Cons append_Nil diff_Suc_Suc length_Cons)
  qed
qed

lemma dirscan_result: "dirscan m ts i n = (i', n') \<Longrightarrow> i < ts \<Longrightarrow> i' \<noteq> ts \<or> n < n'"
proof (induction m ts i n rule: dirscan.induct)
  case (1 m ts i n)
  then show ?case
    using dirscan_dirconv [of m ts "i + (2 + unat (GBIT16 m i))" "n + 1" n']
    by (auto simp: dirscan.simps [of m ts i n] Let_def split: if_splits)
qed

section \<open>Directory entries are a framed encoding\<close>

definition stat_flen :: "bytes \<Rightarrow> nat" where
  "stat_flen m = 2 + unat (GBIT16 m 0)"

definition stat_dec :: "bytes \<Rightarrow> dir option" where
  "stat_dec m = (case convM2D m 0 (length m) dir0 (Some []) of
       None \<Rightarrow> None
     | Some (r, d, _) \<Rightarrow> if r = length m then Some d else None)"

lemma stat_flen_wire: "dir_wf d \<Longrightarrow> stat_flen (stat_wire d @ r) = length (stat_wire d)"
proof -
  assume wf: "dir_wf d"
  let ?n = "sizeD2M d - 2"
  have n: "?n < 2 ^ 16" using wf by (simp add: dir_wf_def)
  have "drop 0 (stat_wire d @ r) = PBIT16 (of_nat ?n :: uint) @ drop 2 (stat_wire d @ r)"
    by (simp add: stat_wire_def PBIT16_def numeral_2_eq_2)
  then have "unat (GBIT16 (stat_wire d @ r) 0) = ?n"
    using n by (simp add: GBIT16_count del: of_nat_diff drop_append)
  then show ?thesis using sizeD2M_ge [of d] by (simp add: stat_flen_def length_stat_wire)
qed

interpretation stat_frames: framed stat_flen stat_wire stat_dec dir_wf dir_norm
proof
  fix d r assume wf: "dir_wf d"
  show "stat_flen (stat_wire d @ r) = length (stat_wire d)"
    by (rule stat_flen_wire [OF wf])
  show "stat_wire d \<noteq> []"
    using sizeD2M_ge [of d] length_stat_wire [of d] by auto
  obtain st' where "convM2D (stat_wire d) 0 (length (stat_wire d)) dir0 (Some [])
      = Some (sizeD2M d, dir_norm d, Some st')"
    using convM2D_wire [of 0 "stat_wire d" d "[]" "length (stat_wire d)" dir0 "[]"] wf
    by (auto simp: length_stat_wire)
  then show "stat_dec (stat_wire d) = Some (dir_norm d)"
    by (simp add: stat_dec_def length_stat_wire)
qed

section \<open>dirpackage refines deframe\<close>

text \<open>Conversion looks at the bytes of the entry only.\<close>

lemma rd_slice: "i + n \<le> length m \<Longrightarrow> p < n \<Longrightarrow> rd (take n (drop i m)) p = rd m (i + p)"
  by (simp add: rd_def)

lemma GBIT_slice:
  assumes "i + n \<le> length m"
  shows "p + 1 \<le> n \<Longrightarrow> GBIT8 (take n (drop i m)) p = GBIT8 m (i + p)"
    and "p + 2 \<le> n \<Longrightarrow> GBIT16 (take n (drop i m)) p = GBIT16 m (i + p)"
    and "p + 4 \<le> n \<Longrightarrow> GBIT32 (take n (drop i m)) p = GBIT32 m (i + p)"
    and "p + 8 \<le> n \<Longrightarrow> GBIT64 (take n (drop i m)) p = GBIT64 m (i + p)"
  using assms by (simp_all add: GBIT8_def GBIT16_def GBIT32_def GBIT64_def rd_slice add_ac)

lemma getstrs_slice:
  assumes "i + n \<le> length m"
  shows "getstrs m (i + n) k (i + p) st
    = map_option (\<lambda>(sv, st', p'). (sv, st', i + p')) (getstrs (take n (drop i m)) n k p st)"
proof (induction k arbitrary: p st)
  case 0
  then show ?case by simp
next
  case (Suc k)
  let ?w = "unat (GBIT16 m (i + p))"
  show ?case
  proof (cases "p + 2 + ?w \<le> n")
    case True
    then have "cpy (drop (p + 2) (take n (drop i m))) ?w = cpy (drop (i + p + 2) m) ?w"
      using assms by (auto simp: cpy_def rd_drop rd_slice add.assoc)
    then show ?thesis
      using True GBIT_slice(2) [OF assms, of p] Suc.IH [of "p + 2 + ?w"]
      by (simp add: Let_def add.assoc split: option.splits prod.splits)
  next
    case False
    then show ?thesis
      using GBIT_slice(2) [OF assms, of p] by (auto simp: Let_def)
  qed
qed

lemma convM2D_slice:
  assumes "i + n \<le> length m" and "49 \<le> n"
  shows "convM2D m i n d0 (Some st) = convM2D (take n (drop i m)) 0 n d0 (Some st)"
  using assms getstrs_slice [OF assms(1), of 4 41 st]
  by (auto simp: convM2D_def convM2D_fixed_def Let_def GBIT_slice [OF assms(1)] split: option.splits)

lemma getstrs_stat_strs:
  "getstrs m e k b st = Some (sv, st', e) \<Longrightarrow> stat_strs m e k b = Some e"
proof (induction k arbitrary: b st sv)
  case 0
  then show ?case by simp
next
  case (Suc k)
  then show ?case
    by (auto simp: Let_def add.assoc split: if_splits option.splits)
qed

lemma getstrs_le: "getstrs m e k b st = Some (sv, st', p') \<Longrightarrow> b \<le> e \<Longrightarrow> b \<le> p' \<and> p' \<le> e"
proof (induction k arbitrary: b st sv)
  case 0
  then show ?case by simp
next
  case (Suc k)
  then show ?case
    by (fastforce simp: Let_def split: if_splits option.splits)
qed

lemma statcheck_iff:
  "statcheck m i n \<longleftrightarrow> n = 2 + unat (GBIT16 m i) \<and>
     (\<exists>d st'. convM2D m i n dir0 (Some []) = Some (n, d, Some st'))"
proof
  assume "statcheck m i n"
  then show "n = 2 + unat (GBIT16 m i) \<and>
     (\<exists>d st'. convM2D m i n dir0 (Some []) = Some (n, d, Some st'))"
    using statcheck_convM2D [of m i n dir0] by (auto simp: statcheck_def Let_def split: if_splits)
next
  assume *: "n = 2 + unat (GBIT16 m i) \<and>
     (\<exists>d st'. convM2D m i n dir0 (Some []) = Some (n, d, Some st'))"
  then obtain sv st' p' where n: "49 \<le> n" and g: "getstrs m (i + n) 4 (i + 41) [] = Some (sv, st', p')"
    and p': "p' - i = n"
    by (auto simp: convM2D_def Let_def split: if_splits option.splits)
  have "p' = i + n" using getstrs_le [OF g] n p' by simp
  then show "statcheck m i n" using getstrs_stat_strs [of m "i + n" 4 "i + 41" "[]" sv st'] g n *
    by (simp add: statcheck_def Let_def)
qed

lemma stat_dec_Some:
  assumes "i + n \<le> length m" and "49 \<le> n" and "convM2D m i n dir0 (Some []) = Some (n, d, st')"
  shows "stat_dec (take n (drop i m)) = Some d"
proof -
  have "length (take n (drop i m)) = n" using assms(1) by simp
  then show ?thesis
    using assms(3) convM2D_slice [OF assms(1,2), of dir0 "[]"] by (simp add: stat_dec_def del: length_take)
qed

lemma stat_dec_None:
  assumes "i + n \<le> length m" and "\<nexists>d st'. convM2D m i n dir0 (Some []) = Some (n, d, Some st')"
  shows "stat_dec (take n (drop i m)) = None"
proof (cases "49 \<le> n")
  case True
  then have "convM2D (take n (drop i m)) 0 n dir0 (Some []) = convM2D m i n dir0 (Some [])"
    using convM2D_slice [OF assms(1)] by simp
  moreover have "snd (snd x) \<noteq> None" if "convM2D m i n dir0 (Some []) = Some x" for x
    using that by (auto simp: convM2D_def Let_def split: if_splits option.splits)
  ultimately show ?thesis
    using assms by (fastforce simp: stat_dec_def min_absorb2 split: option.splits)
next
  case False
  then show ?thesis using assms(1) by (simp add: stat_dec_def convM2D_def min_absorb2)
qed

text \<open>The loops, from any entry boundary, do what \<open>deframe\<close> does with the rest of the buffer.\<close>

lemma dirscan_deframe:
  assumes "ts = length m" and "i \<le> ts"
  shows "(case dirscan m ts i n of (i', n') \<Rightarrow>
      if i' \<noteq> ts then None else Some (dirconv m ts n' i n acc))
    = map_option (\<lambda>ds. Inr (acc @ ds)) (deframe stat_flen stat_dec (drop i m))"
  using assms
proof (induction m ts i n arbitrary: acc rule: dirscan.induct)
  case (1 m ts i n)
  show ?case
  proof (cases "i < ts")
    case False
    with "1.prems" show ?thesis
      by (simp add: dirscan.simps dirconv.simps deframe.simps)
  next
    case True
    let ?k = "2 + unat (GBIT16 m i)"
    have fl: "stat_flen (drop i m) = ?k" by (simp add: stat_flen_def GBIT_shift [of m i])
    have ne: "drop i m \<noteq> []" using True 1 by simp
    note df = deframe.simps [of stat_flen stat_dec "drop i m"]
    note ds = dirscan.simps [of m ts i n]
    show ?thesis
    proof (cases "i + ?k \<le> ts \<and> statcheck m i ?k")
      case True
      then obtain d st where c: "convM2D m i ?k dir0 (Some []) = Some (?k, d, Some st)"
        using statcheck_convM2D by blast
      have k: "49 \<le> ?k" using True by (auto simp: statcheck_def Let_def split: if_splits)
      then have dec: "stat_dec (take ?k (drop i m)) = Some d"
        using stat_dec_Some [of i ?k m] c True "1.prems" by simp
      have conv: "dirconv m ts n' i n acc = dirconv m ts n' (i + ?k) (n + 1) (acc @ [d])"
        if "dirscan m ts (i + ?k) (n + 1) = (ts, n')" for n'
        using dirscan_dirconv [OF that] c \<open>i < ts\<close> by (simp add: dirconv.simps [of m ts n' i] Let_def)
      have "(case dirscan m ts (i + ?k) (n + 1) of (i', n') \<Rightarrow>
          if i' \<noteq> ts then None else Some (dirconv m ts n' (i + ?k) (n + 1) (acc @ [d])))
        = map_option (\<lambda>ds. Inr ((acc @ [d]) @ ds)) (deframe stat_flen stat_dec (drop (i + ?k) m))"
        using "1.IH" [OF \<open>i < ts\<close> refl, of "acc @ [d]"] True "1.prems" by simp
      moreover have "deframe stat_flen stat_dec (drop i m)
          = map_option (\<lambda>xs. d # xs) (deframe stat_flen stat_dec (drop (i + ?k) m))"
        using ne fl dec True "1.prems" by (subst df) (auto simp: Let_def add_ac)
      ultimately show ?thesis
        using True \<open>i < ts\<close> conv
        by (auto simp: ds Let_def option.map_comp comp_def split: prod.splits if_splits)
    next
      case False
      have "dirscan m ts i n \<noteq> (ts, n')" for n'
        using False \<open>i < ts\<close> by (auto simp: ds Let_def dirscan.simps [of m ts "i + ?k"])
      moreover have "stat_dec (take ?k (drop i m)) = None" if "i + ?k \<le> ts"
        using False that "1.prems" stat_dec_None [of i ?k m] by (simp add: statcheck_iff)
      then have "deframe stat_flen stat_dec (drop i m) = None"
        using ne fl "1.prems" by (subst df) (auto simp: Let_def)
      ultimately show ?thesis by (auto split: prod.splits)
    qed
  qed
qed

lemma dirpackage_deframe:
  "dirpackage m (int (length m)) True
    = (case deframe stat_flen stat_dec m of None \<Rightarrow> Inl () | Some ds \<Rightarrow> Inr ds)"
proof (cases "m = []")
  case True
  then show ?thesis by (simp add: dirpackage_def deframe.simps)
next
  case False
  then show ?thesis
    using dirscan_deframe [of "length m" m 0 0 "[]"]
    by (auto simp: dirpackage_def Let_def split: prod.splits option.splits if_splits)
qed

end
