(* ===== verification/Dir_Props.thy ===== *)
theory Dir_Props
  imports Dir_Roundtrip
begin

text \<open>
  The properties of directory entries: encoding and decoding one entry, and cutting the
  data of a directory read into its entries.
\<close>

definition dir1 :: dir where
  "dir1 = dir0\<lparr>d_type := 77, d_mode := 0x800001ED, d_length := 0x100000001,
     d_name := Some [0x62, 0x69, 0x6E], d_uid := Some [0x73, 0x79, 0x73]\<rparr>"

lemma dir1_wf: "dir_wf dir1" "sizeD2M dir1 = 55"
  by (simp_all add: dir_wf_def dir1_def dir0_def sizeD2M_def dir_sv_def nsv_def nulfree_def str_def)

lemma dir0_wf: "dir_wf dir0" "sizeD2M dir0 = 49"
  by (simp_all add: dir_wf_def dir0_def sizeD2M_def dir_sv_def nsv_def nulfree_def str_def)

text \<open>
  C16: Round trip of a directory entry. An entry whose strings are NUL-free and whose size
  fits the 16-bit count is encoded by \<^verbatim>\<open>convD2M\<close> in exactly \<^verbatim>\<open>sizeD2M\<close> bytes, passes
  \<^verbatim>\<open>statcheck\<close>, and \<^verbatim>\<open>convM2D\<close> reads back every field of it (nil strings as empty ones).
\<close>

theorem dir_roundtrip:
  assumes "dir_wf d" and "sizeD2M d \<le> nbuf" and "nbuf \<le> length m"
  shows "case convD2M d m nbuf of (n, m1) \<Rightarrow>
     n = sizeD2M d \<and> length m1 = length m \<and> statcheck m1 0 n
     \<and> (\<exists>st. convM2D m1 0 n d0 (Some []) = Some (n, dir_norm d, Some st))"
proof -
  let ?m1 = "poke m 0 (stat_wire d)"
  have w: "drop 0 ?m1 = stat_wire d @ drop (sizeD2M d) m"
    by (simp add: poke_def length_stat_wire)
  have c: "\<exists>st. convM2D ?m1 0 (sizeD2M d) d' (Some []) = Some (sizeD2M d, dir_norm d, Some st)" for d'
    using convM2D_wire [OF w assms(1)] by simp
  have "stat_flen ?m1 = sizeD2M d"
    using stat_flen_wire [OF assms(1)] w by (simp add: length_stat_wire)
  then have "statcheck ?m1 0 (sizeD2M d)"
    using c [of dir0] by (auto simp: statcheck_iff stat_flen_def)
  then show ?thesis
    using c assms(2,3) by (simp add: convD2M_wire length_stat_wire)
qed

theorem dir_roundtrip_witness:
  "case convD2M dir1 (replicate 60 0) 60 of (n, m1) \<Rightarrow>
     n = 55 \<and> length m1 = 60 \<and> statcheck m1 0 n
     \<and> (\<exists>st. convM2D m1 0 n dir0 (Some []) = Some (n, dir_norm dir1, Some st))"
  using dir_roundtrip [of dir1 60 "replicate 60 0" dir0] dir1_wf by simp

text \<open>
  C17: \<^verbatim>\<open>statcheck\<close> accepts exactly the entries that \<^verbatim>\<open>convM2D\<close> converts completely: the
  count in front is the size given and the conversion consumes all of it.
\<close>

theorem statcheck_contract:
  "statcheck m i n \<longleftrightarrow> n = 2 + unat (GBIT16 m i) \<and>
     (case convM2D m i n dir0 (Some []) of None \<Rightarrow> False | Some (r, _, _) \<Rightarrow> r = n)"
  by (auto simp: statcheck_iff convM2D_def Let_def split: option.splits if_splits)

text \<open>
  \<^verbatim>\<open>dirpackage\<close> on arbitrary bytes. Its two passes (count with \<^verbatim>\<open>statcheck\<close>, then convert
  with \<^verbatim>\<open>convM2D\<close>) compute the same as cutting the buffer into length-prefixed frames
  and decoding each: all entries when every byte belongs to a valid one, -1 otherwise.
\<close>

lemma dirpackage_refines_deframe:
  "dirpackage m (int (length m)) True
    = (case deframe stat_flen stat_dec m of None \<Rightarrow> Inl () | Some ds \<Rightarrow> Inr ds)"
  by (rule dirpackage_deframe)

text \<open>
  C18: Reading a directory recovers its entries. The data a server builds by encoding any
  list of entries one after the other is unpacked by \<^verbatim>\<open>dirpackage\<close> into the same list, in
  the same order.
\<close>

theorem dirpackage_sequence:
  assumes "\<forall>d \<in> set ds. dir_wf d"
  shows "dirpackage (concat (map stat_wire ds)) (int (length (concat (map stat_wire ds)))) True
    = Inr (map dir_norm ds)"
  unfolding dirpackage_deframe stat_frames.deframe_sequence [OF assms] by simp

theorem dirpackage_sequence_witness:
  "dirpackage (stat_wire dir1 @ stat_wire dir0) 104 True = Inr [dir_norm dir1, dir_norm dir0]"
  using dirpackage_sequence [of "[dir1, dir0]"] dir1_wf dir0_wf by (simp add: length_stat_wire)

end
