(* ===== verification/Rune.thy ===== *)
theory Rune
  imports Prelude
begin

text \<open>
  UTF-8: \<^verbatim>\<open>chartorune\<close>, \<^verbatim>\<open>runetochar\<close>, \<^verbatim>\<open>runelen\<close>, \<^verbatim>\<open>runenlen\<close> and \<^verbatim>\<open>fullrune\<close>
  (\<^verbatim>\<open>lib_core/libc/port/rune.c\<close>) and the string functions built on them (\<^verbatim>\<open>utflen.c\<close>,
  \<^verbatim>\<open>utfnlen.c\<close>, \<^verbatim>\<open>utfrune.c\<close>, \<^verbatim>\<open>utfrrune.c\<close>, \<^verbatim>\<open>utfutf.c\<close>, \<^verbatim>\<open>utfecpy.c\<close>). A \<open>char*\<close> is a
  buffer and an offset into it; a read past the end of the buffer yields the NUL that
  ends the string. A Rune is a 32-bit word.
\<close>

abbreviation (input) UTFmax :: nat where "UTFmax \<equiv> 4"
abbreviation (input) Runesync :: uint where "Runesync \<equiv> 0x80"
abbreviation (input) Runeself :: uint where "Runeself \<equiv> 0x80"
abbreviation (input) Runeerror :: uint where "Runeerror \<equiv> 0xFFFD"
abbreviation (input) Runemax :: uint where "Runemax \<equiv> 0x10FFFF"
abbreviation (input) SurrogateMin :: uint where "SurrogateMin \<equiv> 0xD800"
abbreviation (input) SurrogateMax :: uint where "SurrogateMax \<equiv> 0xDFFF"

section \<open>The constants of rune.c\<close>

definition Bit :: "nat \<Rightarrow> nat" where
  "Bit i = 7 - i"

definition T :: "nat \<Rightarrow> uint" where
  "T i = (push_bit (Bit i + 1) 1 - 1) XOR 0xFF"

definition Bitx :: nat where
  "Bitx = Bit 1"

definition RuneX :: "nat \<Rightarrow> uint" where
  "RuneX i = push_bit (Bit i + (i - 1) * Bitx) 1 - 1"

definition Tx :: uint where
  "Tx = T 1"

definition Rune1 :: uint where
  "Rune1 = push_bit (Bit 0 + 0 * Bitx) 1 - 1"

definition Maskx :: uint where
  "Maskx = push_bit Bitx 1 - 1"

definition Testx :: uint where
  "Testx = Maskx XOR 0xFF"

section \<open>chartorune and runetochar\<close>

text \<open>The loop of \<open>chartorune\<close> from index \<open>i\<close>, with the value \<open>l\<close> collected so far.\<close>

function chartorune_loop :: "bytes \<Rightarrow> nat \<Rightarrow> uint \<Rightarrow> nat \<Rightarrow> uint \<Rightarrow> nat \<times> uint" where
  "chartorune_loop m s c0 i l =
     (if i < UTFmax then
        let ci = ucast (rd m (s + i)) XOR Tx in
        if ci AND Testx \<noteq> 0 then (1, Runeerror)
        else
          let l = push_bit Bitx l OR ci in
          if c0 < T (i + 2) then
            let l = l AND RuneX (i + 1) in
            if i = 1 \<and> (c0 < T 2 \<or> l \<le> Rune1) then (1, Runeerror)
            else if i \<noteq> 1 \<and> (l \<le> RuneX i \<or> l > Runemax) then (1, Runeerror)
            else if i = 2 \<and> SurrogateMin \<le> l \<and> l \<le> SurrogateMax then (1, Runeerror)
            else (i + 1, l)
          else chartorune_loop m s c0 (i + 1) l
      else (1, Runeerror))"
  by pat_completeness auto
termination by (relation "measure (\<lambda>(m, s, c0, i, l). 4 - i)") auto

text \<open>\<open>chartorune m s\<close>: the number of bytes consumed at \<open>s\<close>, and the rune.\<close>

definition chartorune :: "bytes \<Rightarrow> nat \<Rightarrow> nat \<times> uint" where
  "chartorune m s =
     (let c0 = ucast (rd m s) in
      if c0 < Tx then (1, c0) else chartorune_loop m s c0 1 c0)"

text \<open>\<open>runetochar c\<close>: the bytes stored at \<^verbatim>\<open>str\<close>; their number is the value returned.\<close>

function runetochar_loop :: "uint \<Rightarrow> nat \<Rightarrow> bytes" where
  "runetochar_loop c i =
     (if i < UTFmax + 1 then
        let c = (if i = 3 then
                   let c = (if c > Runemax then Runeerror else c)
                   in if SurrogateMin \<le> c \<and> c \<le> SurrogateMax then Runeerror else c
                 else c)
        in if c \<le> RuneX i \<or> i = UTFmax then
             ucast (T i OR drop_bit ((i - 1) * Bitx) c) #
               map (\<lambda>j. ucast (Tx OR (drop_bit ((i - j - 1) * Bitx) c AND Maskx))) [1..<i]
           else runetochar_loop c (i + 1)
      else [])"
  by pat_completeness auto
termination by (relation "measure (\<lambda>(c, i). 5 - i)") auto

definition runetochar :: "uint \<Rightarrow> bytes" where
  "runetochar c = (if c \<le> Rune1 then [ucast c] else runetochar_loop c 2)"

definition runelen :: "uint \<Rightarrow> nat" where
  "runelen c = length (runetochar c)"

function runenlen_loop :: "uint \<Rightarrow> nat \<Rightarrow> nat" where
  "runenlen_loop c i =
     (if i < UTFmax + 1 then if c \<le> RuneX i \<or> i = UTFmax then i else runenlen_loop c (i + 1)
      else 0)"
  by pat_completeness auto
termination by (relation "measure (\<lambda>(c, i). 5 - i)") auto

fun runenlen :: "uint list \<Rightarrow> nat \<Rightarrow> nat" where
  "runenlen [] nb = nb"
| "runenlen (c # rs) nb =
     runenlen rs (if c \<le> Rune1 then nb + 1 else nb + runenlen_loop c 2)"

function fullrune_loop :: "uint \<Rightarrow> nat \<Rightarrow> nat \<Rightarrow> bool" where
  "fullrune_loop c n i =
     (if i < UTFmax + 1 then if c < T i then n \<ge> i - 1 else fullrune_loop c n (i + 1)
      else n \<ge> UTFmax)"
  by pat_completeness auto
termination by (relation "measure (\<lambda>(c, n, i). 5 - i)") auto

definition fullrune :: "bytes \<Rightarrow> nat \<Rightarrow> nat \<Rightarrow> bool" where
  "fullrune m s n =
     (if n = 0 then False
      else let c = ucast (rd m s) in if c < Tx then True else fullrune_loop c n 3)"

declare chartorune_loop.simps [simp del] runetochar_loop.simps [simp del]
  runenlen_loop.simps [simp del] fullrune_loop.simps [simp del]

lemma rune_consts:
  "T 2 = 0xC0" "T 3 = 0xE0" "T 4 = 0xF0" "T 5 = 0xF8" "Tx = 0x80" "Bitx = 6" "Maskx = 0x3F"
  "Testx = 0xC0" "Rune1 = 0x7F" "RuneX 2 = 0x7FF" "RuneX 3 = 0xFFFF" "RuneX 4 = 0x1FFFFF"
  by (simp_all add: T_def Bit_def Tx_def Bitx_def Maskx_def Testx_def Rune1_def RuneX_def push_bit_eq_mult)

section \<open>Runes as numbers\<close>

text \<open>The bit operations of \<open>chartorune\<close> and \<open>runetochar\<close> in terms of numbers.\<close>

lemma unat_or_disjoint:
  fixes a b :: "'a::len word"
  assumes "a AND b = 0" and "unat a + unat b < 2 ^ LENGTH('a)"
  shows "unat (a OR b) = unat a + unat b"
proof -
  have "a OR b = a + b" using assms(1) by (metis disjunctive_add_eq_or)
  then show ?thesis using assms(2) by (simp add: unat_add_lem [THEN iffD1])
qed

lemma unat_drop_bit: "unat (drop_bit n (w :: uint)) = unat w div 2 ^ n"
  unfolding unsigned_drop_bit_eq by (simp add: drop_bit_eq_div take_bit_nat_eq_self unsigned_less [THEN less_le_trans])

text \<open>Testing for, and removing, the prefix 10 of a continuation byte.\<close>

lemma drop6_eq2:
  fixes w :: uint
  assumes "unat w < 256"
  shows "(w XOR 0x80) AND 0xC0 = 0 \<longleftrightarrow> drop_bit 6 w = 2"
    and "drop_bit 6 w = 2 \<Longrightarrow> w XOR 0x80 = take_bit 6 w"
proof -
  define d where "d = drop_bit 6 w"
  have "unat d < 4" using assms by (simp add: d_def unat_drop_bit)
  then have "unat d = 0 \<or> unat d = 1 \<or> unat d = 2 \<or> unat d = 3" by arith
  then have d: "d = 0 \<or> d = 1 \<or> d = 2 \<or> d = 3" by (simp add: word_unat_eq_iff)
  have "(w XOR 0x80) AND 0xC0 = push_bit 6 ((drop_bit 6 w XOR 2) AND 3)"
  proof (rule bit_word_eqI)
    fix n assume "n < LENGTH(32)"
    have "bit (0x80 :: uint) n \<longleftrightarrow> n \<ge> 6 \<and> bit (2 :: uint) (n - 6)"
      "bit (0xC0 :: uint) n \<longleftrightarrow> n \<ge> 6 \<and> bit (3 :: uint) (n - 6)"
      using bit_push_bit_iff [of 6 "2 :: uint" n] bit_push_bit_iff [of 6 "3 :: uint" n] \<open>n < LENGTH(32)\<close>
      by (simp_all add: push_bit_eq_mult)
    then show "bit ((w XOR 0x80) AND 0xC0) n = bit (push_bit 6 ((drop_bit 6 w XOR 2) AND 3)) n"
      using \<open>n < LENGTH(32)\<close> by (cases "n = 7"; auto simp: bit_simps)
  qed
  also have "\<dots> = 0 \<longleftrightarrow> d = 2" using d unfolding d_def[symmetric] by (elim disjE) (simp_all add: push_bit_eq_mult)
  finally show "(w XOR 0x80) AND 0xC0 = 0 \<longleftrightarrow> drop_bit 6 w = 2" by (simp add: d_def)
  show "w XOR 0x80 = take_bit 6 w" if "drop_bit 6 w = 2"
  proof (rule bit_word_eqI)
    fix n assume n: "n < LENGTH(32)"
    have "bit (0x80 :: uint) n \<longleftrightarrow> n \<ge> 6 \<and> bit (2 :: uint) (n - 6)"
      using bit_push_bit_iff [of 6 "2 :: uint" n] n by (simp_all add: push_bit_eq_mult)
    moreover have "bit w n \<longleftrightarrow> bit (drop_bit 6 w) (n - 6)" if "n \<ge> 6"
      using that by (simp add: bit_drop_bit_eq)
    ultimately show "bit (w XOR 0x80) n = bit (take_bit 6 w) n"
      using n unfolding that by (cases "n < 6") (auto simp: bit_simps)
  qed
qed

lemma unat_ucast_byte: "unat (ucast (b :: uchar) :: uint) = unat b"
  by (simp add: unsigned_ucast_eq take_bit_nat_eq_self_iff unsigned_less [of b, THEN less_trans])

lemma byte_bound: "unat (b :: uchar) < 256"
  using unsigned_less [of b] by simp

lemma cont_byte:
  "(ucast (b :: uchar) XOR 0x80) AND (0xC0 :: uint) = 0 \<longleftrightarrow> unat b div 64 = 2"
proof -
  have "(ucast b XOR 0x80) AND (0xC0 :: uint) = 0 \<longleftrightarrow> drop_bit 6 (ucast b :: uint) = 2"
    using byte_bound [of b] by (intro drop6_eq2(1)) (simp add: unat_ucast_byte)
  then show ?thesis
    using unat_drop_bit [of 6 "ucast b"] by (simp add: unat_ucast_byte word_unat_eq_iff [of "drop_bit 6 _"])
qed

lemma cont_value:
  assumes "unat (b :: uchar) div 64 = 2"
  shows "unat (ucast b XOR 0x80 :: uint) = unat b mod 64"
proof -
  have "ucast b XOR 0x80 = (take_bit 6 (ucast b) :: uint)"
    using assms byte_bound [of b] unat_drop_bit [of 6 "ucast b"]
    by (intro drop6_eq2(2)) (simp_all add: unat_ucast_byte word_unat_eq_iff)
  moreover have "unat (take_bit 6 (ucast b :: uint)) = unat b mod 64"
    unfolding unsigned_take_bit_eq by (simp add: unat_ucast_byte take_bit_eq_mod)
  ultimately show ?thesis by simp
qed

lemma high_low_disjoint:
  fixes y :: uint
  assumes "unat y < 2 ^ n"
  shows "push_bit n a AND y = 0"
proof -
  have "take_bit n y = y"
    using assms by (simp add: word_unat_eq_iff unsigned_take_bit_eq take_bit_nat_eq_self)
  moreover have "push_bit n a AND take_bit n y = 0"
    by (rule bit_word_eqI) (auto simp: bit_simps)
  ultimately show ?thesis by simp
qed

lemma shift6_or:
  fixes l x :: uint
  assumes l: "unat l < 2 ^ 26" and x: "unat x < 64"
  shows "unat (push_bit 6 l OR x) = unat l * 64 + unat x"
proof -
  have "push_bit 6 l AND x = 0" using x by (intro high_low_disjoint) simp
  moreover have "unat (push_bit 6 l) = unat l * 64"
    using l by (simp add: push_bit_eq_mult unat_word_ariths)
  ultimately show ?thesis using l x by (subst unat_or_disjoint) auto
qed

text \<open>The first byte of a sequence and its continuation bytes.\<close>

lemma or_prefix:
  fixes y :: uint
  shows "unat y < 32 \<Longrightarrow> ucast (0xC0 OR y) = (of_nat (192 + unat y) :: uchar)"
    and "unat y < 16 \<Longrightarrow> ucast (0xE0 OR y) = (of_nat (224 + unat y) :: uchar)"
    and "unat y < 8 \<Longrightarrow> ucast (0xF0 OR y) = (of_nat (240 + unat y) :: uchar)"
    and "unat y < 64 \<Longrightarrow> ucast (0x80 OR y) = (of_nat (128 + unat y) :: uchar)"
proof -
  have *: "ucast (push_bit n a OR y) = (of_nat (unat (push_bit n a) + unat y) :: uchar)"
    if "unat y < 2 ^ n" "unat (push_bit n a) + unat y < 2 ^ 32" for n and a :: uint
  proof -
    have "unat (push_bit n a OR y) = unat (push_bit n a) + unat y"
      using that(2) by (intro unat_or_disjoint high_low_disjoint [OF that(1)]) simp
    moreover have "ucast (push_bit n a OR y) = (of_nat (unat (push_bit n a OR y)) :: uchar)" by simp
    ultimately show ?thesis by metis
  qed
  show "unat y < 32 \<Longrightarrow> ucast (0xC0 OR y) = (of_nat (192 + unat y) :: uchar)"
    using * [of 6 3] by (simp add: push_bit_eq_mult)
  show "unat y < 16 \<Longrightarrow> ucast (0xE0 OR y) = (of_nat (224 + unat y) :: uchar)"
    using * [of 5 7] by (simp add: push_bit_eq_mult)
  show "unat y < 8 \<Longrightarrow> ucast (0xF0 OR y) = (of_nat (240 + unat y) :: uchar)"
    using * [of 4 15] by (simp add: push_bit_eq_mult)
  show "unat y < 64 \<Longrightarrow> ucast (0x80 OR y) = (of_nat (128 + unat y) :: uchar)"
    using * [of 7 1] by (simp add: push_bit_eq_mult)
qed

lemma unat_and_mask:
  fixes w :: uint
  shows "unat (w AND 0x7FF) = unat w mod 0x800" "unat (w AND 0xFFFF) = unat w mod 0x10000"
    "unat (w AND 0x1FFFFF) = unat w mod 0x200000" "unat (w AND 0x3F) = unat w mod 64"
proof -
  have *: "unat (w AND mask n) = unat w mod 2 ^ n" for n
    by (metis take_bit_eq_mask take_bit_nat_def unsigned_take_bit_eq)
  show "unat (w AND 0x7FF) = unat w mod 0x800" using * [of 11] by (simp add: mask_eq_exp_minus_1)
  show "unat (w AND 0xFFFF) = unat w mod 0x10000" using * [of 16] by (simp add: mask_eq_exp_minus_1)
  show "unat (w AND 0x1FFFFF) = unat w mod 0x200000" using * [of 21] by (simp add: mask_eq_exp_minus_1)
  show "unat (w AND 0x3F) = unat w mod 64" using * [of 6] by (simp add: mask_eq_exp_minus_1)
qed

lemma of_natI: "unat w = n \<Longrightarrow> w = of_nat n"
  by auto

lemma mod_shift:
  assumes "(x :: nat) < k"
  shows "(a * k + x) mod (k * n) = (a mod n) * k + x"
proof -
  have "(a * k + x) div k = a" "(a * k + x) mod k = x" using assms by auto
  then show ?thesis by (simp add: mod_mult2_eq)
qed

section \<open>UTF-8 as the standard defines it\<close>

text \<open>
  The reference: one to four bytes, the minimal length for the value, no surrogates, at
  most \<open>0x10FFFF\<close>. Anything else is an error, and one byte is skipped.
\<close>

definition utf8_decode :: "bytes \<Rightarrow> nat \<Rightarrow> nat \<times> uint" where
  "utf8_decode m s =
     (let b = (\<lambda>i. unat (rd m (s + i))); cont = (\<lambda>i. b i div 64 = 2); x = (\<lambda>i. b i mod 64);
          v2 = (b 0 mod 32) * 64 + x 1;
          v3 = (b 0 mod 16) * 4096 + x 1 * 64 + x 2;
          v4 = (b 0 mod 8) * 262144 + x 1 * 4096 + x 2 * 64 + x 3
      in if b 0 < 128 then (1, of_nat (b 0))
         else if b 0 div 32 = 6 \<and> cont 1 \<and> 0x80 \<le> v2 then (2, of_nat v2)
         else if b 0 div 16 = 14 \<and> cont 1 \<and> cont 2 \<and> 0x800 \<le> v3 \<and> \<not> (0xD800 \<le> v3 \<and> v3 \<le> 0xDFFF)
           then (3, of_nat v3)
         else if b 0 div 8 = 30 \<and> cont 1 \<and> cont 2 \<and> cont 3 \<and> 0x10000 \<le> v4 \<and> v4 \<le> 0x10FFFF
           then (4, of_nat v4)
         else (1, Runeerror))"

definition utf8_encode :: "nat \<Rightarrow> bytes" where
  "utf8_encode c = map of_nat
     (if c < 0x80 then [c]
      else if c < 0x800 then [192 + c div 64, 128 + c mod 64]
      else if c < 0x10000 then [224 + c div 4096, 128 + c div 64 mod 64, 128 + c mod 64]
      else [240 + c div 262144, 128 + c div 4096 mod 64, 128 + c div 64 mod 64, 128 + c mod 64])"

definition valid_rune :: "uint \<Rightarrow> bool" where
  "valid_rune c \<longleftrightarrow> c \<le> Runemax \<and> \<not> (SurrogateMin \<le> c \<and> c \<le> SurrogateMax)"

text \<open>
  The quantities in the loop: byte \<open>i\<close> as a number, \<open>c[i]\<close>, the values of \<open>l\<close>, and the
  values of \<open>l\<close> after masking.
\<close>

definition rbyte :: "bytes \<Rightarrow> nat \<Rightarrow> nat \<Rightarrow> nat" where
  "rbyte m s i = unat (rd m (s + i))"

definition cbits :: "bytes \<Rightarrow> nat \<Rightarrow> nat \<Rightarrow> uint" where
  "cbits m s i = ucast (rd m (s + i)) XOR 0x80"

definition acc0 :: "bytes \<Rightarrow> nat \<Rightarrow> uint" where "acc0 m s = ucast (rd m s)"
definition acc1 :: "bytes \<Rightarrow> nat \<Rightarrow> uint" where "acc1 m s = push_bit 6 (acc0 m s) OR cbits m s 1"
definition acc2 :: "bytes \<Rightarrow> nat \<Rightarrow> uint" where "acc2 m s = push_bit 6 (acc1 m s) OR cbits m s 2"
definition acc3 :: "bytes \<Rightarrow> nat \<Rightarrow> uint" where "acc3 m s = push_bit 6 (acc2 m s) OR cbits m s 3"

definition val2 :: "bytes \<Rightarrow> nat \<Rightarrow> nat" where
  "val2 m s = (rbyte m s 0 mod 32) * 64 + rbyte m s 1 mod 64"
definition val3 :: "bytes \<Rightarrow> nat \<Rightarrow> nat" where
  "val3 m s = (rbyte m s 0 mod 16) * 4096 + rbyte m s 1 mod 64 * 64 + rbyte m s 2 mod 64"
definition val4 :: "bytes \<Rightarrow> nat \<Rightarrow> nat" where
  "val4 m s = (rbyte m s 0 mod 8) * 262144 + rbyte m s 1 mod 64 * 4096 + rbyte m s 2 mod 64 * 64 + rbyte m s 3 mod 64"

abbreviation (input) cont :: "bytes \<Rightarrow> nat \<Rightarrow> nat \<Rightarrow> bool" where
  "cont m s i \<equiv> rbyte m s i div 64 = 2"

lemma rbyte_facts: "rbyte m s i < 256" "unat (acc0 m s) = rbyte m s 0" "cbits m s i AND 0xC0 = 0 \<longleftrightarrow> cont m s i"
  using unsigned_less [of "rd m (s + i)"]
  by (simp_all add: rbyte_def acc0_def cbits_def unat_ucast_byte cont_byte)

lemma unat_cbits: "cont m s i \<Longrightarrow> unat (cbits m s i) = rbyte m s i mod 64"
  by (simp add: rbyte_def cbits_def cont_value)

lemma unat_l:
  "cont m s 1 \<Longrightarrow> unat (acc1 m s) = rbyte m s 0 * 64 + rbyte m s 1 mod 64"
  "cont m s 1 \<Longrightarrow> cont m s 2 \<Longrightarrow> unat (acc2 m s) = (rbyte m s 0 * 64 + rbyte m s 1 mod 64) * 64 + rbyte m s 2 mod 64"
  "cont m s 1 \<Longrightarrow> cont m s 2 \<Longrightarrow> cont m s 3 \<Longrightarrow>
    unat (acc3 m s) = ((rbyte m s 0 * 64 + rbyte m s 1 mod 64) * 64 + rbyte m s 2 mod 64) * 64 + rbyte m s 3 mod 64"
proof -
  show 1: "unat (acc1 m s) = rbyte m s 0 * 64 + rbyte m s 1 mod 64" if "cont m s 1"
    using rbyte_facts(1) [of m s 0] rbyte_facts(2) [of m s] unat_cbits that by (simp add: acc1_def shift6_or)
  show 2: "unat (acc2 m s) = (rbyte m s 0 * 64 + rbyte m s 1 mod 64) * 64 + rbyte m s 2 mod 64"
    if "cont m s 1" "cont m s 2"
    using rbyte_facts(1) [of m s 0] unat_cbits 1 that by (simp add: acc2_def shift6_or)
  show "unat (acc3 m s) = ((rbyte m s 0 * 64 + rbyte m s 1 mod 64) * 64 + rbyte m s 2 mod 64) * 64 + rbyte m s 3 mod 64"
    if "cont m s 1" "cont m s 2" "cont m s 3"
    using rbyte_facts(1) [of m s 0] unat_cbits 2 that by (simp add: acc3_def shift6_or)
qed

lemma mod64_bounds: "n mod 64 < (64 :: nat)" "n mod 32 < (32 :: nat)" "n mod 16 < (16 :: nat)" "n mod 8 < (8 :: nat)"
  by simp_all

lemma val_bounds: "val2 m s < 2048" "val3 m s < 65536" "val4 m s < 2097152"
  using mod64_bounds [of "rbyte m s 0"] mod64_bounds [of "rbyte m s 1"] mod64_bounds [of "rbyte m s 2"]
    mod64_bounds [of "rbyte m s 3"]
  unfolding val2_def val3_def val4_def by linarith+

lemma l_masked:
  "cont m s 1 \<Longrightarrow> acc1 m s AND 0x7FF = of_nat (val2 m s)"
  "cont m s 1 \<Longrightarrow> cont m s 2 \<Longrightarrow> acc2 m s AND 0xFFFF = of_nat (val3 m s)"
  "cont m s 1 \<Longrightarrow> cont m s 2 \<Longrightarrow> cont m s 3 \<Longrightarrow> acc3 m s AND 0x1FFFFF = of_nat (val4 m s)"
proof -
  let ?x1 = "rbyte m s 1 mod 64" and ?x2 = "rbyte m s 2 mod 64" and ?x3 = "rbyte m s 3 mod 64"
  have b: "?x1 < 64" "?x1 * 64 + ?x2 < 4096" "?x1 * 4096 + ?x2 * 64 + ?x3 < 262144"
    using mod64_bounds(1) [of "rbyte m s 1"] mod64_bounds(1) [of "rbyte m s 2"] mod64_bounds(1) [of "rbyte m s 3"]
    by linarith+
  show "acc1 m s AND 0x7FF = of_nat (val2 m s)" if "cont m s 1"
    using unat_l(1) [OF that] mod_shift [OF b(1), of "rbyte m s 0" 32]
    by (intro of_natI) (simp add: unat_and_mask val2_def)
  show "acc2 m s AND 0xFFFF = of_nat (val3 m s)" if "cont m s 1" "cont m s 2"
    using unat_l(2) [OF that] mod_shift [OF b(2), of "rbyte m s 0" 16]
    by (intro of_natI) (simp add: unat_and_mask val3_def algebra_simps)
  show "acc3 m s AND 0x1FFFFF = of_nat (val4 m s)" if "cont m s 1" "cont m s 2" "cont m s 3"
    using unat_l(3) [OF that] mod_shift [OF b(3), of "rbyte m s 0" 8]
    by (intro of_natI) (simp add: unat_and_mask val4_def algebra_simps)
qed

lemma chartorune_step0:
  "chartorune m s = (if rbyte m s 0 < 128 then (1, acc0 m s) else chartorune_loop m s (acc0 m s) 1 (acc0 m s))"
  using rbyte_facts(2) [of m s] by (simp add: chartorune_def rune_consts word_less_nat_alt Let_def acc0_def)

lemma chartorune_step1:
  "chartorune_loop m s (acc0 m s) 1 (acc0 m s) = (if \<not> cont m s 1 then (1, Runeerror)
     else if rbyte m s 0 < 224 then
       (if rbyte m s 0 < 192 \<or> val2 m s < 128 then (1, Runeerror) else (2, of_nat (val2 m s)))
     else chartorune_loop m s (acc0 m s) 2 (acc1 m s))"
proof -
  have "chartorune_loop m s (acc0 m s) 1 (acc0 m s) = (if cbits m s 1 AND 0xC0 \<noteq> 0 then (1, Runeerror)
     else if acc0 m s < 0xE0 then (if acc0 m s < 0xC0 \<or> acc1 m s AND 0x7FF \<le> 0x7F then (1, Runeerror)
       else (2, acc1 m s AND 0x7FF))
     else chartorune_loop m s (acc0 m s) 2 (acc1 m s))"
    unfolding cbits_def acc1_def
    by (subst chartorune_loop.simps) (simp add: rune_consts Let_def numeral_2_eq_2 [symmetric])
  then show ?thesis using val_bounds [of m s] l_masked [of m s]
    unfolding rbyte_facts word_less_nat_alt word_le_nat_alt by (cases "cont m s 1") auto
qed

lemma chartorune_step2:
  assumes "cont m s 1"
  shows "chartorune_loop m s (acc0 m s) 2 (acc1 m s) = (if \<not> cont m s 2 then (1, Runeerror)
     else if rbyte m s 0 < 240 then
       (if val3 m s < 0x800 \<or> 0xD800 \<le> val3 m s \<and> val3 m s \<le> 0xDFFF then (1, Runeerror)
        else (3, of_nat (val3 m s)))
     else chartorune_loop m s (acc0 m s) 3 (acc2 m s))"
proof -
  have "chartorune_loop m s (acc0 m s) 2 (acc1 m s) = (if cbits m s 2 AND 0xC0 \<noteq> 0 then (1, Runeerror)
     else if acc0 m s < 0xF0 then
       (if acc2 m s AND 0xFFFF \<le> 0x7FF \<or> 0x10FFFF < acc2 m s AND 0xFFFF
           \<or> 0xD800 \<le> acc2 m s AND 0xFFFF \<and> acc2 m s AND 0xFFFF \<le> 0xDFFF then (1, Runeerror)
        else (3, acc2 m s AND 0xFFFF))
     else chartorune_loop m s (acc0 m s) 3 (acc2 m s))"
    unfolding cbits_def acc2_def by (subst chartorune_loop.simps) (simp add: rune_consts Let_def)
  then show ?thesis using val_bounds [of m s] l_masked [of m s] assms
    unfolding rbyte_facts word_less_nat_alt word_le_nat_alt by (cases "cont m s 2") auto
qed

lemma chartorune_step3:
  assumes "cont m s 1" "cont m s 2"
  shows "chartorune_loop m s (acc0 m s) 3 (acc2 m s) = (if \<not> cont m s 3 then (1, Runeerror)
     else if rbyte m s 0 < 248 then
       (if val4 m s < 0x10000 \<or> 0x10FFFF < val4 m s then (1, Runeerror) else (4, of_nat (val4 m s)))
     else (1, Runeerror))"
proof -
  have "chartorune_loop m s (acc0 m s) 3 (acc2 m s) = (if cbits m s 3 AND 0xC0 \<noteq> 0 then (1, Runeerror)
     else if acc0 m s < 0xF8 then
       (if acc3 m s AND 0x1FFFFF \<le> 0xFFFF \<or> 0x10FFFF < acc3 m s AND 0x1FFFFF then (1, Runeerror)
        else (4, acc3 m s AND 0x1FFFFF))
     else (1, Runeerror))"
    unfolding cbits_def acc3_def
    by (subst chartorune_loop.simps) (simp add: rune_consts Let_def chartorune_loop.simps [of _ _ _ 4])
  then show ?thesis using val_bounds [of m s] l_masked [of m s] assms
    unfolding rbyte_facts word_less_nat_alt word_le_nat_alt by (cases "cont m s 3") auto
qed

lemma div_range: "0 < k \<Longrightarrow> n div k = j \<longleftrightarrow> j * k \<le> n \<and> n < k + j * k" for n k j :: nat
  using dividend_less_times_div [of k n] times_div_less_eq_dividend [of k n]
  by (auto intro: div_nat_eqI simp: ac_simps)

lemma chartorune_utf8: "chartorune m s = utf8_decode m s"
proof -
  have d: "rbyte m s 0 div 32 = 6 \<longleftrightarrow> 192 \<le> rbyte m s 0 \<and> rbyte m s 0 < 224"
    "rbyte m s 0 div 16 = 14 \<longleftrightarrow> 224 \<le> rbyte m s 0 \<and> rbyte m s 0 < 240"
    "rbyte m s 0 div 8 = 30 \<longleftrightarrow> 240 \<le> rbyte m s 0 \<and> rbyte m s 0 < 248"
    by (simp_all add: div_range)
  have acc0: "acc0 m s = of_nat (rbyte m s 0)" by (rule of_natI) (rule rbyte_facts)
  show ?thesis
    unfolding chartorune_step0 chartorune_step1 utf8_decode_def Let_def rbyte_def [symmetric]
      val2_def [symmetric] val3_def [symmetric] val4_def [symmetric] d acc0 [symmetric]
    using chartorune_step2 [of m s] chartorune_step3 [of m s] by auto
qed

section \<open>runetochar encodes\<close>

lemma ucast_drop_bit: "(ucast (drop_bit n w) :: uchar) = of_nat (unat (w :: uint) div 2 ^ n)"
  by (metis of_nat_unat unat_drop_bit)

lemma cont_encode: "ucast (0x80 OR (drop_bit n c AND 0x3F)) = (of_nat (128 + unat c div 2 ^ n mod 64) :: uchar)"
  for c :: uint
  by (subst or_prefix) (simp_all add: unat_and_mask unat_drop_bit)

lemma runetochar_utf8:
  assumes "valid_rune c"
  shows "runetochar c = utf8_encode (unat c)"
proof -
  have v: "unat c \<le> 0x10FFFF" "\<not> (0xD800 \<le> c \<and> c \<le> 0xDFFF)" "\<not> 0x10FFFF < c"
    using assms by (auto simp: valid_rune_def word_le_nat_alt word_less_nat_alt)
  note d = unat_drop_bit [of _ c]
  note s = runetochar_loop.simps [of c 2] runetochar_loop.simps [of c 3] runetochar_loop.simps [of c 4]
  consider "unat c < 0x80" | "0x80 \<le> unat c" "unat c < 0x800" | "0x800 \<le> unat c" "unat c < 0x10000"
    | "0x10000 \<le> unat c" by linarith
  then show ?thesis
  proof cases
    case 1
    then have "c \<le> 0x7F" by (simp add: word_le_nat_alt)
    then show ?thesis using 1 by (simp add: runetochar_def rune_consts utf8_encode_def)
  next
    case 2
    then have "unat (drop_bit 6 c) < 32" using d [of 6] by simp
    moreover have "\<not> c \<le> 0x7F" "c \<le> 0x7FF" using 2 by (simp_all add: word_le_nat_alt)
    ultimately show ?thesis using 2 d [of 6] ucast_drop_bit [of 6 c] cont_encode [of 0 c]
      by (simp add: runetochar_def rune_consts s utf8_encode_def or_prefix Let_def upt_rec)
  next
    case 3
    then have "unat (drop_bit 12 c) < 16" using d [of 12] by simp
    moreover have "\<not> c \<le> 0x7F" "\<not> c \<le> 0x7FF" "c \<le> 0xFFFF" using 3 by (simp_all add: word_le_nat_alt)
    ultimately show ?thesis using 3 v d [of 12] ucast_drop_bit [of 12 c] cont_encode [of 0 c] cont_encode [of 6 c]
      by (auto simp: runetochar_def rune_consts s utf8_encode_def or_prefix Let_def upt_rec)
  next
    case 4
    then have "unat (drop_bit 18 c) < 8" using d [of 18] v by simp
    moreover have "\<not> c \<le> 0x7F" "\<not> c \<le> 0x7FF" "\<not> c \<le> 0xFFFF" using 4 by (simp_all add: word_le_nat_alt)
    ultimately show ?thesis using 4 v d [of 18] ucast_drop_bit [of 18 c] cont_encode [of 0 c] cont_encode [of 6 c] cont_encode [of 12 c]
      by (auto simp: runetochar_def rune_consts s utf8_encode_def or_prefix Let_def upt_rec)
  qed
qed

lemma runetochar_invalid:
  assumes "\<not> valid_rune c"
  shows "runetochar c = utf8_encode 0xFFFD"
proof -
  have "\<not> c \<le> 0x7F" "\<not> c \<le> 0x7FF" and v: "0x10FFFF < c \<or> 0xD800 \<le> c \<and> c \<le> 0xDFFF"
    using assms by (auto simp: valid_rune_def word_le_nat_alt word_less_nat_alt)
  then have "runetochar c = runetochar_loop c 3"
    by (simp add: runetochar_def rune_consts runetochar_loop.simps [of c 2] numeral_3_eq_3)
  also have "\<dots> = runetochar_loop 0xFFFD 3"
    using v by (auto simp: runetochar_loop.simps [of _ 3] Let_def)
  also have "\<dots> = runetochar 0xFFFD"
    by (simp add: runetochar_def rune_consts runetochar_loop.simps [of _ 2] numeral_3_eq_3)
  also have "\<dots> = utf8_encode 0xFFFD"
    using runetochar_utf8 [of "0xFFFD"] by (simp add: valid_rune_def)
  finally show ?thesis .
qed

lemma runetochar_valid:
  "runetochar c = utf8_encode (unat (if valid_rune c then c else Runeerror))"
  by (simp add: runetochar_utf8 runetochar_invalid)

section \<open>Decoding an encoded rune\<close>

lemma div_mod_add: "q < n \<Longrightarrow> (k * n + q) div n = k \<and> (k * n + q) mod n = q" for q n k :: nat
  by simp

lemma lead_arith:
  fixes q x :: nat
  shows "q < 32 \<Longrightarrow> (192 + q) div 32 = 6 \<and> (192 + q) mod 32 = q"
    and "q < 16 \<Longrightarrow> (224 + q) div 16 = 14 \<and> (224 + q) mod 16 = q \<and> (224 + q) div 32 = 7"
    and "q < 8 \<Longrightarrow> (240 + q) div 8 = 30 \<and> (240 + q) mod 8 = q
      \<and> (240 + q) div 32 = 7 \<and> (240 + q) div 16 = 15"
    and "x < 64 \<Longrightarrow> (128 + x) div 64 = 2 \<and> (128 + x) mod 64 = x"
  using div_mod_add [of q 32 6] div_mod_add [of q 16 14] div_mod_add [of q 32 7] div_mod_add [of q 8 30]
    div_mod_add [of "16 + q" 32 7] div_mod_add [of q 16 15] div_mod_add [of x 64 2]
  by simp_all

lemma digits64:
  fixes c :: nat
  shows "c div 64 * 64 + c mod 64 = c"
    and "c div 4096 * 4096 + c div 64 mod 64 * 64 + c mod 64 = c"
    and "c div 262144 * 262144 + c div 4096 mod 64 * 4096 + c div 64 mod 64 * 64 + c mod 64 = c"
proof -
  have d: "c div 64 div 64 = c div 4096" "c div 4096 div 64 = c div 262144" by (simp_all flip: div_mult2_eq)
  have e: "c div 64 = c div 4096 * 64 + c div 64 mod 64" "c div 4096 = c div 262144 * 64 + c div 4096 mod 64"
    using div_mult_mod_eq [of "c div 64" 64] div_mult_mod_eq [of "c div 4096" 64] by (simp_all add: d)
  show 1: "c div 64 * 64 + c mod 64 = c" by simp
  show 2: "c div 4096 * 4096 + c div 64 mod 64 * 64 + c mod 64 = c" using e 1 by linarith
  show "c div 262144 * 262144 + c div 4096 mod 64 * 4096 + c div 64 mod 64 * 64 + c mod 64 = c"
    using e 2 by linarith
qed

lemma rbyte_at:
  assumes "drop s m = map of_nat bs @ r" and "list_all (\<lambda>b. b < 256) bs" and "i < length bs"
  shows "rbyte m s i = bs ! i"
proof -
  have "rd m (s + i) = rd (map of_nat bs @ r) i" using assms(1) by (metis rd_drop)
  then show ?thesis using assms(2,3)
    by (simp add: rbyte_def rd_append_left rd_def nth_append unat_of_nat_small list_all_length)
qed

lemma utf8_decode_alt:
  "utf8_decode m s =
     (if rbyte m s 0 < 128 then (1, of_nat (rbyte m s 0))
      else if rbyte m s 0 div 32 = 6 \<and> cont m s 1 \<and> 0x80 \<le> val2 m s then (2, of_nat (val2 m s))
      else if rbyte m s 0 div 16 = 14 \<and> cont m s 1 \<and> cont m s 2 \<and> 0x800 \<le> val3 m s
        \<and> \<not> (0xD800 \<le> val3 m s \<and> val3 m s \<le> 0xDFFF) then (3, of_nat (val3 m s))
      else if rbyte m s 0 div 8 = 30 \<and> cont m s 1 \<and> cont m s 2 \<and> cont m s 3 \<and> 0x10000 \<le> val4 m s
        \<and> val4 m s \<le> 0x10FFFF then (4, of_nat (val4 m s))
      else (1, Runeerror))"
  unfolding utf8_decode_def Let_def rbyte_def val2_def val3_def val4_def by (rule refl)

lemma utf8_decode_encode:
  assumes d: "drop s m = utf8_encode c @ r" and c: "c \<le> 0x10FFFF" "\<not> (0xD800 \<le> c \<and> c \<le> 0xDFFF)"
  shows "utf8_decode m s = (length (utf8_encode c), of_nat c)"
proof -
  consider "c < 0x80" | "0x80 \<le> c" "c < 0x800" | "0x800 \<le> c" "c < 0x10000" | "0x10000 \<le> c" by linarith
  then show ?thesis
  proof cases
    case 1
    then have "drop s m = map of_nat [c] @ r" using d by (simp add: utf8_encode_def)
    from rbyte_at [OF this, of 0] 1 show ?thesis by (simp add: utf8_decode_alt utf8_encode_def)
  next
    case 2
    let ?bs = "[192 + c div 64, 128 + c mod 64]"
    have q: "c div 64 < 32" using 2 by simp
    have "drop s m = map of_nat ?bs @ r" using d 2 by (simp add: utf8_encode_def)
    note at = rbyte_at [OF this]
    have b: "rbyte m s 0 = 192 + c div 64" "rbyte m s 1 = 128 + c mod 64"
      using at [of 0] at [of 1] q mod64_bounds(1) [of c] by simp_all
    have "val2 m s = c" unfolding val2_def b using lead_arith(1) [OF q] digits64(1) [of c] lead_arith(4) by simp
    then show ?thesis using 2 b lead_arith(1) [OF q] lead_arith(4) by (simp add: utf8_decode_alt utf8_encode_def)
  next
    case 3
    let ?bs = "[224 + c div 4096, 128 + c div 64 mod 64, 128 + c mod 64]"
    have q: "c div 4096 < 16" using 3 by simp
    have "drop s m = map of_nat ?bs @ r" using d 3 by (simp add: utf8_encode_def)
    note at = rbyte_at [OF this]
    have b: "rbyte m s 0 = 224 + c div 4096" "rbyte m s 1 = 128 + c div 64 mod 64" "rbyte m s 2 = 128 + c mod 64"
      using at [of 0] at [of 1] at [of 2] q mod64_bounds(1) [of c] mod64_bounds(1) [of "c div 64"] by simp_all
    have "val3 m s = c" unfolding val3_def b using lead_arith(2) [OF q] digits64(2) [of c] lead_arith(4) by simp
    then show ?thesis using 3 c b lead_arith(2) [OF q] lead_arith(4) by (auto simp: utf8_decode_alt utf8_encode_def)
  next
    case 4
    let ?bs = "[240 + c div 262144, 128 + c div 4096 mod 64, 128 + c div 64 mod 64, 128 + c mod 64]"
    have q: "c div 262144 < 8" using c by simp
    have "drop s m = map of_nat ?bs @ r" using d 4 by (simp add: utf8_encode_def)
    note at = rbyte_at [OF this]
    have b: "rbyte m s 0 = 240 + c div 262144" "rbyte m s 1 = 128 + c div 4096 mod 64"
        "rbyte m s 2 = 128 + c div 64 mod 64" "rbyte m s 3 = 128 + c mod 64"
      using at [of 0] at [of 1] at [of 2] at [of 3] q mod64_bounds(1) [of c] mod64_bounds(1) [of "c div 64"]
        mod64_bounds(1) [of "c div 4096"] by simp_all
    have "val4 m s = c" unfolding val4_def b using lead_arith(3) [OF q] digits64(3) [of c] lead_arith(4) by simp
    then show ?thesis using 4 c b lead_arith(3) [OF q] lead_arith(4) by (auto simp: utf8_decode_alt utf8_encode_def)
  qed
qed

end
