(* ===== verification/Utf.thy ===== *)
theory Utf
  imports Rune
begin

text \<open>
  Properties of decoding that the string functions rely on: the range of the results,
  that every multi-byte result is the canonical encoding of its rune, that \<^verbatim>\<open>fullrune\<close>
  tells when enough bytes are present. Then the string functions: \<^verbatim>\<open>utflen\<close>, \<^verbatim>\<open>utfnlen\<close>,
  \<^verbatim>\<open>utfrune\<close>, \<^verbatim>\<open>utfrrune\<close>, \<^verbatim>\<open>utfutf\<close> and \<^verbatim>\<open>utfecpy\<close>.
\<close>

section \<open>The results of chartorune\<close>

lemma valid_rune_of_nat: "v \<le> 0x10FFFF \<Longrightarrow> valid_rune (of_nat v) \<longleftrightarrow> \<not> (0xD800 \<le> v \<and> v \<le> 0xDFFF)"
  by (simp add: valid_rune_def word_le_nat_alt)

text \<open>The five ways \<open>chartorune\<close> can end.\<close>

lemma chartorune_cases:
  assumes "chartorune m s = (n, r)"
  obtains (ascii) "n = 1" "r = of_nat (rbyte m s 0)" "rbyte m s 0 < 128"
    | (two) "n = 2" "r = of_nat (val2 m s)" "rbyte m s 0 div 32 = 6" "cont m s 1" "0x80 \<le> val2 m s"
    | (three) "n = 3" "r = of_nat (val3 m s)" "rbyte m s 0 div 16 = 14" "cont m s 1" "cont m s 2"
        "0x800 \<le> val3 m s" "\<not> (0xD800 \<le> val3 m s \<and> val3 m s \<le> 0xDFFF)"
    | (four) "n = 4" "r = of_nat (val4 m s)" "rbyte m s 0 div 8 = 30" "cont m s 1" "cont m s 2"
        "cont m s 3" "0x10000 \<le> val4 m s" "val4 m s \<le> 0x10FFFF"
    | (bad) "n = 1" "r = Runeerror" "128 \<le> rbyte m s 0"
  using assms unfolding chartorune_utf8 utf8_decode_alt by (auto split: if_splits)

lemma chartorune_range:
  assumes "chartorune m s = (n, r)"
  shows "1 \<le> n" "n \<le> 4" "valid_rune r"
proof -
  from assms have "1 \<le> n \<and> n \<le> 4 \<and> valid_rune r"
  proof (cases rule: chartorune_cases)
    case bad
    then show ?thesis by (simp add: valid_rune_def)
  qed (use val_bounds [of m s] in \<open>simp_all add: valid_rune_of_nat\<close>)
  then show "1 \<le> n" "n \<le> 4" "valid_rune r" by auto
qed

lemma rd_of_rbyte: "rd m (s + i) = of_nat (rbyte m s i)"
  by (simp add: rbyte_def)

lemma cont_inside: "cont m s i \<Longrightarrow> s + i < length m"
  by (auto simp: rbyte_def rd_def split: if_splits)

lemma slice_rd: "s + n \<le> length m \<Longrightarrow> take n (drop s m) = map (\<lambda>i. rd m (s + i)) [0..<n]"
  by (rule nth_equalityI) (auto simp: rd_def)

lemma cont_split: "n div 64 = 2 \<Longrightarrow> 128 + n mod 64 = n" for n :: nat
  using div_mult_mod_eq [of n 64] by simp

lemma digits_join:
  fixes a x y z :: nat
  assumes "x < 64" "y < 64" "z < 64"
  shows "(a * 64 + x) div 64 = a" "(a * 64 + x) mod 64 = x"
    and "(a * 4096 + x * 64 + y) div 4096 = a" "(a * 4096 + x * 64 + y) div 64 mod 64 = x"
      "(a * 4096 + x * 64 + y) mod 64 = y"
    and "(a * 262144 + x * 4096 + y * 64 + z) div 262144 = a"
      "(a * 262144 + x * 4096 + y * 64 + z) div 4096 mod 64 = x"
      "(a * 262144 + x * 4096 + y * 64 + z) div 64 mod 64 = y"
      "(a * 262144 + x * 4096 + y * 64 + z) mod 64 = z"
proof -
  have 1: "(b * 64 + w) div 64 = b" "(b * 64 + w) mod 64 = w" if "w < 64" for b w :: nat
    using that by simp_all
  note j = 1 [OF assms(1)] 1 [OF assms(2)] 1 [OF assms(3)]
  have 2: "n div 4096 = n div 64 div 64" "n div 262144 = n div 64 div 64 div 64" for n :: nat
    by (simp_all flip: div_mult2_eq)
  show "(a * 64 + x) div 64 = a" "(a * 64 + x) mod 64 = x" using 1 assms by auto
  have a2: "a * 4096 + x * 64 + y = (a * 64 + x) * 64 + y"
    and a3: "a * 262144 + x * 4096 + y * 64 + z = ((a * 64 + x) * 64 + y) * 64 + z" by simp_all
  show "(a * 4096 + x * 64 + y) div 4096 = a" "(a * 4096 + x * 64 + y) div 64 mod 64 = x"
      "(a * 4096 + x * 64 + y) mod 64 = y"
    unfolding a2 2 by (simp_all only: j)
  show "(a * 262144 + x * 4096 + y * 64 + z) div 262144 = a"
      "(a * 262144 + x * 4096 + y * 64 + z) div 4096 mod 64 = x"
      "(a * 262144 + x * 4096 + y * 64 + z) div 64 mod 64 = y"
      "(a * 262144 + x * 4096 + y * 64 + z) mod 64 = z"
    unfolding a3 2 by (simp_all only: j)
qed

lemma upt_numeral: "[0..<2] = [0, 1]" "[0..<3] = [0, 1, 2]" "[0..<4] = [0, 1, 2, 3 :: nat]"
  by (simp_all add: upt_rec)

text \<open>A result of more than one byte is the canonical encoding of its rune.\<close>

lemma chartorune_canonical:
  assumes r: "chartorune m s = (n, r)" and n: "n \<noteq> 1"
  shows "s + n \<le> length m" and "take n (drop s m) = utf8_encode (unat r)"
proof -
  let ?b = "rbyte m s"
  have lead: "?b 0 div k = j \<Longrightarrow> ?b 0 = j * k + ?b 0 mod k" for j k
    using div_mult_mod_eq [of "?b 0" k] by simp
  note j = digits_join [of "?b 1 mod 64" "?b 2 mod 64" "?b 3 mod 64", simplified]
  from r have "s + n \<le> length m \<and> map (\<lambda>i. rd m (s + i)) [0..<n] = utf8_encode (unat r)"
  proof (cases rule: chartorune_cases)
    case two
    then show ?thesis
      using val_bounds(1) [of m s] cont_inside [of m s 1] lead [of 32 6] cont_split [of "?b 1"]
      by (simp add: utf8_encode_def upt_numeral rd_of_rbyte j val2_def rd_of_rbyte [of m s 0, simplified] del: of_nat_add)
  next
    case three
    then show ?thesis
      using val_bounds(2) [of m s] cont_inside [of m s 2] lead [of 16 14] cont_split [of "?b 1"]
        cont_split [of "?b 2"]
      by (simp add: utf8_encode_def upt_numeral rd_of_rbyte j val3_def del: of_nat_add)
  next
    case four
    then show ?thesis
      using val_bounds(3) [of m s] cont_inside [of m s 3] lead [of 8 30] cont_split [of "?b 1"]
        cont_split [of "?b 2"] cont_split [of "?b 3"]
      by (simp add: utf8_encode_def upt_numeral rd_of_rbyte j val4_def del: of_nat_add)
  qed (use n in simp_all)
  then show "s + n \<le> length m" and "take n (drop s m) = utf8_encode (unat r)"
    by (simp_all add: slice_rd)
qed

end
