(* ===== verification/Cstring.thy ===== *)
theory Cstring
  imports Prelude "HOL-Library.Sublist"
begin

text \<open>
  The string and memory functions of \<^verbatim>\<open>lib_core/libc/port\<close>: searching (\<^verbatim>\<open>strchr\<close>, \<^verbatim>\<open>strrchr\<close>,
  \<^verbatim>\<open>strstr\<close>, \<^verbatim>\<open>memchr\<close>, \<^verbatim>\<open>strspn\<close>, \<^verbatim>\<open>strcspn\<close>, \<^verbatim>\<open>strpbrk\<close>), comparing (\<^verbatim>\<open>strcmp\<close>, \<^verbatim>\<open>strncmp\<close>,
  \<^verbatim>\<open>memcmp\<close>) and copying (\<^verbatim>\<open>memccpy\<close>, \<^verbatim>\<open>strcpy\<close>, \<^verbatim>\<open>strncpy\<close>, \<^verbatim>\<open>strecpy\<close>, \<^verbatim>\<open>strcat\<close>,
  \<^verbatim>\<open>strncat\<close>, \<^verbatim>\<open>memmove\<close>, \<^verbatim>\<open>memset\<close>). A pointer is a buffer and an offset; a read past the
  end of a buffer yields the NUL that terminates its string. A \<open>char*\<close> result is an
  optional offset. The copying functions take the destination buffer and return it
  changed; a write past its end makes it longer, so the theorems that a result has
  the length of the destination are the absence of overruns. \<open>memmove\<close> works within one
  buffer, since its contract is about overlapping regions.
\<close>

lemma rd_nonzero: "rd m s \<noteq> 0 \<Longrightarrow> s < length m"
  by (auto simp: rd_def split: if_splits)

section \<open>Searching\<close>

text \<open>The idiom \<^verbatim>\<open>while(*s++) ;\<close>, with the pointer backed up to the NUL.\<close>

function strend :: "bytes \<Rightarrow> nat \<Rightarrow> nat" where
  "strend m s = (if rd m s \<noteq> 0 then strend m (s + 1) else s)"
  by pat_completeness auto
termination by (relation "measure (\<lambda>(m, s). length m - s)") (auto dest: rd_nonzero)

function strchr_loop :: "bytes \<Rightarrow> nat \<Rightarrow> uchar \<Rightarrow> nat option" where
  "strchr_loop m s c0 =
     (let c1 = rd m s in
      if c1 \<noteq> 0 then if c1 = c0 then Some s else strchr_loop m (s + 1) c0
      else None)"
  by pat_completeness auto
termination by (relation "measure (\<lambda>(m, s, c0). length m - s)") (auto dest: rd_nonzero)

definition strchr :: "bytes \<Rightarrow> nat \<Rightarrow> int \<Rightarrow> nat option" where
  "strchr m s c = (let c0 = word_of_int c in
     if c = 0 then Some (strend m s) else strchr_loop m s c0)"

definition strlen :: "bytes \<Rightarrow> nat \<Rightarrow> nat" where
  "strlen m s = the (strchr m s 0) - s"

declare strend.simps [simp del] strchr_loop.simps [simp del]

lemma strchr_loop_bounds: "strchr_loop m s c0 = Some p \<Longrightarrow> s \<le> p \<and> p < length m"
  by (induction m s c0 rule: strchr_loop.induct)
    (subst (asm) (2) strchr_loop.simps, fastforce simp: Let_def split: if_splits dest: rd_nonzero)

text \<open>The loop of \<open>strrchr\<close>, whose \<open>c\<close> is not 0.\<close>

function strrchr_loop :: "bytes \<Rightarrow> nat \<Rightarrow> uchar \<Rightarrow> nat option \<Rightarrow> nat option" where
  "strrchr_loop m s c0 r =
     (case strchr_loop m s c0 of
        None \<Rightarrow> r
      | Some p \<Rightarrow> strrchr_loop m (p + 1) c0 (Some p))"
  by pat_completeness auto
termination by (relation "measure (\<lambda>(m, s, c0, r). length m - s)") (fastforce dest: strchr_loop_bounds)+

definition strrchr :: "bytes \<Rightarrow> nat \<Rightarrow> int \<Rightarrow> nat option" where
  "strrchr m s c = (if c = 0 then strchr m s 0 else strrchr_loop m s (word_of_int c) None)"

text \<open>The inner loop of \<open>strstr\<close>.\<close>

function strstr_match :: "bytes \<Rightarrow> nat \<Rightarrow> bytes \<Rightarrow> nat \<Rightarrow> bool" where
  "strstr_match m1 pa m2 pb =
     (let c = rd m2 pb in
      if c = 0 then True
      else if c \<noteq> rd m1 (pa + 1) then False
      else strstr_match m1 (pa + 1) m2 (pb + 1))"
  by pat_completeness auto
termination by (relation "measure (\<lambda>(m1, pa, m2, pb). length m2 - pb)") (auto simp: rd_def split: if_splits)

function strstr_loop :: "bytes \<Rightarrow> bytes \<Rightarrow> nat \<Rightarrow> uchar \<Rightarrow> nat option \<Rightarrow> nat option" where
  "strstr_loop m1 m2 s2 c0 None = None"
| "strstr_loop m1 m2 s2 c0 (Some p) =
     (if strstr_match m1 p m2 s2 then Some p
      else strstr_loop m1 m2 s2 c0 (strchr_loop m1 (p + 1) c0))"
  by pat_completeness auto
termination
  by (relation "measure (\<lambda>(m1, m2, s2, c0, p). case p of None \<Rightarrow> 0 | Some q \<Rightarrow> Suc (length m1 - q))")
    (auto split: option.split dest!: strchr_loop_bounds)

definition strstr :: "bytes \<Rightarrow> nat \<Rightarrow> bytes \<Rightarrow> nat \<Rightarrow> nat option" where
  "strstr m1 s1 m2 s2 =
     (let c0 = rd m2 s2 in
      if c0 = 0 then Some s1
      else strstr_loop m1 m2 (s2 + 1) c0 (strchr_loop m1 s1 c0))"

declare strrchr_loop.simps [simp del] strstr_match.simps [simp del] strstr_loop.simps [simp del]

fun memchr :: "bytes \<Rightarrow> nat \<Rightarrow> uchar \<Rightarrow> nat \<Rightarrow> nat option" where
  "memchr m sp c 0 = None"
| "memchr m sp c (Suc n) = (if rd m sp = c then Some sp else memchr m (sp + 1) c n)"

text \<open>The character sets of \<open>strspn\<close> and its relatives: \<^verbatim>\<open>char map[256]\<close>.\<close>

function setmap :: "(uchar \<Rightarrow> bool) \<Rightarrow> bytes \<Rightarrow> nat \<Rightarrow> uchar \<Rightarrow> bool" where
  "setmap mp m b = (if rd m b \<noteq> 0 then setmap (mp(rd m b := True)) m (b + 1) else mp)"
  by pat_completeness auto
termination by (relation "measure (\<lambda>(mp, m, b). length m - b)") (auto dest: rd_nonzero)

declare setmap.simps [simp del]

text \<open>Skipping while the map says so; the maps used stop at NUL.\<close>

function skipmap :: "(uchar \<Rightarrow> bool) \<Rightarrow> bytes \<Rightarrow> nat \<Rightarrow> nat" where
  "skipmap mp m s = (if mp (rd m s) \<and> s < length m then skipmap mp m (s + 1) else s)"
  by pat_completeness auto
termination by (relation "measure (\<lambda>(mp, m, s). length m - s)") auto

declare skipmap.simps [simp del]

definition strspn :: "bytes \<Rightarrow> nat \<Rightarrow> bytes \<Rightarrow> nat \<Rightarrow> nat" where
  "strspn m s mb b = (let mp = setmap (\<lambda>_. False) mb b in skipmap mp m s - s)"

definition strcspn :: "bytes \<Rightarrow> nat \<Rightarrow> bytes \<Rightarrow> nat \<Rightarrow> nat" where
  "strcspn m s mb b =
     (let mp = (setmap (\<lambda>_. False) mb b)(0 := True) in skipmap (\<lambda>c. \<not> mp c) m s - s)"

definition strpbrk :: "bytes \<Rightarrow> nat \<Rightarrow> bytes \<Rightarrow> nat \<Rightarrow> nat option" where
  "strpbrk m s mb b =
     (let mp = (setmap (\<lambda>_. False) mb b)(0 := True); s' = skipmap (\<lambda>c. \<not> mp c) m s
      in if rd m s' \<noteq> 0 then Some s' else None)"

section \<open>Comparing\<close>

text \<open>A plain \<open>char\<close> is signed: it is sign-extended into the \<open>unsigned\<close> that is compared.\<close>

function strcmp :: "bytes \<Rightarrow> nat \<Rightarrow> bytes \<Rightarrow> nat \<Rightarrow> int" where
  "strcmp m1 s1 m2 s2 =
     (let c1 = scast (rd m1 s1) :: uint; c2 = scast (rd m2 s2) in
      if c1 \<noteq> c2 then (if c1 > c2 then 1 else -1)
      else if c1 = 0 then 0
      else strcmp m1 (s1 + 1) m2 (s2 + 1))"
  by pat_completeness auto
termination by (relation "measure (\<lambda>(m1, s1, m2, s2). length m1 - s1)") (auto simp: rd_def split: if_splits)

fun strncmp :: "bytes \<Rightarrow> nat \<Rightarrow> bytes \<Rightarrow> nat \<Rightarrow> nat \<Rightarrow> int" where
  "strncmp m1 s1 m2 s2 0 = 0"
| "strncmp m1 s1 m2 s2 (Suc n) =
     (let c1 = scast (rd m1 s1) :: uint; c2 = scast (rd m2 s2) in
      if c1 \<noteq> c2 then (if c1 > c2 then 1 else -1)
      else if c1 = 0 then 0
      else strncmp m1 (s1 + 1) m2 (s2 + 1) n)"

fun memcmp :: "bytes \<Rightarrow> nat \<Rightarrow> bytes \<Rightarrow> nat \<Rightarrow> nat \<Rightarrow> int" where
  "memcmp m1 s1 m2 s2 0 = 0"
| "memcmp m1 s1 m2 s2 (Suc n) =
     (let c1 = ucast (rd m1 s1) :: uint; c2 = ucast (rd m2 s2) in
      if c1 \<noteq> c2 then (if c1 > c2 then 1 else -1)
      else memcmp m1 (s1 + 1) m2 (s2 + 1) n)"

declare strcmp.simps [simp del]

section \<open>Copying\<close>

fun memccpy :: "bytes \<Rightarrow> nat \<Rightarrow> bytes \<Rightarrow> nat \<Rightarrow> uchar \<Rightarrow> nat \<Rightarrow> bytes \<times> nat option" where
  "memccpy d s1 m s2 c 0 = (d, None)"
| "memccpy d s1 m s2 c (Suc n) =
     (let d = poke d s1 [rd m s2] in
      if rd m s2 = c then (d, Some (s1 + 1)) else memccpy d (s1 + 1) m (s2 + 1) c n)"

lemma memccpy_None_bound: "memccpy d s1 m s2 0 n = (d', None) \<Longrightarrow> 0 < n \<Longrightarrow> s2 < length m"
  by (cases n) (auto simp: Let_def split: if_splits dest: rd_nonzero)

text \<open>\<^verbatim>\<open>strcpy\<close> copies in blocks of \<open>N = 10000\<close> bytes.\<close>

function strcpy :: "bytes \<Rightarrow> nat \<Rightarrow> bytes \<Rightarrow> nat \<Rightarrow> bytes" where
  "strcpy d s1 m s2 =
     (case memccpy d s1 m s2 0 10000 of
        (d', None) \<Rightarrow> strcpy d' (s1 + 10000) m (s2 + 10000)
      | (d', Some _) \<Rightarrow> d')"
  by pat_completeness auto
termination
  by (relation "measure (\<lambda>(d, s1, m, s2). length m - s2)") (fastforce dest: memccpy_None_bound [OF sym])+

declare strcpy.simps [simp del]

text \<open>\<open>strncpy d s1 m s2 k\<close>: the loop with \<open>k = n - i\<close> iterations left.\<close>

fun strncpy :: "bytes \<Rightarrow> nat \<Rightarrow> bytes \<Rightarrow> nat \<Rightarrow> nat \<Rightarrow> bytes" where
  "strncpy d s1 m s2 0 = d"
| "strncpy d s1 m s2 (Suc k) =
     (let d = poke d s1 [rd m s2] in
      if rd m s2 = 0 then poke d (s1 + 1) (replicate k 0)
      else strncpy d (s1 + 1) m (s2 + 1) k)"

definition strecpy :: "bytes \<Rightarrow> nat \<Rightarrow> nat \<Rightarrow> bytes \<Rightarrow> nat \<Rightarrow> bytes \<times> nat" where
  "strecpy d to e m from =
     (if to \<ge> e then (d, to)
      else case memccpy d to m from 0 (e - to) of
        (d, None) \<Rightarrow> (poke d (e - 1) [0], e - 1)
      | (d, Some t) \<Rightarrow> (d, t - 1))"

definition strcat :: "bytes \<Rightarrow> nat \<Rightarrow> bytes \<Rightarrow> nat \<Rightarrow> bytes" where
  "strcat d s1 m s2 = strcpy d (the (strchr d s1 0)) m s2"

text \<open>The second loop of \<open>strncat\<close>; \<open>n\<close> is a signed \<open>long\<close>.\<close>

function strncat_loop :: "bytes \<Rightarrow> nat \<Rightarrow> bytes \<Rightarrow> nat \<Rightarrow> int \<Rightarrow> bytes" where
  "strncat_loop d s1 m s2 n =
     (let d = poke d s1 [rd m s2] in
      if rd m s2 \<noteq> 0 then
        if n - 1 < 0 then poke d s1 [0]
        else strncat_loop d (s1 + 1) m (s2 + 1) (n - 1)
      else d)"
  by pat_completeness auto
termination by (relation "measure (\<lambda>(d, s1, m, s2, n). length m - s2)") (auto dest: rd_nonzero)

declare strncat_loop.simps [simp del]

definition strncat :: "bytes \<Rightarrow> nat \<Rightarrow> bytes \<Rightarrow> nat \<Rightarrow> int \<Rightarrow> bytes" where
  "strncat d s1 m s2 n = strncat_loop d (strend d s1) m s2 n"

fun memset :: "bytes \<Rightarrow> nat \<Rightarrow> uchar \<Rightarrow> nat \<Rightarrow> bytes" where
  "memset d p c 0 = d"
| "memset d p c (Suc n) = memset (poke d p [c]) (p + 1) c n"

text \<open>
  \<open>memmove m s1 s2 n\<close> copies within the buffer \<open>m\<close>; \<open>None\<close> is the \<open>abort()\<close> on a length that
  is negative as a \<open>long\<close>.
\<close>

fun copy_up :: "bytes \<Rightarrow> nat \<Rightarrow> nat \<Rightarrow> nat \<Rightarrow> bytes" where
  "copy_up m s1 s2 0 = m"
| "copy_up m s1 s2 (Suc n) = copy_up (poke m s1 [rd m s2]) (s1 + 1) (s2 + 1) n"

fun copy_back :: "bytes \<Rightarrow> nat \<Rightarrow> nat \<Rightarrow> nat \<Rightarrow> bytes" where
  "copy_back m s1 s2 0 = m"
| "copy_back m s1 s2 (Suc n) = copy_back (poke m (s1 + n) [rd m (s2 + n)]) s1 s2 n"

definition memmove :: "bytes \<Rightarrow> nat \<Rightarrow> nat \<Rightarrow> uint \<Rightarrow> bytes option" where
  "memmove m s1 s2 n =
     (if sint n < 0 then None
      else if s2 < s1 \<and> s2 + unat n > s1 then Some (copy_back m s1 s2 (unat n))
      else Some (copy_up m s1 s2 (unat n)))"

end
