(* ===== verification/Cstring_Spec.thy ===== *)
theory Cstring_Spec
  imports Cstring
begin

text \<open>
  What the string functions compute, in terms of the byte lists their arguments denote
  (\<open>cstr\<close>): closed forms and first/last-occurrence characterisations for searching, the
  lexicographic order for comparing, one \<open>poke\<close> for every copying function.
\<close>

section \<open>The string at an offset\<close>

lemma cstr_rec: "cstr m s = (if rd m s = 0 then [] else rd m s # cstr m (s + 1))"
proof (cases "s < length m")
  case True
  then have "drop s m = m ! s # drop (Suc s) m" by (rule Cons_nth_drop_Suc [symmetric])
  then show ?thesis using True by (simp add: cstr_def rd_def)
next
  case False
  then show ?thesis by (simp add: cstr_def rd_def)
qed

lemma cstr_Cons: "rd m s \<noteq> 0 \<Longrightarrow> cstr m s = rd m s # cstr m (Suc s)"
  by (subst cstr_rec) simp

lemma cstr_Nil: "rd m s = 0 \<Longrightarrow> cstr m s = []"
  by (subst cstr_rec) simp

lemma cstr_induct [case_names stop more]:
  assumes "\<And>s. rd m s = 0 \<Longrightarrow> P s" and "\<And>s. rd m s \<noteq> 0 \<Longrightarrow> P (Suc s) \<Longrightarrow> P s"
  shows "P s"
proof (induction "length m - s" arbitrary: s rule: less_induct)
  case less
  then show ?case using assms rd_nonzero [of m s] by (cases "rd m s = 0") auto
qed

lemma cstr_nth: "i < length (cstr m s) \<Longrightarrow> cstr m s ! i = rd m (s + i)"
proof (induction s arbitrary: i rule: cstr_induct [where m = m])
  case (stop s)
  then show ?case by (simp add: cstr_Nil)
next
  case (more s)
  then show ?case by (cases i) (auto simp: cstr_Cons)
qed

lemma cstr_drop: "i \<le> length (cstr m s) \<Longrightarrow> cstr m (s + i) = drop i (cstr m s)"
proof (induction s arbitrary: i rule: cstr_induct [where m = m])
  case (stop s)
  then show ?case by (simp add: cstr_Nil)
next
  case (more s)
  show ?case
  proof (cases i)
    case (Suc j)
    then show ?thesis using more.IH [of j] more.prems more.hyps by (simp add: cstr_Cons [OF more.hyps])
  qed simp
qed

lemma cstr_end: "rd m (s + length (cstr m s)) = 0"
proof (rule ccontr)
  assume "rd m (s + length (cstr m s)) \<noteq> 0"
  then have "cstr m (s + length (cstr m s)) \<noteq> []" by (simp add: cstr_Cons)
  then show False by (simp add: cstr_drop)
qed

lemma cstr_inside: "i < length (cstr m s) \<Longrightarrow> rd m (s + i) \<noteq> 0"
  using nth_mem [of i "cstr m s"] nulfree_cstr [of m s] by (auto simp: nulfree_def cstr_nth)

lemma cstr_nonzero [simp]: "0 \<notin> set (cstr m s)"
  using nulfree_cstr [of m s] by (simp add: nulfree_def)

section \<open>Searching\<close>

lemma strend_eq: "strend m s = s + length (cstr m s)"
  by (induction s rule: cstr_induct [where m = m])
    (simp_all add: strend.simps [of m] cstr_Cons cstr_Nil)

lemma strlen_eq: "strlen m s = length (cstr m s)"
  by (simp add: strlen_def strchr_def Let_def strend_eq)

lemma strchr_loop_eq:
  "strchr_loop m s c = (if c \<in> set (cstr m s)
     then Some (s + length (takeWhile (\<lambda>b. b \<noteq> c) (cstr m s))) else None)"
  by (induction s rule: cstr_induct [where m = m])
    (auto simp: strchr_loop.simps [of m] cstr_Cons cstr_Nil Let_def)

lemma strchr_loop_first:
  "strchr_loop m s c = Some p \<Longrightarrow> s \<le> p \<and> p < s + length (cstr m s) \<and> rd m p = c \<and> c \<noteq> 0
     \<and> (\<forall>q. s \<le> q \<longrightarrow> q < p \<longrightarrow> rd m q \<noteq> c)"
proof (induction s rule: cstr_induct [where m = m])
  case (stop s)
  then show ?case by (simp add: strchr_loop.simps)
next
  case (more s)
  show ?case
  proof (cases "rd m s = c")
    case True
    then show ?thesis using more by (simp add: strchr_loop.simps cstr_Cons)
  next
    case False
    then have "strchr_loop m (Suc s) c = Some p"
      using more.prems more.hyps by (simp add: strchr_loop.simps [of m s])
    note IH = more.IH [OF this]
    have "rd m q \<noteq> c" if "s \<le> q" "q < p" for q
      using IH False that by (cases "q = s") auto
    then show ?thesis using IH more.hyps by (auto simp: cstr_Cons)
  qed
qed

lemma strchr_loop_none: "strchr_loop m s c = None \<longleftrightarrow> c \<notin> set (cstr m s)"
  by (simp add: strchr_loop_eq)

lemma in_cstr: "c \<in> set (cstr m s) \<longleftrightarrow> (\<exists>q \<ge> s. q < s + length (cstr m s) \<and> rd m q = c)"
proof
  assume "c \<in> set (cstr m s)"
  then obtain i where "i < length (cstr m s)" "cstr m s ! i = c" by (auto simp: in_set_conv_nth)
  then show "\<exists>q \<ge> s. q < s + length (cstr m s) \<and> rd m q = c"
    by (intro exI [of _ "s + i"]) (simp add: cstr_nth)
next
  assume "\<exists>q \<ge> s. q < s + length (cstr m s) \<and> rd m q = c"
  then obtain q where "s \<le> q" "q - s < length (cstr m s)" "rd m (s + (q - s)) = c" by auto
  then show "c \<in> set (cstr m s)" using nth_mem [of "q - s" "cstr m s"] by (simp add: cstr_nth)
qed

text \<open>The offset after a character stays in the same string.\<close>

lemma cstr_after:
  assumes "s \<le> p" and "p < s + length (cstr m s)"
  shows "Suc p + length (cstr m (Suc p)) = s + length (cstr m s)"
  using assms cstr_drop [of "Suc p - s" m s] by simp

lemma strrchr_loop_last:
  "case strrchr_loop m s c r of
     None \<Rightarrow> r = None \<and> c \<notin> set (cstr m s)
   | Some p \<Rightarrow> Some p = r \<and> c \<notin> set (cstr m s) \<or>
       s \<le> p \<and> p < s + length (cstr m s) \<and> rd m p = c
       \<and> (\<forall>q. p < q \<longrightarrow> q < s + length (cstr m s) \<longrightarrow> rd m q \<noteq> c)"
proof (induction m s c r rule: strrchr_loop.induct)
  case (1 m s c r)
  show ?case
  proof (cases "strchr_loop m s c")
    case None
    then have "c \<notin> set (cstr m s)" by (simp add: strchr_loop_none)
    moreover have "strrchr_loop m s c r = r" using None by (simp add: strrchr_loop.simps [of m s])
    ultimately show ?thesis by (simp split: option.split)
  next
    case (Some p)
    note f = strchr_loop_first [OF Some]
    have e: "Suc p + length (cstr m (Suc p)) = s + length (cstr m s)" using f by (intro cstr_after) auto
    have n: "\<forall>q. p < q \<longrightarrow> q < s + length (cstr m s) \<longrightarrow> rd m q \<noteq> c" if "c \<notin> set (cstr m (Suc p))"
      using that e by (auto simp: in_cstr Suc_le_eq)
    have "strrchr_loop m s c r = strrchr_loop m (p + 1) c (Some p)"
      by (simp add: strrchr_loop.simps [of m s] Some)
    then show ?thesis using "1.IH" [OF Some] f e n by (auto split: option.splits)
  qed
qed

lemma strstr_match_iff: "strstr_match m1 pa m2 pb \<longleftrightarrow> prefix (cstr m2 pb) (cstr m1 (pa + 1))"
proof (induction pb arbitrary: pa rule: cstr_induct [where m = m2])
  case (stop s)
  then show ?case by (simp add: strstr_match.simps cstr_Nil)
next
  case (more s)
  then show ?case
    by (cases "rd m1 (Suc pa) = 0") (auto simp: strstr_match.simps [of m1 pa] cstr_Cons cstr_Nil Let_def)
qed

definition occurs :: "bytes \<Rightarrow> nat \<Rightarrow> bytes \<Rightarrow> nat \<Rightarrow> nat \<Rightarrow> bool" where
  "occurs m1 s1 m2 s2 q \<longleftrightarrow> s1 \<le> q \<and> q \<le> s1 + length (cstr m1 s1) \<and> prefix (cstr m2 s2) (cstr m1 q)"

definition first_occurrence :: "bytes \<Rightarrow> nat \<Rightarrow> bytes \<Rightarrow> nat \<Rightarrow> nat option \<Rightarrow> bool" where
  "first_occurrence m1 s1 m2 s2 r \<longleftrightarrow> (case r of
       None \<Rightarrow> \<forall>q. \<not> occurs m1 s1 m2 s2 q
     | Some p \<Rightarrow> occurs m1 s1 m2 s2 p \<and> (\<forall>q < p. \<not> occurs m1 s1 m2 s2 q))"

lemma occurs_first_byte:
  assumes "rd m2 s2 \<noteq> 0"
  shows "occurs m1 s1 m2 s2 q \<longleftrightarrow> s1 \<le> q \<and> q < s1 + length (cstr m1 s1) \<and> rd m1 q = rd m2 s2
    \<and> prefix (cstr m2 (Suc s2)) (cstr m1 (Suc q))"
proof (cases "s1 \<le> q \<and> q \<le> s1 + length (cstr m1 s1)")
  case True
  show ?thesis
  proof (cases "rd m1 q = 0")
    case z: True
    then show ?thesis using assms cstr_inside [of "q - s1" m1 s1] True
      by (auto simp: occurs_def cstr_Cons cstr_Nil)
  next
    case nz: False
    then have "q \<noteq> s1 + length (cstr m1 s1)" using cstr_end [of m1 s1] by auto
    then show ?thesis using nz True assms by (auto simp: occurs_def cstr_Cons)
  qed
qed (auto simp: occurs_def)

lemma strstr_loop_first:
  assumes "rd m2 s2 \<noteq> 0" and "\<forall>p. r = Some p \<longrightarrow> s1 \<le> p \<and> p < s1 + length (cstr m1 s1) \<and> rd m1 p = rd m2 s2"
    and "\<forall>q. occurs m1 s1 m2 s2 q \<longrightarrow> (\<exists>p \<le> q. r = Some p)"
  shows "first_occurrence m1 s1 m2 s2 (strstr_loop m1 m2 (Suc s2) (rd m2 s2) r)"
  using assms
proof (induction m1 m2 "Suc s2" "rd m2 s2" r rule: strstr_loop.induct)
  case (1 m1 m2)
  then show ?case by (simp add: strstr_loop.simps first_occurrence_def)
next
  case (2 m1 m2 p)
  let ?e = "s1 + length (cstr m1 s1)"
  note p = "2.prems"(2) [rule_format, OF refl]
  show ?case
  proof (cases "strstr_match m1 p m2 (Suc s2)")
    case True
    then have "occurs m1 s1 m2 s2 p" using p "2.prems"(1) by (simp add: occurs_first_byte strstr_match_iff)
    moreover have "\<not> occurs m1 s1 m2 s2 q" if "q < p" for q using "2.prems"(3) that by auto
    ultimately show ?thesis using True by (simp add: strstr_loop.simps first_occurrence_def)
  next
    case False
    let ?r = "strchr_loop m1 (p + 1) (rd m2 s2)"
    have e: "Suc p + length (cstr m1 (Suc p)) = ?e" using p by (intro cstr_after) auto
    have "occurs m1 s1 m2 s2 q \<Longrightarrow> \<exists>p' \<le> q. ?r = Some p'" for q
    proof -
      assume o: "occurs m1 s1 m2 s2 q"
      then have "q \<noteq> p" using False "2.prems"(1) by (auto simp: occurs_first_byte strstr_match_iff)
      then have q: "Suc p \<le> q" "q < ?e" "rd m1 q = rd m2 s2"
        using "2.prems"(3) o "2.prems"(1) by (auto simp: occurs_first_byte Suc_le_eq)
      then have "rd m2 s2 \<in> set (cstr m1 (Suc p))" using e by (auto simp: in_cstr)
      then obtain p' where r: "?r = Some p'" using strchr_loop_none [of m1 "p + 1"] by fastforce
      then show "\<exists>p' \<le> q. ?r = Some p'" using strchr_loop_first [OF r] q by (metis Suc_eq_plus1 not_le)
    qed
    moreover have "\<forall>p'. ?r = Some p' \<longrightarrow> s1 \<le> p' \<and> p' < ?e \<and> rd m1 p' = rd m2 s2"
      using strchr_loop_first [of m1 "p + 1" "rd m2 s2"] e p by fastforce
    ultimately show ?thesis
      using "2.hyps" [OF False "2.prems"(1)] False by (simp add: strstr_loop.simps(2))
  qed
qed

lemma strstr_first: "first_occurrence m1 s1 m2 s2 (strstr m1 s1 m2 s2)"
proof (cases "rd m2 s2 = 0")
  case True
  then show ?thesis by (auto simp: strstr_def first_occurrence_def occurs_def cstr_Nil)
next
  case False
  let ?r = "strchr_loop m1 s1 (rd m2 s2)"
  have "\<exists>p \<le> q. ?r = Some p" if "occurs m1 s1 m2 s2 q" for q
  proof -
    have q: "s1 \<le> q" "q < s1 + length (cstr m1 s1)" "rd m1 q = rd m2 s2"
      using that False by (auto simp: occurs_first_byte)
    then have "rd m2 s2 \<in> set (cstr m1 s1)" by (auto simp: in_cstr)
    then obtain p where r: "?r = Some p" using strchr_loop_none [of m1 s1] by fastforce
    then show ?thesis using strchr_loop_first [OF r] q by (metis not_le)
  qed
  then show ?thesis
    using strstr_loop_first [of m2 s2 ?r s1 m1] strchr_loop_first [of m1 s1 "rd m2 s2"] False
    by (auto simp: strstr_def Let_def)
qed

lemma setmap_eq: "setmap mp m b = (\<lambda>c. mp c \<or> c \<in> set (cstr m b))"
  by (induction b arbitrary: mp rule: cstr_induct [where m = m])
    (auto simp: setmap.simps [of _ m] cstr_Cons cstr_Nil fun_eq_iff)

lemma skipmap_eq:
  assumes "\<not> mp 0"
  shows "skipmap mp m s = s + length (takeWhile mp (cstr m s))"
proof (induction s rule: cstr_induct [where m = m])
  case (stop s)
  then show ?case using assms by (simp add: skipmap.simps cstr_Nil)
next
  case (more s)
  then show ?case using rd_nonzero [OF more.hyps]
    by (simp add: skipmap.simps [of mp m s] cstr_Cons)
qed

lemma strspn_eq: "strspn m s mb b = length (takeWhile (\<lambda>c. c \<in> set (cstr mb b)) (cstr m s))"
  by (simp add: strspn_def skipmap_eq setmap_eq)

lemma strcspn_eq: "strcspn m s mb b = length (takeWhile (\<lambda>c. c \<notin> set (cstr mb b)) (cstr m s))"
proof -
  have "takeWhile (\<lambda>c. \<not> ((setmap (\<lambda>_. False) mb b)(0 := True)) c) (cstr m s)
      = takeWhile (\<lambda>c. c \<notin> set (cstr mb b)) (cstr m s)"
    by (rule takeWhile_cong) (auto simp: setmap_eq)
  then show ?thesis by (simp add: strcspn_def Let_def skipmap_eq)
qed

section \<open>Comparing\<close>

text \<open>The lexicographic order of byte strings, as the sign that \<open>strcmp\<close> returns.\<close>

fun lexcmp :: "bytes \<Rightarrow> bytes \<Rightarrow> int" where
  "lexcmp [] [] = 0"
| "lexcmp [] (b # bs) = -1"
| "lexcmp (a # as) [] = 1"
| "lexcmp (a # as) (b # bs) = (if a < b then -1 else if a > b then 1 else lexcmp as bs)"

lemma lexcmp_0: "lexcmp as bs = 0 \<longleftrightarrow> as = bs"
  by (induction as bs rule: lexcmp.induct) auto

lemma lexcmp_swap: "lexcmp bs as = - lexcmp as bs"
  by (induction as bs rule: lexcmp.induct) auto

lemma lexcmp_trans: "lexcmp as bs < 0 \<Longrightarrow> lexcmp bs cs < 0 \<Longrightarrow> lexcmp as cs < 0"
proof (induction as cs arbitrary: bs rule: lexcmp.induct)
  case (4 a as c cs)
  then obtain b bs' where bs: "bs = b # bs'" by (cases bs) auto
  show ?case
    using 4 bs by (auto split: if_splits dest: less_trans)
qed (case_tac bs; auto)+

text \<open>Sign extension keeps the unsigned order of bytes.\<close>

lemma uint_byte_bound: "0 \<le> uint (b :: uchar)" "uint b < 256"
  using uint_lt2p [of b] by simp_all

lemma sint_byte: "sint (b :: uchar) = (if uint b < 128 then uint b else uint b - 256)"
proof -
  have s: "sint b = (uint b + 128) mod 256 - 128"
    by (simp add: sint_uint signed_take_bit_eq_take_bit_shift take_bit_eq_mod)
  show ?thesis
  proof (cases "uint b < 128")
    case True
    then show ?thesis using s uint_byte_bound [of b] by simp
  next
    case False
    then have "(uint b + 128) mod 256 = uint b + 128 - 256"
      using uint_byte_bound [of b] by (subst mod_pos_geq) simp_all
    then show ?thesis using s False by simp
  qed
qed

lemma uint_scast_byte: "uint (scast (b :: uchar) :: uint) = (if uint b < 128 then uint b else uint b + (2 ^ 32 - 256))"
proof -
  have "uint (scast b :: uint) = sint b mod 2 ^ 32"
    unfolding scast_eq uint_word_of_int by simp
  moreover have "(uint b - 256) mod 2 ^ 32 = uint b + (2 ^ 32 - 256)" if "\<not> uint b < 128"
  proof -
    have "(uint b - 256) mod 2 ^ 32 = (uint b - 256 + 2 ^ 32) mod 2 ^ 32" by (rule mod_add_self2 [symmetric])
    then show ?thesis using uint_byte_bound [of b] that by (simp add: mod_pos_pos_trivial)
  qed
  ultimately show ?thesis using uint_byte_bound [of b] by (auto simp: sint_byte)
qed

lemma scast_byte_order:
  "(scast (a :: uchar) :: uint) < scast b \<longleftrightarrow> a < b" "(scast (a :: uchar) :: uint) = scast b \<longleftrightarrow> a = b"
  "(scast (a :: uchar) :: uint) = 0 \<longleftrightarrow> a = 0"
  using uint_byte_bound [of a] uint_byte_bound [of b]
  by (auto simp: word_less_def word_uint_eq_iff uint_scast_byte)

lemma scast_byte_pos: "0 < (scast (a :: uchar) :: uint) \<longleftrightarrow> a \<noteq> 0"
  by (simp add: word_gt_0 scast_byte_order)

lemma strcmp_lexcmp: "strcmp m1 s1 m2 s2 = lexcmp (cstr m1 s1) (cstr m2 s2)"
proof (induction s1 arbitrary: s2 rule: cstr_induct [where m = m1])
  case (stop s)
  then show ?case
    by (cases "rd m2 s2 = 0") (auto simp: strcmp.simps [of m1 s] Let_def scast_byte_order scast_byte_pos cstr_Nil cstr_Cons)
next
  case (more s)
  then show ?case
    by (cases "rd m2 s2 = 0") (auto simp: strcmp.simps [of m1 s] Let_def scast_byte_order scast_byte_pos cstr_Nil cstr_Cons)
qed

lemma strncmp_lexcmp: "strncmp m1 s1 m2 s2 n = lexcmp (take n (cstr m1 s1)) (take n (cstr m2 s2))"
proof (induction n arbitrary: s1 s2)
  case (Suc n)
  then show ?case
    by (cases "rd m1 s1 = 0"; cases "rd m2 s2 = 0")
      (auto simp: Let_def scast_byte_order scast_byte_pos cstr_Nil cstr_Cons)
qed simp

section \<open>Copying\<close>

lemma poke_snoc:
  assumes "i \<le> length d" shows "poke (poke d i [x]) (Suc i) bs = poke d i (x # bs)"
  using poke_poke_adjacent [OF assms, of "[x]" bs] by simp

lemma length_poke_ge: "length d \<le> length (poke d i bs)" "i \<le> length d \<Longrightarrow> i + length bs \<le> length (poke d i bs)"
  by (auto simp: poke_def)

lemma Suc_le_length_poke: "i \<le> length d \<Longrightarrow> Suc i \<le> length (poke d i [x])"
  using length_poke_ge(2) [of i d "[x]"] by simp

lemma memccpy_0:
  assumes "i \<le> length d"
  shows "memccpy d i m j 0 n =
    (if length (cstr m j) < n then (poke d i (cstr m j @ [0]), Some (i + length (cstr m j) + 1))
     else (poke d i (take n (cstr m j)), None))"
  using assms
proof (induction n arbitrary: d i j)
  case (Suc n)
  show ?case
  proof (cases "rd m j = 0")
    case True
    then show ?thesis by (simp add: cstr_Nil)
  next
    case False
    then show ?thesis
      using Suc.IH [of "Suc i" "poke d i [rd m j]" "Suc j"] Suc.prems
      by (simp add: cstr_Cons Suc_le_length_poke poke_snoc)
  qed
qed simp

lemma strcpy_eq:
  assumes "i \<le> length d"
  shows "strcpy d i m j = poke d i (cstr m j @ [0])"
  using assms
proof (induction d i m j rule: strcpy.induct)
  case (1 d i m j)
  let ?s = "cstr m j"
  show ?case
  proof (cases "length ?s < 10000")
    case True
    then show ?thesis using "1.prems" by (simp add: strcpy.simps [of d] memccpy_0)
  next
    case False
    have mc: "memccpy d i m j 0 10000 = (poke d i (take 10000 ?s), None)"
      using False "1.prems" by (simp add: memccpy_0)
    have le: "i + 10000 \<le> length (poke d i (take 10000 ?s))"
      using False length_poke_ge(2) [OF "1.prems", of "take 10000 ?s"] by simp
    have s: "cstr m (j + 10000) = drop 10000 ?s" using False by (simp add: cstr_drop)
    have "strcpy d i m j = strcpy (poke d i (take 10000 ?s)) (i + 10000) m (j + 10000)"
      by (simp add: strcpy.simps [of d] mc)
    also have "\<dots> = poke (poke d i (take 10000 ?s)) (i + 10000) (drop 10000 ?s @ [0])"
      using "1.IH" [OF mc [symmetric] refl le] s by simp
    also have "\<dots> = poke d i (?s @ [0])"
      using poke_poke_adjacent [OF "1.prems", of "take 10000 ?s" "drop 10000 ?s @ [0]"] False
      by (simp flip: append_assoc)
    finally show ?thesis .
  qed
qed

lemma strncpy_eq:
  assumes "i \<le> length d"
  shows "strncpy d i m j n = poke d i (take n (cstr m j @ replicate n 0))"
  using assms
proof (induction n arbitrary: d i j)
  case (Suc n)
  then show ?case
    by (cases "rd m j = 0") (simp_all add: cstr_Nil cstr_Cons poke_snoc Suc_le_length_poke replicate_append_same
        flip: replicate_Suc)
qed simp

lemma strecpy_eq:
  assumes "to < e" and "to \<le> length d"
  shows "strecpy d to e m from =
    (let s = take (e - to - 1) (cstr m from) in (poke d to (s @ [0]), to + length s))"
proof (cases "length (cstr m from) < e - to")
  case True
  then show ?thesis using assms by (simp add: strecpy_def memccpy_0 Let_def)
next
  case False
  let ?s = "take (e - to - 1) (cstr m from)"
  have "take (e - to) (cstr m from) = ?s @ [cstr m from ! (e - to - 1)]"
    using False assms(1) take_Suc_conv_app_nth [of "e - to - 1" "cstr m from"] by (simp add: Suc_diff_Suc)
  then have "poke (poke d to (take (e - to) (cstr m from))) (e - 1) [0] = poke d to (?s @ [0])"
    using False assms by (simp add: poke_def)
  then show ?thesis using False assms by (simp add: strecpy_def memccpy_0 Let_def)
qed

lemma strncat_loop_eq:
  assumes "i \<le> length d"
  shows "strncat_loop d i m j n = poke d i (take (nat n) (cstr m j) @ [0])"
  using assms
proof (induction d i m j n rule: strncat_loop.induct)
  case (1 d i m j n)
  show ?case
  proof (cases "rd m j = 0")
    case True
    then show ?thesis by (simp add: strncat_loop.simps cstr_Nil)
  next
    case False
    have n: "nat n = (if n \<le> 0 then 0 else Suc (nat (n - 1)))" by auto
    have "poke (poke d i [rd m j]) i [0] = poke d i [0]"
      using "1.prems" by (simp add: poke_def)
    then show ?thesis
      using "1.IH" [OF refl False] "1.prems" False
      by (subst strncat_loop.simps, subst n)
        (auto simp: Let_def cstr_Cons poke_snoc Suc_le_length_poke)
  qed
qed

lemma memset_eq: "i \<le> length d \<Longrightarrow> memset d i c n = poke d i (replicate n c)"
  by (induction n arbitrary: d i) (simp_all add: poke_snoc Suc_le_length_poke)

text \<open>Copying upwards is right when the target does not start inside the source, copying
  downwards when it does not start before it.\<close>

lemma poke_single: "i < length m \<Longrightarrow> poke m i [x] = m[i := x]"
  by (simp add: poke_def upd_conv_take_nth_drop)

lemma copy_up_nth:
  assumes "s1 + n \<le> length m" and "s2 + n \<le> length m" and "s1 \<le> s2 \<or> s2 + n \<le> s1"
  shows "length (copy_up m s1 s2 n) = length m \<and> (\<forall>k < length m.
    copy_up m s1 s2 n ! k = (if s1 \<le> k \<and> k < s1 + n then m ! (s2 + (k - s1)) else m ! k))"
  using assms
proof (induction n arbitrary: m s1 s2)
  case (Suc n)
  let ?m = "m[s1 := m ! s2]"
  have "copy_up m s1 s2 (Suc n) = copy_up ?m (Suc s1) (Suc s2) n"
    using Suc.prems by (simp add: poke_single rd_def)
  moreover have c: "Suc s1 \<le> Suc s2 \<or> Suc s2 + n \<le> Suc s1" using Suc.prems(3) by auto
  note IH = Suc.IH [OF _ _ c, of ?m]
  have "length (copy_up ?m (Suc s1) (Suc s2) n) = length m" using IH Suc.prems by simp
  moreover have "copy_up ?m (Suc s1) (Suc s2) n ! k
      = (if s1 \<le> k \<and> k < s1 + Suc n then m ! (s2 + (k - s1)) else m ! k)" if "k < length m" for k
  proof (cases "s1 < k \<and> k < s1 + Suc n")
    case True
    then have "copy_up ?m (Suc s1) (Suc s2) n ! k = ?m ! (Suc s2 + (k - Suc s1))"
      using IH Suc.prems that by simp
    moreover have "Suc s2 + (k - Suc s1) = s2 + (k - s1)" "s2 + (k - s1) \<noteq> s1"
      using True Suc.prems(3) by auto
    ultimately show ?thesis using True by (simp add: nth_list_update)
  next
    case False
    then have "copy_up ?m (Suc s1) (Suc s2) n ! k = ?m ! k" using IH Suc.prems that by auto
    then show ?thesis using False that by (cases "k = s1") auto
  qed
  ultimately show ?case by simp
qed auto

lemma copy_back_nth:
  assumes "s1 + n \<le> length m" and "s2 \<le> s1"
  shows "length (copy_back m s1 s2 n) = length m \<and> (\<forall>k < length m.
    copy_back m s1 s2 n ! k = (if s1 \<le> k \<and> k < s1 + n then m ! (s2 + (k - s1)) else m ! k))"
  using assms
proof (induction n arbitrary: m)
  case (Suc n)
  let ?m = "m[s1 + n := m ! (s2 + n)]"
  have "copy_back m s1 s2 (Suc n) = copy_back ?m s1 s2 n"
    using Suc.prems by (simp add: poke_single rd_def)
  moreover note IH = Suc.IH [of ?m]
  have "length (copy_back ?m s1 s2 n) = length m" using IH Suc.prems by simp
  moreover have "copy_back ?m s1 s2 n ! k
      = (if s1 \<le> k \<and> k < s1 + Suc n then m ! (s2 + (k - s1)) else m ! k)" if "k < length m" for k
  proof (cases "s1 \<le> k \<and> k < s1 + n")
    case True
    then have "copy_back ?m s1 s2 n ! k = ?m ! (s2 + (k - s1))" using IH Suc.prems that by simp
    moreover have "s2 + (k - s1) \<noteq> s1 + n" using True Suc.prems by auto
    ultimately show ?thesis using True by (simp add: nth_list_update)
  next
    case False
    then have "copy_back ?m s1 s2 n ! k = ?m ! k" using IH Suc.prems that by auto
    then show ?thesis using False that by (cases "k = s1 + n") auto
  qed
  ultimately show ?case by simp
qed auto

lemma memmove_eq:
  assumes "s1 + unat n \<le> length m" and "s2 + unat n \<le> length m" and "0 \<le> sint n"
  shows "memmove m s1 s2 n = Some (poke m s1 (take (unat n) (drop s2 m)))"
proof -
  let ?t = "poke m s1 (take (unat n) (drop s2 m))"
  have t: "length ?t = length m"
    "k < length m \<Longrightarrow> ?t ! k = (if s1 \<le> k \<and> k < s1 + unat n then m ! (s2 + (k - s1)) else m ! k)" for k
    using assms by (auto simp: nth_poke)
  have "copy_back m s1 s2 (unat n) = ?t" if "s2 < s1"
    using that assms copy_back_nth [of s1 "unat n" m s2] t by (intro nth_equalityI) simp_all
  moreover have "copy_up m s1 s2 (unat n) = ?t" if "\<not> (s2 < s1 \<and> s2 + unat n > s1)"
    using that assms copy_up_nth [of s1 "unat n" m s2] t by (intro nth_equalityI) auto
  ultimately show ?thesis using assms(3) by (auto simp: memmove_def)
qed

end
