(* ===== verification/Utf_String.thy ===== *)
theory Utf_String
  imports Utf Cstring_Spec
begin

text \<open>
  The string functions on UTF-8: \<^verbatim>\<open>utflen\<close>, \<^verbatim>\<open>utfnlen\<close>, \<^verbatim>\<open>utfrune\<close>, \<^verbatim>\<open>utfrrune\<close>, \<^verbatim>\<open>utfutf\<close> and
  \<^verbatim>\<open>utfecpy\<close> (\<^verbatim>\<open>lib_core/libc/port/utf*.c\<close>). Each is related to \<open>walk\<close>, the list of the
  runes of a string with the offsets they start at.
\<close>

lemma chartorune_pos [simp]: "0 < fst (chartorune m s)"
  using chartorune_range(1) [of m s] by (cases "chartorune m s") auto

lemma word_nonzero_ge: "\<not> (c :: uchar) < 0x80 \<Longrightarrow> c \<noteq> 0"
  by auto

section \<open>The functions\<close>

function utflen_loop :: "bytes \<Rightarrow> nat \<Rightarrow> nat \<Rightarrow> nat" where
  "utflen_loop m s n =
     (let c = rd m s in
      if c < 0x80 then if c = 0 then n else utflen_loop m (s + 1) (n + 1)
      else utflen_loop m (s + fst (chartorune m s)) (n + 1))"
  by pat_completeness auto
termination
  by (relation "measure (\<lambda>(m, s, n). length m - s)")
    (auto dest!: rd_nonzero word_nonzero_ge intro!: diff_less_mono2)

definition utflen :: "bytes \<Rightarrow> nat \<Rightarrow> nat" where
  "utflen m s = utflen_loop m s 0"

text \<open>\<open>utfnlen_loop m es s n\<close>: the loop of \<open>utfnlen\<close>, whose buffer ends at \<open>es\<close>.\<close>

function utfnlen_loop :: "bytes \<Rightarrow> nat \<Rightarrow> nat \<Rightarrow> nat \<Rightarrow> nat" where
  "utfnlen_loop m es s n =
     (if s < es then
        let c = rd m s in
        if c < 0x80 then if c = 0 then n else utfnlen_loop m es (s + 1) (n + 1)
        else if \<not> fullrune m s (es - s) then n
        else utfnlen_loop m es (s + fst (chartorune m s)) (n + 1)
      else n)"
  by pat_completeness auto
termination
  by (relation "measure (\<lambda>(m, es, s, n). es - s)") (auto intro!: diff_less_mono2)

definition utfnlen :: "bytes \<Rightarrow> nat \<Rightarrow> nat \<Rightarrow> nat" where
  "utfnlen m s k = utfnlen_loop m (s + k) s 0"

function utfrune_loop :: "bytes \<Rightarrow> nat \<Rightarrow> int \<Rightarrow> nat option" where
  "utfrune_loop m s c =
     (let c1 = rd m s in
      if c1 < 0x80 then
        if c1 = 0 then None else if uint c1 = c then Some s else utfrune_loop m (s + 1) c
      else
        let (n, r) = chartorune m s in
        if r = word_of_int c then Some s else utfrune_loop m (s + n) c)"
  by pat_completeness auto
termination
  by (relation "measure (\<lambda>(m, s, c). length m - s)")
    (auto dest!: rd_nonzero word_nonzero_ge intro!: diff_less_mono2 dest: chartorune_range(1) [OF sym])

definition utfrune :: "bytes \<Rightarrow> nat \<Rightarrow> int \<Rightarrow> nat option" where
  "utfrune m s c = (if c < 0x80 then strchr m s c else utfrune_loop m s c)"

function utfrrune_loop :: "bytes \<Rightarrow> nat \<Rightarrow> int \<Rightarrow> nat option \<Rightarrow> nat option" where
  "utfrrune_loop m s c s1 =
     (let c1 = rd m s in
      if c1 < 0x80 then
        if c1 = 0 then s1 else utfrrune_loop m (s + 1) c (if uint c1 = c then Some s else s1)
      else
        let (n, r) = chartorune m s in
        utfrrune_loop m (s + n) c (if r = word_of_int c then Some s else s1))"
  by pat_completeness auto
termination
  by (relation "measure (\<lambda>(m, s, c, s1). length m - s)")
    (auto dest!: rd_nonzero word_nonzero_ge intro!: diff_less_mono2 dest: chartorune_range(1) [OF sym])

definition utfrrune :: "bytes \<Rightarrow> nat \<Rightarrow> int \<Rightarrow> nat option" where
  "utfrrune m s c = (if c < 0x80 then strrchr m s c else utfrrune_loop m s c None)"

declare utflen_loop.simps [simp del] utfnlen_loop.simps [simp del] utfrune_loop.simps [simp del]
  utfrrune_loop.simps [simp del]

lemma utfrune_loop_bounds: "utfrune_loop m s c = Some p \<Longrightarrow> s \<le> p \<and> p < length m"
proof (induction m s c rule: utfrune_loop.induct)
  case (1 m s c)
  show ?case
  proof (cases "rd m s < 0x80")
    case True
    then show ?thesis
      using "1.prems" "1.IH"(1) [OF refl True] rd_nonzero [of m s]
      by (fastforce simp: utfrune_loop.simps [of m s] Let_def split: if_splits)
  next
    case False
    obtain n r where nr: "chartorune m s = (n, r)" by fastforce
    show ?thesis
      using "1.prems" "1.IH"(2) [OF refl False nr [symmetric] refl] False nr rd_nonzero [of m s]
      by (fastforce simp: utfrune_loop.simps [of m s] Let_def split: if_splits)
  qed
qed

lemma utfutf_progress:
  "utfrune_loop m1 p f = Some q \<Longrightarrow> length m1 - (q + fst (chartorune m2 s2)) < length m1 - p"
  using utfrune_loop_bounds [of m1 p f q] chartorune_pos [of m2 s2] by linarith

text \<open>The loop of \<open>utfutf\<close>; its \<open>f\<close> is greater than \<^verbatim>\<open>Runesync\<close>, so \<open>utfrune\<close> is its loop.\<close>

function utfutf_loop :: "bytes \<Rightarrow> nat \<Rightarrow> int \<Rightarrow> bytes \<Rightarrow> nat \<Rightarrow> nat option" where
  "utfutf_loop m1 p f m2 s2 =
     (case utfrune_loop m1 p f of
        None \<Rightarrow> None
      | Some p \<Rightarrow>
          if strncmp m1 p m2 s2 (strlen m2 s2) = 0 then Some p
          else utfutf_loop m1 (p + fst (chartorune m2 s2)) f m2 s2)"
  by pat_completeness auto
termination
  by (relation "measure (\<lambda>(m1, p, f, m2, s2). length m1 - p)")
    (simp_all add: utfutf_progress)

definition utfutf :: "bytes \<Rightarrow> nat \<Rightarrow> bytes \<Rightarrow> nat \<Rightarrow> nat option" where
  "utfutf m1 s1 m2 s2 =
     (let (n1, r) = chartorune m2 s2; f = uint r in
      if f \<le> 0x80 then strstr m1 s1 m2 s2 else utfutf_loop m1 s1 f m2 s2)"

declare utfutf_loop.simps [simp del]

text \<open>The loop that backs up to the start of the last rune.\<close>

fun utfecpy_back :: "bytes \<Rightarrow> nat \<Rightarrow> nat \<Rightarrow> nat" where
  "utfecpy_back d to 0 = 0"
| "utfecpy_back d to (Suc e) =
     (if Suc e > to then if rd d e AND 0xC0 = 0x80 then utfecpy_back d to e else e
      else Suc e)"

definition utfecpy :: "bytes \<Rightarrow> nat \<Rightarrow> nat \<Rightarrow> bytes \<Rightarrow> nat \<Rightarrow> bytes \<times> nat" where
  "utfecpy d to e m from =
     (if to \<ge> e then (d, to)
      else case memccpy d to m from 0 (e - to) of
        (d, None) \<Rightarrow> (let p = utfecpy_back d to e in (poke d p [0], p))
      | (d, Some t) \<Rightarrow> (d, t - 1))"

section \<open>The runes of a string\<close>

function walk :: "bytes \<Rightarrow> nat \<Rightarrow> (nat \<times> uint) list" where
  "walk m s = (if rd m s = 0 then [] else
     (s, snd (chartorune m s)) # walk m (s + fst (chartorune m s)))"
  by pat_completeness auto
termination
  by (relation "measure (\<lambda>(m, s). length m - s)") (auto dest!: rd_nonzero intro!: diff_less_mono2)

declare walk.simps [simp del]

lemma chartorune_ascii:
  assumes "rd m s < 0x80"
  shows "chartorune m s = (1, ucast (rd m s))"
  using assms by (simp add: chartorune_def rune_consts Let_def word_less_nat_alt unat_ucast_byte)

lemma walk_end: "rd m s = 0 \<Longrightarrow> walk m s = []"
  by (simp add: walk.simps)

lemma walk_ascii: "rd m s < 0x80 \<Longrightarrow> rd m s \<noteq> 0 \<Longrightarrow> walk m s = (s, ucast (rd m s)) # walk m (s + 1)"
  by (subst walk.simps) (simp add: chartorune_ascii)

lemma walk_multi: "\<not> rd m s < 0x80 \<Longrightarrow> chartorune m s = (n, r) \<Longrightarrow> walk m s = (s, r) # walk m (s + n)"
  by (subst walk.simps) (auto dest: word_nonzero_ge)

lemma utflen_walk: "utflen m s = length (walk m s)"
proof -
  have "utflen_loop m s n = n + length (walk m s)" for n
  proof (induction m s n rule: utflen_loop.induct)
    case (1 m s n)
    show ?case
    proof (cases "rd m s < 0x80")
      case True
      then show ?thesis using "1.IH"(1) [OF refl True]
        by (cases "rd m s = 0") (simp_all add: utflen_loop.simps [of m s] walk_end walk_ascii)
    next
      case False
      obtain k r where kr: "chartorune m s = (k, r)" by fastforce
      then show ?thesis using "1.IH"(2) [OF refl False] False
        by (simp add: utflen_loop.simps [of m s] walk_multi Let_def)
    qed
  qed
  then show ?thesis by (simp add: utflen_def)
qed

definition first_rune :: "uint \<Rightarrow> (nat \<times> uint) list \<Rightarrow> nat option" where
  "first_rune c w = map_option fst (find (\<lambda>(p, r). r = c) w)"

lemma utfrune_loop_walk:
  assumes "0 < c" and "c < 2 ^ 32"
  shows "utfrune_loop m s c = first_rune (word_of_int c) (walk m s)"
  using assms
proof (induction m s c rule: utfrune_loop.induct)
  case (1 m s c)
  show ?case
  proof (cases "rd m s < 0x80")
    case True
    have "uint (ucast (rd m s) :: uint) = uint (rd m s)"
      by (simp add: unsigned_ucast_eq take_bit_int_eq_self_iff uint_byte_bound(2) [THEN order_less_trans])
    then have "uint (rd m s) = c \<longleftrightarrow> ucast (rd m s) = (word_of_int c :: uint)"
      using "1.prems" by (simp add: word_uint_eq_iff uint_word_of_int)
    then show ?thesis using "1.IH"(1) [OF refl True] True "1.prems"
      by (cases "rd m s = 0") (auto simp: utfrune_loop.simps [of m s] walk_end walk_ascii first_rune_def)
  next
    case False
    obtain n r where nr: "chartorune m s = (n, r)" by fastforce
    show ?thesis using "1.IH"(2) [OF refl False nr [symmetric] refl] False nr "1.prems"
      by (simp add: utfrune_loop.simps [of m s] walk_multi first_rune_def Let_def)
  qed
qed

definition last_rune :: "uint \<Rightarrow> (nat \<times> uint) list \<Rightarrow> nat option" where
  "last_rune c w = first_rune c (rev w)"

lemma first_rune_snoc:
  "first_rune c (w @ [(p, r)]) = (case first_rune c w of None \<Rightarrow> if r = c then Some p else None | Some q \<Rightarrow> Some q)"
  by (induction w) (auto simp: first_rune_def)

lemma utfrrune_loop_walk:
  assumes "0 < c" and "c < 2 ^ 32"
  shows "utfrrune_loop m s c s1 = (case last_rune (word_of_int c) (walk m s) of None \<Rightarrow> s1 | Some p \<Rightarrow> Some p)"
  using assms
proof (induction m s c s1 rule: utfrrune_loop.induct)
  case (1 m s c s1)
  show ?case
  proof (cases "rd m s < 0x80")
    case True
    have "uint (ucast (rd m s) :: uint) = uint (rd m s)"
      by (simp add: unsigned_ucast_eq take_bit_int_eq_self_iff uint_byte_bound(2) [THEN order_less_trans])
    then have "uint (rd m s) = c \<longleftrightarrow> ucast (rd m s) = (word_of_int c :: uint)"
      using "1.prems" by (simp add: word_uint_eq_iff uint_word_of_int)
    then show ?thesis using "1.IH"(1) [OF refl True] True "1.prems"
      by (cases "rd m s = 0")
        (auto simp: utfrrune_loop.simps [of m s] walk_end walk_ascii last_rune_def first_rune_snoc
          split: option.splits, simp_all add: first_rune_def)
  next
    case False
    obtain n r where nr: "chartorune m s = (n, r)" by fastforce
    show ?thesis using "1.IH"(2) [OF refl False nr [symmetric] refl] False nr "1.prems"
      by (auto simp: utfrrune_loop.simps [of m s] walk_multi last_rune_def first_rune_snoc Let_def
          split: option.splits)
  qed
qed

text \<open>ASCII bytes are never inside a multi-byte rune.\<close>

lemma cont_high: "cont m s i \<Longrightarrow> \<not> rd m (s + i) < 0x80"
  using div_range [of 64 "rbyte m s i" 2] by (simp add: rbyte_def word_less_nat_alt)

lemma chartorune_cont:
  assumes "chartorune m s = (n, r)" and "0 < i" and "i < n"
  shows "cont m s i"
  using assms(1)
proof (cases rule: chartorune_cases)
  case two
  then have "i = 1" using assms by simp
  then show ?thesis using two by simp
next
  case three
  then have "i = 1 \<or> i = 2" using assms by arith
  then show ?thesis using three by auto
next
  case four
  then have "i = 1 \<or> i = 2 \<or> i = 3" using assms by arith
  then show ?thesis using four by auto
qed (use assms in simp_all)

lemma chartorune_high:
  assumes "chartorune m s = (n, r)" and "\<not> rd m s < 0x80" and "i < n"
  shows "\<not> rd m (s + i) < 0x80"
  using assms cont_high [OF chartorune_cont [OF assms(1)]] by (cases "i = 0") auto

lemma chartorune_high_rune:
  assumes "chartorune m s = (n, r)" and "\<not> rd m s < 0x80"
  shows "128 \<le> unat r"
  using assms(1)
proof (cases rule: chartorune_cases)
  case ascii
  then show ?thesis using assms(2) by (simp add: rbyte_def word_less_nat_alt)
qed (use val_bounds [of m s] in simp_all)

lemma strchr_loop_skip:
  assumes "\<forall>i < n. rd m (s + i) \<noteq> 0 \<and> rd m (s + i) \<noteq> c"
  shows "strchr_loop m s c = strchr_loop m (s + n) c"
  using assms
proof (induction n)
  case (Suc n)
  have "strchr_loop m (s + n) c = strchr_loop m (s + Suc n) c"
    using Suc.prems by (subst strchr_loop.simps) (simp add: Let_def)
  then show ?case using Suc by simp
qed simp

lemma strchr_loop_walk:
  assumes c: "0 < c" "c < 0x80"
  shows "strchr_loop m s c = first_rune (ucast c) (walk m s)"
proof (induction m s rule: walk.induct)
  case (1 m s)
  show ?case
  proof (cases "rd m s < 0x80")
    case True
    have "ucast (rd m s) = (ucast c :: uint) \<longleftrightarrow> rd m s = c"
      by (simp add: word_unat_eq_iff unat_ucast_byte)
    then show ?thesis using 1 True
      by (cases "rd m s = 0")
        (simp_all add: strchr_loop.simps [of m s] walk_end walk_ascii first_rune_def chartorune_ascii)
  next
    case False
    obtain n r where nr: "chartorune m s = (n, r)" by fastforce
    have "rd m (s + i) \<noteq> 0 \<and> rd m (s + i) \<noteq> c" if "i < n" for i
      using chartorune_high [OF nr False that] c by auto
    then have "strchr_loop m s c = strchr_loop m (s + n) c" by (intro strchr_loop_skip) simp
    moreover have "r \<noteq> ucast c"
      using chartorune_high_rune [OF nr False] c by (auto simp: unat_ucast_byte word_less_nat_alt)
    ultimately show ?thesis using 1 False nr word_nonzero_ge [OF False]
      by (simp add: walk_multi first_rune_def)
  qed
qed

lemma utfrune_walk:
  assumes "0 < c" and "c < 2 ^ 32"
  shows "utfrune m s c = first_rune (word_of_int c) (walk m s)"
proof (cases "c < 0x80")
  case True
  have u: "uint (word_of_int c :: uchar) = c" using assms True by (simp add: uint_word_of_int)
  then have "0 < (word_of_int c :: uchar)" "(word_of_int c :: uchar) < 0x80"
    using assms True by (simp_all add: word_less_def)
  moreover have "ucast (word_of_int c :: uchar) = (word_of_int c :: uint)"
    using u by (metis of_int_uint)
  ultimately show ?thesis
    using strchr_loop_walk [of "word_of_int c" m s] True assms(1) by (simp add: utfrune_def strchr_def)
next
  case False
  then show ?thesis using utfrune_loop_walk [OF assms] by (simp add: utfrune_def)
qed

section \<open>Where runes start\<close>

lemma walk_bounds: "(p, r) \<in> set (walk m s) \<Longrightarrow> s \<le> p \<and> rd m p \<noteq> 0 \<and> chartorune m p = (fst (chartorune m p), r)"
proof (induction m s rule: walk.induct)
  case (1 m s)
  then show ?case by (subst (asm) (2) walk.simps) (auto split: if_splits)
qed

lemma walk_start:
  assumes "s \<le> q" and "q < s + length (cstr m s)" and "\<not> cont m q 0"
  shows "(q, snd (chartorune m q)) \<in> set (walk m s)"
  using assms
proof (induction m s rule: walk.induct)
  case (1 m s)
  have nz: "rd m s \<noteq> 0" using 1 by (auto simp: cstr_Nil)
  obtain n r where nr: "chartorune m s = (n, r)" by fastforce
  have w: "walk m s = (s, r) # walk m (s + n)" using nz nr by (subst walk.simps) simp
  show ?case
  proof (cases "q = s")
    case True
    then show ?thesis using w nr by simp
  next
    case False
    have q: "s + n \<le> q"
    proof (rule ccontr)
      assume "\<not> s + n \<le> q"
      then have "cont m s (q - s)" using "1.prems"(1) False by (intro chartorune_cont [OF nr]) auto
      then show False using "1.prems" by (simp add: rbyte_def)
    qed
    moreover have "s + n + length (cstr m (s + n)) = s + length (cstr m s)"
      using q "1.prems" cstr_drop [of n m s] by simp
    ultimately show ?thesis using "1.IH" [OF nz] "1.prems"(2,3) w nr by simp
  qed
qed

lemma cstr_take:
  assumes "\<forall>i < n. rd m (s + i) \<noteq> 0"
  shows "n \<le> length (cstr m s)" and "take n (cstr m s) = take n (drop s m)"
proof -
  show le: "n \<le> length (cstr m s)" using assms cstr_end [of m s] by (metis not_less)
  have "cstr m s = take (length (cstr m s)) (drop s m)"
    unfolding cstr_def by (rule takeWhile_eq_take)
  then show "take n (cstr m s) = take n (drop s m)" using le by (metis min.absorb1 take_take)
qed

lemma chartorune_nonzero:
  assumes "chartorune m s = (n, r)" and "rd m s \<noteq> 0" and "i < n"
  shows "rd m (s + i) \<noteq> 0"
  using assms cont_high [OF chartorune_cont [OF assms(1), of i]] by (cases "i = 0") (auto dest: word_nonzero_ge)

lemma chartorune_in_cstr: "chartorune m s = (n, r) \<Longrightarrow> rd m s \<noteq> 0 \<Longrightarrow> n \<le> length (cstr m s)"
  by (rule cstr_take(1)) (auto dest: chartorune_nonzero)

lemma walk_Cons:
  assumes "rd m s \<noteq> 0" and "chartorune m s = (n, r)"
  shows "walk m s = (s, r) # walk m (s + n)" and "s + n + length (cstr m (s + n)) = s + length (cstr m s)"
  using assms chartorune_in_cstr [OF assms(2,1)] cstr_drop [of n m s] by (subst walk.simps, simp_all)

lemma walk_in_cstr: "(q, r) \<in> set (walk m s) \<Longrightarrow> q < s + length (cstr m s)"
proof (induction m s rule: walk.induct)
  case (1 m s)
  have nz: "rd m s \<noteq> 0" using "1.prems" by (auto simp: walk_end)
  obtain n r' where nr: "chartorune m s = (n, r')" by fastforce
  then show ?case
    using "1.IH" [OF nz] "1.prems" walk_Cons [OF nz nr] chartorune_range(1) [OF nr] chartorune_in_cstr [OF nr nz]
    by auto
qed

lemma first_rune_walk:
  "first_rune c (walk m s) = Some p \<Longrightarrow> (p, c) \<in> set (walk m s) \<and> (\<forall>q. (q, c) \<in> set (walk m s) \<longrightarrow> p \<le> q)"
proof (induction m s rule: walk.induct)
  case (1 m s)
  have nz: "rd m s \<noteq> 0" using "1.prems" by (auto simp: walk_end first_rune_def)
  obtain n r' where nr: "chartorune m s = (n, r')" by fastforce
  have s: "\<forall>(q, r) \<in> set (walk m (s + n)). s \<le> q" using walk_bounds by fastforce
  show ?case using "1.IH" [OF nz] "1.prems" walk_Cons(1) [OF nz nr] nr s
    by (auto simp: first_rune_def split: if_splits)
qed

lemma first_rune_None: "first_rune c w = None \<longleftrightarrow> (\<forall>q. (q, c) \<notin> set w)"
  by (auto simp: first_rune_def find_None_iff)

section \<open>utfutf is strstr\<close>

lemma chartorune_rune_len:
  assumes "chartorune m s = (n, r)" and "128 \<le> unat r" and "r \<noteq> Runeerror"
  shows "n \<noteq> 1" and "n = length (utf8_encode (unat r))"
proof -
  show n: "n \<noteq> 1"
    using assms(1) by (cases rule: chartorune_cases) (use assms(2,3) in auto)
  show "n = length (utf8_encode (unat r))"
    using chartorune_canonical [OF assms(1) n] by (metis length_drop length_take le_diff_conv2 min.absorb2 add_leD1 add.commute)
qed

lemma lead_not_cont:
  assumes "chartorune m s = (n, r)" and "n \<noteq> 1"
  shows "\<not> cont m s 0"
  using assms(1) by (cases rule: chartorune_cases) (use assms(2) in \<open>auto simp: div_range\<close>)

lemma occurs_rune:
  assumes r: "chartorune m2 s2 = (n, f)" and n: "n \<noteq> 1" and o: "occurs m1 s1 m2 s2 q"
  shows "chartorune m1 q = (n, f)" and "q < s1 + length (cstr m1 s1)"
proof -
  have nz2: "rd m2 s2 \<noteq> 0"
    using chartorune_ascii [of m2 s2] r n by auto
  let ?e = "utf8_encode (unat f)"
  have "take n (cstr m2 s2) = ?e" "n \<le> length (cstr m2 s2)"
    using cstr_take [of n m2 s2] chartorune_nonzero [OF r nz2] chartorune_canonical(2) [OF r n] by auto
  then have le: "length ?e = n" and "prefix ?e (cstr m2 s2)" by (auto simp: take_is_prefix simp flip: \<open>take n (cstr m2 s2) = ?e\<close>)
  then have "prefix ?e (cstr m1 q)" using o prefix_order.trans by (auto simp: occurs_def)
  moreover have "prefix (cstr m1 q) (drop q m1)"
    unfolding cstr_def by (rule takeWhile_is_prefix)
  ultimately obtain rest where d: "drop q m1 = ?e @ rest" by (auto simp: prefix_def)
  have v: "unat f \<le> 0x10FFFF" "\<not> (0xD800 \<le> unat f \<and> unat f \<le> 0xDFFF)"
    using chartorune_range(3) [OF r] by (auto simp: valid_rune_def word_le_nat_alt)
  show c: "chartorune m1 q = (n, f)"
    using utf8_decode_encode [OF d v] le by (simp add: chartorune_utf8)
  show "q < s1 + length (cstr m1 s1)"
    using o nz2 by (simp add: occurs_first_byte)
qed

lemma strncmp_prefix: "strncmp m1 p m2 s (strlen m2 s) = 0 \<longleftrightarrow> prefix (cstr m2 s) (cstr m1 p)"
  unfolding strncmp_lexcmp lexcmp_0 strlen_eq by (auto simp: prefix_def) (metis append_take_drop_id)

lemma utfutf_loop_first:
  assumes f: "chartorune m2 s2 = (n, f)" "n \<noteq> 1" "f \<noteq> Runeerror"
    and "s1 \<le> p" and "p \<le> s1 + length (cstr m1 s1)" and "\<forall>q. occurs m1 s1 m2 s2 q \<longrightarrow> p \<le> q"
  shows "first_occurrence m1 s1 m2 s2 (utfutf_loop m1 p (uint f) m2 s2)"
  using assms(4-6)
proof (induction "length m1 - p" arbitrary: p rule: less_induct)
  case less
  let ?w = "walk m1 p" and ?e = "s1 + length (cstr m1 s1)"
  have e: "p + length (cstr m1 p) = ?e" using less.prems cstr_drop [of "p - s1" m1 s1] by simp
  have f128: "128 \<le> unat f"
    using chartorune_high_rune [OF f(1)] chartorune_ascii [of m2 s2] f(1,2) by fastforce
  have loop: "utfrune_loop m1 p (uint f) = first_rune f ?w"
  proof -
    have "0 < uint f" using f128 by (simp flip: zero_less_nat_eq unat_eq_nat_uint)
    then show ?thesis using utfrune_loop_walk [of "uint f" m1 p] uint_lt2p [of f] by simp
  qed
  have occ: "(q, f) \<in> set ?w" if "occurs m1 s1 m2 s2 q" for q
    using occurs_rune [OF f(1,2) that] lead_not_cont [of m1 q n f] f(2) less.prems(3) that
      walk_start [of p q m1] e by auto
  show ?case
  proof (cases "first_rune f ?w")
    case None
    then have "\<forall>q. \<not> occurs m1 s1 m2 s2 q" using occ by (auto simp: first_rune_None)
    moreover have "utfutf_loop m1 p (uint f) m2 s2 = None"
      using None by (subst utfutf_loop.simps) (simp add: loop)
    ultimately show ?thesis by (simp add: first_occurrence_def)
  next
    case (Some p')
    note p' = first_rune_walk [OF Some]
    have lt: "p \<le> p'" "p' < ?e" using p' walk_bounds walk_in_cstr e by fastforce+
    have le: "\<forall>q. occurs m1 s1 m2 s2 q \<longrightarrow> p' \<le> q" using occ p' by blast
    show ?thesis
    proof (cases "prefix (cstr m2 s2) (cstr m1 p')")
      case True
      then have "occurs m1 s1 m2 s2 p'" using lt less.prems by (simp add: occurs_def)
      then show ?thesis using True le
        by (subst utfutf_loop.simps) (auto simp: loop Some strncmp_prefix first_occurrence_def)
    next
      case False
      obtain n' where n': "chartorune m1 p' = (n', f)" using p' walk_bounds by blast
      then have nn: "n' = n"
        using chartorune_rune_len(2) [OF n' f128 f(3)] chartorune_rune_len(2) [OF f(1) f128 f(3)] by simp
      have nz: "rd m1 p' \<noteq> 0" using p' walk_bounds by blast
      have stop: "p' + n + length (cstr m1 (p' + n)) = ?e"
        using walk_Cons(2) [OF nz n'] nn lt cstr_drop [of "p' - p" m1 p] e by simp
      have skip: "p' + n \<le> q" if o: "occurs m1 s1 m2 s2 q" for q
      proof (rule ccontr)
        assume "\<not> p' + n \<le> q"
        moreover have "p' \<le> q" "q \<noteq> p'" using le o False by (auto simp: occurs_def)
        ultimately have "cont m1 p' (q - p')" by (intro chartorune_cont [OF n']) (auto simp: nn)
        then show False using lead_not_cont [OF occurs_rune(1) [OF f(1,2) o] f(2)] \<open>p' \<le> q\<close> by (simp add: rbyte_def)
      qed
      have "length m1 - (p' + n) < length m1 - p"
        using lt rd_nonzero [OF nz] chartorune_range(1) [OF f(1)] by simp
      then have "first_occurrence m1 s1 m2 s2 (utfutf_loop m1 (p' + n) (uint f) m2 s2)"
        using less.hyps [of "p' + n"] less.prems(1) lt stop skip by simp
      then show ?thesis using False
        by (subst utfutf_loop.simps) (simp add: loop Some strncmp_prefix f(1))
    qed
  qed
qed

section \<open>Encoded strings\<close>

lemma chartorune_runetochar:
  assumes "valid_rune c" and "drop s m = runetochar c @ r"
  shows "chartorune m s = (length (runetochar c), c)"
proof -
  have "unat c \<le> 0x10FFFF" "\<not> (0xD800 \<le> unat c \<and> unat c \<le> 0xDFFF)"
    using assms(1) by (auto simp: valid_rune_def word_le_nat_alt)
  then show ?thesis
    using utf8_decode_encode [of s m "unat c" r] assms(2) by (simp add: chartorune_utf8 runetochar_utf8 [OF assms(1)])
qed

lemma runetochar_nonempty: "runetochar c \<noteq> []"
  by (simp add: runetochar_valid utf8_encode_def)

lemma byte_mask: "(b :: uchar) AND 0xC0 = 0x80 \<longleftrightarrow> unat b div 64 = 2"
proof -
  have x: "(b XOR 0x80) AND 0xC0 = (b AND 0xC0) XOR 0x80" by (simp add: bit.conj_xor_distrib2)
  have z: "a XOR k = 0 \<longleftrightarrow> a = k" for a k :: uchar by (metis bit.xor_left_self xor.right_neutral xor_self_eq)
  have "(ucast b XOR 0x80) AND (0xC0 :: uint) = ucast ((b XOR 0x80) AND 0xC0)"
    by (simp add: unsigned_and_eq unsigned_xor_eq)
  moreover have "ucast w = (0 :: uint) \<longleftrightarrow> w = 0" for w :: uchar
    by (simp add: word_unat_eq_iff unat_ucast_byte)
  ultimately have "(ucast b XOR 0x80) AND (0xC0 :: uint) = 0 \<longleftrightarrow> b AND 0xC0 = 0x80"
    unfolding x by (metis z)
  then show ?thesis by (simp add: cont_byte)
qed

lemma runetochar_bytes:
  assumes "valid_rune c"
  shows "\<not> unat (runetochar c ! 0) div 64 = 2"
    and "0 < i \<Longrightarrow> i < length (runetochar c) \<Longrightarrow> unat (runetochar c ! i) div 64 = 2"
proof -
  let ?b = "runetochar c"
  have r: "chartorune ?b 0 = (length ?b, c)" using chartorune_runetochar [OF assms, of 0 ?b "[]"] by simp
  have at: "rbyte ?b 0 i = unat (?b ! i)" if "i < length ?b" for i using that by (simp add: rbyte_def rd_def)
  have l: "0 < length ?b" using runetochar_nonempty by simp
  show "unat (?b ! i) div 64 = 2" if "0 < i" "i < length ?b"
    using chartorune_cont [OF r that] at that by simp
  show "\<not> unat (?b ! 0) div 64 = 2"
  proof (cases "length ?b = 1")
    case False
    then show ?thesis using lead_not_cont [OF r False] at l by simp
  next
    case True
    then have "unat c < 0x80" by (simp add: runetochar_valid assms utf8_encode_def split: if_splits)
    then have "?b ! 0 = of_nat (unat c)" by (simp add: runetochar_utf8 [OF assms] utf8_encode_def)
    then have "unat (?b ! 0) = unat c" using \<open>unat c < 0x80\<close> by (subst \<open>?b ! 0 = _\<close>, intro unat_of_nat_small) simp
    then show ?thesis using \<open>unat c < 0x80\<close> by (simp add: div_range)
  qed
qed

lemma walk_encoded:
  assumes "\<forall>c \<in> set rs. valid_rune c \<and> c \<noteq> 0" and "drop s m = concat (map runetochar rs) @ r"
    and "rd r 0 = 0"
  shows "map snd (walk m s) = rs"
  using assms(1,2)
proof (induction rs arbitrary: s)
  case Nil
  then have "rd m s = 0" using assms(3) by (metis append_Nil concat.simps(1) list.map(1) rd_conv_drop)
  then show ?case by (simp add: walk_end)
next
  case (Cons c rs)
  have d: "drop s m = runetochar c @ concat (map runetochar rs) @ r" using Cons.prems by simp
  have cr: "chartorune m s = (length (runetochar c), c)"
    using chartorune_runetochar [OF _ d] Cons.prems by simp
  have "rd m s \<noteq> 0" using cr Cons.prems(1) chartorune_ascii [of m s] by auto
  then show ?case
    using walk_Cons(1) [OF _ cr] Cons.IH [of "s + length (runetochar c)"] Cons.prems(1) drop_append_advance [OF d]
    by simp
qed

section \<open>utfecpy\<close>

lemma utfecpy_back_eq:
  assumes "to \<le> q" and "q < e" and "unat (rd d q) div 64 \<noteq> 2" and "\<forall>i. q < i \<longrightarrow> i < e \<longrightarrow> unat (rd d i) div 64 = 2"
  shows "utfecpy_back d to e = q"
  using assms
proof (induction e)
  case (Suc e)
  then show ?case by (cases "e = q") (auto simp: byte_mask)
qed simp

definition utf8_enc :: "uint list \<Rightarrow> bytes" where
  "utf8_enc rs = concat (map runetochar rs)"

lemma utf8_enc_append: "utf8_enc (rs @ ss) = utf8_enc rs @ utf8_enc ss"
  by (simp add: utf8_enc_def)

lemma utf8_enc_single: "utf8_enc [c] = runetochar c"
  by (simp add: utf8_enc_def)

text \<open>The longest prefix of whole runes that leaves room for the NUL.\<close>

lemma enc_cut:
  assumes "0 < n" and "n \<le> length (utf8_enc rs)"
  obtains k where "k < length rs" and "length (utf8_enc (take k rs)) < n" and "n \<le> length (utf8_enc (take (Suc k) rs))"
proof -
  define P where "P k \<longleftrightarrow> length (utf8_enc (take k rs)) < n" for k
  have "P 0" using assms(1) by (simp add: P_def utf8_enc_def)
  moreover have "\<not> P (length rs)" using assms(2) by (simp add: P_def)
  ultimately obtain k where "k < length rs" "P k" "\<not> P (Suc k)"
    using dec_induct [of 0 "length rs" P] by auto
  then show ?thesis by (intro that) (auto simp: P_def)
qed

lemma enc_nth:
  assumes "k < length rs" and "i < length (runetochar (rs ! k))"
  shows "utf8_enc rs ! (length (utf8_enc (take k rs)) + i) = runetochar (rs ! k) ! i"
proof -
  have "rs = take k rs @ [rs ! k] @ drop (Suc k) rs" using assms(1) id_take_nth_drop by simp
  then have "utf8_enc rs = utf8_enc (take k rs @ [rs ! k] @ drop (Suc k) rs)" by simp
  also have "\<dots> = utf8_enc (take k rs) @ runetochar (rs ! k) @ utf8_enc (drop (Suc k) rs)"
    by (simp only: utf8_enc_append utf8_enc_single)
  finally have "utf8_enc rs = utf8_enc (take k rs) @ runetochar (rs ! k) @ utf8_enc (drop (Suc k) rs)" .
  then show ?thesis using assms(2) by (simp add: nth_append)
qed

lemma utfecpy_back_runes:
  assumes to: "to < e" "e \<le> length d" and v: "\<forall>c \<in> set rs. valid_rune c"
    and k: "k < length rs" "length (utf8_enc (take k rs)) < e - to" "e - to \<le> length (utf8_enc (take (Suc k) rs))"
    and n: "e - to \<le> length (utf8_enc rs)"
  shows "utfecpy_back (poke d to (take (e - to) (utf8_enc rs))) to e = to + length (utf8_enc (take k rs))"
proof (rule utfecpy_back_eq)
  let ?q = "length (utf8_enc (take k rs))" and ?d = "poke d to (take (e - to) (utf8_enc rs))" and ?b = "runetochar (rs ! k)"
  have len: "length (utf8_enc (take (Suc k) rs)) = ?q + length ?b"
    using k(1) by (simp add: take_Suc_conv_app_nth utf8_enc_append) (simp add: utf8_enc_def)
  have at: "rd ?d (to + (?q + i)) = ?b ! i" if "?q + i < e - to" for i
  proof -
    have "i < length ?b" using that k(3) len by simp
    then have "?b ! i = utf8_enc rs ! (?q + i)" using enc_nth [OF k(1)] by simp
    moreover have S: "length (take (e - to) (utf8_enc rs)) = e - to" using n by simp
    moreover have "?d ! (to + (?q + i)) = take (e - to) (utf8_enc rs) ! (?q + i)"
      using nth_poke [of to "take (e - to) (utf8_enc rs)" d "to + (?q + i)"] S to that
        less_le_trans [OF that n] by simp
    moreover have "length ?d = length d" using S to by simp
    moreover have "to + (?q + i) < length d" using that to by linarith
    ultimately show ?thesis using that by (simp add: rd_def)
  qed
  have vk: "valid_rune (rs ! k)" using v k(1) by simp
  show "unat (rd ?d (to + ?q)) div 64 \<noteq> 2" using at [of 0] runetochar_bytes(1) [OF vk] k(2) by simp
  show "\<forall>i. to + ?q < i \<longrightarrow> i < e \<longrightarrow> unat (rd ?d i) div 64 = 2"
  proof (intro allI impI)
    fix i assume i: "to + ?q < i" "i < e"
    define j where "j = i - (to + ?q)"
    have "i = to + (?q + j)" "0 < j" "?q + j < e - to" using i by (auto simp: j_def)
    then show "unat (rd ?d i) div 64 = 2"
      using at [of j] runetochar_bytes(2) [OF vk, of j] k(3) len by simp
  qed
qed (use k(2) to in simp_all)

lemma poke_inside_prefix:
  assumes "i + length bs \<le> length d" and "q < length bs"
  shows "poke (poke d i bs) (i + q) [x] = poke d i (take q bs @ x # drop (Suc q) bs)"
  using assms by (auto simp: poke_def min_def intro!: arg_cong [of _ _ "\<lambda>n. drop n d"])

lemma utfecpy_runes:
  assumes to: "to < e" "e \<le> length d" and s: "cstr m from = utf8_enc rs" and v: "\<forall>c \<in> set rs. valid_rune c"
  obtains k tail where "k \<le> length rs"
    and "utfecpy d to e m from = (poke d to (utf8_enc (take k rs) @ 0 # tail), to + length (utf8_enc (take k rs)))"
    and "length (utf8_enc (take k rs)) + 1 + length tail \<le> e - to"
    and "k = length rs \<or> e - to < length (utf8_enc (take (Suc k) rs)) + 1"
proof (cases "length (utf8_enc rs) < e - to")
  case True
  then show ?thesis using to s
    by (intro that [of "length rs" "[]"]) (simp_all add: utfecpy_def memccpy_0)
next
  case False
  let ?n = "e - to"
  obtain k where k: "k < length rs" "length (utf8_enc (take k rs)) < ?n" "?n \<le> length (utf8_enc (take (Suc k) rs))"
    using enc_cut [of ?n rs] False to by auto
  let ?q = "length (utf8_enc (take k rs))" and ?S = "take ?n (utf8_enc rs)"
  have "utf8_enc (take k rs) = take ?q ?S"
    using k(2) utf8_enc_append [of "take k rs" "drop k rs"] by simp
  then have "poke (poke d to ?S) (to + ?q) [0] = poke d to (utf8_enc (take k rs) @ 0 # drop (Suc ?q) ?S)"
    using poke_inside_prefix [of to ?S d ?q 0] False to k(2) by simp
  then have "utfecpy d to e m from = (poke d to (utf8_enc (take k rs) @ 0 # drop (Suc ?q) ?S), to + ?q)"
    using to False s utfecpy_back_runes [OF to v k] by (simp add: utfecpy_def memccpy_0 Let_def)
  then show ?thesis using k to False by (intro that [of k "drop (Suc ?q) ?S"]) auto
qed

end
