(* ===== verification/Text_Props.thy ===== *)
theory Text_Props
  imports Utf_String
begin

text \<open>
  The properties of the C string functions and of UTF-8 text.
\<close>

section \<open>Lemmas on runes\<close>

lemma fullrune_iff:
  "fullrune m s n \<longleftrightarrow> 0 < n \<and> (rbyte m s 0 < 128 \<or> rbyte m s 0 < 224 \<and> 2 \<le> n
     \<or> rbyte m s 0 < 240 \<and> 3 \<le> n \<or> 4 \<le> n)"
  using rbyte_facts(2) [of m s]
  by (auto simp: fullrune_def Let_def rune_consts fullrune_loop.simps [of _ _ 3] fullrune_loop.simps [of _ _ 4]
      fullrune_loop.simps [of _ _ 5] word_less_nat_alt acc0_def)

lemma chartorune_prefix:
  assumes full: "fullrune m s n" and same: "\<forall>i < n. rd m' (s' + i) = rd m (s + i)"
  shows "chartorune m' s' = chartorune m s"
proof -
  have b: "rbyte m' s' i = rbyte m s i" if "i < n" for i using same that by (simp add: rbyte_def)
  have b0: "rbyte m' s' 0 = rbyte m s 0" using full b by (simp add: fullrune_iff)
  consider "rbyte m s 0 < 128" | "128 \<le> rbyte m s 0" "rbyte m s 0 < 224" "2 \<le> n"
    | "224 \<le> rbyte m s 0" "rbyte m s 0 < 240" "3 \<le> n" | "4 \<le> n"
    using full unfolding fullrune_iff by linarith
  then show ?thesis
  proof cases
    case 1
    then show ?thesis by (simp add: chartorune_utf8 utf8_decode_alt b0)
  next
    case 2
    then have "rbyte m' s' 1 = rbyte m s 1" "val2 m' s' = val2 m s" using b by (simp_all add: val2_def b0)
    then show ?thesis using 2 by (simp add: chartorune_utf8 utf8_decode_alt b0 div_range)
  next
    case 3
    then have "rbyte m' s' 1 = rbyte m s 1" "rbyte m' s' 2 = rbyte m s 2" "val3 m' s' = val3 m s"
      using b by (simp_all add: val3_def b0)
    then show ?thesis using 3 by (simp add: chartorune_utf8 utf8_decode_alt b0 div_range)
  next
    case 4
    then have "rbyte m' s' 1 = rbyte m s 1" "rbyte m' s' 2 = rbyte m s 2" "rbyte m' s' 3 = rbyte m s 3"
      using b by simp_all
    moreover from this have "val2 m' s' = val2 m s" "val3 m' s' = val3 m s" "val4 m' s' = val4 m s"
      by (simp_all add: val2_def val3_def val4_def b0)
    ultimately show ?thesis by (simp only: chartorune_utf8 utf8_decode_alt b0)
  qed
qed

lemma runenlen_valid:
  assumes "valid_rune c"
  shows "runenlen_loop c 2 = length (runetochar c) \<or> c \<le> Rune1"
proof -
  have "unat c \<le> 0x10FFFF" using assms by (simp add: valid_rune_def word_le_nat_alt)
  then show ?thesis
    by (auto simp: runetochar_utf8 [OF assms] utf8_encode_def runenlen_loop.simps [of c 2]
        runenlen_loop.simps [of c 3] runenlen_loop.simps [of c 4] rune_consts word_le_nat_alt)
qed

lemma runenlen_step:
  assumes "valid_rune c"
  shows "runenlen (c # rs) nb = runenlen rs (nb + length (runetochar c))"
  using runenlen_valid [OF assms] by (auto simp: runetochar_def)

lemma runenlen_enc: "\<forall>c \<in> set rs. valid_rune c \<Longrightarrow> runenlen rs nb = nb + length (utf8_enc rs)"
  by (induction rs arbitrary: nb) (simp_all add: runenlen_step utf8_enc_def del: runenlen.simps(2))

lemma first_rune_encoded:
  assumes "\<forall>c \<in> set rs. valid_rune c \<and> c \<noteq> 0" and "drop s m = utf8_enc rs @ r" and "rd r 0 = 0"
  shows "first_rune c (walk m s) = (if c \<in> set rs then Some (s + length (utf8_enc (takeWhile (\<lambda>b. b \<noteq> c) rs))) else None)"
  using assms(1,2)
proof (induction rs arbitrary: s)
  case Nil
  then have "rd m s = 0" using assms(3) by (metis append_Nil concat.simps(1) list.map(1) rd_conv_drop utf8_enc_def)
  then show ?case by (simp add: walk_end first_rune_def)
next
  case (Cons b rs)
  have d: "drop s m = runetochar b @ utf8_enc rs @ r" using Cons.prems by (simp add: utf8_enc_def)
  have cr: "chartorune m s = (length (runetochar b), b)"
    using chartorune_runetochar [OF _ d] Cons.prems by simp
  have "rd m s \<noteq> 0" using cr Cons.prems(1) chartorune_ascii [of m s] by auto
  then show ?case
    using walk_Cons(1) [OF _ cr] Cons.IH [of "s + length (runetochar b)"] Cons.prems(1) drop_append_advance [OF d]
    by (auto simp: first_rune_def utf8_enc_def)
qed

lemma cstr_encoded:
  assumes "\<forall>c \<in> set rs. valid_rune c \<and> c \<noteq> 0"
  shows "nulfree (utf8_enc rs)"
proof -
  have "0 \<notin> set (runetochar c)" if "valid_rune c" "c \<noteq> 0" for c
  proof
    assume "0 \<in> set (runetochar c)"
    then obtain i where i: "i < length (runetochar c)" "runetochar c ! i = 0" by (auto simp: in_set_conv_nth)
    have r: "chartorune (runetochar c) 0 = (length (runetochar c), c)"
      using chartorune_runetochar [OF that(1), of 0 "runetochar c" "[]"] by simp
    have "rd (runetochar c) 0 \<noteq> 0" using r chartorune_ascii [of "runetochar c" 0] that(2) by auto
    then show False using chartorune_nonzero [OF r _ i(1)] i by (simp add: rd_def)
  qed
  then show ?thesis using assms by (auto simp: nulfree_def utf8_enc_def)
qed

section \<open>UTF-8\<close>

text \<open>
  C19: \<^verbatim>\<open>chartorune\<close>, which decides the length of a sequence by comparing its first byte with
  bit patterns as it collects six bits at a time, decodes exactly as the UTF-8 standard
  says, on every byte string: sequences of minimal length for values up to \<open>0x10FFFF\<close>
  that are not surrogates; anything else is one byte of U+FFFD.
\<close>

theorem chartorune_is_utf8: "chartorune m s = utf8_decode m s"
  by (rule chartorune_utf8)

text \<open>
  C20: Round trip. What \<^verbatim>\<open>runetochar\<close> stores for a valid rune, \<^verbatim>\<open>chartorune\<close> reads back, whatever
  follows; for an invalid one it stores the encoding of U+FFFD. \<^verbatim>\<open>runelen\<close> is the number of
  bytes.
\<close>

theorem rune_roundtrip:
  assumes "drop s m = runetochar c @ r"
  shows "chartorune m s = (runelen c, if valid_rune c then c else Runeerror)"
proof (cases "valid_rune c")
  case True
  then show ?thesis using chartorune_runetochar [OF True assms] by (simp add: runelen_def)
next
  case False
  have "valid_rune Runeerror" by (simp add: valid_rune_def)
  moreover from this have "runetochar c = runetochar Runeerror"
    using False by (simp add: runetochar_valid)
  ultimately show ?thesis using chartorune_runetochar [of Runeerror s m r] assms False
    by (simp add: runelen_def)
qed

theorem rune_roundtrip_witness:
  "chartorune (runetochar 0x20AC @ [65]) 0 = (runelen 0x20AC, 0x20AC) \<and> runelen 0x20AC = 3"
proof -
  have "runelen 0x20AC = 3"
    by (simp add: runelen_def runetochar_valid valid_rune_def utf8_encode_def)
  then show ?thesis using rune_roundtrip [of 0 "runetochar 0x20AC @ [65]" "0x20AC" "[65]"]
    by (simp add: valid_rune_def)
qed

text \<open>
  Canonicity. When \<^verbatim>\<open>chartorune\<close> consumes more than one byte, these bytes lie inside the
  buffer and are exactly what \<^verbatim>\<open>runetochar\<close> stores for the rune it returns: no rune has two
  encodings.
\<close>

theorem rune_canonical:
  assumes "chartorune m s = (n, c)" and "n \<noteq> 1"
  shows "s + n \<le> length m \<and> take n (drop s m) = runetochar c"
  using chartorune_canonical [OF assms] chartorune_range(3) [OF assms(1)] by (simp add: runetochar_utf8)

theorem rune_canonical_witness:
  "chartorune [0xC3, 0xA9, 0] 0 = (2, 0xE9) \<and> take 2 (drop 0 [0xC3, 0xA9, 0]) = runetochar 0xE9"
proof -
  have c: "chartorune [0xC3, 0xA9, 0] 0 = (2, 0xE9)" by code_simp
  show ?thesis using rune_canonical [OF c] c by simp
qed

text \<open>
  \<^verbatim>\<open>fullrune\<close> keeps its promise: when it says that the first \<open>n\<close> bytes hold a full rune,
  \<^verbatim>\<open>chartorune\<close> gives the same result for every continuation of these \<open>n\<close> bytes, that is, it
  is safe to decode before more input arrives.
\<close>

lemma fullrune_contract:
  assumes "fullrune m s n" and "\<forall>i < n. rd m' (s' + i) = rd m (s + i)"
  shows "chartorune m' s' = chartorune m s"
  by (rule chartorune_prefix [OF assms])

theorem fullrune_contract_witness:
  "fullrune [0xC3, 0xA9, 65] 0 2 \<and> chartorune [0xC3, 0xA9, 0xFF, 0xFF] 0 = chartorune [0xC3, 0xA9, 65] 0"
proof -
  have f: "fullrune [0xC3, 0xA9, 65] 0 2" by code_simp
  have "\<forall>i < 2. rd [0xC3, 0xA9, 0xFF, 0xFF] (0 + i) = rd [0xC3, 0xA9, 65] (0 + i)"
    by (auto simp: less_2_cases_iff buf_simps)
  then show ?thesis using fullrune_contract [OF f] f by blast
qed

text \<open>
  \<^verbatim>\<open>runenlen\<close> computes the length of the encoding of a string of valid runes, but not of an
  invalid one: for a rune beyond \<open>0x10FFFF\<close> it counts 4 bytes where \<^verbatim>\<open>runetochar\<close> writes 3.
\<close>

theorem runenlen_length:
  "(\<forall>c \<in> set rs. valid_rune c) \<longrightarrow> runenlen rs 0 = length (concat (map runetochar rs))"
  using runenlen_enc [of rs 0] by (simp add: utf8_enc_def)

theorem runenlen_length_witness:
  "runenlen [0x41, 0xE9, 0x20AC] 0 = length (concat (map runetochar [0x41, 0xE9, 0x20AC]))
   \<and> runenlen [0x110000] 0 = 4 \<and> length (runetochar 0x110000) = 3"
proof -
  have "runenlen [0x110000] 0 = 4"
    by (simp add: rune_consts runenlen_loop.simps [of _ 2] runenlen_loop.simps [of _ 3] runenlen_loop.simps [of _ 4])
  moreover have "length (runetochar 0x110000) = 3"
    by (simp add: runetochar_valid valid_rune_def utf8_encode_def)
  ultimately show ?thesis using runenlen_length [of "[0x41, 0xE9, 0x20AC]"] by (simp add: valid_rune_def)
qed

section \<open>UTF-8 strings\<close>

text \<open>
  On the encoding of a string of runes, \<^verbatim>\<open>utflen\<close> counts the runes and \<^verbatim>\<open>utfrune\<close> returns the
  place of the first occurrence of a rune, or nil when it does not occur.
\<close>

theorem utf_string:
  assumes "\<forall>c \<in> set rs. valid_rune c \<and> c \<noteq> 0" and "drop s m = concat (map runetochar rs) @ r"
    and "rd r 0 = 0" and "0 < c" and "c < 2 ^ 31"
  shows "utflen m s = length rs
    \<and> utfrune m s c = (if word_of_int c \<in> set rs
        then Some (s + length (concat (map runetochar (takeWhile (\<lambda>b. b \<noteq> word_of_int c) rs)))) else None)"
proof -
  have "length (walk m s) = length rs" using walk_encoded [OF assms(1-3)] by (metis length_map)
  moreover have "utfrune m s c = first_rune (word_of_int c) (walk m s)"
    using utfrune_walk [of c] assms(4,5) by simp
  ultimately show ?thesis
    using first_rune_encoded [OF assms(1) _ assms(3), of s m "word_of_int c"] assms(2)
    by (simp add: utflen_walk utf8_enc_def)
qed

theorem utf_string_witness:
  "utflen (runetochar 0x41 @ runetochar 0x20AC @ runetochar 0x42 @ [0]) 0 = 3
   \<and> utfrune (runetochar 0x41 @ runetochar 0x20AC @ runetochar 0x42 @ [0]) 0 0x42 = Some 4"
proof -
  have "length (runetochar 0x41) = 1" "length (runetochar 0x20AC) = 3"
    by (simp_all add: runetochar_valid valid_rune_def utf8_encode_def)
  then show ?thesis
    using utf_string [of "[0x41, 0x20AC, 0x42]" 0 "runetochar 0x41 @ runetochar 0x20AC @ runetochar 0x42 @ [0]"
        "[0]" "0x42"]
    by (simp add: valid_rune_def buf_simps)
qed

text \<open>
  \<^verbatim>\<open>utfutf\<close> finds the first place where the bytes of \<open>s2\<close> occur in \<open>s1\<close>, as \<^verbatim>\<open>strstr\<close> does,
  on arbitrary \<open>s1\<close>, when \<open>s2\<close> starts with a well-formed rune other than U+FFFD: skipping
  from rune to rune loses no occurrence.
\<close>

lemma utfutf_first:
  assumes "chartorune m2 s2 = (n, f)" and "n = 1 \<longrightarrow> f < 0x80" and "f \<noteq> Runeerror"
  shows "first_occurrence m1 s1 m2 s2 (utfutf m1 s1 m2 s2)"
proof (cases "f \<le> 0x80")
  case True
  then have "uint f \<le> 0x80" by (simp add: word_le_def)
  then show ?thesis using strstr_first assms(1) by (simp add: utfutf_def)
next
  case False
  then have "\<not> uint f \<le> 0x80" by (simp add: word_le_def)
  moreover have "n \<noteq> 1" using assms(2) False by (auto simp: word_le_nat_alt word_less_nat_alt)
  then have "first_occurrence m1 s1 m2 s2 (utfutf_loop m1 s1 (uint f) m2 s2)"
    using utfutf_loop_first [OF assms(1) _ assms(3), of s1 s1 m1] by (simp add: occurs_def)
  ultimately show ?thesis using assms(1) by (simp add: utfutf_def)
qed

theorem utfutf_first_witness:
  "first_occurrence [0x80, 65, 0xC3, 0xA9, 66, 0] 0 [0xC3, 0xA9, 66, 0] 0 (Some 2)"
proof -
  have c: "chartorune [0xC3, 0xA9, 66, 0] 0 = (2, 0xE9)" by code_simp
  have "utfutf [0x80, 65, 0xC3, 0xA9, 66, 0] 0 [0xC3, 0xA9, 66, 0] 0 = Some 2" by code_simp
  then show ?thesis using utfutf_first [OF c, of "[0x80, 65, 0xC3, 0xA9, 66, 0]" 0] by simp
qed

lemma utfutf_loop_ge: "utfutf_loop m1 p f m2 s2 = Some k \<Longrightarrow> p \<le> k"
proof (induction m1 p f m2 s2 rule: utfutf_loop.induct)
  case (1 m1 p f m2 s2)
  then show ?case
    using utfrune_loop_bounds [of m1 p f] by (auto simp: utfutf_loop.simps [of m1 p] split: option.splits if_splits)
qed

text \<open>
  C21: Why U+FFFD is excluded. A malformed byte of \<open>s1\<close> also decodes to U+FFFD, and \<^verbatim>\<open>utfutf\<close>
  then advances by the three bytes of the U+FFFD that \<open>s2\<close> starts with, not by the one byte
  it has looked at. For all strings: if the first U+FFFD that \<^verbatim>\<open>utfrune\<close> finds in \<open>s1\<close> is a
  malformed byte at \<open>q\<close>, the search goes on at \<open>q + 3\<close> whatever lies between. An
  occurrence of \<open>s2\<close> at \<open>q + 1\<close> or \<open>q + 2\<close> is missed, and where the string at \<open>s1\<close> ends
  there the search runs past its NUL, so that any pointer returned lies beyond the string.
\<close>

theorem utfutf_overruns:
  assumes "chartorune m2 s2 = (3, Runeerror)" and "utfrune m1 s1 0xFFFD = Some q"
    and "chartorune m1 q = (1, Runeerror)"
  shows "utfutf m1 s1 m2 s2 = utfutf m1 (q + 3) m2 s2
    \<and> (occurs m1 s1 m2 s2 (q + 1) \<or> occurs m1 s1 m2 s2 (q + 2) \<longrightarrow>
        \<not> first_occurrence m1 s1 m2 s2 (utfutf m1 s1 m2 s2))
    \<and> (\<forall>k. utfutf m1 s1 m2 s2 = Some k \<longrightarrow> q + 3 \<le> k \<and> (strlen m1 s1 \<le> q + 2 - s1 \<longrightarrow> s1 + strlen m1 s1 < k))"
proof -
  have u: "utfutf m1 p m2 s2 = utfutf_loop m1 p 0xFFFD m2 s2" for p
    using assms(1) by (simp add: utfutf_def)
  have "\<not> prefix (cstr m2 s2) (cstr m1 q)"
    using occurs_rune(1) [OF assms(1), of m1 q q] assms(3) by (auto simp: occurs_def)
  moreover have "utfrune_loop m1 s1 0xFFFD = Some q"
    using assms(2) by (simp add: utfrune_def)
  ultimately have skip: "utfutf m1 s1 m2 s2 = utfutf m1 (q + 3) m2 s2"
    unfolding u by (subst utfutf_loop.simps) (simp add: strncmp_prefix assms(1))
  have ge: "q + 3 \<le> k" if "utfutf m1 s1 m2 s2 = Some k" for k
    using that skip utfutf_loop_ge [of m1 "q + 3" "0xFFFD" m2 s2 k] by (simp add: u)
  have "s1 \<le> q" using utfrune_loop_bounds [OF \<open>utfrune_loop m1 s1 0xFFFD = Some q\<close>] by simp
  then have end_: "s1 + strlen m1 s1 < k" if "utfutf m1 s1 m2 s2 = Some k" "strlen m1 s1 \<le> q + 2 - s1" for k
    using ge [OF that(1)] that(2) by linarith
  have "\<not> first_occurrence m1 s1 m2 s2 (utfutf m1 s1 m2 s2)"
    if "occurs m1 s1 m2 s2 (q + 1) \<or> occurs m1 s1 m2 s2 (q + 2)"
    using that ge by (fastforce simp: first_occurrence_def split: option.splits)
  then show ?thesis using skip ge end_ by blast
qed

text \<open>
  Here the string at \<open>s1\<close> ends at offset 4 and contains \<open>s2\<close> at offset 1; \<^verbatim>\<open>utfutf\<close> steps
  over it and over the NUL and returns a pointer beyond the string.
\<close>

theorem utfutf_overruns_witness:
  "let s1 = [0x80, 0xEF, 0xBF, 0xBD, 0, 65, 0xEF, 0xBF, 0xBD, 0]; s2 = [0xEF, 0xBF, 0xBD, 0] in
   strlen s1 0 = 4 \<and> strstr s1 0 s2 0 = Some 1 \<and> utfutf s1 0 s2 0 = Some 6
   \<and> utfutf s1 0 s2 0 = utfutf s1 3 s2 0 \<and> \<not> first_occurrence s1 0 s2 0 (utfutf s1 0 s2 0)"
proof -
  let ?s1 = "[0x80, 0xEF, 0xBF, 0xBD, 0, 65, 0xEF, 0xBF, 0xBD, 0]" and ?s2 = "[0xEF, 0xBF, 0xBD, 0]"
  have c: "chartorune ?s2 0 = (3, Runeerror)" "utfrune ?s1 0 0xFFFD = Some 0"
    "chartorune ?s1 0 = (1, Runeerror)" by code_simp+
  have v: "strlen ?s1 0 = 4" "strstr ?s1 0 ?s2 0 = Some 1" "utfutf ?s1 0 ?s2 0 = Some 6"
    by code_simp+
  have "occurs ?s1 0 ?s2 0 1"
    using strstr_first [of ?s1 0 ?s2 0] by (simp add: v(2) first_occurrence_def)
  then have "\<not> first_occurrence ?s1 0 ?s2 0 (utfutf ?s1 0 ?s2 0)"
    using conjunct1 [OF conjunct2 [OF utfutf_overruns [OF c]]] by simp
  moreover have "utfutf ?s1 0 ?s2 0 = utfutf ?s1 3 ?s2 0"
    using utfutf_overruns [OF c] by simp
  ultimately show ?thesis using v unfolding Let_def by blast
qed

text \<open>
  C22: \<^verbatim>\<open>utfecpy\<close> copies a string of runes into the space from \<open>to\<close> to \<open>e\<close>, cutting it at a rune
  boundary. The result is the NUL-terminated encoding of a prefix of the runes, the
  longest that fits; the pointer returned is that of its NUL; nothing outside the space
  changes.
\<close>

theorem utfecpy_cuts_at_rune:
  assumes "to < e" and "e \<le> length d" and "cstr m from = concat (map runetochar rs)"
    and "\<forall>c \<in> set rs. valid_rune c \<and> c \<noteq> 0"
  shows "case utfecpy d to e m from of (d', p) \<Rightarrow>
    \<exists>k \<le> length rs. cstr d' to = concat (map runetochar (take k rs)) \<and> p = to + length (cstr d' to)
      \<and> (k = length rs \<or> e - to < length (concat (map runetochar (take (Suc k) rs))) + 1)
      \<and> length d' = length d \<and> take to d' = take to d \<and> drop e d' = drop e d"
proof -
  have s: "cstr m from = utf8_enc rs" and v: "\<forall>c \<in> set rs. valid_rune c" using assms(3,4) by (auto simp: utf8_enc_def)
  obtain k tail where k: "k \<le> length rs"
    and u: "utfecpy d to e m from = (poke d to (utf8_enc (take k rs) @ 0 # tail), to + length (utf8_enc (take k rs)))"
    and l: "length (utf8_enc (take k rs)) + 1 + length tail \<le> e - to"
    and max: "k = length rs \<or> e - to < length (utf8_enc (take (Suc k) rs)) + 1"
    by (rule utfecpy_runes [OF assms(1,2) s v])
  let ?bs = "utf8_enc (take k rs) @ 0 # tail" and ?d = "poke d to (utf8_enc (take k rs) @ 0 # tail)"
  have nf: "nulfree (utf8_enc (take k rs))" using assms(4) set_take_subset [of k rs] by (intro cstr_encoded) auto
  have fit: "to + length ?bs \<le> e" "to + length ?bs \<le> length d" using l assms(1,2) by simp_all
  have "drop to ?d = utf8_enc (take k rs) @ 0 # tail @ drop (to + length ?bs) d"
    using fit assms(1,2) by (simp add: drop_poke_here)
  then have c: "cstr ?d to = utf8_enc (take k rs)" by (rule cstr_terminated [OF nf])
  have "drop e ?d = drop e d" using fit assms(2) by (intro drop_poke_after) simp_all
  moreover have "length ?d = length d" "take to ?d = take to d" using fit by simp_all
  ultimately show ?thesis using k u max c unfolding utf8_enc_def [symmetric] by auto
qed

theorem utfecpy_cuts_at_rune_witness:
  "case utfecpy (replicate 6 7) 1 4 (concat (map runetochar [65, 0x20AC]) @ [0]) 0 of (d', p) \<Rightarrow>
     \<exists>k \<le> Suc (Suc 0). cstr d' 1 = concat (map runetochar (take k [65, 0x20AC])) \<and> p = 1 + length (cstr d' 1)
      \<and> (k = Suc (Suc 0) \<or> 3 < length (concat (map runetochar (take (Suc k) [65, 0x20AC]))) + 1)
      \<and> length d' = 6 \<and> take 1 d' = [7] \<and> drop 4 d' = replicate 2 7"
proof -
  have "nulfree (concat (map runetochar [65, 0x20AC]))"
    using cstr_encoded [of "[65, 0x20AC]"] by (simp add: utf8_enc_def valid_rune_def)
  then have "cstr (concat (map runetochar [65, 0x20AC]) @ [0]) 0 = concat (map runetochar [65, 0x20AC])"
    by (rule cstr_terminated) simp
  then show ?thesis
    using utfecpy_cuts_at_rune [of 1 4 "replicate 6 7" "concat (map runetochar [65, 0x20AC]) @ [0]" 0 "[65, 0x20AC]"]
    by (simp add: valid_rune_def)
qed

section \<open>C strings\<close>

text \<open>
  C23: \<^verbatim>\<open>strstr\<close> returns the first place at which \<open>s2\<close> occurs in \<open>s1\<close>, and nil exactly when
  there is none.
\<close>

theorem strstr_is_first: "first_occurrence m1 s1 m2 s2 (strstr m1 s1 m2 s2)"
  by (rule strstr_first)

text \<open>
  \<^verbatim>\<open>strcmp\<close> is a total order on strings, the lexicographic order of their bytes taken
  as unsigned, although it compares sign-extended characters: the result is 0 exactly
  for equal strings, changes sign when the arguments are exchanged, and is transitive.
\<close>

lemma strcmp_order:
  "strcmp m1 s1 m2 s2 = lexcmp (cstr m1 s1) (cstr m2 s2)
   \<and> (strcmp m1 s1 m2 s2 = 0 \<longleftrightarrow> cstr m1 s1 = cstr m2 s2)
   \<and> strcmp m2 s2 m1 s1 = - strcmp m1 s1 m2 s2
   \<and> \<not> (strcmp m1 s1 m2 s2 < 0 \<and> strcmp m2 s2 m3 s3 < 0 \<and> \<not> strcmp m1 s1 m3 s3 < 0)"
  unfolding strcmp_lexcmp
  by (intro conjI refl lexcmp_0 lexcmp_swap) (blast dest: lexcmp_trans)

text \<open>
  \<^verbatim>\<open>memmove\<close> copies correctly between overlapping regions: the \<open>n\<close> bytes at \<open>s1\<close> become the
  bytes that were at \<open>s2\<close> before the call, and no other byte changes. A count that is
  negative as a \<open>long\<close> aborts.
\<close>

lemma memmove_overlap:
  assumes "s1 + unat n \<le> length m" and "s2 + unat n \<le> length m"
  shows "memmove m s1 s2 n
    = (if sint n < 0 then None else Some (take s1 m @ take (unat n) (drop s2 m) @ drop (s1 + unat n) m))"
proof (cases "sint n < 0")
  case True
  then show ?thesis by (simp add: memmove_def)
next
  case False
  have "length (take (unat n) (drop s2 m)) = unat n" using assms(2) by simp
  then show ?thesis using memmove_eq [OF assms] False by (simp add: poke_def)
qed

theorem memmove_overlap_witness:
  "memmove [1, 2, 3, 4, 5] 1 0 3 = Some [1, 1, 2, 3, 5]"
  using memmove_overlap [of 1 3 "[1, 2, 3, 4, 5]" 0] by simp

text \<open>
  C24: The bounded copies. \<^verbatim>\<open>strecpy\<close> knows the end \<open>e\<close> of its space: it stores the longest
  prefix of the source that fits before \<open>e\<close> with its NUL, returns the address of the NUL,
  and changes nothing before \<open>to\<close> or from \<open>e\<close> on. \<^verbatim>\<open>strncat\<close> appends at most \<open>n\<close> bytes of
  the source and always a NUL, so the string grows by exactly that prefix; its \<open>n\<close> bounds
  the bytes taken, not the space, so it stays inside the buffer exactly when the old
  string, those bytes and the NUL fit, and then changes nothing outside of them.
\<close>

theorem bounded_copies:
  assumes "to < e" and "e \<le> length d"
  shows "strecpy d to e m from
      = (let s = take (e - to - 1) (cstr m from) in (poke d to (s @ [0]), to + length s))
    \<and> length (fst (strecpy d to e m from)) = length d
    \<and> take to (fst (strecpy d to e m from)) = take to d \<and> drop e (fst (strecpy d to e m from)) = drop e d
    \<and> (let k = to + length (cstr d to); s = take (nat n) (cstr m from); d' = strncat d to m from n in
        d' = poke d k (s @ [0]) \<and> cstr d' to = cstr d to @ s
        \<and> (length d' = length d \<longleftrightarrow> k + length s + 1 \<le> length d)
        \<and> (k + length s + 1 \<le> length d \<longrightarrow>
            take k d' = take k d \<and> drop (k + length s + 1) d' = drop (k + length s + 1) d))"
proof -
  let ?k = "to + length (cstr d to)" and ?s = "take (nat n) (cstr m from)"
  have k: "?k \<le> length d"
    using assms length_takeWhile_le [of "\<lambda>b. b \<noteq> 0" "drop to d"] by (simp add: cstr_def)
  then have sn: "strncat d to m from n = poke d ?k (?s @ [0])"
    by (simp add: strncat_def strend_eq strncat_loop_eq)
  have "take (length (cstr d to)) (drop to d) = cstr d to"
    unfolding cstr_def by (rule takeWhile_eq_take [symmetric])
  then have "drop to (poke d ?k (?s @ [0])) = (cstr d to @ ?s) @ 0 # drop (?k + length ?s + 1) d"
    using k assms by (simp add: poke_def drop_take)
  moreover have "nulfree (cstr d to @ ?s)"
    using nulfree_cstr [of d to] nulfree_cstr [of m "from"] by (auto simp: nulfree_def dest: in_set_takeD)
  ultimately have "cstr (strncat d to m from n) to = cstr d to @ ?s"
    unfolding sn by (rule cstr_terminated [rotated])
  moreover have "drop e (fst (strecpy d to e m from)) = drop e d"
    using assms by (simp add: strecpy_eq Let_def drop_poke_after)
  ultimately show ?thesis
    using assms k poke_inside_iff [OF k, of "?s @ [0]"]
    by (simp add: strecpy_eq Let_def sn drop_poke_after)
qed

theorem bounded_copies_witness:
  "strecpy [7, 7, 7, 7, 7] 1 4 [65, 66, 67, 68, 0] 0 = ([7, 65, 66, 0, 7], 3)
   \<and> strncat [65, 0, 7, 7, 7] 0 [66, 67, 68, 0] 0 2 = [65, 66, 67, 0, 7]
   \<and> length (strncat [65, 0, 7] 0 [66, 67, 68, 0] 0 2) \<noteq> 3"
proof -
  have s: "cstr [65, 66, 67, 68, 0] 0 = [65, 66, 67, 68]" "cstr [66, 67, 68, 0] 0 = [66, 67, 68]"
    "cstr [65, 0, 7, 7, 7] 0 = [65]" "cstr [65, 0, 7] 0 = [65]"
    by (simp_all add: cstr_def)
  have "strecpy [7, 7, 7, 7, 7] 1 4 [65, 66, 67, 68, 0] 0 = ([7, 65, 66, 0, 7], 3)"
    using bounded_copies [of 1 4 "[7, 7, 7, 7, 7]" "[65, 66, 67, 68, 0]" 0 0] s by (simp add: poke_def)
  moreover have "strncat [65, 0, 7, 7, 7] 0 [66, 67, 68, 0] 0 2 = [65, 66, 67, 0, 7]"
    using bounded_copies [of 0 5 "[65, 0, 7, 7, 7]" "[66, 67, 68, 0]" 0 2] s by (simp add: poke_def Let_def)
  moreover have "length (strncat [65, 0, 7] 0 [66, 67, 68, 0] 0 2) \<noteq> 3"
    using bounded_copies [of 0 3 "[65, 0, 7]" "[66, 67, 68, 0]" 0 2] s by (simp add: poke_def Let_def)
  ultimately show ?thesis by simp
qed

end
