(* ===== verification/Waitq.thy ===== *)
theory Waitq
  imports Prelude
begin

text \<open>
  The queue of waiting processes that the kernel locks keep: a list linked through
  \<^verbatim>\<open>Proc.qnext\<close> with a head and a tail pointer (\<^verbatim>\<open>kernel/concurrency/qlock.c\<close>, the parts marked
  \<^verbatim>\<open>add_queue\<close> and \<^verbatim>\<open>dequeue\<close>), and the first-in first-out contract it implements.
\<close>

text \<open>Recursive calls of partial functions under a case distinction.\<close>

lemma mono_case_option [partial_function_mono]:
  assumes "mono_option B" and "\<And>y. mono_option (C y)"
  shows "mono_option (\<lambda>f. case x of None \<Rightarrow> B f | Some y \<Rightarrow> C y f)"
  using assms by (cases x) simp_all

lemma mono_case_prod [partial_function_mono]:
  assumes "\<And>a b. mono_option (C a b)"
  shows "mono_option (\<lambda>f. case x of (a, b) \<Rightarrow> C a b f)"
  using assms by (cases x) simp_all

section \<open>The contract\<close>

locale fifo =
  fixes rep :: "'q \<Rightarrow> 'p list \<Rightarrow> bool"
    and enq :: "'p \<Rightarrow> 'q \<Rightarrow> 'q"
    and deq :: "'q \<Rightarrow> ('p \<times> 'q) option"
  assumes rep_enq: "rep q xs \<Longrightarrow> p \<notin> set xs \<Longrightarrow> rep (enq p q) (xs @ [p])"
    and rep_deq_Nil: "rep q [] \<Longrightarrow> deq q = None"
    and rep_deq_Cons: "rep q (x # xs) \<Longrightarrow> \<exists>q'. deq q = Some (x, q') \<and> rep q' xs"
    and rep_unique: "rep q xs \<Longrightarrow> rep q ys \<Longrightarrow> xs = ys"
begin

fun drain :: "nat \<Rightarrow> 'q \<Rightarrow> 'p list" where
  "drain 0 q = []"
| "drain (Suc k) q = (case deq q of None \<Rightarrow> [] | Some (p, q') \<Rightarrow> p # drain k q')"

lemma drain_rep: "rep q xs \<Longrightarrow> drain k q = take k xs"
proof (induction xs arbitrary: q k)
  case Nil
  then show ?case by (cases k) (auto simp: rep_deq_Nil)
next
  case (Cons x xs)
  then obtain q' where "deq q = Some (x, q')" "rep q' xs" using rep_deq_Cons by blast
  then show ?case using Cons.IH by (cases k) auto
qed

text \<open>What is put in comes out in the same order, after what was there before.\<close>

lemma enq_drain:
  assumes "rep q xs" and "distinct (xs @ ps)"
  shows "drain (length (xs @ ps)) (foldl (\<lambda>q p. enq p q) q ps) = xs @ ps"
proof -
  have "rep (foldl (\<lambda>q p. enq p q) q ps) (xs @ ps)"
    using assms
  proof (induction ps arbitrary: q xs)
    case (Cons p ps)
    then show ?case using Cons.IH [of "enq p q" "xs @ [p]"] rep_enq [of q xs p] by simp
  qed simp
  then show ?thesis by (simp add: drain_rep)
qed

lemma deq_rep: "rep q xs \<Longrightarrow> deq q = Some (p, q') \<Longrightarrow> \<exists>ys. xs = p # ys \<and> rep q' ys"
  using rep_deq_Nil rep_deq_Cons by (cases xs) fastforce+

end

section \<open>The linked queue\<close>

type_synonym pid = nat

text \<open>The \<^verbatim>\<open>qnext\<close> fields of all processes, the head and the tail of the queue.\<close>

type_synonym waitq = "(pid \<Rightarrow> pid option) \<times> pid option \<times> pid option"

definition add_queue :: "pid \<Rightarrow> waitq \<Rightarrow> waitq" where
  "add_queue up = (\<lambda>(qnext, h, t).
     let (qnext, h) = (case t of
           None \<Rightarrow> (qnext, Some up)
         | Some p \<Rightarrow> (qnext(p := Some up), h));
         t = Some up;
         qnext = qnext(up := None)
     in (qnext, h, t))"

definition dequeue :: "waitq \<Rightarrow> (pid \<times> waitq) option" where
  "dequeue = (\<lambda>(qnext, h, t). case h of
       None \<Rightarrow> None
     | Some p \<Rightarrow>
         let h = qnext p; t = (if h = None then None else t)
         in Some (p, (qnext, h, t)))"

fun chain :: "(pid \<Rightarrow> pid option) \<Rightarrow> pid option \<Rightarrow> pid list \<Rightarrow> bool" where
  "chain qnext h [] \<longleftrightarrow> h = None"
| "chain qnext h (x # xs) \<longleftrightarrow> h = Some x \<and> chain qnext (qnext x) xs"

definition queue_rep :: "waitq \<Rightarrow> pid list \<Rightarrow> bool" where
  "queue_rep q xs \<longleftrightarrow> (case q of (qnext, h, t) \<Rightarrow>
     chain qnext h xs \<and> t = (if xs = [] then None else Some (last xs)) \<and> distinct xs)"

lemma chain_update: "p \<notin> set xs \<Longrightarrow> chain (qnext(p := r)) h xs = chain qnext h xs"
  by (induction xs arbitrary: h) auto

lemma chain_append:
  "xs \<noteq> [] \<Longrightarrow> chain qnext h xs \<Longrightarrow> distinct xs \<Longrightarrow> p \<notin> set xs \<Longrightarrow>
    chain (qnext(last xs := Some p, p := None)) h (xs @ [p])"
proof (induction xs arbitrary: h)
  case (Cons x xs)
  then show ?case by (cases "xs = []") (auto simp: last_in_set)
qed simp

lemma chain_unique: "chain qnext h xs \<Longrightarrow> chain qnext h ys \<Longrightarrow> xs = ys"
proof (induction xs arbitrary: h ys)
  case Nil
  then show ?case by (cases ys) auto
next
  case (Cons x xs)
  then show ?case by (cases ys) auto
qed

lemma chain_cong: "\<forall>x \<in> set xs. n x = n' x \<Longrightarrow> chain n h xs = chain n' h xs"
  by (induction xs arbitrary: h) auto

lemma chain_head: "chain n h (as @ bs) \<Longrightarrow> as \<noteq> [] \<Longrightarrow> h = Some (hd as)"
  by (cases as) auto

lemma chain_unlink:
  "chain n h (as @ p # bs) \<Longrightarrow> distinct (as @ p # bs) \<Longrightarrow> as \<noteq> [] \<Longrightarrow> chain (n(last as := n p)) h (as @ bs)"
proof (induction as arbitrary: h)
  case (Cons a as)
  show ?case
  proof (cases "as = []")
    case True
    then show ?thesis using Cons.prems chain_update [of a bs n "n p" "n p"] by (simp add: fun_upd_def)
  next
    case False
    then show ?thesis using Cons by (auto simp: last_in_set)
  qed
qed simp

lemma chain_suffix: "chain n h (as @ p # bs) \<Longrightarrow> chain n (n p) bs"
  by (induction as arbitrary: h) auto

lemma chain_last: "chain n h (as @ bs) \<Longrightarrow> as \<noteq> [] \<Longrightarrow> chain n (n (last as)) bs"
proof (induction as arbitrary: h)
  case (Cons a as)
  then show ?case by (cases "as = []") auto
qed simp

lemma chain_insert:
  "chain n h (as @ bs) \<Longrightarrow> distinct (as @ x # bs) \<Longrightarrow> as \<noteq> [] \<Longrightarrow> chain (n(x := n (last as), last as := Some x)) h (as @ x # bs)"
proof (induction as arbitrary: h)
  case (Cons a as)
  show ?case
  proof (cases "as = []")
    case True
    then have "chain (n(x := n a, a := Some x)) (n a) bs"
      using Cons.prems chain_update [of a bs "n(x := n a)"] chain_update [of x bs n "n a"] by simp
    then show ?thesis using True Cons.prems by (simp add: fun_upd_def)
  next
    case False
    then show ?thesis using Cons by (auto simp: last_in_set)
  qed
qed simp

interpretation waitq: fifo queue_rep add_queue dequeue
proof
  fix q xs p assume r: "queue_rep q xs" and p: "p \<notin> set xs"
  obtain qnext h t where q: "q = (qnext, h, t)" by (metis prod_cases3)
  show "queue_rep (add_queue p q) (xs @ [p])"
  proof (cases "xs = []")
    case True
    then show ?thesis using r q by (simp add: queue_rep_def add_queue_def)
  next
    case False
    then show ?thesis using r q p chain_append [OF False]
      by (simp add: queue_rep_def add_queue_def)
  qed
next
  fix q assume "queue_rep q []"
  then show "dequeue q = None" by (auto simp: queue_rep_def dequeue_def split: prod.splits)
next
  fix q x xs assume "queue_rep q (x # xs)"
  then show "\<exists>q'. dequeue q = Some (x, q') \<and> queue_rep q' xs"
    by (cases xs) (auto simp: queue_rep_def dequeue_def Let_def split: prod.splits)
next
  fix q xs ys assume "queue_rep q xs" "queue_rep q ys"
  then show "xs = ys" by (auto simp: queue_rep_def intro: chain_unique split: prod.splits)
qed

end
