(* ===== verification/Sched.thy ===== *)
theory Sched
  imports Waitq "HOL-Library.Signed_Division"
begin

text \<open>
  The process scheduler (\<^verbatim>\<open>kernel/processes/proc.c\<close>): the run queues, one per priority, linked
  through \<^verbatim>\<open>Proc.rnext\<close>; the decaying cpu averages and the priorities computed from them;
  making a process ready, picking the next one to run, and rebalancing the queues.

  The state is that of one processor. Real-time processes are not modelled: \<^verbatim>\<open>p->edf\<close> is
  nil for every process, so that \<^verbatim>\<open>edfready\<close> and \<^verbatim>\<open>edflock\<close> do nothing. Tracing, the
  profiling counters and the interrupt level are left out. A loop along a linked queue
  need not end on arbitrary memory; such loops are partial functions, and \<open>None\<close> means
  that they do not return.
\<close>

datatype procstate = Dead | Running | Queueing | QueueingR | QueueingW | Scheding | Moribund
  | Ready | Wakeme | Rendezvous | Broken | Stopped | Waitrelease

record proc =
  p_state :: procstate
  p_qnext :: "pid option"
  p_rnext :: "pid option"
  p_priority :: uint
  p_basepri :: uint
  p_fixedpri :: bool
  p_cpu :: "nat option"
  p_lastcpu :: "nat option"
  p_wired :: "nat option"
  p_delaysched :: uint
  p_lastupdate :: uint
  p_cpuavg :: uint
  p_nlocks :: int
  p_preempted :: bool
  p_newtlb :: bool
  p_r :: "nat option"
  p_notepending :: bool
  p_qpc :: uint

record schedq =
  sq_head :: "pid option"
  sq_tail :: "pid option"
  sq_n :: int

text \<open>
  \<open>k_up\<close> is \<^verbatim>\<open>up\<close>; the fields from \<open>k_cpuno\<close> on are those of \<^verbatim>\<open>struct Cpu\<close>. \<open>k_runqbusy\<close> says that
  another processor holds the lock of the run queues, that is, \<^verbatim>\<open>canlock(runq)\<close> fails;
  \<open>k_pallocp\<close> and \<open>k_procallocp\<close> are \<^verbatim>\<open>palloc.Lock.p\<close> and \<^verbatim>\<open>procalloc.Lock.p\<close>; \<open>k_rendez\<close> gives the
  sleeping process of every \<^verbatim>\<open>Rendez\<close>.
\<close>

record kern =
  k_procs :: "pid \<Rightarrow> proc"
  k_up :: "pid option"
  k_runq :: "schedq list"
  k_nrdy :: int
  k_runvec :: uint
  k_runqbusy :: bool
  k_ncpu :: uint
  k_procfree :: "pid option"
  k_balancetime :: uint
  k_preempts :: int
  k_skipscheds :: int
  k_cpuno :: nat
  k_ticks :: uint
  k_schedticks :: uint
  k_load :: int
  k_readied :: "pid option"
  k_cs :: int
  k_delayedscheds :: int
  k_exiting :: bool
  k_pallocp :: "pid option"
  k_procallocp :: "pid option"
  k_rendez :: "nat \<Rightarrow> pid option"

abbreviation (input) Npriq :: nat where "Npriq \<equiv> 20"
abbreviation (input) Nrq :: nat where "Nrq \<equiv> 22"
abbreviation (input) schedgain :: int where "schedgain \<equiv> 30"
abbreviation (input) Arch_HZ :: int where "Arch_HZ \<equiv> 100"
abbreviation (input) Scaling :: int where "Scaling \<equiv> 2"

text \<open>An assignment to a field of a process.\<close>

definition setp :: "pid \<Rightarrow> (proc \<Rightarrow> proc) \<Rightarrow> kern \<Rightarrow> kern" where
  "setp p f k = k\<lparr>k_procs := (k_procs k)(p := f (k_procs k p))\<rparr>"

text \<open>The value of an \<^verbatim>\<open>int\<close> expression: 32 bits, wrapping.\<close>

definition s32 :: "int \<Rightarrow> int" where
  "s32 x = sint (word_of_int x :: uint)"

section \<open>Priorities\<close>

definition updatecpu :: "pid \<Rightarrow> kern \<Rightarrow> kern" where
  "updatecpu p k =
     (let D = schedgain * Arch_HZ * Scaling;
          t = k_ticks k * 2 + 1;
          n = sint (t - p_lastupdate (k_procs k p));
          k = setp p (\<lambda>x. x\<lparr>p_lastupdate := t\<rparr>) k
      in if n = 0 then k
         else
           let n = (if n > D then D else n);
               ocpu = sint (p_cpuavg (k_procs k p))
           in if k_up k \<noteq> Some p then
                setp p (\<lambda>x. x\<lparr>p_cpuavg := word_of_int (s32 (ocpu * s32 (D - n)) sdiv D)\<rparr>) k
              else
                let t = s32 (1000 - ocpu); t = s32 (t * s32 (D - n)) sdiv D
                in setp p (\<lambda>x. x\<lparr>p_cpuavg := word_of_int (s32 (1000 - t))\<rparr>) k)"

text \<open>
  The result is \<open>None\<close> where \<open>reprioritize\<close> panics. The comparison with \<^verbatim>\<open>basepri\<close>, an
  unsigned field, is an unsigned one.
\<close>

definition reprioritize :: "pid \<Rightarrow> kern \<Rightarrow> uint option" where
  "reprioritize p k =
     (let load = k_load k; basepri = p_basepri (k_procs k p) in
      if load = 0 then Some basepri
      else
        let fairshare = sint (k_ncpu k * 1000 * 1000 div word_of_int load);
            n = sint (p_cpuavg (k_procs k p));
            n = (if n = 0 then 1 else n);
            ratio = s32 (s32 (fairshare + n sdiv 2) sdiv n);
            ratio = (if word_of_int ratio > basepri then sint basepri else ratio)
        in if ratio < 0 then None else Some (word_of_int ratio))"

definition procpriority :: "pid \<Rightarrow> int \<Rightarrow> bool \<Rightarrow> kern \<Rightarrow> kern" where
  "procpriority p pri fixed k =
     (let pri = (if pri \<ge> int Npriq then int Npriq - 1 else if pri < 0 then 0 else pri)
      in setp p (\<lambda>x. x\<lparr>p_priority := word_of_int pri, p_basepri := word_of_int pri,
           p_fixedpri := fixed\<rparr>) k)"

section \<open>The run queues\<close>

definition queueproc :: "nat \<Rightarrow> pid \<Rightarrow> kern \<Rightarrow> kern" where
  "queueproc pri p k =
     (let k = setp p (\<lambda>x. x\<lparr>p_priority := of_nat pri\<rparr>) k;
          k = setp p (\<lambda>x. x\<lparr>p_rnext := None\<rparr>) k;
          rq = k_runq k ! pri;
          (k, rq) = (case sq_tail rq of
              Some t \<Rightarrow> (setp t (\<lambda>x. x\<lparr>p_rnext := Some p\<rparr>) k, rq)
            | None \<Rightarrow> (k, rq\<lparr>sq_head := Some p\<rparr>));
          rq = rq\<lparr>sq_tail := Some p, sq_n := sq_n rq + 1\<rparr>
      in k\<lparr>k_runq := (k_runq k)[pri := rq], k_nrdy := k_nrdy k + 1,
           k_runvec := k_runvec k OR push_bit pri 1\<rparr>)"

text \<open>The search of \<open>dequeueproc\<close>: \<open>p\<close> and \<open>l\<close> when the loop ends.\<close>

partial_function (option) findproc ::
  "(pid \<Rightarrow> pid option) \<Rightarrow> pid \<Rightarrow> pid option \<Rightarrow> pid option \<Rightarrow> (pid option \<times> pid option) option" where
  "findproc rnext tp l p =
     (case p of
        None \<Rightarrow> Some (l, None)
      | Some q \<Rightarrow> if q = tp then Some (l, Some q) else findproc rnext tp (Some q) (rnext q))"

definition dequeueproc :: "nat \<Rightarrow> pid \<Rightarrow> kern \<Rightarrow> (pid option \<times> kern) option" where
  "dequeueproc pri tp k =
     (if k_runqbusy k then Some (None, k)
      else do {
        let rq = k_runq k ! pri;
        (l, p) \<leftarrow> findproc (\<lambda>q. p_rnext (k_procs k q)) tp None (sq_head rq);
        case p of
          None \<Rightarrow> Some (None, k)
        | Some p \<Rightarrow>
            if p_cpu (k_procs k p) \<noteq> None then Some (None, k)
            else
              let rnext = p_rnext (k_procs k p);
                  rq = (if rnext = None then rq\<lparr>sq_tail := l\<rparr> else rq);
                  (k, rq) = (case l of
                      Some l \<Rightarrow> (setp l (\<lambda>x. x\<lparr>p_rnext := rnext\<rparr>) k, rq)
                    | None \<Rightarrow> (k, rq\<lparr>sq_head := rnext\<rparr>));
                  k = (if sq_head rq = None
                       then k\<lparr>k_runvec := k_runvec k AND NOT (push_bit pri 1)\<rparr> else k);
                  rq = rq\<lparr>sq_n := sq_n rq - 1\<rparr>
              in Some (Some p, k\<lparr>k_runq := (k_runq k)[pri := rq], k_nrdy := k_nrdy k - 1\<rparr>) })"

definition proc_ready :: "pid \<Rightarrow> kern \<Rightarrow> kern option" where
  "proc_ready p k =
     (let wired = p_wired (k_procs k p);
          k = (if k_up k \<noteq> Some p \<and> (wired = None \<or> wired = Some (k_cpuno k))
               then k\<lparr>k_readied := Some p\<rparr> else k);
          k = updatecpu p k
      in do {
        pri \<leftarrow> reprioritize p k;
        let k = setp p (\<lambda>x. x\<lparr>p_priority := pri\<rparr>) k;
        let k = setp p (\<lambda>x. x\<lparr>p_state := Ready\<rparr>) k;
        Some (queueproc (unat pri) p k) })"

definition anyready :: "kern \<Rightarrow> bool" where
  "anyready k \<longleftrightarrow> k_runvec k \<noteq> 0"

text \<open>\<open>anyhigher\<close> reads \<^verbatim>\<open>up->priority\<close>; its callers have checked that there is a current process.\<close>

definition anyhigher :: "kern \<Rightarrow> bool" where
  "anyhigher k = (case k_up k of
       None \<Rightarrow> False
     | Some up \<Rightarrow> k_runvec k AND NOT (push_bit (unat (p_priority (k_procs k up)) + 1) 1 - 1) \<noteq> 0)"

text \<open>\<open>canpage\<close>: a process that no processor is running may be paged out.\<close>

definition canpage :: "pid \<Rightarrow> kern \<Rightarrow> bool \<times> kern" where
  "canpage p k =
     (if p_cpu (k_procs k p) = None then (True, setp p (\<lambda>x. x\<lparr>p_newtlb := True\<rparr>) k) else (False, k))"

section \<open>Rebalancing\<close>

text \<open>One priority level: the code from the label \<open>another\<close> to the end of the loop body.\<close>

partial_function (option) rebalance_level :: "nat \<Rightarrow> kern \<Rightarrow> kern option" where
  "rebalance_level pri k =
     (case sq_head (k_runq k ! pri) of
        None \<Rightarrow> Some k
      | Some p \<Rightarrow>
          if p_lastcpu (k_procs k p) \<noteq> Some (k_cpuno k) then Some k
          else if of_nat pri = p_basepri (k_procs k p) then Some k
          else do {
            let k = updatecpu p k;
            npri \<leftarrow> reprioritize p k;
            if npri \<noteq> of_nat pri then do {
              (q, k) \<leftarrow> dequeueproc pri p k;
              let k = (case q of None \<Rightarrow> k | Some p \<Rightarrow> queueproc (unat npri) p k);
              rebalance_level pri k }
            else Some k })"

fun rebalance_levels :: "nat list \<Rightarrow> kern \<Rightarrow> kern option" where
  "rebalance_levels [] k = Some k"
| "rebalance_levels (pri # pris) k = do { k \<leftarrow> rebalance_level pri k; rebalance_levels pris k }"

definition rebalance :: "kern \<Rightarrow> kern option" where
  "rebalance k =
     (let t = k_ticks k in
      if t - k_balancetime k < 100 then Some k
      else rebalance_levels [0..<Npriq] (k\<lparr>k_balancetime := t\<rparr>))"

definition hzsched :: "kern \<Rightarrow> kern option" where
  "hzsched k = do {
     k \<leftarrow> (if k_cpuno k = 0 then rebalance k else Some k);
     case k_up k of
       None \<Rightarrow> None
     | Some up \<Rightarrow>
         if anyhigher k \<or> \<not> p_fixedpri (k_procs k up) \<and> k_ticks k > k_schedticks k \<and> anyready k
         then Some (setp up (\<lambda>x. x\<lparr>p_delaysched := p_delaysched x + 1\<rparr>) (k\<lparr>k_readied := None\<rparr>))
         else Some k }"

section \<open>Picking a process\<close>

text \<open>The scan of one queue in round \<open>i\<close>, and of the queues below \<open>n\<close> from the top.\<close>

definition affine :: "kern \<Rightarrow> nat \<Rightarrow> pid \<Rightarrow> bool" where
  "affine k i p \<longleftrightarrow> (let x = k_procs k p in
     p_lastcpu x = None \<or> p_lastcpu x = Some (k_cpuno k) \<or> p_wired x = None \<and> i > 0)"

partial_function (option) scan_queue :: "kern \<Rightarrow> nat \<Rightarrow> pid option \<Rightarrow> pid option option" where
  "scan_queue k i p =
     (case p of
        None \<Rightarrow> Some None
      | Some q \<Rightarrow> if affine k i q then Some (Some q) else scan_queue k i (p_rnext (k_procs k q)))"

fun scan_runq :: "kern \<Rightarrow> nat \<Rightarrow> nat \<Rightarrow> (nat \<times> pid) option option" where
  "scan_runq k i 0 = Some None"
| "scan_runq k i (Suc n) = do {
     r \<leftarrow> scan_queue k i (sq_head (k_runq k ! n));
     case r of Some p \<Rightarrow> Some (Some (n, p)) | None \<Rightarrow> scan_runq k i n }"

text \<open>
  The loop of \<open>runproc\<close>. \<open>idle j\<close> is what the interrupts do to the state while the
  processor waits in \<^verbatim>\<open>arch_idlehands\<close> for the \<open>j\<close>-th time.
\<close>

definition found :: "nat \<Rightarrow> pid \<Rightarrow> kern \<Rightarrow> (pid option \<times> kern) option" where
  "found pri p k = do {
     (q, k) \<leftarrow> dequeueproc pri p k;
     case q of
       None \<Rightarrow> Some (None, k)
     | Some p \<Rightarrow>
         let k = setp p (\<lambda>x. x\<lparr>p_state := Scheding\<rparr>) k
         in Some (Some p, setp p (\<lambda>x. x\<lparr>p_lastcpu := Some (k_cpuno k)\<rparr>) k) }"

partial_function (option) runproc_loop ::
  "(nat \<Rightarrow> kern \<Rightarrow> kern) \<Rightarrow> nat \<Rightarrow> nat \<Rightarrow> kern \<Rightarrow> (pid \<times> kern) option" where
  "runproc_loop idle i j k = do {
     r \<leftarrow> scan_runq k i Nrq;
     case r of
       None \<Rightarrow> runproc_loop idle (i + 1) (j + 1) (idle j k)
     | Some (pri, p) \<Rightarrow> do {
         (q, k) \<leftarrow> found pri p k;
         case q of None \<Rightarrow> runproc_loop idle 0 j k | Some p \<Rightarrow> Some (p, k) } }"

definition runproc :: "(nat \<Rightarrow> kern \<Rightarrow> kern) \<Rightarrow> kern \<Rightarrow> (pid \<times> kern) option" where
  "runproc idle k =
     (let slow = runproc_loop idle 0 0 in
      case k_readied k of
        Some p \<Rightarrow>
          let x = k_procs k p in
          if p_cpu x = None \<and> p_state x = Ready \<and> (p_wired x = None \<or> p_wired x = Some (k_cpuno k))
             \<and> sq_head (k_runq k ! (Nrq - 1)) = None \<and> sq_head (k_runq k ! (Nrq - 2)) = None
          then do {
            (q, k) \<leftarrow> found (unat (p_priority x)) p (k\<lparr>k_skipscheds := k_skipscheds k + 1\<rparr>);
            case q of None \<Rightarrow> slow k | Some p \<Rightarrow> Some (p, k) }
          else slow (k\<lparr>k_preempts := k_preempts k + 1\<rparr>)
      | None \<Rightarrow> slow (k\<lparr>k_preempts := k_preempts k + 1\<rparr>))"

text \<open>The second half of \<open>sched\<close> (no current process), up to the switch to the process.\<close>

definition sched_pick :: "(nat \<Rightarrow> kern \<Rightarrow> kern) \<Rightarrow> kern \<Rightarrow> kern option" where
  "sched_pick idle k = do {
     (p, k) \<leftarrow> runproc idle k;
     let k = updatecpu p k;
     pri \<leftarrow> reprioritize p k;
     let k = setp p (\<lambda>x. x\<lparr>p_priority := pri\<rparr>) k;
     let k = (if k_readied k = Some p then k else k\<lparr>k_schedticks := k_ticks k + 10\<rparr>);
     let k = k\<lparr>k_readied := None, k_up := Some p\<rparr>;
     Some (setp p (\<lambda>x. x\<lparr>p_state := Running, p_cpu := Some (k_cpuno k)\<rparr>) k) }"

text \<open>\<open>schedinit\<close>: what happens to the process that gives up the processor.\<close>

definition schedinit :: "kern \<Rightarrow> kern option" where
  "schedinit k = (case k_up k of
       None \<Rightarrow> Some k
     | Some up \<Rightarrow> do {
         k \<leftarrow> (case p_state (k_procs k up) of
               Moribund \<Rightarrow>
                 let k = setp up (\<lambda>x. x\<lparr>p_state := Dead\<rparr>) k;
                     k = setp up (\<lambda>x. x\<lparr>p_qnext := k_procfree k\<rparr>) k
                 in Some (k\<lparr>k_procfree := Some up\<rparr>)
             | Running \<Rightarrow> proc_ready up k
             | _ \<Rightarrow> Some k);
         let k = setp up (\<lambda>x. x\<lparr>p_cpu := None\<rparr>) k;
         let k = updatecpu up k;
         Some (k\<lparr>k_up := None\<rparr>) })"

section \<open>Switching processes\<close>

text \<open>
  \<open>proc_sched\<close>. The current process may be allowed to go on because it holds spin locks; if not, its
  context is saved, the processor runs \<open>schedinit\<close>, which calls \<open>proc_sched\<close> again without a
  current process. The resulting state is that in which the chosen process goes on: \<open>k_up\<close> is
  the process that runs, and the call has returned to its caller when this is the caller.
\<close>

definition delay_sched :: "pid \<Rightarrow> kern \<Rightarrow> bool" where
  "delay_sched up k \<longleftrightarrow> (let x = k_procs k up in
     p_nlocks x \<noteq> 0 \<and> p_state x \<noteq> Moribund \<and>
     (p_delaysched x < 20 \<or> k_pallocp k = Some up \<or> k_procallocp k = Some up))"

definition proc_sched :: "(nat \<Rightarrow> kern \<Rightarrow> kern) \<Rightarrow> kern \<Rightarrow> kern option" where
  "proc_sched idle k = (case k_up k of
       None \<Rightarrow> sched_pick idle k
     | Some up \<Rightarrow>
         if delay_sched up k then
           Some (setp up (\<lambda>x. x\<lparr>p_delaysched := p_delaysched x + 1\<rparr>) k
                  \<lparr>k_delayedscheds := k_delayedscheds k + 1\<rparr>)
         else do {
           let k = setp up (\<lambda>x. x\<lparr>p_delaysched := 0\<rparr>) k;
           let k = k\<lparr>k_cs := k_cs k + 1\<rparr>;
           k \<leftarrow> schedinit k;
           sched_pick idle k })"

definition yield :: "(nat \<Rightarrow> kern \<Rightarrow> kern) \<Rightarrow> kern \<Rightarrow> kern option" where
  "yield idle k =
     (if anyready k then
        case k_up k of
          None \<Rightarrow> None
        | Some up \<Rightarrow> proc_sched idle (setp up (\<lambda>x. x\<lparr>p_lastupdate := p_lastupdate x - 1\<rparr>) k)
      else Some k)"

text \<open>\<open>preempt\<close> up to its call of \<open>sched\<close>, and what the preempted process does when it resumes.\<close>

definition preempt :: "(nat \<Rightarrow> kern \<Rightarrow> kern) \<Rightarrow> kern \<Rightarrow> kern option" where
  "preempt idle k = (case k_up k of
       None \<Rightarrow> Some k
     | Some up \<Rightarrow>
         if p_state (k_procs k up) = Running \<and> \<not> p_preempted (k_procs k up) \<and> anyhigher k
            \<and> \<not> k_exiting k
         then proc_sched idle (setp up (\<lambda>x. x\<lparr>p_preempted := True\<rparr>) (k\<lparr>k_readied := None\<rparr>))
         else Some k)"

definition preempt_resume :: "kern \<Rightarrow> kern" where
  "preempt_resume k = (case k_up k of
       None \<Rightarrow> k
     | Some up \<Rightarrow> setp up (\<lambda>x. x\<lparr>p_preempted := False\<rparr>) k)"

section \<open>Sleeping and waking up\<close>

text \<open>
  The end of \<open>proc_sleep\<close>, when the process is running again: \<open>True\<close> is the error \<^verbatim>\<open>Eintr\<close>.
  \<open>proc_sleep\<close> returns \<open>Some\<close> of that where it does not sleep, and \<open>None\<close> where the process
  sleeps and another one runs; the caller goes on with \<open>sleep_resume\<close> when it is picked again.
\<close>

definition sleep_resume :: "pid \<Rightarrow> kern \<Rightarrow> bool \<times> kern" where
  "sleep_resume up k =
     (if p_notepending (k_procs k up) then (True, setp up (\<lambda>x. x\<lparr>p_notepending := False\<rparr>) k)
      else (False, k))"

definition proc_sleep ::
  "(nat \<Rightarrow> kern \<Rightarrow> kern) \<Rightarrow> nat \<Rightarrow> (kern \<Rightarrow> bool) \<Rightarrow> kern \<Rightarrow> (bool option \<times> kern) option" where
  "proc_sleep idle r f k = (case k_up k of
       None \<Rightarrow> None
     | Some up \<Rightarrow>
         let k = k\<lparr>k_rendez := (k_rendez k)(r := Some up)\<rparr> in
         if f k \<or> p_notepending (k_procs k up) then
           let k = k\<lparr>k_rendez := (k_rendez k)(r := None)\<rparr>;
               (e, k) = sleep_resume up k
           in Some (Some e, k)
         else do {
           let k = setp up (\<lambda>x. x\<lparr>p_state := Wakeme\<rparr>) k;
           let k = setp up (\<lambda>x. x\<lparr>p_r := Some r\<rparr>) k;
           let k = k\<lparr>k_cs := k_cs k + 1\<rparr>;
           k \<leftarrow> schedinit k;
           k \<leftarrow> sched_pick idle k;
           Some (None, k) })"

definition proc_wakeup :: "nat \<Rightarrow> kern \<Rightarrow> (pid option \<times> kern) option" where
  "proc_wakeup r k = (case k_rendez k r of
       None \<Rightarrow> Some (None, k)
     | Some p \<Rightarrow>
         if p_state (k_procs k p) \<noteq> Wakeme \<or> p_r (k_procs k p) \<noteq> Some r then None
         else do {
           let k = k\<lparr>k_rendez := (k_rendez k)(r := None)\<rparr>;
           let k = setp p (\<lambda>x. x\<lparr>p_r := None\<rparr>) k;
           k \<leftarrow> proc_ready p k;
           Some (Some p, k) })"

end
