(* ===== verification/Sched_Inv.thy ===== *)
theory Sched_Inv
  imports Sched
begin

text \<open>
  The abstraction of the run queues to lists of processes, one per priority, and the
  lemmas that every scheduler operation acts on these lists as intended and keeps
  \<^verbatim>\<open>runvec\<close>, \<^verbatim>\<open>nrdy\<close> and the queue lengths consistent with them.
\<close>

section \<open>Representation\<close>

definition rnexts :: "kern \<Rightarrow> pid \<Rightarrow> pid option" where
  "rnexts k = (\<lambda>q. p_rnext (k_procs k q))"

definition rq_rep :: "kern \<Rightarrow> nat \<Rightarrow> pid list \<Rightarrow> bool" where
  "rq_rep k i xs \<longleftrightarrow> queue_rep (rnexts k, sq_head (k_runq k ! i), sq_tail (k_runq k ! i)) xs
     \<and> sq_n (k_runq k ! i) = int (length xs)"

definition disjoint_queues :: "pid list list \<Rightarrow> bool" where
  "disjoint_queues qs \<longleftrightarrow> (\<forall>i < length qs. \<forall>j < length qs. i \<noteq> j \<longrightarrow> set (qs ! i) \<inter> set (qs ! j) = {})"

definition runq_rep :: "kern \<Rightarrow> pid list list \<Rightarrow> bool" where
  "runq_rep k qs \<longleftrightarrow> length (k_runq k) = Nrq \<and> length qs = Nrq \<and> (\<forall>i < Nrq. rq_rep k i (qs ! i))
     \<and> disjoint_queues qs \<and> k_nrdy k = int (sum_list (map length qs))
     \<and> (\<forall>i. bit (k_runvec k) i \<longleftrightarrow> i < Nrq \<and> qs ! i \<noteq> [])"

definition queued :: "pid list list \<Rightarrow> pid set" where
  "queued qs = \<Union> (set (map set qs))"

lemma setp_simps [simp]:
  "k_procs (setp p f k) = (k_procs k)(p := f (k_procs k p))" "k_up (setp p f k) = k_up k"
  "k_runq (setp p f k) = k_runq k" "k_nrdy (setp p f k) = k_nrdy k" "k_runvec (setp p f k) = k_runvec k"
  "k_runqbusy (setp p f k) = k_runqbusy k" "k_ncpu (setp p f k) = k_ncpu k" "k_load (setp p f k) = k_load k"
  "k_cpuno (setp p f k) = k_cpuno k" "k_ticks (setp p f k) = k_ticks k" "k_readied (setp p f k) = k_readied k"
  "k_rendez (setp p f k) = k_rendez k" "k_procfree (setp p f k) = k_procfree k" "k_cs (setp p f k) = k_cs k"
  "k_schedticks (setp p f k) = k_schedticks k" "k_exiting (setp p f k) = k_exiting k"
  by (simp_all add: setp_def)

lemma rq_rep_cong:
  assumes "rq_rep k i xs" and "k_runq k' ! i = k_runq k ! i" and "\<forall>x \<in> set xs. rnexts k' x = rnexts k x"
  shows "rq_rep k' i xs"
  using assms chain_cong [OF assms(3)] by (simp add: rq_rep_def queue_rep_def)

lemma sum_length_update:
  "i < length qs \<Longrightarrow> sum_list (map length (qs[i := xs])) + length (qs ! i) = sum_list (map length qs) + length xs"
proof (induction qs arbitrary: i)
  case (Cons q qs)
  then show ?case by (cases i) auto
qed simp

lemma disjoint_queues_update:
  assumes "disjoint_queues qs" and "\<And>j. j < length qs \<Longrightarrow> j \<noteq> i \<Longrightarrow> set xs \<inter> set (qs ! j) = {}"
  shows "disjoint_queues (qs[i := xs])"
  unfolding disjoint_queues_def
proof (intro allI impI)
  fix a b assume ab: "a < length (qs[i := xs])" "b < length (qs[i := xs])" "a \<noteq> b"
  have "set (qs ! a) \<inter> set (qs ! b) = {}" using assms(1) ab by (simp add: disjoint_queues_def)
  then show "set (qs[i := xs] ! a) \<inter> set (qs[i := xs] ! b) = {}"
    using assms(2) [of a] assms(2) [of b] ab by (cases "a = i"; cases "b = i") (simp_all add: Int_commute)
qed

lemma disjoint_queuesD:
  "disjoint_queues qs \<Longrightarrow> x \<in> set (qs ! i) \<Longrightarrow> i < length qs \<Longrightarrow> j < length qs \<Longrightarrow> i \<noteq> j \<Longrightarrow> x \<notin> set (qs ! j)"
  unfolding disjoint_queues_def by blast

lemma in_queued: "p \<in> queued qs \<longleftrightarrow> (\<exists>i < length qs. p \<in> set (qs ! i))"
  using in_set_conv_nth [of _ qs] by (auto simp: queued_def)

lemma rq_repD: "runq_rep k qs \<Longrightarrow> i < Nrq \<Longrightarrow> rq_rep k i (qs ! i)"
  by (simp add: runq_rep_def)

lemma rq_distinct: "runq_rep k qs \<Longrightarrow> i < Nrq \<Longrightarrow> distinct (qs ! i)"
  using rq_repD [of k qs i] by (simp add: rq_rep_def queue_rep_def)

lemma distinct_concat_nth:
  "(\<And>i. i < length qs \<Longrightarrow> distinct (qs ! i)) \<Longrightarrow> disjoint_queues qs \<Longrightarrow> distinct (concat qs)"
proof (induction qs)
  case (Cons q qs)
  have "distinct q" using Cons.prems(1) [of 0] by simp
  moreover have "distinct (concat qs)"
    using Cons.IH Cons.prems(1) [of "Suc _"] Cons.prems(2) unfolding disjoint_queues_def by fastforce
  moreover have "set q \<inter> set (concat qs) = {}"
  proof -
    have "x \<notin> set (qs ! i)" if "x \<in> set q" "i < length qs" for x i
      using disjoint_queuesD [OF Cons.prems(2), of x 0 "Suc i"] that by simp
    then show ?thesis by (fastforce simp: in_set_conv_nth)
  qed
  ultimately show ?case by simp
qed simp

lemma distinct_queues: "runq_rep k qs \<Longrightarrow> distinct (concat qs)"
  using rq_distinct [of k qs] by (intro distinct_concat_nth) (simp_all add: runq_rep_def)

text \<open>A change that leaves the queues alone.\<close>

lemma runq_rep_same:
  assumes "runq_rep k qs" and "k_runq k' = k_runq k" "k_nrdy k' = k_nrdy k" "k_runvec k' = k_runvec k"
    and "\<forall>p. rnexts k' p = rnexts k p"
  shows "runq_rep k' qs"
  using assms rq_rep_cong [of k _ _ k'] by (auto simp: runq_rep_def)

text \<open>A change of one queue.\<close>

lemma runq_rep_update:
  assumes r: "runq_rep k qs" and i: "i < Nrq" and xs: "rq_rep k' i xs"
    and rq: "length (k_runq k') = Nrq" "\<forall>j < Nrq. j \<noteq> i \<longrightarrow> k_runq k' ! j = k_runq k ! j"
    and nx: "\<forall>j < Nrq. j \<noteq> i \<longrightarrow> (\<forall>x \<in> set (qs ! j). rnexts k' x = rnexts k x)"
    and dj: "\<forall>j < Nrq. j \<noteq> i \<longrightarrow> set xs \<inter> set (qs ! j) = {}"
    and nr: "k_nrdy k' = k_nrdy k + int (length xs) - int (length (qs ! i))"
    and bv: "\<forall>j. bit (k_runvec k') j \<longleftrightarrow> (if j = i then xs \<noteq> [] else bit (k_runvec k) j)"
  shows "runq_rep k' (qs[i := xs])"
proof -
  have l: "length qs = Nrq" using r by (simp add: runq_rep_def)
  have "rq_rep k' j (qs[i := xs] ! j)" if "j < Nrq" for j
  proof (cases "j = i")
    case True
    then show ?thesis using xs i l by simp
  next
    case False
    then show ?thesis using rq_rep_cong [OF rq_repD [OF r that], of k'] rq(2) nx that by simp
  qed
  moreover have "disjoint_queues (qs[i := xs])"
    using r dj l by (intro disjoint_queues_update) (simp_all add: runq_rep_def)
  moreover have "k_nrdy k' = int (sum_list (map length (qs[i := xs])))"
    using sum_length_update [of i qs xs] i l r nr by (simp add: runq_rep_def)
  moreover have "bit (k_runvec k') j \<longleftrightarrow> j < Nrq \<and> qs[i := xs] ! j \<noteq> []" for j
    using bv r i l by (auto simp: runq_rep_def nth_list_update)
  ultimately show ?thesis using rq(1) l by (simp add: runq_rep_def)
qed

section \<open>queueproc\<close>

lemma bit_or_push: "i < 32 \<Longrightarrow> bit (v OR push_bit i (1 :: uint)) j \<longleftrightarrow> bit v j \<or> j = i"
  by (auto simp: bit_simps)

lemma bit_andnot_push: "i < 32 \<Longrightarrow> bit (v AND NOT (push_bit i (1 :: uint))) j \<longleftrightarrow> bit v j \<and> j \<noteq> i"
  using bit_imp_le_length [of v j] by (auto simp: bit_simps)

lemma queueproc_runq:
  assumes r: "runq_rep k qs" and i: "i < Nrq" and p: "p \<notin> queued qs"
  shows "runq_rep (queueproc i p k) (qs[i := qs ! i @ [p]])"
proof -
  let ?k = "queueproc i p k" and ?rq = "k_runq k ! i"
  have l: "length qs = Nrq" "length (k_runq k) = Nrq" using r by (auto simp: runq_rep_def)
  have rep: "rq_rep k i (qs ! i)" using rq_repD [OF r i] .
  have np: "p \<notin> set (qs ! j)" if "j < Nrq" for j using p that l by (auto simp: in_queued)
  have tail: "sq_tail ?rq = (if qs ! i = [] then None else Some (last (qs ! i)))"
    using rep by (simp add: rq_rep_def queue_rep_def)
  have tn: "sq_tail ?rq \<noteq> Some p" using tail np [OF i] last_in_set [of "qs ! i"] by auto
  have rqs: "k_runq ?k = (k_runq k)[i := ?rq\<lparr>sq_head := (if sq_tail ?rq = None then Some p else sq_head ?rq),
      sq_tail := Some p, sq_n := sq_n ?rq + 1\<rparr>]"
    by (simp add: queueproc_def Let_def split: option.split)
  have nx: "rnexts ?k = (case sq_tail ?rq of None \<Rightarrow> (rnexts k)(p := None)
      | Some t \<Rightarrow> (rnexts k)(t := Some p, p := None))"
    using tn by (auto simp: queueproc_def Let_def rnexts_def fun_eq_iff split: option.split)
  have "(rnexts ?k, sq_head (k_runq ?k ! i), sq_tail (k_runq ?k ! i))
      = add_queue p (rnexts k, sq_head ?rq, sq_tail ?rq)"
    using i l by (auto simp: nx rqs add_queue_def split: option.split)
  then have xs: "rq_rep ?k i (qs ! i @ [p])"
    using waitq.rep_enq [of _ "qs ! i" p] rep np [OF i] i l by (simp add: rq_rep_def rqs)
  have dq: "disjoint_queues qs" using r by (simp add: runq_rep_def)
  have t: "t \<notin> set (qs ! j)" if "sq_tail ?rq = Some t" "j < Nrq" "j \<noteq> i" for t j
  proof -
    have "t \<in> set (qs ! i)" using that(1) tail by (auto split: if_splits)
    then show ?thesis using disjoint_queuesD [OF dq] i l that by simp
  qed
  show ?thesis
  proof (rule runq_rep_update [OF r i xs])
    show "\<forall>j < Nrq. j \<noteq> i \<longrightarrow> (\<forall>x \<in> set (qs ! j). rnexts ?k x = rnexts k x)"
      using np t by (auto simp: nx split: option.split)
    show "\<forall>j < Nrq. j \<noteq> i \<longrightarrow> set (qs ! i @ [p]) \<inter> set (qs ! j) = {}"
      using np disjoint_queuesD [OF dq] i l by auto
    show "\<forall>j. bit (k_runvec ?k) j \<longleftrightarrow> (if j = i then qs ! i @ [p] \<noteq> [] else bit (k_runvec k) j)"
      using i bit_or_push [of i "k_runvec k"] by (simp add: queueproc_def Let_def split: option.split)
  qed (use l i in \<open>simp_all add: rqs queueproc_def Let_def split: option.split\<close>)
qed

section \<open>What the scheduler leaves alone\<close>

definition proc_core :: "proc \<Rightarrow> proc" where
  "proc_core x = x\<lparr>p_state := Dead, p_rnext := None, p_priority := 0, p_lastupdate := 0, p_cpuavg := 0\<rparr>"

definition kern_core :: "kern \<Rightarrow> kern" where
  "kern_core k = k\<lparr>k_procs := \<lambda>p. proc_core (k_procs k p), k_runq := [], k_nrdy := 0, k_runvec := 0, k_readied := None\<rparr>"

definition states :: "kern \<Rightarrow> pid \<Rightarrow> procstate" where
  "states k = (\<lambda>p. p_state (k_procs k p))"

lemma kern_core_fields:
  assumes "kern_core k' = kern_core k"
  shows "k_up k' = k_up k" "k_runqbusy k' = k_runqbusy k" "k_cpuno k' = k_cpuno k" "k_rendez k' = k_rendez k"
    "k_procfree k' = k_procfree k"
  using arg_cong [OF assms, of k_up] arg_cong [OF assms, of k_runqbusy] arg_cong [OF assms, of k_cpuno]
    arg_cong [OF assms, of k_rendez] arg_cong [OF assms, of k_procfree]
  by (simp_all add: kern_core_def)

lemma kern_core_procs:
  assumes "kern_core k' = kern_core k"
  shows "p_cpu (k_procs k' p) = p_cpu (k_procs k p)" "p_r (k_procs k' p) = p_r (k_procs k p)"
    "p_basepri (k_procs k' p) = p_basepri (k_procs k p)" "p_wired (k_procs k' p) = p_wired (k_procs k p)"
    "p_lastcpu (k_procs k' p) = p_lastcpu (k_procs k p)" "p_qnext (k_procs k' p) = p_qnext (k_procs k p)"
    "p_notepending (k_procs k' p) = p_notepending (k_procs k p)" "p_nlocks (k_procs k' p) = p_nlocks (k_procs k p)"
proof -
  have c: "proc_core (k_procs k' p) = proc_core (k_procs k p)"
    using arg_cong [OF assms, of "\<lambda>k. k_procs k p"] by (simp add: kern_core_def)
  show "p_cpu (k_procs k' p) = p_cpu (k_procs k p)" using arg_cong [OF c, of p_cpu] by (simp add: proc_core_def)
  show "p_r (k_procs k' p) = p_r (k_procs k p)" using arg_cong [OF c, of p_r] by (simp add: proc_core_def)
  show "p_basepri (k_procs k' p) = p_basepri (k_procs k p)" using arg_cong [OF c, of p_basepri] by (simp add: proc_core_def)
  show "p_wired (k_procs k' p) = p_wired (k_procs k p)" using arg_cong [OF c, of p_wired] by (simp add: proc_core_def)
  show "p_lastcpu (k_procs k' p) = p_lastcpu (k_procs k p)" using arg_cong [OF c, of p_lastcpu] by (simp add: proc_core_def)
  show "p_qnext (k_procs k' p) = p_qnext (k_procs k p)" using arg_cong [OF c, of p_qnext] by (simp add: proc_core_def)
  show "p_notepending (k_procs k' p) = p_notepending (k_procs k p)"
    using arg_cong [OF c, of p_notepending] by (simp add: proc_core_def)
  show "p_nlocks (k_procs k' p) = p_nlocks (k_procs k p)" using arg_cong [OF c, of p_nlocks] by (simp add: proc_core_def)
qed

lemmas kern_coreD = kern_core_fields kern_core_procs

lemma kern_core_setp:
  assumes "\<And>x. proc_core (f x) = proc_core x"
  shows "kern_core (setp p f k) = kern_core k"
proof -
  have "(\<lambda>q. proc_core (((k_procs k)(p := f (k_procs k p))) q)) = (\<lambda>q. proc_core (k_procs k q))"
    using assms by (auto simp: fun_eq_iff)
  then show ?thesis by (simp add: kern_core_def setp_def)
qed

lemma proc_core_updates [simp]:
  "proc_core (x\<lparr>p_state := s\<rparr>) = proc_core x" "proc_core (x\<lparr>p_rnext := n\<rparr>) = proc_core x"
  "proc_core (x\<lparr>p_priority := i\<rparr>) = proc_core x" "proc_core (x\<lparr>p_lastupdate := t\<rparr>) = proc_core x"
  "proc_core (x\<lparr>p_cpuavg := t\<rparr>) = proc_core x"
  by (simp_all add: proc_core_def)

lemma kern_core_updates [simp]:
  "kern_core (k\<lparr>k_runq := q\<rparr>) = kern_core k" "kern_core (k\<lparr>k_nrdy := n\<rparr>) = kern_core k"
  "kern_core (k\<lparr>k_runvec := v\<rparr>) = kern_core k" "kern_core (k\<lparr>k_readied := r\<rparr>) = kern_core k"
  by (simp_all add: kern_core_def)

lemma kern_core_queueproc: "kern_core (queueproc i p k) = kern_core k"
  by (simp add: queueproc_def Let_def kern_core_setp split: option.split)

definition prios :: "kern \<Rightarrow> pid \<Rightarrow> uint" where
  "prios k = (\<lambda>p. p_priority (k_procs k p))"

lemma prios_queueproc: "prios (queueproc i p k) = (prios k)(p := of_nat i)"
  by (auto simp: prios_def fun_eq_iff queueproc_def Let_def split: option.split)

lemma states_queueproc: "states (queueproc i p k) = states k"
  by (auto simp: states_def fun_eq_iff queueproc_def Let_def split: option.split)

lemma updatecpu_core: "kern_core (updatecpu p k) = kern_core k"
  by (simp add: updatecpu_def Let_def kern_core_setp)

lemma updatecpu_runq:
  "k_runq (updatecpu p k) = k_runq k" "k_nrdy (updatecpu p k) = k_nrdy k" "k_runvec (updatecpu p k) = k_runvec k"
  "rnexts (updatecpu p k) = rnexts k" "states (updatecpu p k) = states k" "k_readied (updatecpu p k) = k_readied k"
  "k_ticks (updatecpu p k) = k_ticks k" "k_load (updatecpu p k) = k_load k" "prios (updatecpu p k) = prios k"
  by (simp_all add: updatecpu_def Let_def rnexts_def states_def prios_def fun_eq_iff)

section \<open>Priorities\<close>

text \<open>
  The panic of \<open>reprioritize\<close> is unreachable: a negative ratio is, as an unsigned number,
  greater than the base priority and replaced by it.
\<close>

lemma reprioritize_le:
  assumes "p_basepri (k_procs k p) < 0x80000000"
  shows "\<exists>r. reprioritize p k = Some r \<and> r \<le> p_basepri (k_procs k p)"
proof -
  have pos: "0 \<le> sint b" if "b \<le> p_basepri (k_procs k p)" for b
  proof -
    have "uint b < 2 ^ 31" using assms that by (simp add: word_less_alt word_le_def)
    then show ?thesis by (simp add: sint_uint signed_take_bit_int_eq_self order_trans [of _ 0])
  qed
  have w: "word_of_int (sint b) = b" for b :: uint by simp
  have r: "\<exists>r. (let ratio = (if word_of_int x > p_basepri (k_procs k p) then sint (p_basepri (k_procs k p)) else x)
      in if ratio < 0 then None else Some (word_of_int ratio)) = Some r \<and> r \<le> p_basepri (k_procs k p)"
    if "x = s32 y" for x y
    using pos [of "p_basepri (k_procs k p)"] pos [of "word_of_int y"] that
    by (auto simp: Let_def s32_def not_less)
  show ?thesis
  proof (cases "k_load k = 0")
    case True
    then show ?thesis by (simp add: reprioritize_def)
  next
    case False
    then show ?thesis unfolding reprioritize_def Let_def by (simp only: if_False r [OF refl, unfolded Let_def])
  qed
qed

section \<open>dequeueproc\<close>

lemma findproc_chain:
  "chain n h (as @ p # bs) \<Longrightarrow> p \<notin> set as \<Longrightarrow>
    findproc n p l h = Some (if as = [] then l else Some (last as), Some p)"
proof (induction as arbitrary: h l)
  case Nil
  then show ?case by (simp add: findproc.simps)
next
  case (Cons a as)
  then show ?case by (subst findproc.simps) auto
qed

lemma findproc_absent:
  "chain n h xs \<Longrightarrow> p \<notin> set xs \<Longrightarrow> \<exists>l'. findproc n p l h = Some (l', None)"
proof (induction xs arbitrary: h l)
  case (Cons a xs)
  then show ?case by (subst findproc.simps) auto
qed (simp add: findproc.simps)

lemma queue_unlink:
  assumes "queue_rep (n, h, t) (as @ p # bs)"
  shows "queue_rep (if as = [] then n else n(last as := n p), if as = [] then n p else h,
      if n p = None then (if as = [] then None else Some (last as)) else t) (as @ bs)"
proof -
  have c: "chain n h (as @ p # bs)" "distinct (as @ p # bs)" "t = Some (last (p # bs))"
    using assms by (auto simp: queue_rep_def)
  have s: "chain n (n p) bs" using chain_suffix [OF c(1)] .
  then have "n p = None \<longleftrightarrow> bs = []" by (cases bs) auto
  then show ?thesis using c s chain_unlink [OF c(1,2)] by (auto simp: queue_rep_def)
qed

lemma remove1_split: "p \<notin> set as \<Longrightarrow> remove1 p (as @ p # bs) = as @ bs"
  by (simp add: remove1_append)

lemma dequeueproc_runq:
  assumes r: "runq_rep k qs" and i: "i < Nrq" and p: "p \<in> set (qs ! i)"
    and free: "\<not> k_runqbusy k" "p_cpu (k_procs k p) = None"
  shows "\<exists>k'. dequeueproc i p k = Some (Some p, k') \<and> runq_rep k' (qs[i := remove1 p (qs ! i)])
    \<and> kern_core k' = kern_core k \<and> states k' = states k \<and> prios k' = prios k \<and> k_readied k' = k_readied k
    \<and> k_ticks k' = k_ticks k \<and> k_load k' = k_load k"
proof -
  let ?rq = "k_runq k ! i"
  obtain as bs where ab: "qs ! i = as @ p # bs" "p \<notin> set as" using split_list_first [OF p] by auto
  have l: "length qs = Nrq" "length (k_runq k) = Nrq" using r by (auto simp: runq_rep_def)
  have rep: "queue_rep (rnexts k, sq_head ?rq, sq_tail ?rq) (as @ p # bs)"
    and n: "sq_n ?rq = int (length (as @ p # bs))"
    using rq_repD [OF r i] ab by (auto simp: rq_rep_def)
  have fp: "findproc (\<lambda>q. p_rnext (k_procs k q)) p None (sq_head ?rq)
      = Some (if as = [] then None else Some (last as), Some p)"
    using findproc_chain [OF _ ab(2), of "rnexts k" "sq_head ?rq" bs None] rep by (simp add: queue_rep_def rnexts_def)
  obtain k' where d: "dequeueproc i p k = Some (Some p, k')" using fp free by (cases "as = []") (auto simp: dequeueproc_def Let_def)
  let ?h = "if as = [] then rnexts k p else sq_head ?rq"
  let ?t = "if rnexts k p = None then (if as = [] then None else Some (last as)) else sq_tail ?rq"
  have rq: "k_runq k' = (k_runq k)[i := ?rq\<lparr>sq_tail := ?t, sq_head := ?h, sq_n := sq_n ?rq - 1\<rparr>]"
    using d fp free by (cases "as = []") (auto simp: dequeueproc_def Let_def rnexts_def split: if_splits)
  have nx: "rnexts k' = (if as = [] then rnexts k else (rnexts k)(last as := rnexts k p))"
    using d fp free by (cases "as = []") (auto simp: dequeueproc_def Let_def rnexts_def split: if_splits)
  have bv: "k_runvec k' = (if ?h = None then k_runvec k AND NOT (push_bit i 1) else k_runvec k)"
    using d fp free by (cases "as = []") (auto simp: dequeueproc_def Let_def rnexts_def split: if_splits)
  have core: "kern_core k' = kern_core k \<and> states k' = states k \<and> prios k' = prios k \<and> k_readied k' = k_readied k
      \<and> k_nrdy k' = k_nrdy k - 1 \<and> k_ticks k' = k_ticks k \<and> k_load k' = k_load k"
    using d fp free
    by (cases "as = []") (auto simp: dequeueproc_def Let_def kern_core_setp states_def prios_def fun_eq_iff split: if_splits)
  have un: "queue_rep (rnexts k', ?h, ?t) (as @ bs)" using queue_unlink [OF rep] nx by simp
  then have xs: "rq_rep k' i (as @ bs)" using n i l by (simp add: rq_rep_def rq)
  have hn: "?h = None \<longleftrightarrow> as @ bs = []" using un by (cases "as @ bs") (auto simp: queue_rep_def)
  have dq: "disjoint_queues qs" using r by (simp add: runq_rep_def)
  have "runq_rep k' (qs[i := as @ bs])"
  proof (rule runq_rep_update [OF r i xs])
    show "\<forall>j < Nrq. j \<noteq> i \<longrightarrow> (\<forall>x \<in> set (qs ! j). rnexts k' x = rnexts k x)"
    proof (intro allI impI ballI)
      fix j x assume j: "j < Nrq" "j \<noteq> i" "x \<in> set (qs ! j)"
      then have "x \<notin> set (qs ! i)" using disjoint_queuesD [OF dq, of x j i] i l by simp
      then show "rnexts k' x = rnexts k x" using ab last_in_set [of as] by (auto simp: nx)
    qed
    show "\<forall>j < Nrq. j \<noteq> i \<longrightarrow> set (as @ bs) \<inter> set (qs ! j) = {}"
      using disjoint_queuesD [OF dq, of _ i] ab(1) i l by auto
    show "\<forall>j. bit (k_runvec k') j \<longleftrightarrow> (if j = i then as @ bs \<noteq> [] else bit (k_runvec k) j)"
    proof
      fix j
      have "bit (k_runvec k) i" using r i ab by (simp add: runq_rep_def)
      then show "bit (k_runvec k') j \<longleftrightarrow> (if j = i then as @ bs \<noteq> [] else bit (k_runvec k) j)"
        unfolding bv hn using bit_andnot_push [of i "k_runvec k" j] i by auto
    qed
  qed (use l i core ab in \<open>simp_all add: rq\<close>)
  then show ?thesis using d core ab remove1_split [OF ab(2)] by auto
qed

lemma dequeueproc_absent:
  assumes r: "runq_rep k qs" and i: "i < Nrq" and p: "p \<notin> set (qs ! i)"
  shows "dequeueproc i p k = Some (None, k)"
proof -
  have "chain (rnexts k) (sq_head (k_runq k ! i)) (qs ! i)" using rq_repD [OF r i] by (simp add: rq_rep_def queue_rep_def)
  then show ?thesis
    using findproc_absent [OF _ p, of "rnexts k" "sq_head (k_runq k ! i)" None]
    by (auto simp: dequeueproc_def rnexts_def)
qed

end
