(* ===== verification/Sched_Ops.thy ===== *)
theory Sched_Ops
  imports Sched_Inv
begin

text \<open>
  Lemmas on the scheduler operations in terms of the abstract queues: making a process
  ready, choosing one, rebalancing, and giving up the processor.
\<close>

section \<open>The invariant of the queues and the process states\<close>

definition sched_ok :: "kern \<Rightarrow> pid list list \<Rightarrow> bool" where
  "sched_ok k qs \<longleftrightarrow> runq_rep k qs \<and> (\<forall>p. p \<in> queued qs \<longleftrightarrow> states k p = Ready)
     \<and> (\<forall>p. p_basepri (k_procs k p) < 20) \<and> (\<forall>p. prios k p < 22)"

lemma sched_okD:
  assumes "sched_ok k qs"
  shows "runq_rep k qs" "length qs = Nrq" "disjoint_queues qs" "p \<in> queued qs \<longleftrightarrow> states k p = Ready"
    "p_basepri (k_procs k p) < 20" "i < Nrq \<Longrightarrow> p \<in> set (qs ! i) \<Longrightarrow> states k p = Ready"
    "prios k p < 22"
proof -
  show len: "length qs = Nrq" using assms by (simp add: sched_ok_def runq_rep_def)
  show q: "p \<in> queued qs \<longleftrightarrow> states k p = Ready" using assms by (simp add: sched_ok_def)
  show "states k p = Ready" if "i < Nrq" "p \<in> set (qs ! i)"
    using q in_queued [of p qs] that len by auto
qed (use assms in \<open>simp_all add: sched_ok_def runq_rep_def\<close>)

lemma queued_enq:
  assumes "i < length qs"
  shows "queued (qs[i := qs ! i @ [p]]) = insert p (queued qs)"
proof -
  have "x \<in> queued (qs[i := qs ! i @ [p]]) \<longleftrightarrow> x \<in> insert p (queued qs)" for x
    unfolding in_queued insert_iff using assms by (auto simp: nth_list_update)
  then show ?thesis by blast
qed

lemma queued_deq:
  assumes "i < length qs" "disjoint_queues qs" "distinct (qs ! i)" "p \<in> set (qs ! i)"
  shows "queued (qs[i := remove1 p (qs ! i)]) = queued qs - {p}"
proof -
  have "p \<notin> set (qs ! j)" if "j < length qs" "j \<noteq> i" for j
    using disjoint_queuesD [OF assms(2,4,1) that(1)] that by simp
  then have "set (qs[i := remove1 p (qs ! i)] ! j) = set (qs ! j) - {p}" if "j < length qs" for j
    using assms(1,3) that by (cases "j = i") (simp_all add: set_remove1_eq)
  then have "x \<in> queued (qs[i := remove1 p (qs ! i)]) \<longleftrightarrow> x \<in> queued qs \<and> x \<noteq> p" for x
    unfolding in_queued by auto
  then show ?thesis by blast
qed

lemma runq_rep_core:
  assumes "runq_rep k qs" and "k_runq k' = k_runq k" "k_nrdy k' = k_nrdy k" "k_runvec k' = k_runvec k"
    and "rnexts k' = rnexts k"
  shows "runq_rep k' qs"
  using assms by (intro runq_rep_same [OF assms(1)]) simp_all

section \<open>ready\<close>

text \<open>Everything that \<open>proc_ready\<close> does before it queues the process.\<close>

definition primed :: "pid \<Rightarrow> uint \<Rightarrow> kern \<Rightarrow> kern" where
  "primed p pri k =
     (let wired = p_wired (k_procs k p);
          k = (if k_up k \<noteq> Some p \<and> (wired = None \<or> wired = Some (k_cpuno k))
               then k\<lparr>k_readied := Some p\<rparr> else k)
      in setp p (\<lambda>x. x\<lparr>p_state := Ready\<rparr>) (setp p (\<lambda>x. x\<lparr>p_priority := pri\<rparr>) (updatecpu p k)))"

lemma primed_same:
  "kern_core (primed p pri k) = kern_core k" "k_runq (primed p pri k) = k_runq k" "k_nrdy (primed p pri k) = k_nrdy k"
  "k_runvec (primed p pri k) = k_runvec k" "rnexts (primed p pri k) = rnexts k"
  "states (primed p pri k) = (states k)(p := Ready)" "prios (primed p pri k) = (prios k)(p := pri)"
proof -
  note u = updatecpu_core updatecpu_runq
  have r: "rnexts (setp p (\<lambda>x. x\<lparr>p_state := s\<rparr>) (setp p (\<lambda>x. x\<lparr>p_priority := pri\<rparr>) k)) = rnexts k" for s pri k
    by (simp add: rnexts_def fun_eq_iff)
  have s: "states (setp p (\<lambda>x. x\<lparr>p_state := Ready\<rparr>) (setp p (\<lambda>x. x\<lparr>p_priority := pri\<rparr>) k)) = (states k)(p := Ready)" for pri k
    by (simp add: states_def fun_eq_iff)
  have pr: "prios (setp p (\<lambda>x. x\<lparr>p_state := Ready\<rparr>) (setp p (\<lambda>x. x\<lparr>p_priority := pri\<rparr>) k)) = (prios k)(p := pri)" for pri k
    by (simp add: prios_def fun_eq_iff)
  show "prios (primed p pri k) = (prios k)(p := pri)" by (simp add: primed_def Let_def pr u) (simp add: prios_def)
  show "kern_core (primed p pri k) = kern_core k" by (simp add: primed_def Let_def kern_core_setp u)
  show "rnexts (primed p pri k) = rnexts k" by (simp add: primed_def Let_def r u) (simp add: rnexts_def)
  show "states (primed p pri k) = (states k)(p := Ready)" by (simp add: primed_def Let_def s u) (simp add: states_def)
qed (simp_all add: primed_def Let_def updatecpu_runq)

lemma proc_ready_primed:
  assumes "p_basepri (k_procs k p) < 20"
  shows "\<exists>pri \<le> p_basepri (k_procs k p). proc_ready p k = Some (queueproc (unat pri) p (primed p pri k))"
proof -
  let ?k = "updatecpu p (if k_up k \<noteq> Some p \<and> (p_wired (k_procs k p) = None \<or> p_wired (k_procs k p) = Some (k_cpuno k))
    then k\<lparr>k_readied := Some p\<rparr> else k)"
  have b: "p_basepri (k_procs ?k p) = p_basepri (k_procs k p)"
    by (intro kern_coreD(8)) (simp add: updatecpu_core)
  have "p_basepri (k_procs ?k p) < 0x80000000" using assms unfolding b by (rule less_trans) simp
  then obtain pri where "reprioritize p ?k = Some pri" "pri \<le> p_basepri (k_procs k p)"
    using reprioritize_le [of ?k p] b by auto
  then show ?thesis by (intro exI [of _ pri]) (simp add: proc_ready_def primed_def Let_def)
qed

lemma proc_ready_ok:
  assumes ok: "sched_ok k qs" and p: "states k p \<noteq> Ready"
  obtains k' i where "proc_ready p k = Some k'" "i < Npriq" "sched_ok k' (qs[i := qs ! i @ [p]])"
    "kern_core k' = kern_core k" "states k' = (states k)(p := Ready)"
proof -
  note ok' = sched_okD [OF ok]
  obtain pri where pri: "pri \<le> p_basepri (k_procs k p)"
    and eq: "proc_ready p k = Some (queueproc (unat pri) p (primed p pri k))"
    using proc_ready_primed [of k p] ok'(5) by blast
  have "pri < 20" using pri ok'(5) [of p] by (rule le_less_trans)
  then have i: "unat pri < 20" by (simp add: word_less_nat_alt)
  let ?k = "primed p pri k" and ?qs = "qs[unat pri := qs ! unat pri @ [p]]"
  have "runq_rep ?k qs" using ok'(1) primed_same(2-5) by (rule runq_rep_core)
  moreover have "p \<notin> queued qs" using p ok'(4) by simp
  ultimately have r: "runq_rep (queueproc (unat pri) p ?k) ?qs" using i by (intro queueproc_runq) auto
  have st: "states (queueproc (unat pri) p ?k) = (states k)(p := Ready)" by (simp add: states_queueproc primed_same)
  have co: "kern_core (queueproc (unat pri) p ?k) = kern_core k" by (simp add: kern_core_queueproc primed_same)
  have "sched_ok (queueproc (unat pri) p ?k) ?qs"
    using r ok'(4,5,7) i ok'(2) \<open>pri < 20\<close> less_trans [of pri 20 22] unfolding sched_ok_def st kern_coreD [OF co]
    by (simp add: queued_enq prios_queueproc primed_same)
  then show ?thesis using that eq i co st by blast
qed

section \<open>Taking a process\<close>

lemma found_ok:
  assumes ok: "sched_ok k qs" and i: "i < Nrq" and p: "p \<in> set (qs ! i)"
    and free: "\<not> k_runqbusy k" "p_cpu (k_procs k p) = None"
  obtains k' where "found i p k = Some (Some p, k')" "sched_ok k' (qs[i := remove1 p (qs ! i)])"
    "kern_core k' = kern_core (setp p (\<lambda>x. x\<lparr>p_lastcpu := Some (k_cpuno k)\<rparr>) k)"
    "states k' = (states k)(p := Scheding)" "k_readied k' = k_readied k"
proof -
  note ok' = sched_okD [OF ok]
  obtain k1 where d: "dequeueproc i p k = Some (Some p, k1)" and r: "runq_rep k1 (qs[i := remove1 p (qs ! i)])"
    and co: "kern_core k1 = kern_core k" and st: "states k1 = states k" and pr: "prios k1 = prios k" and rd: "k_readied k1 = k_readied k"
    using dequeueproc_runq [OF ok'(1) i p free] by blast
  let ?k = "setp p (\<lambda>x. x\<lparr>p_lastcpu := Some (k_cpuno k1)\<rparr>) (setp p (\<lambda>x. x\<lparr>p_state := Scheding\<rparr>) k1)"
  have f: "found i p k = Some (Some p, ?k)" using d by (simp add: found_def)
  have s: "states ?k = (states k)(p := Scheding)" using st by (auto simp: states_def fun_eq_iff)
  have prr: "prios ?k = prios k" using pr by (auto simp: prios_def fun_eq_iff)
  have rr: "runq_rep ?k (qs[i := remove1 p (qs ! i)])"
    using r by (rule runq_rep_core) (simp_all add: rnexts_def fun_eq_iff)
  have c: "kern_core (setp p (\<lambda>x. x\<lparr>p_lastcpu := a\<rparr>) k) = setp p (\<lambda>x. x\<lparr>p_lastcpu := a\<rparr>) (kern_core k)" for k a
    by (simp add: kern_core_def setp_def fun_eq_iff proc_core_def)
  have "kern_core ?k = kern_core (setp p (\<lambda>x. x\<lparr>p_lastcpu := Some (k_cpuno k)\<rparr>) k)"
    by (simp add: c kern_core_setp co kern_coreD(3) [OF co])
  moreover have "sched_ok ?k (qs[i := remove1 p (qs ! i)])"
    using ok' rr i p rq_distinct [OF ok'(1) i] kern_coreD(8) [OF co] unfolding sched_ok_def s prr
    by (simp add: queued_deq)
  ultimately show ?thesis using that f s rd by simp
qed

lemma found_absent:
  assumes "sched_ok k qs" "i < Nrq" "p \<notin> set (qs ! i)"
  shows "found i p k = Some (None, k)"
  using dequeueproc_absent [OF sched_okD(1) [OF assms(1)] assms(2,3)] by (simp add: found_def)

section \<open>Rebalancing\<close>

text \<open>Moving a process to another queue keeps it ready.\<close>

lemma requeue_ok:
  assumes ok: "sched_ok k qs" and i: "i < Nrq" "j < Nrq" and p: "p \<in> set (qs ! i)"
    and free: "\<not> k_runqbusy k" "p_cpu (k_procs k p) = None"
  obtains k' where "dequeueproc i p k = Some (Some p, k')"
    "sched_ok (queueproc j p k') (let qs = qs[i := remove1 p (qs ! i)] in qs[j := qs ! j @ [p]])"
    "kern_core (queueproc j p k') = kern_core k" "states (queueproc j p k') = states k"
proof -
  note ok' = sched_okD [OF ok]
  let ?qs = "qs[i := remove1 p (qs ! i)]"
  obtain k' where d: "dequeueproc i p k = Some (Some p, k')" and r: "runq_rep k' ?qs"
    and co: "kern_core k' = kern_core k" and st: "states k' = states k" and pr: "prios k' = prios k"
    using dequeueproc_runq [OF ok'(1) i(1) p free] by blast
  have j: "(of_nat j :: uint) < 22" using i(2) by (simp add: word_less_nat_alt unat_of_nat_small)
  have q: "queued ?qs = queued qs - {p}" using ok' i p rq_distinct [OF ok'(1) i(1)] by (simp add: queued_deq)
  have "runq_rep (queueproc j p k') (?qs[j := ?qs ! j @ [p]])" using queueproc_runq [OF r i(2)] q by simp
  moreover have "states k p = Ready" using ok'(6) [OF i(1) p] .
  ultimately have "sched_ok (queueproc j p k') (?qs[j := ?qs ! j @ [p]])"
    using ok'(2,4,5,7) i j kern_coreD(8) [OF kern_core_queueproc] kern_coreD(8) [OF co]
    by (auto simp: sched_ok_def states_queueproc st queued_enq q prios_queueproc pr)
  then show ?thesis using that d co st by (simp add: Let_def kern_core_queueproc states_queueproc)
qed

lemma sched_ok_updatecpu: "sched_ok k qs \<Longrightarrow> sched_ok (updatecpu p k) qs"
  using runq_rep_core [OF _ updatecpu_runq(1-4), of k qs p] kern_coreD(8) [OF updatecpu_core [of p k]]
  by (simp add: sched_ok_def updatecpu_runq)

lemma rebalance_level_ok:
  assumes "sched_ok k qs" and "pri < Npriq" and "\<not> k_runqbusy k"
    and "\<forall>p. states k p = Ready \<longrightarrow> p_cpu (k_procs k p) = None"
  shows "\<exists>k' qs'. rebalance_level pri k = Some k' \<and> sched_ok k' qs' \<and> kern_core k' = kern_core k \<and> states k' = states k"
  using assms
proof (induction "length (qs ! pri)" arbitrary: k qs)
  case 0
  have "rq_rep k pri (qs ! pri)" using rq_repD [OF sched_okD(1) [OF 0(2)]] 0(3) by simp
  then have "sq_head (k_runq k ! pri) = None" using 0(1) by (simp add: rq_rep_def queue_rep_def)
  then show ?case using 0(2) by (subst rebalance_level.simps) auto
next
  case (Suc n)
  note ok' = sched_okD [OF Suc.prems(1)]
  obtain p ps where q: "qs ! pri = p # ps" using Suc.hyps(2) by (cases "qs ! pri") auto
  have "rq_rep k pri (qs ! pri)" using rq_repD [OF ok'(1)] Suc.prems(2) by simp
  then have h: "sq_head (k_runq k ! pri) = Some p" using q by (simp add: rq_rep_def queue_rep_def)
  let ?k = "updatecpu p k"
  have ku: "sched_ok ?k qs" "kern_core ?k = kern_core k" "states ?k = states k"
    using sched_ok_updatecpu [OF Suc.prems(1)] by (simp_all add: updatecpu_core updatecpu_runq)
  note uf = kern_coreD [OF ku(2)]
  have pi: "pri < Nrq" "p \<in> set (qs ! pri)" using Suc.prems(2) q by auto
  have rdy: "states k p = Ready" using ok'(6) [OF pi] .
  obtain npri where np: "reprioritize p ?k = Some npri" "npri \<le> p_basepri (k_procs k p)"
    using reprioritize_le [of ?k p] uf(8) ok'(5) [of p] less_trans [of _ 20 "0x80000000 :: uint"] by auto
  have "npri < 20" using np(2) ok'(5) [of p] by (rule le_less_trans)
  then have n: "unat npri < 20" by (simp add: word_less_nat_alt)
  show ?case
  proof (cases "p_lastcpu (k_procs k p) \<noteq> Some (k_cpuno k) \<or> of_nat pri = p_basepri (k_procs k p)")
    case True
    then show ?thesis using h Suc.prems(1) by (subst rebalance_level.simps) auto
  next
    case stay: False
    show ?thesis
    proof (cases "npri = of_nat pri")
      case True
      then show ?thesis using h stay np ku by (subst rebalance_level.simps) (auto simp: Let_def)
    next
      case False
      have ne: "unat npri \<noteq> pri" using False by auto
      obtain k1 where d: "dequeueproc pri p ?k = Some (Some p, k1)"
        and ok1: "sched_ok (queueproc (unat npri) p k1)
          (let qs = qs[pri := remove1 p (qs ! pri)] in qs[unat npri := qs ! unat npri @ [p]])"
        and co1: "kern_core (queueproc (unat npri) p k1) = kern_core k"
        and st1: "states (queueproc (unat npri) p k1) = states k"
        using requeue_ok [OF ku(1) pi(1) _ pi(2), of "unat npri"] n rdy Suc.prems(3,4) uf ku by auto
      have step: "rebalance_level pri k = rebalance_level pri (queueproc (unat npri) p k1)"
        using h stay np d False by (subst rebalance_level.simps) (auto simp: Let_def)
      let ?qs = "qs[pri := remove1 p (qs ! pri), unat npri := qs[pri := remove1 p (qs ! pri)] ! unat npri @ [p]]"
      have len: "n = length (?qs ! pri)" using Suc.hyps(2) q ne pi(1) ok'(2) by simp
      show ?thesis unfolding step
        using Suc.hyps(1) [OF len _ Suc.prems(2), of "queueproc (unat npri) p k1"] ok1 Suc.prems(3,4) kern_coreD [OF co1]
        by (simp add: Let_def st1 co1)
    qed
  qed
qed

lemma rebalance_levels_ok:
  assumes "sched_ok k qs" and "set pris \<subseteq> {..<Npriq}" and "\<not> k_runqbusy k"
    and "\<forall>p. states k p = Ready \<longrightarrow> p_cpu (k_procs k p) = None"
  shows "\<exists>k' qs'. rebalance_levels pris k = Some k' \<and> sched_ok k' qs' \<and> kern_core k' = kern_core k \<and> states k' = states k"
  using assms
proof (induction pris arbitrary: k qs)
  case (Cons pri pris)
  then obtain k1 qs1 where 1: "rebalance_level pri k = Some k1" "sched_ok k1 qs1" "kern_core k1 = kern_core k" "states k1 = states k"
    using rebalance_level_ok [OF Cons.prems(1), of pri] by auto
  then show ?case using Cons.IH [OF 1(2)] Cons.prems kern_coreD [OF 1(3)] by (simp add: 1)
qed auto

end
