(* ===== verification/Sched_Pick.thy ===== *)
theory Sched_Pick
  imports Sched_Ops
begin

text \<open>
  Choosing the next process and switching to it: the scan of the run queues, the loop of
  \<open>runproc\<close> with the interrupts that arrive while the processor is idle, and the whole
  of \<open>proc_sched\<close>, with the invariant of the kernel state that all of them keep.
\<close>

section \<open>Scanning\<close>

definition picks :: "kern \<Rightarrow> nat \<Rightarrow> pid list list \<Rightarrow> nat \<Rightarrow> (nat \<times> pid) option \<Rightarrow> bool" where
  "picks k i qs n r \<longleftrightarrow> (case r of
       None \<Rightarrow> \<forall>j < n. \<forall>q \<in> set (qs ! j). \<not> affine k i q
     | Some (j, p) \<Rightarrow> j < n \<and> affine k i p
         \<and> (\<exists>as bs. qs ! j = as @ p # bs \<and> (\<forall>q \<in> set as. \<not> affine k i q))
         \<and> (\<forall>j'. j < j' \<and> j' < n \<longrightarrow> (\<forall>q \<in> set (qs ! j'). \<not> affine k i q)))"

lemma scan_queue_find: "chain (rnexts k) h xs \<Longrightarrow> scan_queue k i h = Some (find (affine k i) xs)"
proof (induction xs arbitrary: h)
  case Nil
  then show ?case by (subst scan_queue.simps) simp
next
  case (Cons x xs)
  then show ?case by (subst scan_queue.simps) (simp add: rnexts_def)
qed

lemma find_first: "find P xs = Some x \<Longrightarrow> \<exists>as bs. xs = as @ x # bs \<and> P x \<and> (\<forall>a \<in> set as. \<not> P a)"
proof (induction xs)
  case (Cons a xs)
  show ?case
  proof (cases "P a")
    case True
    then show ?thesis using Cons.prems by (intro exI [of _ "[]"] exI [of _ xs]) simp
  next
    case False
    then obtain as bs where "xs = as @ x # bs" "P x" "\<forall>a \<in> set as. \<not> P a" using Cons by auto
    then show ?thesis using False by (intro exI [of _ "a # as"] exI [of _ bs]) simp
  qed
qed simp

lemma scan_runq_picks:
  assumes r: "runq_rep k qs"
  shows "n \<le> Nrq \<Longrightarrow> \<exists>r. scan_runq k i n = Some r \<and> picks k i qs n r"
proof (induction n)
  case 0
  then show ?case by (simp add: picks_def)
next
  case (Suc n)
  then have "chain (rnexts k) (sq_head (k_runq k ! n)) (qs ! n)"
    using rq_repD [OF r, of n] by (simp add: rq_rep_def queue_rep_def)
  note s = scan_queue_find [OF this, of i]
  show ?case
  proof (cases "find (affine k i) (qs ! n)")
    case None
    then have none: "\<forall>q \<in> set (qs ! n). \<not> affine k i q" by (auto simp: find_None_iff)
    obtain r where r: "scan_runq k i n = Some r" "picks k i qs n r" using Suc by auto
    have "picks k i qs (Suc n) r"
      using r(2) none by (auto simp: picks_def less_Suc_eq split: option.splits)
    then show ?thesis using s None r by simp
  next
    case (Some p)
    have "picks k i qs (Suc n) (Some (n, p))" using find_first [OF Some] by (auto simp: picks_def)
    then show ?thesis using s Some by simp
  qed
qed

section \<open>The invariant\<close>

text \<open>
  The kernel state between the atomic sections of the code, on one processor. In
  \<open>kinv\<close> the current process may be in any state, as in the middle of \<open>schedinit\<close>; \<open>sched_inv\<close>
  is the invariant when code of a process runs.
\<close>

definition kinv :: "kern \<Rightarrow> bool" where
  "kinv k \<longleftrightarrow> (\<exists>qs. sched_ok k qs) \<and> \<not> k_runqbusy k \<and> (\<forall>p. states k p = Running \<longrightarrow> k_up k = Some p)
     \<and> (\<forall>p. p_cpu (k_procs k p) \<noteq> None \<longrightarrow> k_up k = Some p)
     \<and> (\<forall>r p. k_rendez k r = Some p \<longleftrightarrow> p_r (k_procs k p) = Some r)
     \<and> (\<forall>p. p_r (k_procs k p) \<noteq> None \<longrightarrow> states k p = Wakeme)"

definition sched_inv :: "kern \<Rightarrow> bool" where
  "sched_inv k \<longleftrightarrow> kinv k \<and> (\<forall>p. k_up k = Some p \<longrightarrow> states k p = Running)"

lemma kinvD:
  assumes "kinv k"
  shows "\<not> k_runqbusy k" "states k p = Running \<Longrightarrow> k_up k = Some p"
    "k_up k \<noteq> Some p \<Longrightarrow> p_cpu (k_procs k p) = None" "k_rendez k r = Some p \<longleftrightarrow> p_r (k_procs k p) = Some r"
    "states k p \<noteq> Wakeme \<Longrightarrow> p_r (k_procs k p) = None"
  using assms by (auto simp: kinv_def)

lemma kinv_qs: "kinv k \<Longrightarrow> \<exists>qs. sched_ok k qs"
  by (simp add: kinv_def)

lemma kinv_basepri: "kinv k \<Longrightarrow> p_basepri (k_procs k p) < 20"
  using kinv_qs sched_okD(5) by blast

text \<open>What concerns the processes that wait for a lock.\<close>

definition waiting :: "procstate set" where
  "waiting = {Queueing, QueueingR, QueueingW}"

definition wait_frame :: "kern \<Rightarrow> kern \<Rightarrow> bool" where
  "wait_frame k k' \<longleftrightarrow> (\<forall>q. states k q \<in> waiting \<longrightarrow> p_qnext (k_procs k' q) = p_qnext (k_procs k q))
     \<and> (\<forall>q. states k q \<in> waiting \<or> states k' q \<in> waiting \<longrightarrow> states k' q = states k q)"

lemma wait_frame_refl: "wait_frame k k"
  by (simp add: wait_frame_def)

lemma wait_frame_trans: "wait_frame k k' \<Longrightarrow> wait_frame k' k'' \<Longrightarrow> wait_frame k k''"
  unfolding wait_frame_def by metis

text \<open>
  The interrupts that arrive while the processor is idle: they may make processes
  ready, and they keep the invariant.
\<close>

definition interrupts_ok :: "(nat \<Rightarrow> kern \<Rightarrow> kern) \<Rightarrow> bool" where
  "interrupts_ok idle \<longleftrightarrow> (\<forall>j k. kinv k \<and> k_up k = None \<longrightarrow> kinv (idle j k) \<and> k_up (idle j k) = None
     \<and> wait_frame k (idle j k) \<and> k_cpuno (idle j k) = k_cpuno k
     \<and> (\<forall>p. states k p = Ready \<longrightarrow> states (idle j k) p = Ready)
     \<and> (\<forall>p. p_wired (k_procs (idle j k) p) = p_wired (k_procs k p)
          \<and> p_lastcpu (k_procs (idle j k) p) = p_lastcpu (k_procs k p)))"

lemma interrupts_okD:
  assumes "interrupts_ok idle" "kinv k" "k_up k = None"
  shows "kinv (idle j k)" "k_up (idle j k) = None" "wait_frame k (idle j k)" "k_cpuno (idle j k) = k_cpuno k"
    "states k p = Ready \<Longrightarrow> states (idle j k) p = Ready" "affine (idle j k) i p = affine k i p"
  using assms by (simp_all add: interrupts_ok_def affine_def Let_def)

section \<open>runproc\<close>

definition chosen :: "kern \<Rightarrow> pid \<Rightarrow> kern \<Rightarrow> bool" where
  "chosen k p k' \<longleftrightarrow> kinv k' \<and> k_up k' = None \<and> wait_frame k k' \<and> states k' p = Scheding"

lemma found_kinv:
  assumes k: "kinv k" "k_up k = None" and ok: "sched_ok k qs" and i: "i < Nrq" "p \<in> set (qs ! i)"
  obtains k' where "found i p k = Some (Some p, k')" "chosen k p k'"
    "sched_ok k' (qs[i := remove1 p (qs ! i)])" "states k' = (states k)(p := Scheding)"
proof -
  note inv = kinvD [OF k(1)]
  have cpu: "p_cpu (k_procs k p) = None" using inv(3) [of p] k(2) by simp
  have rdy: "states k p = Ready" using sched_okD(6) [OF ok i] .
  obtain k' where f: "found i p k = Some (Some p, k')" and ok': "sched_ok k' (qs[i := remove1 p (qs ! i)])"
    and co: "kern_core k' = kern_core (setp p (\<lambda>x. x\<lparr>p_lastcpu := Some (k_cpuno k)\<rparr>) k)"
    and st: "states k' = (states k)(p := Scheding)"
    using found_ok [OF ok i inv(1) cpu] by metis
  note c = kern_coreD [OF co, simplified]
  have "p_qnext (k_procs k' q) = p_qnext (k_procs k q)" "p_cpu (k_procs k' q) = p_cpu (k_procs k q)"
    "p_r (k_procs k' q) = p_r (k_procs k q)" for q
    using c(11) [of q] c(6) [of q] c(7) [of q] by (simp_all split: if_splits)
  moreover have "p_r (k_procs k p) = None" using inv(5) [of p] rdy by simp
  ultimately have "chosen k p k'"
    using k ok' st c rdy
    by (auto simp: chosen_def kinv_def wait_frame_def waiting_def)
  then show ?thesis using that f ok' st by blast
qed

text \<open>If the loop ends, it has chosen a ready process and kept the invariant.\<close>

lemma runproc_loop_chosen:
  assumes int: "interrupts_ok idle" and run: "runproc_loop idle i j k = Some y" and k: "kinv k" "k_up k = None"
  shows "chosen k (fst y) (snd y)"
proof -
  have "interrupts_ok idle \<longrightarrow> kinv k \<longrightarrow> k_up k = None \<longrightarrow> chosen k (fst y) (snd y)"
  proof (rule runproc_loop.raw_induct [OF _ run], goal_cases)
    case (1 loop idle i j k y)
    show ?case
    proof (intro impI)
      assume int: "interrupts_ok idle" and k: "kinv k" "k_up k = None"
      obtain qs where ok: "sched_ok k qs" using kinv_qs [OF k(1)] by blast
      obtain r where r: "scan_runq k i Nrq = Some r" "picks k i qs Nrq r"
        using scan_runq_picks [OF sched_okD(1) [OF ok], of Nrq i] by auto
      show "chosen k (fst y) (snd y)"
      proof (cases r)
        case None
        note io = interrupts_okD [OF int k, where j = j]
        have "chosen (idle j k) (fst y) (snd y)" using 1 r None io int by auto
        then show ?thesis using wait_frame_trans [OF io(3)] by (simp add: chosen_def)
      next
        case (Some jp)
        obtain pri p where jp: "jp = (pri, p)" by (cases jp)
        have "pri < Nrq" "p \<in> set (qs ! pri)" using r(2) Some jp by (auto simp: picks_def)
        then obtain k' where "found pri p k = Some (Some p, k')" "chosen k p k'" using found_kinv [OF k ok] by metis
        then show ?thesis using 1(2) r(1) Some jp by auto
      qed
    qed
  qed
  then show ?thesis using k int by simp
qed

text \<open>It ends as soon as there is a process that this processor may run.\<close>

lemma runproc_loop_first:
  assumes k: "kinv k" "k_up k = None" and ok: "sched_ok k qs" and p: "states k p = Ready" "affine k i p"
  shows "\<exists>pri q k'. runproc_loop idle i j k = Some (q, k') \<and> picks k i qs Nrq (Some (pri, q))
    \<and> sched_ok k' (qs[pri := remove1 q (qs ! pri)]) \<and> states k' = (states k)(q := Scheding)"
proof -
  obtain r where r: "scan_runq k i Nrq = Some r" "picks k i qs Nrq r"
    using scan_runq_picks [OF sched_okD(1) [OF ok], of Nrq i] by auto
  obtain l where "l < Nrq" "p \<in> set (qs ! l)" using sched_okD(2,4) [OF ok] p(1) in_queued [of p qs] by auto
  then obtain pri q where pq: "r = Some (pri, q)" using r(2) p(2) by (cases r) (auto simp: picks_def)
  have "pri < Nrq" "q \<in> set (qs ! pri)" using r(2) pq by (auto simp: picks_def)
  then obtain k' where "found pri q k = Some (Some q, k')" "sched_ok k' (qs[pri := remove1 q (qs ! pri)])"
      "states k' = (states k)(q := Scheding)"
    using found_kinv [OF k ok] by metis
  then show ?thesis using r pq by (subst runproc_loop.simps) auto
qed

lemma runproc_loop_returns:
  assumes int: "interrupts_ok idle" and k: "kinv k" "k_up k = None" and p: "states k p = Ready" "affine k 1 p"
  shows "\<exists>y. runproc_loop idle 0 j k = Some y"
proof (cases "\<exists>q. states k q = Ready \<and> affine k 0 q")
  case True
  then show ?thesis using runproc_loop_first [OF k _, of _ _ 0 idle j] kinv_qs [OF k(1)] by blast
next
  case False
  obtain qs where ok: "sched_ok k qs" using kinv_qs [OF k(1)] by blast
  obtain r where r: "scan_runq k 0 Nrq = Some r" "picks k 0 qs Nrq r"
    using scan_runq_picks [OF sched_okD(1) [OF ok], of Nrq 0] by auto
  have "r = None"
  proof (rule ccontr)
    assume "r \<noteq> None"
    then obtain pri q where "r = Some (pri, q)" by auto
    then have "affine k 0 q" "pri < Nrq" "q \<in> set (qs ! pri)" using r(2) by (auto simp: picks_def)
    then show False using False sched_okD(6) [OF ok] by blast
  qed
  then have step: "runproc_loop idle 0 j k = runproc_loop idle 1 (j + 1) (idle j k)"
    using r by (subst runproc_loop.simps) simp
  note io = interrupts_okD [OF int k, where j = j]
  obtain qs' where "sched_ok (idle j k) qs'" using kinv_qs [OF io(1)] by blast
  then show ?thesis unfolding step
    using runproc_loop_first [OF io(1,2), of qs' p 1 idle "j + 1"] io(5) [OF p(1)] io(6) [of 1 p] p(2) by auto
qed

section \<open>Changes that do not concern the invariant\<close>

definition pview :: "proc \<Rightarrow> procstate \<times> pid option \<times> uint \<times> uint \<times> nat option \<times> nat option" where
  "pview x = (p_state x, p_rnext x, p_priority x, p_basepri x, p_cpu x, p_r x)"

definition kview where
  "kview k = ((\<lambda>p. pview (k_procs k p)), k_up k, k_runq k, k_nrdy k, k_runvec k, k_runqbusy k, k_rendez k)"

lemma kinv_view:
  assumes "kview k' = kview k"
  shows "kinv k' = kinv k" "sched_inv k' = sched_inv k" "sched_ok k' = sched_ok k"
proof -
  have p: "pview (k_procs k' p) = pview (k_procs k p)" for p using assms by (simp add: kview_def fun_eq_iff)
  have s: "states k' = states k" "prios k' = prios k" "rnexts k' = rnexts k"
    using p by (simp_all add: pview_def states_def prios_def rnexts_def)
  have o: "k_up k' = k_up k" "k_runq k' = k_runq k" "k_nrdy k' = k_nrdy k" "k_runvec k' = k_runvec k"
    "k_runqbusy k' = k_runqbusy k" "k_rendez k' = k_rendez k" using assms by (simp_all add: kview_def)
  have f: "p_basepri (k_procs k' p) = p_basepri (k_procs k p)" "p_cpu (k_procs k' p) = p_cpu (k_procs k p)"
    "p_r (k_procs k' p) = p_r (k_procs k p)" for p using p by (simp_all add: pview_def)
  show ok: "sched_ok k' = sched_ok k"
    by (rule ext) (simp add: sched_ok_def runq_rep_def rq_rep_def s o f)
  show "kinv k' = kinv k" unfolding kinv_def ok s o f ..
  then show "sched_inv k' = sched_inv k" by (simp add: sched_inv_def s o)
qed

lemma kview_setp:
  assumes "\<And>x. pview (f x) = pview x"
  shows "kview (setp p f k) = kview k"
  using assms by (simp add: kview_def fun_eq_iff)

lemma wait_frame_setp:
  assumes "\<And>x. p_qnext (f x) = p_qnext x" "\<And>x. p_state (f x) = p_state x"
  shows "wait_frame k (setp p f k)"
  using assms by (simp add: wait_frame_def states_def)

lemma wait_frame_view:
  assumes "k_procs k' = k_procs k"
  shows "wait_frame k k'"
  using assms by (simp add: wait_frame_def states_def)

lemma chosen_trans: "wait_frame k k1 \<Longrightarrow> chosen k1 p k' \<Longrightarrow> chosen k p k'"
  using wait_frame_trans by (auto simp: chosen_def)

section \<open>The whole of runproc\<close>

lemma found_priority:
  assumes k: "kinv k" "k_up k = None"
  shows "\<exists>q k'. found (unat (prios k p)) p k = Some (q, k') \<and> (case q of
      None \<Rightarrow> k' = k | Some p' \<Rightarrow> p' = p \<and> chosen k p k')"
proof -
  obtain qs where ok: "sched_ok k qs" using kinv_qs [OF k(1)] by blast
  have i: "unat (prios k p) < Nrq" using sched_okD(7) [OF ok, of p] by (simp add: word_less_nat_alt)
  show ?thesis
  proof (cases "p \<in> set (qs ! unat (prios k p))")
    case True
    obtain k' where "found (unat (prios k p)) p k = Some (Some p, k')" "chosen k p k'"
      using found_kinv [OF k ok i True] .
    then show ?thesis by simp
  next
    case False
    then show ?thesis using found_absent [OF ok i] by simp
  qed
qed

text \<open>
  \<open>runproc\<close> takes the process that was made ready last if it can, and otherwise
  runs the loop from a state that differs from \<open>k\<close> in the counters only.
\<close>

lemma runproc_cases:
  assumes k: "kinv k" "k_up k = None"
  shows "(\<exists>p k'. runproc idle k = Some (p, k') \<and> chosen k p k' \<and> k_readied k = Some p)
    \<or> (\<exists>k'. runproc idle k = runproc_loop idle 0 0 k' \<and> kview k' = kview k \<and> k_procs k' = k_procs k
          \<and> k_cpuno k' = k_cpuno k)"
proof -
  let ?pre = "k\<lparr>k_preempts := k_preempts k + 1\<rparr>" and ?skip = "k\<lparr>k_skipscheds := k_skipscheds k + 1\<rparr>"
  have v: "kview ?pre = kview k" "kview ?skip = kview k" by (simp_all add: kview_def)
  show ?thesis
  proof (cases "runproc idle k = runproc_loop idle 0 0 ?pre")
    case True
    then show ?thesis using v by (intro disjI2 exI [of _ ?pre]) simp
  next
    case False
    then obtain p where p: "k_readied k = Some p"
      and r: "runproc idle k = do {
            (q, k) \<leftarrow> found (unat (p_priority (k_procs k p))) p ?skip;
            case q of None \<Rightarrow> runproc_loop idle 0 0 k | Some p \<Rightarrow> Some (p, k) }"
      by (auto simp: runproc_def Let_def split: option.splits if_splits)
    have ks: "kinv ?skip" "k_up ?skip = None" using k kinv_view(1) [OF v(2)] by simp_all
    obtain q k' where f: "found (unat (prios ?skip p)) p ?skip = Some (q, k')"
        "case q of None \<Rightarrow> k' = ?skip | Some p' \<Rightarrow> p' = p \<and> chosen ?skip p k'"
      using found_priority [OF ks, of p] by blast
    have pr: "prios ?skip p = p_priority (k_procs k p)" by (simp add: prios_def)
    show ?thesis
    proof (cases q)
      case None
      then show ?thesis using f r pr v by (intro disjI2 exI [of _ ?skip]) simp
    next
      case (Some p')
      then have "chosen k p k'" using f wait_frame_view [of ?skip k] chosen_trans [of k ?skip p k'] by simp
      then show ?thesis using f r pr Some p by (intro disjI1 exI [of _ p] exI [of _ k']) simp
    qed
  qed
qed

lemma runproc_chosen:
  assumes "interrupts_ok idle" "kinv k" "k_up k = None" "runproc idle k = Some (p, k')"
  shows "chosen k p k'"
proof -
  consider "chosen k p k'" | k1 where "runproc_loop idle 0 0 k1 = Some (p, k')" "kview k1 = kview k" "k_procs k1 = k_procs k"
    using runproc_cases [OF assms(2,3), of idle] assms(4) by auto
  then show ?thesis
  proof cases
    case 2
    have "kinv k1" "k_up k1 = None" using kinv_view(1) [OF 2(2)] 2(2) assms by (auto simp: kview_def)
    then have "chosen k1 p k'" using runproc_loop_chosen [OF assms(1) 2(1)] by simp
    then show ?thesis using chosen_trans [OF wait_frame_view [OF 2(3)]] by simp
  qed
qed

lemma runproc_returns_some:
  assumes "interrupts_ok idle" "kinv k" "k_up k = None" "states k p = Ready" "affine k 1 p"
  shows "\<exists>y. runproc idle k = Some y"
proof -
  consider "\<exists>y. runproc idle k = Some y" | k1 where "runproc idle k = runproc_loop idle 0 0 k1"
      "kview k1 = kview k" "k_procs k1 = k_procs k" "k_cpuno k1 = k_cpuno k"
    using runproc_cases [OF assms(2,3), of idle] by auto
  then show ?thesis
  proof cases
    case 2
    have "kinv k1" "k_up k1 = None" "states k1 p = Ready" "affine k1 1 p"
      using kinv_view(1) [OF 2(2)] 2 assms by (auto simp: kview_def states_def affine_def Let_def)
    then show ?thesis using runproc_loop_returns [OF assms(1)] 2(1) by simp
  qed
qed

end
