(* ===== verification/Sched_Switch.thy ===== *)
theory Sched_Switch
  imports Sched_Pick
begin

text \<open>
  Switching processes: \<open>schedinit\<close>, \<open>proc_sched\<close>, \<open>proc_sleep\<close> and \<open>proc_wakeup\<close> keep the
  invariant, and leave the processes that wait for a lock alone.
\<close>

section \<open>Changes of one process\<close>

lemma sched_ok_same:
  assumes "sched_ok k qs" and "k_runq k' = k_runq k" "k_nrdy k' = k_nrdy k" "k_runvec k' = k_runvec k" "rnexts k' = rnexts k"
    and "\<And>q. states k' q = Ready \<longleftrightarrow> states k q = Ready" "\<And>q. prios k' q < 22"
    and "\<And>q. p_basepri (k_procs k' q) = p_basepri (k_procs k q)"
  shows "sched_ok k' qs"
  using assms runq_rep_core [of k qs k'] by (simp add: sched_ok_def)

lemma kinv_same:
  assumes "kinv k" and "\<And>qs. sched_ok k qs \<Longrightarrow> \<exists>qs'. sched_ok k' qs'" and "k_runqbusy k' = k_runqbusy k" "k_rendez k' = k_rendez k"
    and "\<And>q. states k' q = Running \<Longrightarrow> k_up k' = Some q" "\<And>q. k_up k' \<noteq> Some q \<Longrightarrow> p_cpu (k_procs k' q) = None"
    and "\<And>q. p_r (k_procs k' q) = p_r (k_procs k q)" "\<And>q. states k q = Wakeme \<Longrightarrow> states k' q = Wakeme"
  shows "kinv k'"
proof -
  obtain qs where "sched_ok k' qs" using kinv_qs [OF assms(1)] assms(2) by blast
  moreover have "p_r (k_procs k' q) \<noteq> None \<Longrightarrow> states k' q = Wakeme" for q
    using kinvD(5) [OF assms(1), of q] assms(7) [of q] assms(8) [of q] by (cases "states k q = Wakeme") auto
  moreover have "p_cpu (k_procs k' q) \<noteq> None \<Longrightarrow> k_up k' = Some q" for q
    using assms(6) [of q] by (cases "k_up k' = Some q") auto
  ultimately show ?thesis using assms(3-5,7) kinvD(1,4) [OF assms(1)] by (auto simp: kinv_def)
qed

section \<open>Switching to a process\<close>

lemma reprioritize_20:
  assumes "kinv k" and "kern_core k' = kern_core k"
  obtains pri where "reprioritize p k' = Some pri" "pri < 20"
proof -
  have b: "p_basepri (k_procs k' p) < 20" using kinv_basepri [OF assms(1), of p] kern_coreD(8) [OF assms(2), of p] by simp
  then have "p_basepri (k_procs k' p) < 0x80000000" by (rule less_trans) simp
  then show ?thesis using reprioritize_le that le_less_trans [OF _ b] by blast
qed

lemma kinv_ready:
  assumes k: "kinv k" and p: "states k p \<noteq> Ready" "p_r (k_procs k p) = None"
  obtains k' where "proc_ready p k = Some k'" "kinv k'" "kern_core k' = kern_core k" "states k' = (states k)(p := Ready)"
proof -
  obtain qs where ok: "sched_ok k qs" using kinv_qs [OF k] by blast
  obtain k' i where r: "proc_ready p k = Some k'" and ok': "sched_ok k' (qs[i := qs ! i @ [p]])"
    and co: "kern_core k' = kern_core k" and st: "states k' = (states k)(p := Ready)"
    using proc_ready_ok [OF ok p(1)] by blast
  have "kinv k'" using k ok' p(2) unfolding kinv_def st kern_coreD [OF co] by auto
  then show ?thesis using that r co st by blast
qed

lemma switch_inv:
  assumes k: "kinv k" "k_up k = None" and p: "states k p = Scheding" and pri: "pri < 20"
    and kr: "k1 = (if k_readied (updatecpu p k) = Some p then setp p (\<lambda>x. x\<lparr>p_priority := pri\<rparr>) (updatecpu p k)
        else setp p (\<lambda>x. x\<lparr>p_priority := pri\<rparr>) (updatecpu p k)\<lparr>k_schedticks := t\<rparr>)"
  shows "sched_inv (setp p (\<lambda>x. x\<lparr>p_state := Running, p_cpu := Some c\<rparr>) (k1\<lparr>k_readied := None, k_up := Some p\<rparr>))"
    (is "sched_inv ?k")
proof -
  note inv = kinvD [OF k(1)]
  define k' where "k' = ?k"
  note uc = kern_coreD [OF updatecpu_core [of p k]]
  have st: "states k' = (states k)(p := Running)"
    using updatecpu_runq(5) [of p k] by (auto simp: k'_def kr states_def fun_eq_iff)
  have pr: "prios k' = (prios k)(p := pri)"
    using updatecpu_runq(9) [of p k] by (auto simp: k'_def kr prios_def fun_eq_iff)
  have rn: "rnexts k' = rnexts k" using updatecpu_runq(4) [of p k] by (auto simp: k'_def kr rnexts_def fun_eq_iff)
  have f: "p_basepri (k_procs k' q) = p_basepri (k_procs k q)" "p_r (k_procs k' q) = p_r (k_procs k q)"
    "q \<noteq> p \<Longrightarrow> p_cpu (k_procs k' q) = p_cpu (k_procs k q)" for q
    by (simp_all add: k'_def kr uc)
  have o: "k_rendez k' = k_rendez k" "k_runqbusy k' = k_runqbusy k" "k_up k' = Some p" "k_runq k' = k_runq k"
    "k_nrdy k' = k_nrdy k" "k_runvec k' = k_runvec k"
    by (simp_all add: k'_def kr uc updatecpu_runq)
  have lt: "pri < 22" using pri by (rule less_trans) simp
  have "sched_ok k' qs" if "sched_ok k qs" for qs
    using that by (rule sched_ok_same) (use o rn lt sched_okD(7) [OF that] p in \<open>auto simp: st pr f\<close>)
  then have "kinv k'"
    by (intro kinv_same [OF k(1)]) (use o inv(2,3) k(2) p in \<open>auto simp: st f split: if_splits\<close>)
  then show ?thesis unfolding sched_inv_def using o st k'_def by auto
qed

lemma sched_pick_inv:
  assumes int: "interrupts_ok idle" and k: "kinv k" "k_up k = None" and run: "sched_pick idle k = Some k'"
  shows "sched_inv k' \<and> wait_frame k k' \<and> k_up k' \<noteq> None"
proof -
  obtain p k1 where r: "runproc idle k = Some (p, k1)" using run by (auto simp: sched_pick_def split: bind_splits)
  have c: "chosen k p k1" using runproc_chosen [OF int k r] .
  then have k1: "kinv k1" "k_up k1 = None" "states k1 p = Scheding" "wait_frame k k1" by (simp_all add: chosen_def)
  obtain pri where pri: "reprioritize p (updatecpu p k1) = Some pri" "pri < 20"
    using reprioritize_20 [OF k1(1) updatecpu_core] by blast
  let ?k2 = "setp p (\<lambda>x. x\<lparr>p_priority := pri\<rparr>) (updatecpu p k1)"
  let ?k3 = "if k_readied ?k2 = Some p then ?k2 else ?k2\<lparr>k_schedticks := k_ticks ?k2 + 10\<rparr>"
  have e: "k' = setp p (\<lambda>x. x\<lparr>p_state := Running, p_cpu := Some (k_cpuno (?k3\<lparr>k_readied := None, k_up := Some p\<rparr>))\<rparr>)
      (?k3\<lparr>k_readied := None, k_up := Some p\<rparr>)"
    using run r pri by (simp add: sched_pick_def Let_def)
  have "sched_inv k'" unfolding e by (rule switch_inv [OF k1(1-3) pri(2)]) simp
  moreover have "k_up k' \<noteq> None" unfolding e by simp
  moreover have "wait_frame k1 k'"
    using updatecpu_runq(5) [of p k1] kern_coreD(11) [OF updatecpu_core [of p k1]] k1(3) unfolding e
    by (auto simp: wait_frame_def waiting_def states_def fun_eq_iff)
  ultimately show ?thesis using wait_frame_trans [OF k1(4)] by blast
qed

lemma sched_pick_returns:
  assumes int: "interrupts_ok idle" and k: "kinv k" "k_up k = None" and p: "states k p = Ready" "affine k 1 p"
  shows "\<exists>k'. sched_pick idle k = Some k'"
proof -
  obtain q k1 where r: "runproc idle k = Some (q, k1)" using runproc_returns_some [OF int k p] by auto
  then have "kinv k1" using runproc_chosen [OF int k r] by (simp add: chosen_def)
  then obtain pri where "reprioritize q (updatecpu q k1) = Some pri" using reprioritize_20 [OF _ updatecpu_core] by blast
  then show ?thesis using r by (simp add: sched_pick_def Let_def)
qed

section \<open>Leaving a process\<close>

definition left_state :: "procstate \<Rightarrow> procstate" where
  "left_state s = (case s of Moribund \<Rightarrow> Dead | Running \<Rightarrow> Ready | _ \<Rightarrow> s)"

text \<open>The end of \<open>schedinit\<close>: the process is no longer on the processor.\<close>

definition off_cpu :: "pid \<Rightarrow> kern \<Rightarrow> kern" where
  "off_cpu p k = (updatecpu p (setp p (\<lambda>x. x\<lparr>p_cpu := None\<rparr>) k))\<lparr>k_up := None\<rparr>"

lemma off_cpu_inv:
  assumes k: "kinv k" "k_up k = Some p" and p: "states k p \<noteq> Running"
  shows "kinv (off_cpu p k)" "k_up (off_cpu p k) = None" "states (off_cpu p k) = states k"
    "p_qnext (k_procs (off_cpu p k) q) = p_qnext (k_procs k q)" "wait_frame k (off_cpu p k)"
    "p_lastcpu (k_procs (off_cpu p k) q) = p_lastcpu (k_procs k q)"
    "p_wired (k_procs (off_cpu p k) q) = p_wired (k_procs k q)" "k_cpuno (off_cpu p k) = k_cpuno k"
proof -
  define k0 where "k0 = setp p (\<lambda>x. x\<lparr>p_cpu := None\<rparr>) k"
  define k' where "k' = off_cpu p k"
  note inv = kinvD [OF k(1)]
  have e: "k' = updatecpu p k0\<lparr>k_up := None\<rparr>" by (simp add: k'_def k0_def off_cpu_def)
  note uc = kern_coreD [OF updatecpu_core [of p k0]]
  have st: "states k' = states k" using updatecpu_runq(5) [of p k0] by (auto simp: e k0_def states_def fun_eq_iff)
  have pr: "prios k' = prios k" using updatecpu_runq(9) [of p k0] by (auto simp: e k0_def prios_def fun_eq_iff)
  have rn: "rnexts k' = rnexts k" using updatecpu_runq(4) [of p k0] by (auto simp: e k0_def rnexts_def fun_eq_iff)
  have f: "p_basepri (k_procs k' q) = p_basepri (k_procs k q)" "p_r (k_procs k' q) = p_r (k_procs k q)"
    "p_qnext (k_procs k' q) = p_qnext (k_procs k q)" "p_lastcpu (k_procs k' q) = p_lastcpu (k_procs k q)"
    "p_wired (k_procs k' q) = p_wired (k_procs k q)"
    "p_cpu (k_procs k' q) = (if q = p then None else p_cpu (k_procs k q))" for q
    by (simp_all add: e uc) (simp_all add: k0_def)
  have o: "k_rendez k' = k_rendez k" "k_runqbusy k' = k_runqbusy k" "k_up k' = None" "k_cpuno k' = k_cpuno k"
    "k_runq k' = k_runq k" "k_nrdy k' = k_nrdy k" "k_runvec k' = k_runvec k"
    by (simp_all add: e uc updatecpu_runq) (simp_all add: k0_def)
  have "sched_ok k' qs" if "sched_ok k qs" for qs
    using that by (rule sched_ok_same) (use o rn sched_okD(7) [OF that] in \<open>auto simp: st pr f\<close>)
  moreover have "states k q \<noteq> Running" for q using inv(2) [of q] k(2) p by auto
  ultimately have "kinv k'"
    by (intro kinv_same [OF k(1)]) (use o inv(3) k(2) in \<open>auto simp: st f\<close>)
  moreover have "wait_frame k k'" by (simp add: wait_frame_def f st)
  ultimately show "kinv (off_cpu p k)" "k_up (off_cpu p k) = None" "states (off_cpu p k) = states k"
    "wait_frame k (off_cpu p k)" "k_cpuno (off_cpu p k) = k_cpuno k"
    and "p_qnext (k_procs (off_cpu p k) q) = p_qnext (k_procs k q)"
    "p_lastcpu (k_procs (off_cpu p k) q) = p_lastcpu (k_procs k q)"
    "p_wired (k_procs (off_cpu p k) q) = p_wired (k_procs k q)" for q
    using o st f by (simp_all add: k'_def)
qed

text \<open>
  What \<open>schedinit\<close> does to a state that satisfies the invariant. Only the link of a process that dies
  changes: it goes to the list of free process structures.
\<close>

lemma schedinit_inv:
  assumes k: "kinv k" "k_up k = Some p" and p: "states k p \<noteq> Ready"
  obtains k' where "schedinit k = Some k'" "kinv k'" "k_up k' = None" "states k' = (states k)(p := left_state (states k p))"
    "\<forall>q. p_qnext (k_procs k' q) = (if q = p \<and> states k p = Moribund then k_procfree k else p_qnext (k_procs k q))"
    "\<forall>q. p_lastcpu (k_procs k' q) = p_lastcpu (k_procs k q)" "\<forall>q. p_wired (k_procs k' q) = p_wired (k_procs k q)"
    "k_cpuno k' = k_cpuno k"
proof -
  note inv = kinvD [OF k(1)]
  have sp: "p_state (k_procs k p) = states k p" by (simp add: states_def)
  consider "states k p = Moribund" | "states k p = Running" | "states k p \<noteq> Moribund" "states k p \<noteq> Running" by blast
  then show ?thesis
  proof cases
    case 1
    let ?k = "setp p (\<lambda>x. x\<lparr>p_qnext := k_procfree k\<rparr>) (setp p (\<lambda>x. x\<lparr>p_state := Dead\<rparr>) k)\<lparr>k_procfree := Some p\<rparr>"
    have st: "states ?k = (states k)(p := Dead)" by (auto simp: states_def fun_eq_iff)
    have pr: "prios ?k = prios k" by (auto simp: prios_def fun_eq_iff)
    have "sched_ok ?k qs" if "sched_ok k qs" for qs
      using that by (rule sched_ok_same) (use sched_okD(7) [OF that] 1 in \<open>auto simp: st pr rnexts_def fun_eq_iff\<close>)
    then have ki: "kinv ?k" "k_up ?k = Some p"
      using k(2) 1 inv(2,3) by (auto intro!: kinv_same [OF k(1)] simp: st split: if_splits)
    have "states ?k p \<noteq> Running" by (simp add: st)
    note off = off_cpu_inv [OF ki this]
    have "schedinit k = Some (off_cpu p ?k)" using 1 k(2) sp by (simp add: schedinit_def off_cpu_def Let_def)
    then show ?thesis
      by (rule that [of "off_cpu p ?k"]) (simp_all add: off(1-3) off(4,6-8) st left_state_def 1)
  next
    case 2
    have "p_r (k_procs k p) = None" using inv(5) 2 by simp
    then obtain k1 where r: "proc_ready p k = Some k1" "kinv k1" "kern_core k1 = kern_core k" "states k1 = (states k)(p := Ready)"
      using kinv_ready [OF k(1) p] by blast
    note c = kern_coreD [OF r(3)]
    have k1: "k_up k1 = Some p" "states k1 p \<noteq> Running" using c k(2) r(4) by simp_all
    note off = off_cpu_inv [OF r(2) k1]
    have "schedinit k = Some (off_cpu p k1)" using 2 k(2) sp r(1) by (simp add: schedinit_def off_cpu_def Let_def)
    then show ?thesis by (rule that [of "off_cpu p k1"]) (simp_all add: off c r(4) left_state_def 2)
  next
    case 3
    note off = off_cpu_inv [OF k 3(2)]
    have "schedinit k = Some (off_cpu p k)"
      using 3 k(2) sp by (simp add: schedinit_def off_cpu_def Let_def split: procstate.splits)
    moreover have "left_state (states k p) = states k p" using 3 by (simp add: left_state_def split: procstate.splits)
    ultimately show ?thesis by (intro that [of "off_cpu p k"]) (simp_all add: off 3)
  qed
qed

lemma leave_inv:
  assumes int: "interrupts_ok idle" and k: "kinv k" "k_up k = Some p" "states k p \<noteq> Ready"
    and run: "do { k \<leftarrow> schedinit k; sched_pick idle k } = Some k'"
  shows "sched_inv k' \<and> wait_frame k k' \<and> k_up k' \<noteq> None"
proof -
  obtain k1 where 1: "schedinit k = Some k1" "kinv k1" "k_up k1 = None" "states k1 = (states k)(p := left_state (states k p))"
    "\<forall>q. p_qnext (k_procs k1 q) = (if q = p \<and> states k p = Moribund then k_procfree k else p_qnext (k_procs k q))"
    "\<forall>q. p_lastcpu (k_procs k1 q) = p_lastcpu (k_procs k q)" "\<forall>q. p_wired (k_procs k1 q) = p_wired (k_procs k q)"
    "k_cpuno k1 = k_cpuno k"
    using schedinit_inv [OF k] .
  have "wait_frame k k1"
    using 1(4,5) by (auto simp: wait_frame_def waiting_def left_state_def split: procstate.splits)
  moreover have "sched_inv k' \<and> wait_frame k1 k' \<and> k_up k' \<noteq> None" using sched_pick_inv [OF int 1(2,3)] run 1(1) by simp
  ultimately show ?thesis using wait_frame_trans by blast
qed

text \<open>There is always someone to switch to when a process is ready that this processor may run.\<close>

lemma leave_returns:
  assumes int: "interrupts_ok idle" and k: "kinv k" "k_up k = Some p" "states k p \<noteq> Ready"
    and q: "left_state (states k q) = Ready" "affine k 1 q"
  shows "\<exists>k'. do { k \<leftarrow> schedinit k; sched_pick idle k } = Some k'"
proof -
  obtain k1 where 1: "schedinit k = Some k1" "kinv k1" "k_up k1 = None" "states k1 = (states k)(p := left_state (states k p))"
    "\<forall>q. p_qnext (k_procs k1 q) = (if q = p \<and> states k p = Moribund then k_procfree k else p_qnext (k_procs k q))"
    "\<forall>q. p_lastcpu (k_procs k1 q) = p_lastcpu (k_procs k q)" "\<forall>q. p_wired (k_procs k1 q) = p_wired (k_procs k q)"
    "k_cpuno k1 = k_cpuno k"
    using schedinit_inv [OF k] .
  have "states k1 q = Ready"
  proof (cases "q = p")
    case True
    then show ?thesis using 1(4) q(1) by simp
  next
    case False
    then have "states k q \<noteq> Running" using kinvD(2) [OF k(1), of q] k(2) by auto
    then show ?thesis using False q(1) 1(4) by (auto simp: left_state_def split: procstate.splits)
  qed
  moreover have "affine k1 1 q" using q(2) 1(6-8) by (simp add: affine_def Let_def)
  ultimately show ?thesis using sched_pick_returns [OF int 1(2,3)] 1(1) by simp
qed

section \<open>sched\<close>

lemma proc_sched_leave:
  assumes "k_up k = Some p" "\<not> delay_sched p k"
  shows "proc_sched idle k = (let k = setp p (\<lambda>x. x\<lparr>p_delaysched := 0\<rparr>) k; k = k\<lparr>k_cs := k_cs k + 1\<rparr>
    in do { k \<leftarrow> schedinit k; sched_pick idle k })"
  using assms by (simp add: proc_sched_def Let_def)

definition leaving :: "pid \<Rightarrow> kern \<Rightarrow> kern" where
  "leaving p k = (let k = setp p (\<lambda>x. x\<lparr>p_delaysched := 0\<rparr>) k in k\<lparr>k_cs := k_cs k + 1\<rparr>)"

lemma leaving_same:
  "kview (leaving p k) = kview k" "wait_frame k (leaving p k)" "wait_frame (leaving p k) k" "states (leaving p k) = states k"
  "affine (leaving p k) i q = affine k i q"
  by (simp_all add: leaving_def Let_def kview_def pview_def fun_eq_iff wait_frame_def states_def affine_def)

lemma proc_sched_inv:
  assumes int: "interrupts_ok idle" and k: "kinv k" "k_up k = Some p" "states k p \<noteq> Ready" "\<not> delay_sched p k"
    and run: "proc_sched idle k = Some k'"
  shows "sched_inv k' \<and> wait_frame k k' \<and> k_up k' \<noteq> None"
proof -
  note l = leaving_same [where p = p and k = k]
  have "kinv (leaving p k)" "k_up (leaving p k) = Some p" "states (leaving p k) p \<noteq> Ready"
    using kinv_view(1) [OF l(1)] k l(4) by (simp_all add: leaving_def)
  moreover have "do { k \<leftarrow> schedinit (leaving p k); sched_pick idle k } = Some k'"
    using run proc_sched_leave [OF k(2,4)] by (simp add: leaving_def Let_def)
  ultimately have "sched_inv k' \<and> wait_frame (leaving p k) k' \<and> k_up k' \<noteq> None" by (rule leave_inv [OF int])
  then show ?thesis using wait_frame_trans [OF l(2)] by blast
qed

lemma proc_sched_running:
  assumes int: "interrupts_ok idle" and k: "sched_inv k" "k_up k = Some p" and run: "proc_sched idle k = Some k'"
  shows "sched_inv k' \<and> wait_frame k k' \<and> k_up k' \<noteq> None"
proof (cases "delay_sched p k")
  case True
  let ?k = "setp p (\<lambda>x. x\<lparr>p_delaysched := p_delaysched x + 1\<rparr>) k\<lparr>k_delayedscheds := k_delayedscheds k + 1\<rparr>"
  have v: "kview ?k = kview k" "wait_frame k ?k"
    by (simp_all add: kview_def pview_def fun_eq_iff wait_frame_def states_def)
  then show ?thesis using kinv_view(2) [OF v(1)] k True run by (auto simp: proc_sched_def)
next
  case False
  have "kinv k" "states k p \<noteq> Ready" using k by (auto simp: sched_inv_def)
  then show ?thesis using proc_sched_inv [OF int _ k(2) _ False run] by simp
qed

section \<open>Sleep and wakeup\<close>

lemma wakeup_inv:
  assumes k: "kinv k"
  obtains k' where "proc_wakeup r k = Some (k_rendez k r, k')" "kinv k'" "wait_frame k k'" "k_up k' = k_up k"
    "states k' = (case k_rendez k r of None \<Rightarrow> states k | Some p \<Rightarrow> (states k)(p := Ready))"
    "k_rendez k' = (k_rendez k)(r := None)"
    "\<forall>q. p_wired (k_procs k' q) = p_wired (k_procs k q)" "\<forall>q. p_lastcpu (k_procs k' q) = p_lastcpu (k_procs k q)"
    "k_cpuno k' = k_cpuno k"
proof (cases "k_rendez k r")
  case None
  then have "proc_wakeup r k = Some (k_rendez k r, k)" "(k_rendez k)(r := None) = k_rendez k"
    by (auto simp: proc_wakeup_def)
  then show ?thesis using None k by (intro that [of k]) (simp_all add: wait_frame_refl)
next
  case (Some p)
  note inv = kinvD [OF k]
  have pr: "p_r (k_procs k p) = Some r" using inv(4) Some by simp
  have st: "states k p = Wakeme" using inv(5) [of p] pr by auto
  define k1 where "k1 = setp p (\<lambda>x. x\<lparr>p_r := None\<rparr>) (k\<lparr>k_rendez := (k_rendez k)(r := None)\<rparr>)"
  have s1: "states k1 = states k" "prios k1 = prios k" "rnexts k1 = rnexts k"
    by (auto simp: k1_def states_def prios_def rnexts_def fun_eq_iff)
  have "sched_ok k1 qs" if "sched_ok k qs" for qs
    using that by (rule sched_ok_same) (use sched_okD(7) [OF that] in \<open>auto simp: s1\<close>, simp_all add: k1_def)
  then have ok: "\<exists>qs. sched_ok k1 qs" using kinv_qs [OF k] by blast
  have f: "p_r (k_procs k1 q) = (if q = p then None else p_r (k_procs k q))" "p_cpu (k_procs k1 q) = p_cpu (k_procs k q)"
    "p_qnext (k_procs k1 q) = p_qnext (k_procs k q)" "p_wired (k_procs k1 q) = p_wired (k_procs k q)"
    "p_lastcpu (k_procs k1 q) = p_lastcpu (k_procs k q)"
    "k_rendez k1 = (k_rendez k)(r := None)" "k_up k1 = k_up k" "k_runqbusy k1 = k_runqbusy k" "k_cpuno k1 = k_cpuno k" for q
    by (simp_all add: k1_def)
  have "((k_rendez k)(r := None)) r' = Some q \<longleftrightarrow> (if q = p then None else p_r (k_procs k q)) = Some r'" for r' q
    using inv(4) [of r' q] inv(4) [of r q] Some pr by auto
  then have k1: "kinv k1" using k ok unfolding kinv_def f s1 by auto
  have "states k1 p \<noteq> Ready" "p_r (k_procs k1 p) = None" using st by (simp_all add: s1 f)
  then obtain k' where r: "proc_ready p k1 = Some k'" "kinv k'" "kern_core k' = kern_core k1" "states k' = (states k1)(p := Ready)"
    using kinv_ready [OF k1] by blast
  note c = kern_coreD [OF r(3)]
  have "p_state (k_procs k p) = Wakeme" using st by (simp add: states_def)
  then have "proc_wakeup r k = Some (k_rendez k r, k')"
    using Some pr r(1) by (simp add: proc_wakeup_def Let_def k1_def)
  moreover have "wait_frame k k'" using st by (auto simp: wait_frame_def c f r(4) s1 waiting_def)
  ultimately show ?thesis using r(2,4) Some by (intro that [of k']) (simp_all add: c f s1)
qed

end
