(* ===== verification/Klock.thy ===== *)
theory Klock
  imports Sched_Switch
begin

text \<open>
  The sleeping locks of the kernel (\<^verbatim>\<open>kernel/concurrency/qlock.c\<close>): the mutual exclusion
  lock \<^verbatim>\<open>QLock\<close> and the reader-writer lock \<^verbatim>\<open>RWlock\<close>, with their queues of waiting processes, on top
  of the scheduler; and the reference counts of \<^verbatim>\<open>ref.c\<close>.

  The spin lock \<^verbatim>\<open>use\<close> of a lock is free whenever an operation starts, since one processor runs
  and the code that holds it is not preempted; only \<open>canqlock\<close> tests it. The results of
  \<^verbatim>\<open>getcallerpc\<close> are parameters. An operation that blocks ends in the state in which another process
  goes on.
\<close>

record qlck =
  q_locked :: bool
  q_head :: "pid option"
  q_tail :: "pid option"
  q_qpc :: uint

record rwlock =
  rw_readers :: int
  rw_writer :: bool
  rw_head :: "pid option"
  rw_tail :: "pid option"
  rw_wproc :: "pid option"
  rw_wpc :: uint

record qlockstats =
  st_rlock :: uint
  st_rlockq :: uint
  st_wlock :: uint
  st_wlockq :: uint
  st_qlock :: uint
  st_qlockq :: uint

record ksys =
  sys_kern :: kern
  sys_q :: "nat \<Rightarrow> qlck"
  sys_rw :: "nat \<Rightarrow> rwlock"
  sys_stats :: qlockstats

definition qnexts :: "kern \<Rightarrow> pid \<Rightarrow> pid option" where
  "qnexts k = (\<lambda>p. p_qnext (k_procs k p))"

definition set_qnexts :: "(pid \<Rightarrow> pid option) \<Rightarrow> kern \<Rightarrow> kern" where
  "set_qnexts n k = k\<lparr>k_procs := (\<lambda>p. (k_procs k p)\<lparr>p_qnext := n p\<rparr>)\<rparr>"

definition setq :: "nat \<Rightarrow> (qlck \<Rightarrow> qlck) \<Rightarrow> ksys \<Rightarrow> ksys" where
  "setq l f s = s\<lparr>sys_q := (sys_q s)(l := f (sys_q s l))\<rparr>"

definition setrw :: "nat \<Rightarrow> (rwlock \<Rightarrow> rwlock) \<Rightarrow> ksys \<Rightarrow> ksys" where
  "setrw l f s = s\<lparr>sys_rw := (sys_rw s)(l := f (sys_rw s l))\<rparr>"

definition setk :: "(kern \<Rightarrow> kern) \<Rightarrow> ksys \<Rightarrow> ksys" where
  "setk f s = s\<lparr>sys_kern := f (sys_kern s)\<rparr>"

definition bump :: "(qlockstats \<Rightarrow> qlockstats) \<Rightarrow> ksys \<Rightarrow> ksys" where
  "bump f s = s\<lparr>sys_stats := f (sys_stats s)\<rparr>"

section \<open>QLock\<close>

definition qlock :: "(nat \<Rightarrow> kern \<Rightarrow> kern) \<Rightarrow> nat \<Rightarrow> uint \<Rightarrow> ksys \<Rightarrow> ksys option" where
  "qlock idle l pc s =
     (let s = bump (\<lambda>t. t\<lparr>st_qlock := st_qlock t + 1\<rparr>) s; q = sys_q s l in
      if \<not> q_locked q then Some (setq l (\<lambda>q. q\<lparr>q_locked := True, q_qpc := pc\<rparr>) s)
      else case k_up (sys_kern s) of
        None \<Rightarrow> None
      | Some up \<Rightarrow> do {
          let s = bump (\<lambda>t. t\<lparr>st_qlockq := st_qlockq t + 1\<rparr>) s;
          let (n, h, t) = add_queue up (qnexts (sys_kern s), q_head q, q_tail q);
          let s = setq l (\<lambda>q. q\<lparr>q_head := h, q_tail := t\<rparr>) (setk (set_qnexts n) s);
          let s = setk (setp up (\<lambda>x. x\<lparr>p_state := Queueing\<rparr>)) s;
          let s = setk (setp up (\<lambda>x. x\<lparr>p_qpc := pc\<rparr>)) s;
          k \<leftarrow> proc_sched idle (sys_kern s);
          Some (s\<lparr>sys_kern := k\<rparr>) })"

text \<open>What a process that had to wait does in \<open>qlock\<close> when it runs again.\<close>

definition qlock_resume :: "nat \<Rightarrow> uint \<Rightarrow> ksys \<Rightarrow> ksys" where
  "qlock_resume l pc = setq l (\<lambda>q. q\<lparr>q_qpc := pc\<rparr>)"

definition canqlock :: "bool \<Rightarrow> nat \<Rightarrow> uint \<Rightarrow> ksys \<Rightarrow> bool \<times> ksys" where
  "canqlock canlock l pc s =
     (if \<not> canlock then (False, s)
      else if q_locked (sys_q s l) then (False, s)
      else (True, setq l (\<lambda>q. q\<lparr>q_locked := True, q_qpc := pc\<rparr>) s))"

definition qunlock :: "nat \<Rightarrow> ksys \<Rightarrow> ksys option" where
  "qunlock l s =
     (case dequeue (qnexts (sys_kern s), q_head (sys_q s l), q_tail (sys_q s l)) of
        Some (p, (n, h, t)) \<Rightarrow> do {
          let s = setq l (\<lambda>q. q\<lparr>q_head := h, q_tail := t\<rparr>) s;
          k \<leftarrow> proc_ready p (sys_kern s);
          Some (s\<lparr>sys_kern := k\<rparr>) }
      | None \<Rightarrow> Some (setq l (\<lambda>q. q\<lparr>q_locked := False, q_qpc := 0\<rparr>) s))"

section \<open>RWlock\<close>

text \<open>The common end of \<open>rlock\<close> and \<open>wlock\<close>: the process joins the queue and another one runs.\<close>

definition rw_wait :: "(nat \<Rightarrow> kern \<Rightarrow> kern) \<Rightarrow> nat \<Rightarrow> pid \<Rightarrow> procstate \<Rightarrow> ksys \<Rightarrow> ksys option" where
  "rw_wait idle l up st s = do {
     let (n, h, t) = add_queue up (qnexts (sys_kern s), rw_head (sys_rw s l), rw_tail (sys_rw s l));
     let s = setrw l (\<lambda>q. q\<lparr>rw_head := h, rw_tail := t\<rparr>) (setk (set_qnexts n) s);
     let s = setk (setp up (\<lambda>x. x\<lparr>p_state := st\<rparr>)) s;
     k \<leftarrow> proc_sched idle (sys_kern s);
     Some (s\<lparr>sys_kern := k\<rparr>) }"

definition rlock :: "(nat \<Rightarrow> kern \<Rightarrow> kern) \<Rightarrow> nat \<Rightarrow> ksys \<Rightarrow> ksys option" where
  "rlock idle l s =
     (let s = bump (\<lambda>t. t\<lparr>st_rlock := st_rlock t + 1\<rparr>) s; q = sys_rw s l in
      if \<not> rw_writer q \<and> rw_head q = None
      then Some (setrw l (\<lambda>q. q\<lparr>rw_readers := rw_readers q + 1\<rparr>) s)
      else case k_up (sys_kern s) of
        None \<Rightarrow> None
      | Some up \<Rightarrow> rw_wait idle l up QueueingR (bump (\<lambda>t. t\<lparr>st_rlockq := st_rlockq t + 1\<rparr>) s))"

definition runlock :: "nat \<Rightarrow> ksys \<Rightarrow> ksys option" where
  "runlock l s =
     (let p = rw_head (sys_rw s l); s = setrw l (\<lambda>q. q\<lparr>rw_readers := rw_readers q - 1\<rparr>) s in
      case p of
        None \<Rightarrow> Some s
      | Some p \<Rightarrow>
          if rw_readers (sys_rw s l) > 0 then Some s
          else if p_state (k_procs (sys_kern s) p) \<noteq> QueueingW then None
          else case dequeue (qnexts (sys_kern s), rw_head (sys_rw s l), rw_tail (sys_rw s l)) of
            None \<Rightarrow> None
          | Some (p, (n, h, t)) \<Rightarrow> do {
              let s = setrw l (\<lambda>q. q\<lparr>rw_head := h, rw_tail := t\<rparr>) s;
              let s = setrw l (\<lambda>q. q\<lparr>rw_writer := True\<rparr>) s;
              k \<leftarrow> proc_ready p (sys_kern s);
              Some (s\<lparr>sys_kern := k\<rparr>) })"

definition wlock :: "(nat \<Rightarrow> kern \<Rightarrow> kern) \<Rightarrow> nat \<Rightarrow> uint \<Rightarrow> ksys \<Rightarrow> ksys option" where
  "wlock idle l pc s =
     (let s = bump (\<lambda>t. t\<lparr>st_wlock := st_wlock t + 1\<rparr>) s; q = sys_rw s l in
      if rw_readers q = 0 \<and> \<not> rw_writer q
      then Some (setrw l (\<lambda>q. q\<lparr>rw_wpc := pc, rw_wproc := k_up (sys_kern s), rw_writer := True\<rparr>) s)
      else case k_up (sys_kern s) of
        None \<Rightarrow> None
      | Some up \<Rightarrow> rw_wait idle l up QueueingW (bump (\<lambda>t. t\<lparr>st_wlockq := st_wlockq t + 1\<rparr>) s))"

text \<open>The loop of \<open>wunlock\<close> that wakes the readers at the head of the queue.\<close>

partial_function (option) wake_readers :: "nat \<Rightarrow> ksys \<Rightarrow> ksys option" where
  "wake_readers l s =
     (case rw_head (sys_rw s l) of
        None \<Rightarrow> Some s
      | Some p \<Rightarrow>
          if p_state (k_procs (sys_kern s) p) = QueueingR then do {
            let s = setrw l (\<lambda>q. q\<lparr>rw_head := p_qnext (k_procs (sys_kern s) p)\<rparr>) s;
            let s = setrw l (\<lambda>q. q\<lparr>rw_readers := rw_readers q + 1\<rparr>) s;
            k \<leftarrow> proc_ready p (sys_kern s);
            wake_readers l (s\<lparr>sys_kern := k\<rparr>) }
          else Some s)"

definition wunlock :: "nat \<Rightarrow> ksys \<Rightarrow> ksys option" where
  "wunlock l s =
     (case rw_head (sys_rw s l) of
        None \<Rightarrow> Some (setrw l (\<lambda>q. q\<lparr>rw_writer := False\<rparr>) s)
      | Some p \<Rightarrow>
          if p_state (k_procs (sys_kern s) p) = QueueingW then
            case dequeue (qnexts (sys_kern s), rw_head (sys_rw s l), rw_tail (sys_rw s l)) of
              None \<Rightarrow> None
            | Some (p, (n, h, t)) \<Rightarrow> do {
                let s = setrw l (\<lambda>q. q\<lparr>rw_head := h, rw_tail := t\<rparr>) s;
                k \<leftarrow> proc_ready p (sys_kern s);
                Some (s\<lparr>sys_kern := k\<rparr>) }
          else if p_state (k_procs (sys_kern s) p) \<noteq> QueueingR then None
          else do {
            s \<leftarrow> wake_readers l s;
            let s = (if rw_head (sys_rw s l) = None then setrw l (\<lambda>q. q\<lparr>rw_tail := None\<rparr>) s else s);
            Some (setrw l (\<lambda>q. q\<lparr>rw_writer := False\<rparr>) s) })"

definition canrlock :: "nat \<Rightarrow> ksys \<Rightarrow> bool \<times> ksys" where
  "canrlock l s =
     (let s = bump (\<lambda>t. t\<lparr>st_rlock := st_rlock t + 1\<rparr>) s; q = sys_rw s l in
      if rw_writer q = False \<and> rw_head q = None
      then (True, setrw l (\<lambda>q. q\<lparr>rw_readers := rw_readers q + 1\<rparr>) s)
      else (False, s))"

section \<open>Reference counts\<close>

definition incref :: "uint \<Rightarrow> int \<times> uint" where
  "incref r = (let r = r + 1 in (sint r, r))"

text \<open>\<open>decref\<close> panics, which is \<open>None\<close>, when the count becomes negative.\<close>

definition decref :: "uint \<Rightarrow> (int \<times> uint) option" where
  "decref r = (let r = r - 1 in if sint r < 0 then None else Some (sint r, r))"

end
