(* ===== verification/Klock_Inv.thy ===== *)
theory Klock_Inv
  imports Klock
begin

text \<open>
  The queues of waiting processes as lists, one for every lock, disjoint because all of
  them are linked through the same field of the process, and the invariant of the two kinds of lock
  with ghost variables for the processes that hold them.
\<close>

section \<open>The queues of all locks\<close>

datatype wq = WQ nat | WR nat

fun wstates :: "wq \<Rightarrow> procstate set" where
  "wstates (WQ l) = {Queueing}"
| "wstates (WR l) = {QueueingR, QueueingW}"

fun ends :: "ksys \<Rightarrow> wq \<Rightarrow> pid option \<times> pid option" where
  "ends s (WQ l) = (q_head (sys_q s l), q_tail (sys_q s l))"
| "ends s (WR l) = (rw_head (sys_rw s l), rw_tail (sys_rw s l))"

definition lock_rep :: "kern \<Rightarrow> (wq \<Rightarrow> pid option \<times> pid option) \<Rightarrow> (wq \<Rightarrow> pid list) \<Rightarrow> bool" where
  "lock_rep k e wl \<longleftrightarrow> (\<forall>w. queue_rep (qnexts k, e w) (wl w)) \<and> (\<forall>w w'. w \<noteq> w' \<longrightarrow> set (wl w) \<inter> set (wl w') = {})
     \<and> (\<forall>w. \<forall>p \<in> set (wl w). states k p \<in> wstates w)"

lemma wstates_waiting: "wstates w \<subseteq> waiting"
  by (cases w) (auto simp: waiting_def)

lemma lock_repD:
  assumes "lock_rep k e wl"
  shows "queue_rep (qnexts k, e w) (wl w)" "p \<in> set (wl w) \<Longrightarrow> states k p \<in> wstates w"
    "p \<in> set (wl w) \<Longrightarrow> w \<noteq> w' \<Longrightarrow> p \<notin> set (wl w')" "distinct (wl w)"
proof -
  show q: "queue_rep (qnexts k, e w) (wl w)" using assms by (simp add: lock_rep_def)
  then show "distinct (wl w)" by (cases "e w") (simp add: queue_rep_def)
  show "p \<in> set (wl w) \<Longrightarrow> states k p \<in> wstates w" using assms by (simp add: lock_rep_def)
  show "p \<in> set (wl w) \<Longrightarrow> w \<noteq> w' \<Longrightarrow> p \<notin> set (wl w')" using assms unfolding lock_rep_def by blast
qed

lemma queue_rep_cong: "\<forall>x \<in> set xs. n x = n' x \<Longrightarrow> queue_rep (n, e) xs = queue_rep (n', e) xs"
  using chain_cong [of xs n n'] by (cases e) (simp add: queue_rep_def)

lemma lock_rep_cong:
  assumes r: "lock_rep k e wl"
    and "\<And>w p. p \<in> set (wl w) \<Longrightarrow> qnexts k' p = qnexts k p" "\<And>w p. p \<in> set (wl w) \<Longrightarrow> states k' p = states k p"
  shows "lock_rep k' e wl"
proof -
  have "queue_rep (qnexts k', e w) (wl w)" for w
    using lock_repD(1) [OF r, of w] queue_rep_cong [of "wl w" "qnexts k'" "qnexts k"] assms(2) by auto
  then show ?thesis using r assms(3) by (auto simp: lock_rep_def)
qed

lemma lock_rep_frame:
  assumes r: "lock_rep k e wl" and f: "wait_frame k k'"
  shows "lock_rep k' e wl"
proof (rule lock_rep_cong [OF r])
  fix w p assume "p \<in> set (wl w)"
  then have "states k p \<in> waiting" using lock_repD(2) [OF r] wstates_waiting by blast
  then show "qnexts k' p = qnexts k p" "states k' p = states k p" using f unfolding wait_frame_def qnexts_def by blast+
qed

lemma lock_rep_enq:
  assumes r: "lock_rep k e wl" and p: "states k p \<notin> waiting" and st: "st \<in> wstates w"
    and q: "add_queue p (qnexts k, e w) = (n, e')"
  shows "lock_rep (setp p (\<lambda>x. x\<lparr>p_state := st\<rparr>) (set_qnexts n k)) (e(w := e')) (wl(w := wl w @ [p]))" (is "lock_rep ?k _ _")
proof -
  have np: "p \<notin> set (wl w')" for w' using lock_repD(2) [OF r] wstates_waiting p by blast
  have en: "queue_rep (n, e') (wl w @ [p])" using waitq.rep_enq [OF lock_repD(1) [OF r] np, of w] q by simp
  have nk: "qnexts ?k = n" by (auto simp: qnexts_def set_qnexts_def fun_eq_iff)
  have sk: "states ?k = (states k)(p := st)" by (auto simp: states_def set_qnexts_def fun_eq_iff)
  have same: "n x = qnexts k x" if "x \<in> set (wl w')" "w' \<noteq> w" for x w'
  proof -
    have "x \<notin> set (wl w)" "x \<noteq> p" using lock_repD(3) [OF r that] np that by auto
    moreover have "snd (e w) = (if wl w = [] then None else Some (last (wl w)))"
      using lock_repD(1) [OF r, of w] by (cases "e w") (simp add: queue_rep_def)
    ultimately show ?thesis using q last_in_set [of "wl w"]
      by (cases "e w") (auto simp: add_queue_def Let_def split: option.splits if_splits)
  qed
  show ?thesis unfolding lock_rep_def nk sk
  proof (intro conjI allI impI ballI)
    fix w' show "queue_rep (n, (e(w := e')) w') ((wl(w := wl w @ [p])) w')"
      using en queue_rep_cong [of "wl w'" n "qnexts k"] same [of _ w'] lock_repD(1) [OF r, of w'] by auto
  next
    fix w1 w2 :: wq assume "w1 \<noteq> w2"
    then show "set ((wl(w := wl w @ [p])) w1) \<inter> set ((wl(w := wl w @ [p])) w2) = {}"
      using np lock_repD(3) [OF r] by auto
  next
    fix w' x assume "x \<in> set ((wl(w := wl w @ [p])) w')"
    then show "((states k)(p := st)) x \<in> wstates w'" using lock_repD(2) [OF r] np st by (auto split: if_splits)
  qed
qed

lemma lock_rep_deq:
  assumes r: "lock_rep k e wl" and w: "wl w = p # ps"
  obtains e' where "dequeue (qnexts k, e w) = Some (p, (qnexts k, e'))" "lock_rep k (e(w := e')) (wl(w := ps))"
    "\<forall>w'. p \<notin> set ((wl(w := ps)) w')" "states k p \<in> wstates w"
proof -
  have q: "queue_rep (qnexts k, e w) (p # ps)" using lock_repD(1) [OF r, of w] w by simp
  then obtain q' where d: "dequeue (qnexts k, e w) = Some (p, q')" "queue_rep q' ps" using waitq.rep_deq_Cons by blast
  then obtain e' where e': "q' = (qnexts k, e')"
    by (cases "e w") (auto simp: dequeue_def Let_def split: option.splits)
  have "lock_rep k (e(w := e')) (wl(w := ps))"
    using r d(2) e' w lock_repD(3) [OF r] unfolding lock_rep_def by (auto; fastforce)
  moreover have "p \<notin> set ((wl(w := ps)) w')" for w' using lock_repD(3) [OF r, of p w w'] lock_repD(4) [OF r, of w] w by auto
  moreover have "states k p \<in> wstates w" using lock_repD(2) [OF r, of p w] w by simp
  ultimately show ?thesis using that d(1) e' by blast
qed

lemma lock_rep_Nil: "lock_rep k e wl \<Longrightarrow> wl w = [] \<Longrightarrow> dequeue (qnexts k, e w) = None \<and> fst (e w) = None"
  using lock_repD(1) [of k e wl w] waitq.rep_deq_Nil by (cases "e w") (auto simp: queue_rep_def)

lemma lock_rep_head: "lock_rep k e wl \<Longrightarrow> fst (e w) = (case wl w of [] \<Rightarrow> None | p # _ \<Rightarrow> Some p)"
  using lock_repD(1) [of k e wl w] by (cases "e w"; cases "wl w") (auto simp: queue_rep_def)

lemma head_waiting: "lock_rep k e wl \<Longrightarrow> wl w \<noteq> [] \<Longrightarrow> states k (hd (wl w)) \<in> waiting"
  using lock_repD(2) [of k e wl "hd (wl w)" w] wstates_waiting by auto

text \<open>A process that has left its queue is made ready.\<close>

lemma lock_rep_ready:
  assumes r: "lock_rep k e wl" and k: "kinv k" and p: "\<forall>w. p \<notin> set (wl w)" "states k p \<in> waiting"
  obtains k' where "proc_ready p k = Some k'" "kinv k'" "lock_rep k' e wl" "states k' = (states k)(p := Ready)" "k_up k' = k_up k"
    "kern_core k' = kern_core k"
proof -
  have "states k p \<noteq> Ready" "p_r (k_procs k p) = None" using p(2) kinvD(5) [OF k, of p] by (auto simp: waiting_def)
  then obtain k' where k': "proc_ready p k = Some k'" "kinv k'" "kern_core k' = kern_core k" "states k' = (states k)(p := Ready)"
    using kinv_ready [OF k] by blast
  have "lock_rep k' e wl"
    by (rule lock_rep_cong [OF r]) (use p(1) in \<open>auto simp: k'(4) qnexts_def kern_coreD [OF k'(3)]\<close>)
  then show ?thesis using that k' kern_coreD(1) [OF k'(3)] by blast
qed

end
