(* ===== verification/Klock_Ops.thy ===== *)
theory Klock_Ops
  imports Klock_Inv
begin

text \<open>
  The lock operations keep the lock invariant, and what each of them does to the queues
  and to the processes that hold the locks.
\<close>

section \<open>The invariant\<close>

text \<open>
  The ghost state: the processes for which a lock operation has returned or will return
  when they run again, and that have not released the lock.
\<close>

record ghost =
  g_own :: "nat \<Rightarrow> pid list"
  g_rd :: "nat \<Rightarrow> pid list"
  g_wr :: "nat \<Rightarrow> pid list"

definition q_ok :: "qlck \<Rightarrow> pid list \<Rightarrow> pid list \<Rightarrow> bool" where
  "q_ok q xs own \<longleftrightarrow> (if q_locked q then length own = 1 else own = [] \<and> xs = [])"

definition rw_ok :: "rwlock \<Rightarrow> (pid \<Rightarrow> procstate) \<Rightarrow> pid list \<Rightarrow> pid list \<Rightarrow> pid list \<Rightarrow> bool" where
  "rw_ok q st xs rds wrs \<longleftrightarrow> rw_readers q = int (length rds) \<and> (if rw_writer q then length wrs = 1 else wrs = [])
     \<and> (rds = [] \<or> wrs = []) \<and> (wrs = [] \<and> xs \<noteq> [] \<longrightarrow> rds \<noteq> [] \<and> st (hd xs) = QueueingW)"

definition lock_inv :: "ksys \<Rightarrow> ghost \<Rightarrow> (wq \<Rightarrow> pid list) \<Rightarrow> bool" where
  "lock_inv s g wl \<longleftrightarrow> sched_inv (sys_kern s) \<and> lock_rep (sys_kern s) (ends s) wl
     \<and> (\<forall>l. q_ok (sys_q s l) (wl (WQ l)) (g_own g l))
     \<and> (\<forall>l. rw_ok (sys_rw s l) (states (sys_kern s)) (wl (WR l)) (g_rd g l) (g_wr g l))"

lemma lock_invD:
  assumes "lock_inv s g wl"
  shows "sched_inv (sys_kern s)" "kinv (sys_kern s)" "lock_rep (sys_kern s) (ends s) wl"
    "q_ok (sys_q s l) (wl (WQ l)) (g_own g l)"
    "rw_ok (sys_rw s l) (states (sys_kern s)) (wl (WR l)) (g_rd g l) (g_wr g l)"
  using assms by (simp_all add: lock_inv_def sched_inv_def)

lemma sys_simps [simp]:
  "sys_kern (setq l f s) = sys_kern s" "sys_q (setq l f s) = (sys_q s)(l := f (sys_q s l))" "sys_rw (setq l f s) = sys_rw s"
  "sys_kern (setrw l h s) = sys_kern s" "sys_q (setrw l h s) = sys_q s" "sys_rw (setrw l h s) = (sys_rw s)(l := h (sys_rw s l))"
  "sys_kern (setk c s) = c (sys_kern s)" "sys_q (setk c s) = sys_q s" "sys_rw (setk c s) = sys_rw s"
  "sys_kern (bump b s) = sys_kern s" "sys_q (bump b s) = sys_q s" "sys_rw (bump b s) = sys_rw s"
  by (simp_all add: setq_def setrw_def setk_def bump_def)

lemma ends_cong:
  assumes "\<And>l. (q_head (sys_q s' l), q_tail (sys_q s' l)) = (q_head (sys_q s l), q_tail (sys_q s l))"
    and "\<And>l. (rw_head (sys_rw s' l), rw_tail (sys_rw s' l)) = (rw_head (sys_rw s l), rw_tail (sys_rw s l))"
  shows "ends s' = ends s"
proof
  fix w show "ends s' w = ends s w" using assms by (cases w) simp_all
qed

lemma ends_setq:
  "ends (setq l (\<lambda>q. q\<lparr>q_head := h, q_tail := t\<rparr>) s) = (ends s)(WQ l := (h, t))"
proof
  fix w show "ends (setq l (\<lambda>q. q\<lparr>q_head := h, q_tail := t\<rparr>) s) w = ((ends s)(WQ l := (h, t))) w" by (cases w) simp_all
qed

lemma ends_setrw:
  "ends (setrw l (\<lambda>q. q\<lparr>rw_head := h, rw_tail := t\<rparr>) s) = (ends s)(WR l := (h, t))"
proof
  fix w show "ends (setrw l (\<lambda>q. q\<lparr>rw_head := h, rw_tail := t\<rparr>) s) w = ((ends s)(WR l := (h, t))) w" by (cases w) simp_all
qed

text \<open>A part of the state that has not changed keeps its part of the invariant.\<close>

lemma rw_ok_cong:
  assumes "rw_ok q st xs rds wrs" and "xs \<noteq> [] \<Longrightarrow> st' (hd xs) = st (hd xs)"
  shows "rw_ok q st' xs rds wrs"
  using assms by (cases xs) (auto simp: rw_ok_def)

lemma frame_state: "lock_rep k e wl \<Longrightarrow> wait_frame k k' \<Longrightarrow> xs = wl w \<Longrightarrow> xs \<noteq> [] \<Longrightarrow> states k' (hd xs) = states k (hd xs)"
proof -
  assume r: "lock_rep k e wl" and f: "wait_frame k k'" and x: "xs = wl w" "xs \<noteq> []"
  have "states k (hd xs) \<in> waiting" using lock_repD(2) [OF r, of "hd xs" w] wstates_waiting x by auto
  then show ?thesis using f unfolding wait_frame_def by blast
qed

text \<open>Steps of the kernel that do not touch the locks.\<close>

lemma lock_inv_frame:
  assumes i: "lock_inv s g wl" and k: "sched_inv k" "wait_frame (sys_kern s) k"
  shows "lock_inv (s\<lparr>sys_kern := k\<rparr>) g wl"
proof -
  note d = lock_invD [OF i]
  have e: "ends (s\<lparr>sys_kern := k\<rparr>) = ends s" by (rule ends_cong) simp_all
  have "rw_ok (sys_rw s l) (states k) (wl (WR l)) (g_rd g l) (g_wr g l)" for l
    using d(5) [of l] by (rule rw_ok_cong) (use frame_state [OF d(3) k(2) refl, of "WR l"] in simp)
  then show ?thesis using k(1) lock_rep_frame [OF d(3) k(2)] d(4) by (simp add: lock_inv_def e)
qed

section \<open>Waiting for a lock\<close>

text \<open>The process joins a queue, in a waiting state, and another process runs.\<close>

lemma wait_and_switch:
  assumes int: "interrupts_ok idle" and k: "sched_inv k" "k_up k = Some up" "p_nlocks (k_procs k up) = 0"
    and r: "lock_rep k e wl" and st: "st \<in> wstates w" and q: "add_queue up (qnexts k, e w) = (n, e')"
    and k1: "k1 = setp up (\<lambda>x. x\<lparr>p_state := st\<rparr>) (set_qnexts n k) \<or> k1 = setp up (\<lambda>x. x\<lparr>p_qpc := pc\<rparr>) (setp up (\<lambda>x. x\<lparr>p_state := st\<rparr>) (set_qnexts n k))"
    and run: "proc_sched idle k1 = Some k'"
  shows "sched_inv k'" "lock_rep k' (e(w := e')) (wl(w := wl w @ [up]))"
    "\<And>p. states k p \<in> waiting \<Longrightarrow> states k' p = states k p" "states k' up = st" "k_up k' \<noteq> None"
proof -
  have run': "states k up = Running" using k by (simp add: sched_inv_def)
  define k2 where "k2 = setp up (\<lambda>x. x\<lparr>p_state := st\<rparr>) (set_qnexts n k)"
  have st2: "st \<in> waiting" using st wstates_waiting by blast
  then have stn: "st \<noteq> Ready" "st \<noteq> Running" "st \<noteq> Wakeme" by (auto simp: waiting_def)
  have r2: "lock_rep k2 (e(w := e')) (wl(w := wl w @ [up]))"
    unfolding k2_def using lock_rep_enq [OF r _ st q] run' by (simp add: waiting_def)
  have s2: "states k2 = (states k)(up := st)" by (auto simp: k2_def states_def set_qnexts_def fun_eq_iff)
  have p2: "prios k2 = prios k" "rnexts k2 = rnexts k"
    by (auto simp: k2_def prios_def rnexts_def set_qnexts_def fun_eq_iff)
  have o: "k_runq k2 = k_runq k" "k_nrdy k2 = k_nrdy k" "k_runvec k2 = k_runvec k" "k_up k2 = k_up k" "k_runqbusy k2 = k_runqbusy k"
    "k_rendez k2 = k_rendez k"
    by (simp_all add: k2_def set_qnexts_def)
  have f: "p_basepri (k_procs k2 p) = p_basepri (k_procs k p)" "p_cpu (k_procs k2 p) = p_cpu (k_procs k p)"
    "p_r (k_procs k2 p) = p_r (k_procs k p)" "p_nlocks (k_procs k2 p) = p_nlocks (k_procs k p)" for p
    by (simp_all add: k2_def set_qnexts_def)
  have ki: "kinv k" using k by (simp add: sched_inv_def)
  have only: "q = up" if "states k q = Running" for q using kinvD(2) [OF ki that] k(2) by simp
  have "sched_ok k2 qs" if "sched_ok k qs" for qs
    using that by (rule sched_ok_same) (use o p2 sched_okD(7) [OF that] run' stn in \<open>auto simp: s2 f\<close>)
  then have ok2: "\<exists>qs'. sched_ok k2 qs'" if "sched_ok k qs" for qs using that by blast
  have ki2: "kinv k2"
  proof (rule kinv_same [OF ki ok2])
    fix q assume "states k2 q = Running"
    then show "k_up k2 = Some q" using only [of q] stn o(4) k(2) by (cases "q = up") (auto simp: s2)
  next
    fix q assume "k_up k2 \<noteq> Some q"
    then show "p_cpu (k_procs k2 q) = None" using kinvD(3) [OF ki, of q] o(4) by (simp add: f)
  next
    fix q assume "states k q = Wakeme"
    then show "states k2 q = Wakeme" using run' by (auto simp: s2)
  qed (simp_all add: o f)
  have k12: "kview k1 = kview k2" "wait_frame k2 k1" "states k1 = states k2" "p_nlocks (k_procs k1 up) = 0"
    using k1 k(3) by (auto simp: k2_def kview_def pview_def fun_eq_iff wait_frame_def states_def set_qnexts_def)
  have "kinv k1" using ki2 kinv_view(1) [OF k12(1)] by simp
  moreover have "k_up k1 = Some up" using k12(1) o k(2) by (simp add: kview_def)
  moreover have "states k1 up \<noteq> Ready" using stn by (simp add: k12(3) s2)
  moreover have "\<not> delay_sched up k1" using k12(4) by (simp add: delay_sched_def Let_def)
  ultimately have inv: "sched_inv k' \<and> wait_frame k1 k' \<and> k_up k' \<noteq> None" using proc_sched_inv [OF int] run by simp
  then have wf: "wait_frame k2 k'" using wait_frame_trans [OF k12(2)] by blast
  show "sched_inv k'" "k_up k' \<noteq> None" using inv by simp_all
  show "lock_rep k' (e(w := e')) (wl(w := wl w @ [up]))" using lock_rep_frame [OF r2 wf] .
  have "states k2 up \<in> waiting" using st2 by (simp add: s2)
  then show "states k' up = st" using wf s2 unfolding wait_frame_def by fastforce
  show "states k' p = states k p" if "states k p \<in> waiting" for p
  proof -
    have "states k2 p = states k p" using that run' by (auto simp: s2 waiting_def)
    then show ?thesis using wf that unfolding wait_frame_def by metis
  qed
qed

section \<open>QLock\<close>

definition g_qlock :: "nat \<Rightarrow> ksys \<Rightarrow> ghost \<Rightarrow> ghost" where
  "g_qlock l s g = (case k_up (sys_kern s) of
       None \<Rightarrow> g
     | Some up \<Rightarrow> if q_locked (sys_q s l) then g else g\<lparr>g_own := (g_own g)(l := up # g_own g l)\<rparr>)"

text \<open>The process releases the lock; the one at the head of the queue now returns from \<open>qlock\<close>.\<close>

definition g_qunlock :: "nat \<Rightarrow> ksys \<Rightarrow> ghost \<Rightarrow> ghost" where
  "g_qunlock l s g = (case k_up (sys_kern s) of
       None \<Rightarrow> g
     | Some up \<Rightarrow> g\<lparr>g_own := (g_own g)(l := (case q_head (sys_q s l) of None \<Rightarrow> [] | Some p \<Rightarrow> [p]) @ remove1 up (g_own g l))\<rparr>)"

lemma qlock_inv:
  assumes int: "interrupts_ok idle" and i: "lock_inv s g wl" and up: "k_up (sys_kern s) = Some up"
    "p_nlocks (k_procs (sys_kern s) up) = 0" and run: "qlock idle l pc s = Some s'"
  shows "lock_inv s' (g_qlock l s g) (if q_locked (sys_q s l) then wl(WQ l := wl (WQ l) @ [up]) else wl)"
proof (cases "q_locked (sys_q s l)")
  case False
  let ?s = "setq l (\<lambda>q. q\<lparr>q_locked := True, q_qpc := pc\<rparr>) (bump (\<lambda>t. t\<lparr>st_qlock := st_qlock t + 1\<rparr>) s)"
  note d = lock_invD [OF i]
  have e: "s' = ?s" using run False by (simp add: qlock_def Let_def)
  have "ends ?s = ends s" by (rule ends_cong) simp_all
  then show ?thesis using i False up d(4) [of l] by (auto simp: lock_inv_def e g_qlock_def q_ok_def)
next
  case True
  note d = lock_invD [OF i]
  let ?k = "sys_kern s"
  obtain n e' where q: "add_queue up (qnexts ?k, ends s (WQ l)) = (n, e')" by (metis surj_pair)
  obtain h t where ht: "e' = (h, t)" by (cases e')
  define k1 where "k1 = setp up (\<lambda>x. x\<lparr>p_qpc := pc\<rparr>) (setp up (\<lambda>x. x\<lparr>p_state := Queueing\<rparr>) (set_qnexts n ?k))"
  obtain k' where ps: "proc_sched idle k1 = Some k'" and s': "sys_kern s' = k'" "sys_rw s' = sys_rw s"
      "sys_q s' = sys_q (setq l (\<lambda>q. q\<lparr>q_head := h, q_tail := t\<rparr>) s)"
    using run True up(1) q ht by (auto simp: qlock_def Let_def k1_def split: bind_splits)
  note w = wait_and_switch [OF int d(1) up d(3) _ q, where st = Queueing and pc = pc, OF _ _ ps]
  have w': "sched_inv k'" "lock_rep k' ((ends s)(WQ l := e')) (wl(WQ l := wl (WQ l) @ [up]))"
    "\<And>p. states ?k p \<in> waiting \<Longrightarrow> states k' p = states ?k p"
    using w by (simp_all add: k1_def)
  have "ends s' = ends (setq l (\<lambda>q. q\<lparr>q_head := h, q_tail := t\<rparr>) s)" by (rule ends_cong) (simp_all add: s')
  then have en: "ends s' = (ends s)(WQ l := e')" by (simp add: ends_setq ht)
  have "rw_ok (sys_rw s j) (states k') (wl (WR j)) (g_rd g j) (g_wr g j)" for j
    using d(5) [of j]
    by (rule rw_ok_cong) (rule w'(3) [OF head_waiting [OF d(3)]])
  then show ?thesis using w' d(4) True up(1) by (auto simp: lock_inv_def s' en g_qlock_def q_ok_def)
qed

lemma qlock_returns:
  assumes int: "interrupts_ok idle" and i: "lock_inv s g wl" and up: "k_up (sys_kern s) = Some up" and free: "\<not> q_locked (sys_q s l)"
  shows "\<exists>s'. qlock idle l pc s = Some s' \<and> k_up (sys_kern s') = Some up"
  using up free by (simp add: qlock_def Let_def)

lemma qunlock_inv:
  assumes i: "lock_inv s g wl" and up: "k_up (sys_kern s) = Some up" "up \<in> set (g_own g l)"
  obtains s' where "qunlock l s = Some s'" "lock_inv s' (g_qunlock l s g) (wl(WQ l := tl (wl (WQ l))))"
    "k_up (sys_kern s') = Some up" "g_own (g_qunlock l s g) l = take 1 (wl (WQ l))"
    "states (sys_kern s') = (case wl (WQ l) of [] \<Rightarrow> states (sys_kern s) | p # _ \<Rightarrow> (states (sys_kern s))(p := Ready))"
proof -
  note d = lock_invD [OF i]
  let ?k = "sys_kern s"
  have own: "g_own g l = [up]" "q_locked (sys_q s l)"
    using d(4) [of l] up(2) by (auto simp: q_ok_def length_Suc_conv split: if_splits)
  have hd: "q_head (sys_q s l) = (case wl (WQ l) of [] \<Rightarrow> None | p # _ \<Rightarrow> Some p)"
    using lock_rep_head [OF d(3), of "WQ l"] by simp
  have gown: "g_own (g_qunlock l s g) = (g_own g)(l := take 1 (wl (WQ l)))"
    using up own hd by (auto simp: g_qunlock_def split: list.splits)
  have grw: "g_rd (g_qunlock l s g) = g_rd g" "g_wr (g_qunlock l s g) = g_wr g"
    by (auto simp: g_qunlock_def split: option.splits)
  show ?thesis
  proof (cases "wl (WQ l)")
    case Nil
    let ?s = "setq l (\<lambda>q. q\<lparr>q_locked := False, q_qpc := 0\<rparr>) s"
    have run: "qunlock l s = Some ?s" using lock_rep_Nil [OF d(3) Nil] by (auto simp: qunlock_def)
    have "ends ?s = ends s" by (rule ends_cong) simp_all
    then have "lock_inv ?s (g_qunlock l s g) (wl(WQ l := tl (wl (WQ l))))"
      using i Nil d(4) by (simp add: lock_inv_def gown grw fun_upd_idem) (simp add: q_ok_def)
    then show ?thesis using that [OF run] Nil up gown by simp
  next
    case (Cons p ps)
    obtain e' where dq: "dequeue (qnexts ?k, ends s (WQ l)) = Some (p, (qnexts ?k, e'))"
      and r: "lock_rep ?k ((ends s)(WQ l := e')) (wl(WQ l := ps))"
      and np: "\<forall>w'. p \<notin> set ((wl(WQ l := ps)) w')" and st: "states ?k p \<in> wstates (WQ l)"
      using lock_rep_deq [OF d(3) Cons] .
    obtain h t where ht: "e' = (h, t)" by (cases e')
    have pw: "states ?k p \<in> waiting" using st wstates_waiting by blast
    obtain k' where k': "proc_ready p ?k = Some k'" "kinv k'" "lock_rep k' ((ends s)(WQ l := e')) (wl(WQ l := ps))"
        "states k' = (states ?k)(p := Ready)" "k_up k' = k_up ?k"
      using lock_rep_ready [OF r d(2) np pw] .
    let ?s = "setq l (\<lambda>q. q\<lparr>q_head := h, q_tail := t\<rparr>) s\<lparr>sys_kern := k'\<rparr>"
    have run: "qunlock l s = Some ?s" using dq ht k'(1) by (simp add: qunlock_def)
    have "ends ?s = ends (setq l (\<lambda>q. q\<lparr>q_head := h, q_tail := t\<rparr>) s)" by (rule ends_cong) simp_all
    then have en: "ends ?s = (ends s)(WQ l := e')" by (simp add: ends_setq ht)
    have "states ?k up = Running" using d(1) up(1) by (simp add: sched_inv_def)
    then have "p \<noteq> up" using pw by (auto simp: waiting_def)
    then have si: "sched_inv k'" using k' d(1) up(1) by (auto simp: sched_inv_def)
    have "rw_ok (sys_rw s j) (states k') (wl (WR j)) (g_rd g j) (g_wr g j)" for j
      using d(5) [of j] by (rule rw_ok_cong) (use np [THEN spec, of "WR j"] in \<open>auto simp: k'(4)\<close>)
    then have "lock_inv ?s (g_qunlock l s g) (wl(WQ l := tl (wl (WQ l))))"
      using si k'(3) d(4) own Cons unfolding lock_inv_def en
      by (simp add: gown grw) (simp add: q_ok_def)
    then show ?thesis using that [OF run] Cons up gown k' by simp
  qed
qed

section \<open>RWlock\<close>

definition g_rlock :: "nat \<Rightarrow> ksys \<Rightarrow> ghost \<Rightarrow> ghost" where
  "g_rlock l s g = (case k_up (sys_kern s) of
       None \<Rightarrow> g
     | Some up \<Rightarrow> if \<not> rw_writer (sys_rw s l) \<and> rw_head (sys_rw s l) = None
         then g\<lparr>g_rd := (g_rd g)(l := up # g_rd g l)\<rparr> else g)"

definition g_wlock :: "nat \<Rightarrow> ksys \<Rightarrow> ghost \<Rightarrow> ghost" where
  "g_wlock l s g = (case k_up (sys_kern s) of
       None \<Rightarrow> g
     | Some up \<Rightarrow> if rw_readers (sys_rw s l) = 0 \<and> \<not> rw_writer (sys_rw s l)
         then g\<lparr>g_wr := (g_wr g)(l := up # g_wr g l)\<rparr> else g)"

definition g_runlock :: "nat \<Rightarrow> ksys \<Rightarrow> ghost \<Rightarrow> ghost" where
  "g_runlock l s g = (case k_up (sys_kern s) of
       None \<Rightarrow> g
     | Some up \<Rightarrow>
         let g = g\<lparr>g_rd := (g_rd g)(l := remove1 up (g_rd g l))\<rparr> in
         case rw_head (sys_rw s l) of
           None \<Rightarrow> g
         | Some p \<Rightarrow> if rw_readers (sys_rw s l) > 1 then g else g\<lparr>g_wr := (g_wr g)(l := p # g_wr g l)\<rparr>)"

text \<open>\<open>xs\<close> is the queue of the lock: either its first process, a writer, or the readers before the
  first writer now hold the lock.\<close>

definition g_wunlock :: "nat \<Rightarrow> pid list \<Rightarrow> ksys \<Rightarrow> ghost \<Rightarrow> ghost" where
  "g_wunlock l xs s g = (case k_up (sys_kern s) of
       None \<Rightarrow> g
     | Some up \<Rightarrow>
         let g = g\<lparr>g_wr := (g_wr g)(l := remove1 up (g_wr g l))\<rparr>;
             st = states (sys_kern s)
         in if xs \<noteq> [] \<and> st (hd xs) = QueueingW then g\<lparr>g_wr := (g_wr g)(l := hd xs # g_wr g l)\<rparr>
            else g\<lparr>g_rd := (g_rd g)(l := rev (takeWhile (\<lambda>p. st p = QueueingR) xs) @ g_rd g l)\<rparr>)"

lemma ends_eqI: "sys_q s' = sys_q s \<Longrightarrow> sys_rw s' = sys_rw s \<Longrightarrow> ends s' = ends s"
  by (rule ends_cong) simp_all

lemma lock_inv_cong: "lock_inv s g wl \<Longrightarrow> sys_kern s' = sys_kern s \<Longrightarrow> sys_q s' = sys_q s \<Longrightarrow> sys_rw s' = sys_rw s \<Longrightarrow> lock_inv s' g wl"
  using ends_eqI [of s' s] by (simp add: lock_inv_def)

lemma rw_wait_inv:
  assumes int: "interrupts_ok idle" and i: "lock_inv s g wl" and up: "k_up (sys_kern s) = Some up"
    "p_nlocks (k_procs (sys_kern s) up) = 0" and st: "st \<in> {QueueingR, QueueingW}"
    and w: "g_wr g l \<noteq> [] \<or> wl (WR l) \<noteq> [] \<or> g_rd g l \<noteq> [] \<and> st = QueueingW"
    and run: "rw_wait idle l up st s = Some s'"
  shows "lock_inv s' g (wl(WR l := wl (WR l) @ [up]))"
proof -
  note d = lock_invD [OF i]
  let ?k = "sys_kern s"
  obtain n e' where q: "add_queue up (qnexts ?k, ends s (WR l)) = (n, e')" by (metis surj_pair)
  obtain h t where ht: "e' = (h, t)" by (cases e')
  define k1 where "k1 = setp up (\<lambda>x. x\<lparr>p_state := st\<rparr>) (set_qnexts n ?k)"
  obtain k' where ps: "proc_sched idle k1 = Some k'" and s': "sys_kern s' = k'" "sys_q s' = sys_q s"
      "sys_rw s' = sys_rw (setrw l (\<lambda>q. q\<lparr>rw_head := h, rw_tail := t\<rparr>) s)"
    using run q ht by (auto simp: rw_wait_def Let_def k1_def split: bind_splits)
  have w': "sched_inv k'" "lock_rep k' ((ends s)(WR l := e')) (wl(WR l := wl (WR l) @ [up]))"
    "\<And>p. states ?k p \<in> waiting \<Longrightarrow> states k' p = states ?k p" "states k' up = st"
    using wait_and_switch [OF int d(1) up d(3) _ q _ ps, where st = st] st by (simp_all add: k1_def)
  have "ends s' = ends (setrw l (\<lambda>q. q\<lparr>rw_head := h, rw_tail := t\<rparr>) s)" by (rule ends_eqI) (simp_all add: s')
  then have en: "ends s' = (ends s)(WR l := e')" by (simp add: ends_setrw ht)
  have old: "rw_ok (sys_rw s j) (states k') (wl (WR j)) (g_rd g j) (g_wr g j)" for j
    using d(5) [of j] by (rule rw_ok_cong) (rule w'(3) [OF head_waiting [OF d(3)]])
  have "rw_ok (sys_rw s' j) (states k') ((wl(WR l := wl (WR l) @ [up])) (WR j)) (g_rd g j) (g_wr g j)" for j
    using old [of j] w w'(4) by (auto simp: s' rw_ok_def hd_append)
  then show ?thesis using w' d(4) by (simp add: lock_inv_def s' en)
qed

lemma rlock_inv:
  assumes int: "interrupts_ok idle" and i: "lock_inv s g wl" and up: "k_up (sys_kern s) = Some up"
    "p_nlocks (k_procs (sys_kern s) up) = 0" and run: "rlock idle l s = Some s'"
  shows "\<exists>wl'. lock_inv s' (g_rlock l s g) wl' \<and> (\<forall>j. wl' (WQ j) = wl (WQ j))"
proof (cases "\<not> rw_writer (sys_rw s l) \<and> rw_head (sys_rw s l) = None")
  case True
  let ?s = "setrw l (\<lambda>q. q\<lparr>rw_readers := rw_readers q + 1\<rparr>) (bump (\<lambda>t. t\<lparr>st_rlock := st_rlock t + 1\<rparr>) s)"
  note d = lock_invD [OF i]
  have e: "s' = ?s" using run True by (simp add: rlock_def Let_def)
  have "ends ?s = ends s" by (rule ends_cong) simp_all
  moreover have "wl (WR l) = []" using lock_rep_head [OF d(3), of "WR l"] True by (auto split: list.splits)
  ultimately have "lock_inv s' (g_rlock l s g) wl" using i True up(1) d(5) [of l]
    by (auto simp: lock_inv_def e g_rlock_def rw_ok_def)
  then show ?thesis by blast
next
  case False
  let ?s = "bump (\<lambda>t. t\<lparr>st_rlockq := st_rlockq t + 1\<rparr>) (bump (\<lambda>t. t\<lparr>st_rlock := st_rlock t + 1\<rparr>) s)"
  note d = lock_invD [OF i]
  have "lock_inv ?s g wl" by (rule lock_inv_cong [OF i]) simp_all
  moreover have "rw_wait idle l up QueueingR ?s = Some s'" using run False up(1) by (auto simp: rlock_def Let_def)
  moreover have "g_wr g l \<noteq> [] \<or> wl (WR l) \<noteq> []"
    using False d(5) [of l] lock_rep_head [OF d(3), of "WR l"] by (auto simp: rw_ok_def split: if_splits)
  ultimately have "lock_inv s' g (wl(WR l := wl (WR l) @ [up]))" using rw_wait_inv [OF int, of ?s g wl up QueueingR l s'] up by auto
  then show ?thesis using False up(1) by (intro exI [of _ "wl(WR l := wl (WR l) @ [up])"]) (auto simp: g_rlock_def)
qed

lemma wlock_inv:
  assumes int: "interrupts_ok idle" and i: "lock_inv s g wl" and up: "k_up (sys_kern s) = Some up"
    "p_nlocks (k_procs (sys_kern s) up) = 0" and run: "wlock idle l pc s = Some s'"
  shows "\<exists>wl'. lock_inv s' (g_wlock l s g) wl' \<and> (\<forall>j. wl' (WQ j) = wl (WQ j))"
proof (cases "rw_readers (sys_rw s l) = 0 \<and> \<not> rw_writer (sys_rw s l)")
  case True
  let ?s = "setrw l (\<lambda>q. q\<lparr>rw_wpc := pc, rw_wproc := Some up, rw_writer := True\<rparr>) (bump (\<lambda>t. t\<lparr>st_wlock := st_wlock t + 1\<rparr>) s)"
  note d = lock_invD [OF i]
  have e: "s' = ?s" using run True up(1) by (simp add: wlock_def Let_def)
  have "ends ?s = ends s" by (rule ends_cong) simp_all
  then have "lock_inv s' (g_wlock l s g) wl" using i True up(1) d(5) [of l]
    by (auto simp: lock_inv_def e g_wlock_def rw_ok_def)
  then show ?thesis by blast
next
  case False
  let ?s = "bump (\<lambda>t. t\<lparr>st_wlockq := st_wlockq t + 1\<rparr>) (bump (\<lambda>t. t\<lparr>st_wlock := st_wlock t + 1\<rparr>) s)"
  note d = lock_invD [OF i]
  have "lock_inv ?s g wl" by (rule lock_inv_cong [OF i]) simp_all
  moreover have "rw_wait idle l up QueueingW ?s = Some s'" using run False up(1) by (auto simp: wlock_def Let_def)
  moreover have "g_wr g l \<noteq> [] \<or> g_rd g l \<noteq> []" using False d(5) [of l] by (auto simp: rw_ok_def split: if_splits)
  ultimately have "lock_inv s' g (wl(WR l := wl (WR l) @ [up]))" using rw_wait_inv [OF int, of ?s g wl up QueueingW l s'] up by auto
  then show ?thesis using False up(1) by (intro exI [of _ "wl(WR l := wl (WR l) @ [up])"]) (auto simp: g_wlock_def)
qed

end
