(* ===== verification/Klock_Release.thy ===== *)
theory Klock_Release
  imports Klock_Ops
begin

text \<open>Releasing a reader-writer lock: handing it over to a writer, or to all readers that
  wait before the first writer.\<close>

section \<open>Handing over to the first waiting process\<close>

lemma lock_handover:
  assumes k: "sched_inv k" "k_up k = Some up" and r: "lock_rep k e wl" and xs: "wl w = p # ps"
  obtains e' k' where "dequeue (qnexts k, e w) = Some (p, (qnexts k, e'))" "proc_ready p k = Some k'" "sched_inv k'"
    "lock_rep k' (e(w := e')) (wl(w := ps))" "states k' = (states k)(p := Ready)" "k_up k' = Some up"
    "\<forall>w'. p \<notin> set ((wl(w := ps)) w')" "kern_core k' = kern_core k"
proof -
  have ki: "kinv k" "states k up = Running" using k by (simp_all add: sched_inv_def)
  obtain e' where dq: "dequeue (qnexts k, e w) = Some (p, (qnexts k, e'))"
    and r': "lock_rep k (e(w := e')) (wl(w := ps))"
    and np: "\<forall>w'. p \<notin> set ((wl(w := ps)) w')" and st: "states k p \<in> wstates w"
    using lock_rep_deq [OF r xs] .
  have pw: "states k p \<in> waiting" using st wstates_waiting by blast
  obtain k' where k': "proc_ready p k = Some k'" "kinv k'" "lock_rep k' (e(w := e')) (wl(w := ps))"
      "states k' = (states k)(p := Ready)" "k_up k' = k_up k" "kern_core k' = kern_core k"
    using lock_rep_ready [OF r' ki(1) np pw] .
  have "p \<noteq> up" using pw ki(2) by (auto simp: waiting_def)
  then have "sched_inv k'" using k' ki k by (auto simp: sched_inv_def)
  then show ?thesis using that [OF dq k'(1)] k' np k(2) by simp
qed

lemma rw_ok_other:
  assumes "rw_ok q st xs rds wrs" "st' = st(p := Ready)" "p \<notin> set xs"
  shows "rw_ok q st' xs rds wrs"
  using assms by (intro rw_ok_cong [OF assms(1)]) auto

section \<open>runlock\<close>

lemma runlock_inv:
  assumes i: "lock_inv s g wl" and up: "k_up (sys_kern s) = Some up" "up \<in> set (g_rd g l)"
  obtains s' wl' where "runlock l s = Some s'" "lock_inv s' (g_runlock l s g) wl'" "\<forall>j. wl' (WQ j) = wl (WQ j)"
proof -
  note d = lock_invD [OF i]
  let ?s = "setrw l (\<lambda>q. q\<lparr>rw_readers := rw_readers q - 1\<rparr>) s" and ?k = "sys_kern s"
  have hd: "rw_head (sys_rw s l) = (case wl (WR l) of [] \<Rightarrow> None | p # _ \<Rightarrow> Some p)"
    using lock_rep_head [OF d(3), of "WR l"] by simp
  have rds: "rw_readers (sys_rw s l) = int (length (g_rd g l))" "length (g_rd g l) > 0" "g_wr g l = []" "\<not> rw_writer (sys_rw s l)"
    using d(5) [of l] up(2) by (auto simp: rw_ok_def split: if_splits)
  have len: "int (length (remove1 up (g_rd g l))) = int (length (g_rd g l)) - 1"
    using up(2) rds(2) by (simp add: length_remove1 of_nat_diff Suc_leI)
  have es: "ends ?s = ends s" by (rule ends_cong) simp_all
  show ?thesis
  proof (cases "wl (WR l)")
    case Nil
    then have "runlock l s = Some ?s" using hd by (simp add: runlock_def)
    moreover have "lock_inv ?s (g_runlock l s g) wl"
      using i Nil hd up rds len by (simp add: lock_inv_def es g_runlock_def Let_def) (simp add: rw_ok_def)
    ultimately show ?thesis using that by blast
  next
    case (Cons p ps)
    have pw: "states ?k p = QueueingW" using d(5) [of l] rds Cons by (simp add: rw_ok_def)
    show ?thesis
    proof (cases "rw_readers (sys_rw s l) > 1")
      case True
      have "runlock l s = Some ?s" using True hd Cons by (simp add: runlock_def)
      moreover have "remove1 up (g_rd g l) \<noteq> []" using len True rds by (cases "remove1 up (g_rd g l)") auto
      then have "lock_inv ?s (g_runlock l s g) wl"
        using i True Cons hd up rds len pw by (simp add: lock_inv_def es g_runlock_def Let_def) (simp add: rw_ok_def)
      ultimately show ?thesis using that by blast
    next
      case False
      then have one: "length (g_rd g l) = 1" using rds(1,2) by linarith
      obtain e' k' where h: "dequeue (qnexts ?k, ends s (WR l)) = Some (p, (qnexts ?k, e'))" "proc_ready p ?k = Some k'" "sched_inv k'"
        "lock_rep k' ((ends s)(WR l := e')) (wl(WR l := ps))" "states k' = (states ?k)(p := Ready)" "k_up k' = Some up"
        "\<forall>w'. p \<notin> set ((wl(WR l := ps)) w')" "kern_core k' = kern_core ?k"
        using lock_handover [OF d(1) up(1) d(3) Cons] .
      obtain hh t where ht: "e' = (hh, t)" by (cases e')
      let ?s2 = "setrw l (\<lambda>q. q\<lparr>rw_writer := True\<rparr>) (setrw l (\<lambda>q. q\<lparr>rw_head := hh, rw_tail := t\<rparr>) ?s)\<lparr>sys_kern := k'\<rparr>"
      have hdp: "rw_head (sys_rw s l) = Some p" using hd Cons by simp
      have run: "runlock l s = Some ?s2"
        using False hdp h(1,2) ht pw by (simp add: runlock_def states_def)
      have "ends ?s2 = ends (setrw l (\<lambda>q. q\<lparr>rw_head := hh, rw_tail := t\<rparr>) ?s)" by (rule ends_cong) simp_all
      then have en: "ends ?s2 = (ends s)(WR l := e')" by (simp add: ends_setrw ht es)
      have g: "g_own (g_runlock l s g) = g_own g" "g_rd (g_runlock l s g) = (g_rd g)(l := [])"
          "g_wr (g_runlock l s g) = (g_wr g)(l := [p])"
        using up hdp False one len rds by (auto simp: g_runlock_def Let_def)
      have "rw_ok (sys_rw s j) (states k') (wl (WR j)) (g_rd g j) (g_wr g j)" if "j \<noteq> l" for j
        using rw_ok_other [OF d(5) [of j] h(5)] h(7) [THEN spec, of "WR j"] that by simp
      then have "rw_ok (sys_rw ?s2 j) (states k') ((wl(WR l := ps)) (WR j)) (((g_rd g)(l := [])) j) (((g_wr g)(l := [p])) j)" for j
        using rds one by (cases "j = l") (simp_all add: rw_ok_def)
      then have "lock_inv ?s2 (g_runlock l s g) (wl(WR l := ps))"
        using h(3,4) d(4) unfolding lock_inv_def en g by simp
      then show ?thesis using that run by simp
    qed
  qed
qed

section \<open>wunlock\<close>

text \<open>
  While the readers are woken, the tail pointer of a queue that has become empty is stale;
  it is cleared after the loop.
\<close>

definition fixed_ends :: "nat \<Rightarrow> ksys \<Rightarrow> wq \<Rightarrow> pid option \<times> pid option" where
  "fixed_ends l s = (ends s)(WR l := (rw_head (sys_rw s l), if rw_head (sys_rw s l) = None then None else rw_tail (sys_rw s l)))"

lemma dequeue_head:
  "dequeue (n, Some p, t) = Some (p, (n, n p, if n p = None then None else t))"
  by (simp add: dequeue_def Let_def)

lemma wake_readers_ok:
  assumes "wl (WR l) = xs" and "sched_inv (sys_kern s)" "k_up (sys_kern s) = Some up" "lock_rep (sys_kern s) (fixed_ends l s) wl"
  shows "\<exists>s'. wake_readers l s = Some s' \<and> sched_inv (sys_kern s') \<and> k_up (sys_kern s') = Some up
    \<and> lock_rep (sys_kern s') (fixed_ends l s') (wl(WR l := dropWhile (\<lambda>p. states (sys_kern s) p = QueueingR) xs))
    \<and> sys_q s' = sys_q s \<and> (\<forall>j. j \<noteq> l \<longrightarrow> sys_rw s' j = sys_rw s j)
    \<and> rw_readers (sys_rw s' l) = rw_readers (sys_rw s l) + int (length (takeWhile (\<lambda>p. states (sys_kern s) p = QueueingR) xs))
    \<and> (\<forall>p. states (sys_kern s') p = (if p \<in> set (takeWhile (\<lambda>p. states (sys_kern s) p = QueueingR) xs) then Ready else states (sys_kern s) p))"
  using assms
proof (induction xs arbitrary: s wl)
  case Nil
  have "rw_head (sys_rw s l) = None" using lock_rep_head [OF Nil(4), of "WR l"] Nil(1) by (simp add: fixed_ends_def)
  then show ?case using Nil by (subst wake_readers.simps) (auto simp: fun_upd_idem)
next
  case (Cons p ps)
  let ?k = "sys_kern s"
  have hdp: "rw_head (sys_rw s l) = Some p" using lock_rep_head [OF Cons.prems(4), of "WR l"] Cons.prems(1) by (simp add: fixed_ends_def)
  show ?case
  proof (cases "states ?k p = QueueingR")
    case False
    then show ?thesis using Cons.prems hdp by (subst wake_readers.simps) (auto simp: fun_upd_idem states_def)
  next
    case True
    obtain e' k' where h: "dequeue (qnexts ?k, fixed_ends l s (WR l)) = Some (p, (qnexts ?k, e'))" "proc_ready p ?k = Some k'" "sched_inv k'"
      "lock_rep k' ((fixed_ends l s)(WR l := e')) (wl(WR l := ps))" "states k' = (states ?k)(p := Ready)" "k_up k' = Some up"
      "\<forall>w'. p \<notin> set ((wl(WR l := ps)) w')" "kern_core k' = kern_core ?k"
      using lock_handover [OF Cons.prems(2,3,4,1)] .
    define s1 where "s1 = setrw l (\<lambda>q. q\<lparr>rw_readers := rw_readers q + 1\<rparr>)
      (setrw l (\<lambda>q. q\<lparr>rw_head := qnexts ?k p\<rparr>) s)\<lparr>sys_kern := k'\<rparr>"
    have step: "wake_readers l s = wake_readers l s1"
      using True hdp h(2) by (subst wake_readers.simps) (simp add: s1_def states_def qnexts_def)
    have e': "e' = (qnexts ?k p, if qnexts ?k p = None then None else rw_tail (sys_rw s l))"
      using h(1) hdp by (simp add: fixed_ends_def dequeue_head)
    have "ends s1 w = ends s w" if "w \<noteq> WR l" for w using that by (cases w) (simp_all add: s1_def)
    then have "fixed_ends l s1 = (fixed_ends l s)(WR l := e')" by (auto simp: fixed_ends_def e' fun_eq_iff) (simp_all add: s1_def)
    then have r1: "lock_rep (sys_kern s1) (fixed_ends l s1) (wl(WR l := ps))" using h(4) by (simp add: s1_def)
    have np: "p \<notin> set ps" using h(7) [THEN spec, of "WR l"] by simp
    have same: "takeWhile (\<lambda>q. states (sys_kern s1) q = QueueingR) ps = takeWhile (\<lambda>q. states ?k q = QueueingR) ps"
        "dropWhile (\<lambda>q. states (sys_kern s1) q = QueueingR) ps = dropWhile (\<lambda>q. states ?k q = QueueingR) ps"
      using np by (auto simp: s1_def h(5) intro!: takeWhile_cong dropWhile_cong)
    have s1: "sched_inv (sys_kern s1)" "k_up (sys_kern s1) = Some up" "sys_q s1 = sys_q s"
        "\<forall>j. j \<noteq> l \<longrightarrow> sys_rw s1 j = sys_rw s j" "rw_readers (sys_rw s1 l) = rw_readers (sys_rw s l) + 1"
        "states (sys_kern s1) = (states ?k)(p := Ready)"
      using h by (simp_all add: s1_def)
    obtain s' where s': "wake_readers l s1 = Some s'" "sched_inv (sys_kern s')" "k_up (sys_kern s') = Some up"
      "lock_rep (sys_kern s') (fixed_ends l s') (wl(WR l := dropWhile (\<lambda>p. states ?k p = QueueingR) ps))"
      "sys_q s' = sys_q s" "\<forall>j. j \<noteq> l \<longrightarrow> sys_rw s' j = sys_rw s j"
      "rw_readers (sys_rw s' l) = rw_readers (sys_rw s1 l) + int (length (takeWhile (\<lambda>p. states ?k p = QueueingR) ps))"
      "\<forall>q. states (sys_kern s') q = (if q \<in> set (takeWhile (\<lambda>p. states ?k p = QueueingR) ps) then Ready else states (sys_kern s1) q)"
      using Cons.IH [OF _ s1(1,2) r1, unfolded same fun_upd_upd] s1(3,4) by (auto simp: fun_upd_def)
    then show ?thesis unfolding step using True s1(5,6) by (auto simp: fun_eq_iff fun_upd_def)
  qed
qed

lemma ends_fixed: "(rw_head (sys_rw s l) = None \<Longrightarrow> rw_tail (sys_rw s l) = None) \<Longrightarrow> fixed_ends l s = ends s"
  by (auto simp: fixed_ends_def fun_eq_iff)

lemma wunlock_writer:
  assumes i: "lock_inv s g wl" and up: "k_up (sys_kern s) = Some up" "up \<in> set (g_wr g l)"
    and xs: "wl (WR l) = p # ps" "states (sys_kern s) p = QueueingW"
  shows "\<exists>s'. wunlock l s = Some s' \<and> lock_inv s' (g_wunlock l (wl (WR l)) s g) (wl(WR l := ps))"
proof -
  note d = lock_invD [OF i]
  let ?k = "sys_kern s"
  have own: "g_wr g l = [up]" "g_rd g l = []" "rw_readers (sys_rw s l) = 0" "rw_writer (sys_rw s l)"
    using d(5) [of l] up(2) by (auto simp: rw_ok_def length_Suc_conv split: if_splits)
  obtain e' k' where h: "dequeue (qnexts ?k, ends s (WR l)) = Some (p, (qnexts ?k, e'))" "proc_ready p ?k = Some k'" "sched_inv k'"
    "lock_rep k' ((ends s)(WR l := e')) (wl(WR l := ps))" "states k' = (states ?k)(p := Ready)" "k_up k' = Some up"
    "\<forall>w'. p \<notin> set ((wl(WR l := ps)) w')" "kern_core k' = kern_core ?k"
    using lock_handover [OF d(1) up(1) d(3) xs(1)] .
  obtain hh t where ht: "e' = (hh, t)" by (cases e')
  let ?s = "setrw l (\<lambda>q. q\<lparr>rw_head := hh, rw_tail := t\<rparr>) s\<lparr>sys_kern := k'\<rparr>"
  have hdp: "rw_head (sys_rw s l) = Some p" using lock_rep_head [OF d(3), of "WR l"] xs by simp
  have run: "wunlock l s = Some ?s" using hdp h(1,2) ht xs(2) by (simp add: wunlock_def states_def)
  have "ends ?s = ends (setrw l (\<lambda>q. q\<lparr>rw_head := hh, rw_tail := t\<rparr>) s)" by (rule ends_eqI) simp_all
  then have en: "ends ?s = (ends s)(WR l := e')" by (simp add: ends_setrw ht)
  have g: "g_own (g_wunlock l (wl (WR l)) s g) = g_own g" "g_rd (g_wunlock l (wl (WR l)) s g) = g_rd g"
      "g_wr (g_wunlock l (wl (WR l)) s g) = (g_wr g)(l := [p])"
    using up own xs by (simp_all add: g_wunlock_def Let_def)
  have "rw_ok (sys_rw s j) (states k') (wl (WR j)) (g_rd g j) (g_wr g j)" if "j \<noteq> l" for j
    using rw_ok_other [OF d(5) [of j] h(5)] h(7) [THEN spec, of "WR j"] that by simp
  then have "rw_ok (sys_rw ?s j) (states k') ((wl(WR l := ps)) (WR j)) (g_rd g j) (((g_wr g)(l := [p])) j)" for j
    using own by (cases "j = l") (simp_all add: rw_ok_def)
  then have "lock_inv ?s (g_wunlock l (wl (WR l)) s g) (wl(WR l := ps))"
    using h(3,4) d(4) unfolding lock_inv_def en g by simp
  then show ?thesis using run by blast
qed

lemma wunlock_readers:
  assumes i: "lock_inv s g wl" and up: "k_up (sys_kern s) = Some up" "up \<in> set (g_wr g l)"
    and xs: "wl (WR l) = [] \<or> states (sys_kern s) (hd (wl (WR l))) \<noteq> QueueingW"
  shows "\<exists>s'. wunlock l s = Some s' \<and> lock_inv s' (g_wunlock l (wl (WR l)) s g)
    (wl(WR l := dropWhile (\<lambda>p. states (sys_kern s) p = QueueingR) (wl (WR l))))"
proof -
  note d = lock_invD [OF i]
  let ?k = "sys_kern s" and ?xs = "wl (WR l)"
  let ?R = "\<lambda>p. states ?k p = QueueingR"
  have own: "g_wr g l = [up]" "g_rd g l = []" "rw_readers (sys_rw s l) = 0" "rw_writer (sys_rw s l)"
    using d(5) [of l] up(2) by (auto simp: rw_ok_def length_Suc_conv split: if_splits)
  have mem: "p \<in> set ?xs \<Longrightarrow> states ?k p = QueueingR \<or> states ?k p = QueueingW" for p using lock_repD(2) [OF d(3), of p "WR l"] by simp
  have hd: "rw_head (sys_rw s l) = (case ?xs of [] \<Rightarrow> None | p # _ \<Rightarrow> Some p)" using lock_rep_head [OF d(3), of "WR l"] by simp
  have "fixed_ends l s = ends s"
    using lock_repD(1) [OF d(3), of "WR l"] hd by (intro ends_fixed) (auto simp: queue_rep_def split: list.splits)
  then have r: "lock_rep ?k (fixed_ends l s) wl" using d(3) by simp
  obtain s1 where s1: "wake_readers l s = Some s1" "sched_inv (sys_kern s1)" "k_up (sys_kern s1) = Some up"
    "lock_rep (sys_kern s1) (fixed_ends l s1) (wl(WR l := dropWhile ?R ?xs))" "sys_q s1 = sys_q s" "\<forall>j. j \<noteq> l \<longrightarrow> sys_rw s1 j = sys_rw s j"
    "rw_readers (sys_rw s1 l) = rw_readers (sys_rw s l) + int (length (takeWhile ?R ?xs))"
    "\<forall>p. states (sys_kern s1) p = (if p \<in> set (takeWhile ?R ?xs) then Ready else states ?k p)"
    using wake_readers_ok [OF refl d(1) up(1) r] by blast
  define s2 where "s2 = setrw l (\<lambda>q. q\<lparr>rw_writer := False\<rparr>)
    (if rw_head (sys_rw s1 l) = None then setrw l (\<lambda>q. q\<lparr>rw_tail := None\<rparr>) s1 else s1)"
  have run: "wunlock l s = Some s2"
  proof (cases ?xs)
    case Nil
    then have "wake_readers l s = Some s" using hd by (subst wake_readers.simps) simp
    then have "s1 = s" using s1(1) by simp
    moreover have "fixed_ends l s (WR l) = ends s (WR l)" using \<open>fixed_ends l s = ends s\<close> by simp
    then have "rw_tail (sys_rw s l) = None" using Nil hd by (simp add: fixed_ends_def)
    then have "setrw l (\<lambda>q. q\<lparr>rw_tail := None\<rparr>) s = s" by (cases s) (auto simp: setrw_def fun_eq_iff)
    ultimately show ?thesis using Nil hd by (simp add: wunlock_def s2_def)
  next
    case (Cons p ps)
    then show ?thesis using hd mem [of p] xs s1(1) by (simp add: wunlock_def s2_def states_def Let_def)
  qed
  have s2: "sys_kern s2 = sys_kern s1" "sys_q s2 = sys_q s" "\<And>j. j \<noteq> l \<Longrightarrow> sys_rw s2 j = sys_rw s j"
      "rw_readers (sys_rw s2 l) = int (length (takeWhile ?R ?xs))" "\<not> rw_writer (sys_rw s2 l)"
    using s1(5,6,7) own by (auto simp: s2_def)
  have "ends s2 w = fixed_ends l s1 w" for w
    by (cases w) (auto simp: s2_def fixed_ends_def)
  then have en: "ends s2 = fixed_ends l s1" by blast
  let ?g = "g_wunlock l ?xs s g"
  have g: "g_own ?g = g_own g" "g_rd ?g = (g_rd g)(l := rev (takeWhile ?R ?xs))" "g_wr ?g = (g_wr g)(l := [])"
    using up own xs by (auto simp: g_wunlock_def Let_def)
  have "rw_ok (sys_rw s j) (states (sys_kern s1)) (wl (WR j)) (g_rd g j) (g_wr g j)" if "j \<noteq> l" for j
  proof (rule rw_ok_cong [OF d(5)])
    assume ne: "wl (WR j) \<noteq> []"
    then have "hd (wl (WR j)) \<notin> set ?xs" using lock_repD(3) [OF d(3), of _ "WR j" "WR l"] that by simp
    then show "states (sys_kern s1) (hd (wl (WR j))) = states ?k (hd (wl (WR j)))"
      using s1(8) set_takeWhileD [of _ ?R ?xs] by auto
  qed
  moreover have "rw_ok (sys_rw s2 l) (states (sys_kern s1)) (dropWhile ?R ?xs) (rev (takeWhile ?R ?xs)) []"
  proof -
    have "takeWhile ?R ?xs \<noteq> [] \<and> states (sys_kern s1) (hd (dropWhile ?R ?xs)) = QueueingW" if ne: "dropWhile ?R ?xs \<noteq> []"
    proof
      show "takeWhile ?R ?xs \<noteq> []"
        using xs ne mem [of "hd ?xs"] by (cases ?xs) auto
      have "hd (dropWhile ?R ?xs) \<in> set ?xs" using ne by (metis hd_in_set set_dropWhileD)
      then have "states ?k (hd (dropWhile ?R ?xs)) = QueueingW" using mem hd_dropWhile [OF ne] by blast
      moreover have "hd (dropWhile ?R ?xs) \<notin> set (takeWhile ?R ?xs)" using hd_dropWhile [OF ne] by (auto dest: set_takeWhileD)
      ultimately show "states (sys_kern s1) (hd (dropWhile ?R ?xs)) = QueueingW" using s1(8) by simp
    qed
    then show ?thesis using s2(4,5) by (auto simp: rw_ok_def)
  qed
  ultimately have "rw_ok (sys_rw s2 j) (states (sys_kern s1)) ((wl(WR l := dropWhile ?R ?xs)) (WR j)) (g_rd ?g j) (g_wr ?g j)" for j
    using s2(3) by (cases "j = l") (simp_all add: g)
  then have "lock_inv s2 ?g (wl(WR l := dropWhile ?R ?xs))"
    using s1(2,4) d(4) by (simp add: lock_inv_def en s2(1,2) g(1))
  then show ?thesis using run by blast
qed

lemma wunlock_inv:
  assumes i: "lock_inv s g wl" and up: "k_up (sys_kern s) = Some up" "up \<in> set (g_wr g l)"
  obtains s' wl' where "wunlock l s = Some s'" "lock_inv s' (g_wunlock l (wl (WR l)) s g) wl'" "\<forall>j. wl' (WQ j) = wl (WQ j)"
proof (cases "wl (WR l) \<noteq> [] \<and> states (sys_kern s) (hd (wl (WR l))) = QueueingW")
  case True
  then obtain p ps where "wl (WR l) = p # ps" "states (sys_kern s) p = QueueingW" by (cases "wl (WR l)") auto
  then obtain s' where "wunlock l s = Some s'" "lock_inv s' (g_wunlock l (wl (WR l)) s g) (wl(WR l := ps))"
    using wunlock_writer [OF i up] by blast
  then show ?thesis by (rule that) simp
next
  case False
  then obtain s' where "wunlock l s = Some s'" "lock_inv s' (g_wunlock l (wl (WR l)) s g)
      (wl(WR l := dropWhile (\<lambda>p. states (sys_kern s) p = QueueingR) (wl (WR l))))"
    using wunlock_readers [OF i up] by blast
  then show ?thesis by (rule that) simp
qed

section \<open>Trying to lock\<close>

lemma canqlock_inv:
  assumes i: "lock_inv s g wl" and up: "k_up (sys_kern s) = Some up"
  shows "lock_inv (snd (canqlock c l pc s)) (if fst (canqlock c l pc s) then g\<lparr>g_own := (g_own g)(l := up # g_own g l)\<rparr> else g) wl"
proof -
  note d = lock_invD [OF i]
  let ?s = "setq l (\<lambda>q. q\<lparr>q_locked := True, q_qpc := pc\<rparr>) s"
  have "ends ?s = ends s" by (rule ends_cong) simp_all
  then show ?thesis using i d(4) [of l] by (auto simp: canqlock_def lock_inv_def q_ok_def)
qed

lemma canrlock_inv:
  assumes i: "lock_inv s g wl" and up: "k_up (sys_kern s) = Some up"
  shows "lock_inv (snd (canrlock l s)) (if fst (canrlock l s) then g\<lparr>g_rd := (g_rd g)(l := up # g_rd g l)\<rparr> else g) wl"
proof (cases "rw_writer (sys_rw s l) = False \<and> rw_head (sys_rw s l) = None")
  case True
  note d = lock_invD [OF i]
  let ?s = "setrw l (\<lambda>q. q\<lparr>rw_readers := rw_readers q + 1\<rparr>) (bump (\<lambda>t. t\<lparr>st_rlock := st_rlock t + 1\<rparr>) s)"
  have "canrlock l s = (True, ?s)" using True by (simp add: canrlock_def Let_def)
  moreover have "ends ?s = ends s" by (rule ends_cong) simp_all
  moreover have "wl (WR l) = []" using lock_rep_head [OF d(3), of "WR l"] True by (auto split: list.splits)
  ultimately show ?thesis using i True d(5) [of l] by (auto simp: lock_inv_def rw_ok_def)
next
  case False
  let ?s = "bump (\<lambda>t. t\<lparr>st_rlock := st_rlock t + 1\<rparr>) s"
  have "canrlock l s = (False, ?s)" using False by (auto simp: canrlock_def Let_def)
  then show ?thesis using lock_inv_cong [OF i, of ?s] by simp
qed

end
