(* ===== verification/Kern_Steps.thy ===== *)
theory Kern_Steps
  imports Klock_Release
begin

text \<open>
  The kernel as a state machine: every step is one of the modelled operations, called by
  the running process or by the clock, with ghost variables for the holders of the locks.
  All steps keep the invariant.
\<close>

section \<open>Steps of the scheduler\<close>

lemma ready_cpu: "sched_inv k \<Longrightarrow> states k p = Ready \<Longrightarrow> p_cpu (k_procs k p) = None"
  using kinvD(3) [of k p] by (fastforce simp: sched_inv_def)

lemma same_core_inv:
  assumes k: "sched_inv k" and ok: "sched_ok k' qs" and co: "kern_core k' = kern_core k" "states k' = states k"
  shows "sched_inv k' \<and> wait_frame k k'"
  using k ok unfolding sched_inv_def kinv_def wait_frame_def co(2) kern_coreD [OF co(1)] by blast

lemma rebalance_inv:
  assumes k: "sched_inv k"
  obtains k' where "rebalance k = Some k'" "sched_inv k'" "wait_frame k k'" "states k' = states k" "k_up k' = k_up k"
proof (cases "k_ticks k - k_balancetime k < 100")
  case True
  then show ?thesis using that [of k] k by (simp add: rebalance_def wait_frame_refl)
next
  case False
  let ?k = "k\<lparr>k_balancetime := k_ticks k\<rparr>"
  have v: "kview ?k = kview k" by (simp add: kview_def)
  then have ki: "sched_inv ?k" "states ?k = states k" using kinv_view(2) [OF v] k by (simp_all add: states_def)
  then obtain qs where ok: "sched_ok ?k qs" "\<not> k_runqbusy ?k" by (auto simp: sched_inv_def kinv_def)
  have cpu: "\<forall>p. states ?k p = Ready \<longrightarrow> p_cpu (k_procs ?k p) = None" using ready_cpu [OF ki(1)] by simp
  have "set [0..<Npriq] \<subseteq> {..<Npriq}" by auto
  then obtain k' qs' where 1: "rebalance_levels [0..<Npriq] ?k = Some k'" "sched_ok k' qs'" "kern_core k' = kern_core ?k" "states k' = states ?k"
    using rebalance_levels_ok [OF ok(1) _ ok(2) cpu] by blast
  have "sched_inv k' \<and> wait_frame ?k k'" using same_core_inv [OF ki(1) 1(2-4)] .
  moreover have "rebalance k = Some k'" using False 1(1) by (simp add: rebalance_def Let_def)
  moreover have "wait_frame k ?k" by (rule wait_frame_view) simp
  ultimately show ?thesis using that [of k'] 1(4) ki(2) kern_coreD(1) [OF 1(3)] wait_frame_trans [of k ?k k'] by simp
qed

lemma hzsched_inv:
  assumes k: "sched_inv k" "k_up k = Some up"
  obtains k' where "hzsched k = Some k'" "sched_inv k'" "wait_frame k k'" "states k' = states k" "k_up k' = Some up"
proof -
  obtain k1 where k1: "(if k_cpuno k = 0 then rebalance k else Some k) = Some k1" "sched_inv k1" "wait_frame k k1"
      "states k1 = states k" "k_up k1 = k_up k"
  proof (cases "k_cpuno k = 0")
    case True
    then show ?thesis using rebalance_inv [OF k(1)] that by (metis (full_types))
  next
    case False
    then show ?thesis using that [of k] k(1) wait_frame_refl by simp
  qed
  let ?k = "setp up (\<lambda>x. x\<lparr>p_delaysched := p_delaysched x + 1\<rparr>) (k1\<lparr>k_readied := None\<rparr>)"
  have v: "kview ?k = kview k1" "wait_frame k1 ?k" "states ?k = states k1"
    by (simp_all add: kview_def pview_def fun_eq_iff wait_frame_def states_def)
  have "hzsched k = Some k1 \<or> hzsched k = Some ?k" using k1(1,5) k(2) by (simp add: hzsched_def)
  then show ?thesis
  proof
    assume "hzsched k = Some k1"
    then show ?thesis using that [of k1] k1 k(2) by simp
  next
    assume "hzsched k = Some ?k"
    then show ?thesis using that [of ?k] k1 k(2) v kinv_view(2) [OF v(1)] wait_frame_trans [OF k1(3) v(2)] by simp
  qed
qed

lemma procpriority_inv:
  assumes k: "sched_inv k"
  shows "sched_inv (procpriority p pri fixed k) \<and> wait_frame k (procpriority p pri fixed k)"
proof -
  define k' where "k' = procpriority p pri fixed k"
  let ?pri = "if pri \<ge> int Npriq then int Npriq - 1 else if pri < 0 then 0 else pri"
  define w :: uint where "w = word_of_int ?pri"
  have lt: "w < 20"
  proof -
    have "0 \<le> ?pri" "?pri < 20" by auto
    then have "uint (word_of_int ?pri :: uint) = ?pri" by (simp add: uint_word_of_int)
    then show ?thesis using \<open>?pri < 20\<close> by (simp add: w_def word_less_alt)
  qed
  have s: "states k' = states k" "rnexts k' = rnexts k" by (auto simp: k'_def procpriority_def Let_def states_def rnexts_def fun_eq_iff)
  have b: "p_basepri (k_procs k' q) = (if q = p then w else p_basepri (k_procs k q))"
    "prios k' q = (if q = p then w else prios k q)" for q
    by (auto simp: k'_def w_def procpriority_def Let_def prios_def)
  have lt': "w < 22" using lt by (rule less_trans) simp
  have o: "k_runq k' = k_runq k" "k_nrdy k' = k_nrdy k" "k_runvec k' = k_runvec k"
    by (simp_all add: k'_def procpriority_def Let_def)
  have ok: "sched_ok k' qs" if "sched_ok k qs" for qs
  proof -
    have "runq_rep k' qs" using sched_okD(1) [OF that] o s(2) by (rule runq_rep_core)
    then show ?thesis using that lt lt' unfolding sched_ok_def b s by simp
  qed
  have f: "k_up k' = k_up k" "k_runqbusy k' = k_runqbusy k" "k_rendez k' = k_rendez k" "p_cpu (k_procs k' q) = p_cpu (k_procs k q)"
    "p_r (k_procs k' q) = p_r (k_procs k q)" "p_qnext (k_procs k' q) = p_qnext (k_procs k q)" for q
    by (simp_all add: k'_def procpriority_def Let_def)
  have "sched_inv k' \<and> wait_frame k k'"
    using k ok unfolding sched_inv_def kinv_def wait_frame_def s f by blast
  then show ?thesis by (simp add: k'_def)
qed

lemma ready_inv:
  assumes k: "sched_inv k" and p: "states k p \<in> {Dead, Scheding, Rendezvous, Broken, Stopped, Waitrelease}"
  obtains k' where "proc_ready p k = Some k'" "sched_inv k'" "wait_frame k k'"
proof -
  have ki: "kinv k" using k by (simp add: sched_inv_def)
  have "states k p \<noteq> Ready" "p_r (k_procs k p) = None" using p kinvD(5) [OF ki, of p] by auto
  then obtain k' where 1: "proc_ready p k = Some k'" "kinv k'" "kern_core k' = kern_core k" "states k' = (states k)(p := Ready)"
    using kinv_ready [OF ki] by blast
  have "k_up k \<noteq> Some p" using k p by (auto simp: sched_inv_def)
  then have "sched_inv k'" using k 1(2) by (auto simp: sched_inv_def 1(4) kern_coreD [OF 1(3)])
  moreover have "wait_frame k k'" using p unfolding wait_frame_def 1(4) kern_coreD [OF 1(3)] by (auto simp: waiting_def)
  ultimately show ?thesis using that 1(1) by blast
qed

lemma wakeup_sched_inv:
  assumes k: "sched_inv k"
  obtains k' where "proc_wakeup r k = Some (k_rendez k r, k')" "sched_inv k'" "wait_frame k k'"
proof -
  have ki: "kinv k" using k by (simp add: sched_inv_def)
  obtain k' where 1: "proc_wakeup r k = Some (k_rendez k r, k')" "kinv k'" "wait_frame k k'" "k_up k' = k_up k"
    "states k' = (case k_rendez k r of None \<Rightarrow> states k | Some p \<Rightarrow> (states k)(p := Ready))"
    "k_rendez k' = (k_rendez k)(r := None)"
    "\<forall>q. p_wired (k_procs k' q) = p_wired (k_procs k q)" "\<forall>q. p_lastcpu (k_procs k' q) = p_lastcpu (k_procs k q)"
    "k_cpuno k' = k_cpuno k"
    using wakeup_inv [OF ki, of r] .
  have "states k p = Wakeme" if "k_rendez k r = Some p" for p using kinvD(4,5) [OF ki] that by force
  then have "sched_inv k'" using 1 k by (auto simp: sched_inv_def split: option.splits)
  then show ?thesis using that 1 by blast
qed

text \<open>The running process stops running, in a state other than the two that the queues know.\<close>

lemma stop_inv:
  assumes k: "sched_inv k" "k_up k = Some up" and st: "st \<noteq> Ready" "st \<noteq> Running"
  shows "kinv (setp up (\<lambda>x. x\<lparr>p_state := st\<rparr>) k)" (is "kinv ?k")
proof -
  have ki: "kinv k" "states k up = Running" using k by (simp_all add: sched_inv_def)
  have s: "states ?k = (states k)(up := st)" "prios ?k = prios k" "rnexts ?k = rnexts k"
    by (auto simp: states_def prios_def rnexts_def fun_eq_iff)
  have "sched_ok ?k qs" if "sched_ok k qs" for qs
    using that by (rule sched_ok_same) (use sched_okD(7) [OF that] ki(2) st in \<open>auto simp: s\<close>)
  then have ok: "\<exists>qs'. sched_ok ?k qs'" if "sched_ok k qs" for qs using that by blast
  show ?thesis
  proof (rule kinv_same [OF ki(1) ok])
    fix q assume "states ?k q = Running"
    then show "k_up ?k = Some q" using kinvD(2) [OF ki(1), of q] st by (cases "q = up") (simp_all add: s)
  next
    fix q assume "k_up ?k \<noteq> Some q"
    then show "p_cpu (k_procs ?k q) = None" using kinvD(3) [OF ki(1), of q] k(2) by auto
  next
    fix q assume "states k q = Wakeme"
    then show "states ?k q = Wakeme" using ki(2) by (auto simp: s)
  qed simp_all
qed

lemma exit_inv:
  assumes int: "interrupts_ok idle" and k: "sched_inv k" "k_up k = Some up"
    and run: "proc_sched idle (setp up (\<lambda>x. x\<lparr>p_state := Moribund\<rparr>) k) = Some k'"
  shows "sched_inv k' \<and> wait_frame k k'"
proof -
  let ?k = "setp up (\<lambda>x. x\<lparr>p_state := Moribund\<rparr>) k"
  have "kinv ?k" using stop_inv [OF k] by simp
  moreover have "k_up ?k = Some up" "states ?k up \<noteq> Ready" "\<not> delay_sched up ?k"
    using k(2) by (simp_all add: states_def delay_sched_def Let_def)
  ultimately have "sched_inv k' \<and> wait_frame ?k k'" using proc_sched_inv [OF int _ _ _ _ run] by blast
  moreover have "wait_frame k ?k" using k by (auto simp: wait_frame_def states_def sched_inv_def waiting_def)
  ultimately show ?thesis using wait_frame_trans by blast
qed

lemma sleep_inv:
  assumes int: "interrupts_ok idle" and k: "sched_inv k" "k_up k = Some up" and r: "k_rendez k r = None"
    and run: "proc_sleep idle r f k = Some (e, k')"
  shows "sched_inv k' \<and> wait_frame k k'"
proof -
  let ?k = "k\<lparr>k_rendez := (k_rendez k)(r := Some up)\<rparr>"
  show ?thesis
  proof (cases "f ?k \<or> p_notepending (k_procs k up)")
    case True
    have id: "?k\<lparr>k_rendez := (k_rendez ?k)(r := None)\<rparr> = k" using r by (auto simp: fun_upd_idem)
    have e: "k' = snd (sleep_resume up k)"
      using run True k(2) id by (auto simp: proc_sleep_def Let_def split: prod.splits)
    have v: "kview (snd (sleep_resume up k)) = kview k" "wait_frame k (snd (sleep_resume up k))"
      by (auto simp: sleep_resume_def kview_def pview_def fun_eq_iff wait_frame_def states_def)
    then show ?thesis unfolding e using kinv_view(2) [OF v(1)] k(1) by simp
  next
    case False
    define k1 where "k1 = setp up (\<lambda>x. x\<lparr>p_state := Wakeme\<rparr>) k"
    define k2 where "k2 = setp up (\<lambda>x. x\<lparr>p_r := Some r\<rparr>) (setp up (\<lambda>x. x\<lparr>p_state := Wakeme\<rparr>) ?k)\<lparr>k_cs := k_cs k + 1\<rparr>"
    have "kinv k1" unfolding k1_def using stop_inv [OF k] by simp
    note i = kinvD [OF this]
    have s: "states k1 = (states k)(up := Wakeme)" "states k2 = states k1" "prios k2 = prios k1" "rnexts k2 = rnexts k1"
      by (auto simp: k1_def k2_def states_def prios_def rnexts_def fun_eq_iff)
    have o: "k_up k2 = k_up k1" "k_runqbusy k2 = k_runqbusy k1" "k_rendez k2 = (k_rendez k1)(r := Some up)"
      "p_r (k_procs k2 q) = (if q = up then Some r else p_r (k_procs k1 q))" "p_cpu (k_procs k2 q) = p_cpu (k_procs k1 q)"
      "k_runq k2 = k_runq k1" "k_nrdy k2 = k_nrdy k1" "k_runvec k2 = k_runvec k1" "k_up k1 = Some up" "k_rendez k1 = k_rendez k"
      "p_basepri (k_procs k2 q) = p_basepri (k_procs k1 q)" for q
      using k(2) by (simp_all add: k1_def k2_def)
    have ok: "sched_ok k2 qs" if "sched_ok k1 qs" for qs
      using that by (rule sched_ok_same) (use sched_okD(7) [OF that] in \<open>simp_all add: s o\<close>)
    have "p_r (k_procs k up) = None" using k kinvD(5) [of k up] by (simp add: sched_inv_def)
    then have pr: "p_r (k_procs k1 up) = None" by (simp add: k1_def)
    have rz: "((k_rendez k1)(r := Some up)) r' = Some q \<longleftrightarrow> (if q = up then Some r else p_r (k_procs k1 q)) = Some r'" for r' q
      using i(4) [of r' q] i(4) [of r q] r pr o(10) by auto
    have "kinv k2" using \<open>kinv k1\<close> ok rz unfolding kinv_def o s(2) by (auto simp: s(1))
    moreover have "k_up k2 = Some up" "states k2 up \<noteq> Ready" using o s by simp_all
    moreover have "do { k \<leftarrow> schedinit k2; sched_pick idle k } = Some k'"
      using run False k(2) by (auto simp: proc_sleep_def Let_def k2_def split: bind_splits)
    ultimately have "sched_inv k' \<and> wait_frame k2 k'" using leave_inv [OF int] by blast
    moreover have "wait_frame k k2" using k by (auto simp: wait_frame_def states_def k2_def sched_inv_def waiting_def)
    ultimately show ?thesis using wait_frame_trans by blast
  qed
qed

section \<open>The state machine\<close>

text \<open>
  A step is the clock, an operation of the running process, or making a process ready that is neither
  queued nor waiting for anything modelled here. A process that blocks on a lock holds no spin lock. The
  ghost state follows the lock operations.
\<close>

inductive kstep :: "(nat \<Rightarrow> kern \<Rightarrow> kern) \<Rightarrow> ksys \<times> ghost \<Rightarrow> ksys \<times> ghost \<Rightarrow> bool" for idle where
  tick: "kstep idle (s, g) (s\<lparr>sys_kern := sys_kern s\<lparr>k_ticks := k_ticks (sys_kern s) + 1, k_load := ld\<rparr>\<rparr>, g)"
| hz: "k_up (sys_kern s) = Some up \<Longrightarrow> hzsched (sys_kern s) = Some k \<Longrightarrow> kstep idle (s, g) (s\<lparr>sys_kern := k\<rparr>, g)"
| sched: "k_up (sys_kern s) = Some up \<Longrightarrow> proc_sched idle (sys_kern s) = Some k \<Longrightarrow> kstep idle (s, g) (s\<lparr>sys_kern := k\<rparr>, g)"
| yield: "k_up (sys_kern s) = Some up \<Longrightarrow> yield idle (sys_kern s) = Some k \<Longrightarrow> kstep idle (s, g) (s\<lparr>sys_kern := k\<rparr>, g)"
| preempt: "k_up (sys_kern s) = Some up \<Longrightarrow> preempt idle (sys_kern s) = Some k \<Longrightarrow> kstep idle (s, g) (s\<lparr>sys_kern := k\<rparr>, g)"
| resume: "kstep idle (s, g) (s\<lparr>sys_kern := preempt_resume (sys_kern s)\<rparr>, g)"
| priority: "kstep idle (s, g) (s\<lparr>sys_kern := procpriority p pri fixed (sys_kern s)\<rparr>, g)"
| ready: "states (sys_kern s) p \<in> {Dead, Scheding, Rendezvous, Broken, Stopped, Waitrelease} \<Longrightarrow>
    proc_ready p (sys_kern s) = Some k \<Longrightarrow> kstep idle (s, g) (s\<lparr>sys_kern := k\<rparr>, g)"
| exit: "k_up (sys_kern s) = Some up \<Longrightarrow> proc_sched idle (setp up (\<lambda>x. x\<lparr>p_state := Moribund\<rparr>) (sys_kern s)) = Some k \<Longrightarrow>
    kstep idle (s, g) (s\<lparr>sys_kern := k\<rparr>, g)"
| sleep: "k_up (sys_kern s) = Some up \<Longrightarrow> k_rendez (sys_kern s) r = None \<Longrightarrow> proc_sleep idle r f (sys_kern s) = Some (e, k) \<Longrightarrow>
    kstep idle (s, g) (s\<lparr>sys_kern := k\<rparr>, g)"
| wakeup: "proc_wakeup r (sys_kern s) = Some (p, k) \<Longrightarrow> kstep idle (s, g) (s\<lparr>sys_kern := k\<rparr>, g)"
| qlock: "k_up (sys_kern s) = Some up \<Longrightarrow> p_nlocks (k_procs (sys_kern s) up) = 0 \<Longrightarrow> qlock idle l pc s = Some s' \<Longrightarrow>
    kstep idle (s, g) (s', g_qlock l s g)"
| qresume: "kstep idle (s, g) (qlock_resume l pc s, g)"
| canqlock: "k_up (sys_kern s) = Some up \<Longrightarrow> canqlock c l pc s = (ok, s') \<Longrightarrow>
    kstep idle (s, g) (s', if ok then g\<lparr>g_own := (g_own g)(l := up # g_own g l)\<rparr> else g)"
| qunlock: "k_up (sys_kern s) = Some up \<Longrightarrow> up \<in> set (g_own g l) \<Longrightarrow> qunlock l s = Some s' \<Longrightarrow>
    kstep idle (s, g) (s', g_qunlock l s g)"
| rlock: "k_up (sys_kern s) = Some up \<Longrightarrow> p_nlocks (k_procs (sys_kern s) up) = 0 \<Longrightarrow> rlock idle l s = Some s' \<Longrightarrow>
    kstep idle (s, g) (s', g_rlock l s g)"
| canrlock: "k_up (sys_kern s) = Some up \<Longrightarrow> canrlock l s = (ok, s') \<Longrightarrow>
    kstep idle (s, g) (s', if ok then g\<lparr>g_rd := (g_rd g)(l := up # g_rd g l)\<rparr> else g)"
| runlock: "k_up (sys_kern s) = Some up \<Longrightarrow> up \<in> set (g_rd g l) \<Longrightarrow> runlock l s = Some s' \<Longrightarrow>
    kstep idle (s, g) (s', g_runlock l s g)"
| wlock: "k_up (sys_kern s) = Some up \<Longrightarrow> p_nlocks (k_procs (sys_kern s) up) = 0 \<Longrightarrow> wlock idle l pc s = Some s' \<Longrightarrow>
    kstep idle (s, g) (s', g_wlock l s g)"
| wunlock: "k_up (sys_kern s) = Some up \<Longrightarrow> up \<in> set (g_wr g l) \<Longrightarrow> wunlock l s = Some s' \<Longrightarrow>
    queue_rep (qnexts (sys_kern s), rw_head (sys_rw s l), rw_tail (sys_rw s l)) xs \<Longrightarrow>
    kstep idle (s, g) (s', g_wunlock l xs s g)"

text \<open>No lock is held and nobody waits for one.\<close>

definition unlocked :: "ksys \<Rightarrow> ghost \<Rightarrow> bool" where
  "unlocked s g \<longleftrightarrow> lock_inv s g (\<lambda>_. []) \<and> g_own g = (\<lambda>_. []) \<and> g_rd g = (\<lambda>_. []) \<and> g_wr g = (\<lambda>_. [])"

definition kreach :: "(nat \<Rightarrow> kern \<Rightarrow> kern) \<Rightarrow> ksys \<times> ghost \<Rightarrow> bool" where
  "kreach idle sg \<longleftrightarrow> (\<exists>s0 g0. unlocked s0 g0 \<and> (kstep idle)\<^sup>*\<^sup>* (s0, g0) sg)"

lemma preempt_inv:
  assumes int: "interrupts_ok idle" and k: "sched_inv k" "k_up k = Some up" and run: "preempt idle k = Some k'"
  shows "sched_inv k' \<and> wait_frame k k'"
proof -
  let ?k = "setp up (\<lambda>x. x\<lparr>p_preempted := True\<rparr>) (k\<lparr>k_readied := None\<rparr>)"
  have v: "kview ?k = kview k" "wait_frame k ?k"
    by (simp_all add: kview_def pview_def fun_eq_iff wait_frame_def states_def)
  have "k' = k \<or> proc_sched idle ?k = Some k'" using run k(2) by (auto simp: preempt_def split: if_splits)
  then show ?thesis
    using k wait_frame_refl wait_frame_trans [OF v(2)] proc_sched_running [OF int, of ?k up k'] kinv_view(2) [OF v(1)] by auto
qed

lemma yield_inv:
  assumes int: "interrupts_ok idle" and k: "sched_inv k" "k_up k = Some up" and run: "yield idle k = Some k'"
  shows "sched_inv k' \<and> wait_frame k k'"
proof -
  let ?k = "setp up (\<lambda>x. x\<lparr>p_lastupdate := p_lastupdate x - 1\<rparr>) k"
  have v: "kview ?k = kview k" "wait_frame k ?k"
    by (simp_all add: kview_def pview_def fun_eq_iff wait_frame_def states_def)
  have "k' = k \<or> proc_sched idle ?k = Some k'" using run k(2) by (auto simp: yield_def split: if_splits)
  then show ?thesis
    using k wait_frame_refl wait_frame_trans [OF v(2)] proc_sched_running [OF int, of ?k up k'] kinv_view(2) [OF v(1)] by auto
qed

lemma resume_inv: "sched_inv k \<Longrightarrow> sched_inv (preempt_resume k) \<and> wait_frame k (preempt_resume k)"
proof -
  assume k: "sched_inv k"
  have v: "kview (preempt_resume k) = kview k" "wait_frame k (preempt_resume k)"
    by (simp_all add: preempt_resume_def kview_def pview_def fun_eq_iff wait_frame_def states_def split: option.split)
  then show ?thesis using k kinv_view(2) [OF v(1)] by simp
qed

lemma tick_inv: "sched_inv k \<Longrightarrow> sched_inv (k\<lparr>k_ticks := t, k_load := ld\<rparr>) \<and> wait_frame k (k\<lparr>k_ticks := t, k_load := ld\<rparr>)"
proof -
  assume k: "sched_inv k"
  have v: "kview (k\<lparr>k_ticks := t, k_load := ld\<rparr>) = kview k" by (simp add: kview_def)
  show ?thesis using k kinv_view(2) [OF v] wait_frame_view [of "k\<lparr>k_ticks := t, k_load := ld\<rparr>" k] by simp
qed

section \<open>Every step keeps the invariant\<close>

text \<open>How a step may change the queue of a lock: not at all, by a new process at its end, or by
  giving the lock to the first process.\<close>

definition queue_move :: "(wq \<Rightarrow> pid list) \<Rightarrow> (wq \<Rightarrow> pid list) \<Rightarrow> ksys \<Rightarrow> ghost \<Rightarrow> nat \<Rightarrow> bool" where
  "queue_move wl wl' s' g' l \<longleftrightarrow> wl' (WQ l) = wl (WQ l) \<or> (\<exists>p. wl' (WQ l) = wl (WQ l) @ [p])
     \<or> (\<exists>p. wl (WQ l) = p # wl' (WQ l) \<and> g_own g' l = [p] \<and> states (sys_kern s') p = Ready)"

lemma kernel_step:
  assumes i: "lock_inv s g wl" and k: "sched_inv k \<and> wait_frame (sys_kern s) k"
  shows "\<exists>wl'. lock_inv (s\<lparr>sys_kern := k\<rparr>) g wl' \<and> (\<forall>l. queue_move wl wl' (s\<lparr>sys_kern := k\<rparr>) g l)"
  using lock_inv_frame [OF i] k by (auto simp: queue_move_def)

lemma kstep_inv:
  assumes int: "interrupts_ok idle" and step: "kstep idle (s, g) (s', g')" and i: "lock_inv s g wl"
  shows "\<exists>wl'. lock_inv s' g' wl' \<and> (\<forall>l. queue_move wl wl' s' g' l)"
  using step
proof cases
  note d = lock_invD [OF i]
  {
    case (tick ld)
    then show ?thesis using kernel_step [OF i] tick_inv [OF d(1)] by simp
  next
    case (hz up k)
    then show ?thesis using kernel_step [OF i, of k] hzsched_inv [OF d(1), of up] by (metis option.inject)
  next
    case (sched up k)
    then show ?thesis using kernel_step [OF i, of k] proc_sched_running [OF int d(1)] by simp
  next
    case (yield up k)
    then show ?thesis using kernel_step [OF i, of k] yield_inv [OF int d(1)] by simp
  next
    case (preempt up k)
    then show ?thesis using kernel_step [OF i, of k] preempt_inv [OF int d(1)] by simp
  next
    case resume
    then show ?thesis using kernel_step [OF i] resume_inv [OF d(1)] by simp
  next
    case (priority p pri fixed)
    then show ?thesis using kernel_step [OF i] procpriority_inv [OF d(1)] by simp
  next
    case (ready p k)
    then show ?thesis using kernel_step [OF i, of k] ready_inv [OF d(1), of p] by (metis option.inject)
  next
    case (exit up k)
    then show ?thesis using kernel_step [OF i, of k] exit_inv [OF int d(1)] by simp
  next
    case (sleep up r f e k)
    then show ?thesis using kernel_step [OF i, of k] sleep_inv [OF int d(1)] by simp
  next
    case (wakeup r p k)
    then show ?thesis using kernel_step [OF i, of k] wakeup_sched_inv [OF d(1), of r] by (metis option.inject prod.inject)
  next
    case (qlock up l pc)
    let ?wl = "if q_locked (sys_q s l) then wl(WQ l := wl (WQ l) @ [up]) else wl"
    have "queue_move wl ?wl s' g' j" for j by (auto simp: queue_move_def)
    then show ?thesis using qlock_inv [OF int i qlock(2,3,4)] qlock(1) by blast
  next
    case (qresume l pc)
    have "ends (qlock_resume l pc s) = ends s" by (rule ends_cong) (simp_all add: qlock_resume_def)
    then have "lock_inv (qlock_resume l pc s) g wl"
      using i unfolding lock_inv_def by (auto simp: qlock_resume_def q_ok_def)
    then show ?thesis using qresume by (auto simp: queue_move_def)
  next
    case (canqlock up c l pc ok)
    then show ?thesis using canqlock_inv [OF i canqlock(2), of c l pc] by (auto simp: queue_move_def)
  next
    case (qunlock up l)
    obtain s1 where 1: "qunlock l s = Some s1" "lock_inv s1 (g_qunlock l s g) (wl(WQ l := tl (wl (WQ l))))"
      "k_up (sys_kern s1) = Some up" "g_own (g_qunlock l s g) l = take 1 (wl (WQ l))"
      "states (sys_kern s1) = (case wl (WQ l) of [] \<Rightarrow> states (sys_kern s) | p # _ \<Rightarrow> (states (sys_kern s))(p := Ready))"
      using qunlock_inv [OF i qunlock(2,3)] .
    have "queue_move wl (wl(WQ l := tl (wl (WQ l)))) s1 (g_qunlock l s g) j" for j
      using 1(4,5) by (cases "wl (WQ l)") (auto simp: queue_move_def)
    then show ?thesis using 1(1,2) qunlock by auto
  next
    case (rlock up l)
    then show ?thesis using rlock_inv [OF int i rlock(2,3,4)] by (auto simp: queue_move_def)
  next
    case (canrlock up l ok)
    then show ?thesis using canrlock_inv [OF i canrlock(2), of l] by (auto simp: queue_move_def)
  next
    case (runlock up l)
    then show ?thesis using runlock_inv [OF i runlock(2,3)] by (metis option.inject queue_move_def)
  next
    case (wlock up l pc)
    then show ?thesis using wlock_inv [OF int i wlock(2,3,4)] by (auto simp: queue_move_def)
  next
    case (wunlock up l xs)
    have "xs = wl (WR l)" using waitq.rep_unique [OF wunlock(5)] lock_repD(1) [OF d(3), of "WR l"] by simp
    then show ?thesis using wunlock wunlock_inv [OF i wunlock(2,3)] by (metis option.inject queue_move_def)
  }
qed

lemma kreach_inv:
  assumes int: "interrupts_ok idle" and r: "kreach idle (s, g)"
  shows "\<exists>wl. lock_inv s g wl"
proof -
  obtain s0 g0 where 0: "unlocked s0 g0" "(kstep idle)\<^sup>*\<^sup>* (s0, g0) (s, g)" using r by (auto simp: kreach_def)
  from 0(2) have "\<exists>wl. lock_inv (fst (s, g)) (snd (s, g)) wl"
  proof (induction rule: rtranclp_induct)
    case base
    then show ?case using 0(1) by (auto simp: unlocked_def)
  next
    case (step y z)
    then show ?case using kstep_inv [OF int] by (cases y; cases z) fastforce
  qed
  then show ?thesis by simp
qed

end
