(* ===== verification/Kern_Example.thy ===== *)
theory Kern_Example
  imports Kern_Steps
begin

text \<open>Concrete kernel states that satisfy the invariants, the arithmetic of the cpu averages,
  and the meaning of the bits of \<^verbatim>\<open>runvec\<close>.\<close>

section \<open>A concrete kernel\<close>

text \<open>Process 0 runs, the others are free; no lock is held. Interrupts that arrive in the idle loop do nothing.\<close>

definition boot_proc :: proc where
  "boot_proc = \<lparr>p_state = Dead, p_qnext = None, p_rnext = None, p_priority = 10, p_basepri = 10, p_fixedpri = False,
     p_cpu = None, p_lastcpu = None, p_wired = None, p_delaysched = 0, p_lastupdate = 0, p_cpuavg = 0, p_nlocks = 0,
     p_preempted = False, p_newtlb = False, p_r = None, p_notepending = False, p_qpc = 0\<rparr>"

definition boot_kern :: kern where
  "boot_kern = \<lparr>k_procs = (\<lambda>_. boot_proc)(0 := boot_proc\<lparr>p_state := Running, p_cpu := Some 0, p_lastcpu := Some 0\<rparr>),
     k_up = Some 0, k_runq = replicate 22 \<lparr>sq_head = None, sq_tail = None, sq_n = 0\<rparr>, k_nrdy = 0, k_runvec = 0,
     k_runqbusy = False, k_ncpu = 1, k_procfree = None, k_balancetime = 0, k_preempts = 0, k_skipscheds = 0,
     k_cpuno = 0, k_ticks = 0, k_schedticks = 0, k_load = 0, k_readied = None, k_cs = 0, k_delayedscheds = 0,
     k_exiting = False, k_pallocp = None, k_procallocp = None, k_rendez = (\<lambda>_. None)\<rparr>"

definition boot_sys :: ksys where
  "boot_sys = \<lparr>sys_kern = boot_kern, sys_q = (\<lambda>_. \<lparr>q_locked = False, q_head = None, q_tail = None, q_qpc = 0\<rparr>),
     sys_rw = (\<lambda>_. \<lparr>rw_readers = 0, rw_writer = False, rw_head = None, rw_tail = None, rw_wproc = None, rw_wpc = 0\<rparr>),
     sys_stats = \<lparr>st_rlock = 0, st_rlockq = 0, st_wlock = 0, st_wlockq = 0, st_qlock = 0, st_qlockq = 0\<rparr>\<rparr>"

definition no_ghost :: ghost where
  "no_ghost = \<lparr>g_own = \<lambda>_. [], g_rd = \<lambda>_. [], g_wr = \<lambda>_. []\<rparr>"

abbreviation (input) no_interrupts :: "nat \<Rightarrow> kern \<Rightarrow> kern" where
  "no_interrupts \<equiv> \<lambda>j k. k"

lemma interrupts_none: "interrupts_ok no_interrupts"
  by (simp add: interrupts_ok_def wait_frame_refl)

lemma boot_states: "states boot_kern = (\<lambda>_. Dead)(0 := Running)"
  by (auto simp: states_def boot_kern_def boot_proc_def fun_eq_iff)

lemma boot_runq: "runq_rep boot_kern (replicate 22 [])"
  by (simp add: runq_rep_def rq_rep_def boot_kern_def queue_rep_def disjoint_queues_def sum_list_replicate)

lemma boot_ok: "sched_ok boot_kern (replicate 22 [])"
  using boot_runq by (simp add: sched_ok_def boot_states queued_def prios_def) (simp add: boot_kern_def boot_proc_def)

lemma boot_inv: "sched_inv boot_kern"
  unfolding sched_inv_def kinv_def using boot_ok
  by (auto simp: boot_states) (simp_all add: boot_kern_def boot_proc_def split: if_splits)

lemma boot_unlocked: "unlocked boot_sys no_ghost"
proof -
  have "lock_rep boot_kern (ends boot_sys) (\<lambda>_. [])"
  proof -
    have "ends boot_sys w = (None, None)" for w by (cases w) (simp_all add: boot_sys_def)
    then show ?thesis by (simp add: lock_rep_def queue_rep_def)
  qed
  then show ?thesis
    using boot_inv by (simp add: unlocked_def lock_inv_def no_ghost_def) (simp add: boot_sys_def q_ok_def rw_ok_def)
qed

lemma boot_reach: "kreach no_interrupts (boot_sys, no_ghost)"
  using boot_unlocked by (auto simp: kreach_def)

section \<open>Arithmetic of the averages\<close>

lemma s32_id: "- 2147483648 \<le> x \<Longrightarrow> x < 2147483648 \<Longrightarrow> s32 x = x"
  by (simp add: s32_def signed_of_int signed_take_bit_int_eq_self)

lemma sdiv_pos: "0 \<le> x \<Longrightarrow> 0 < y \<Longrightarrow> x sdiv y = x div y" for x y :: int
  by (cases "x = 0") (simp_all add: signed_divide_int_def)

lemma decay:
  assumes "0 \<le> c" "c \<le> 1000" "0 \<le> d" "d \<le> (6000 :: int)"
  shows "s32 (c * s32 d) sdiv 6000 = c * d div 6000" "0 \<le> c * d div 6000" "c * d div 6000 \<le> c"
proof -
  have le: "c * d \<le> 1000 * 6000" using assms by (intro mult_mono) auto
  have "0 \<le> c * d" using assms by simp
  have "s32 (c * d) = c * d"
  proof (rule s32_id)
    show "- 2147483648 \<le> c * d" using \<open>0 \<le> c * d\<close> by linarith
    show "c * d < 2147483648" using le by linarith
  qed
  then have "s32 (c * s32 d) = c * d" using assms by (simp add: s32_id)
  then show "s32 (c * s32 d) sdiv 6000 = c * d div 6000" using \<open>0 \<le> c * d\<close> by (simp add: sdiv_pos)
  show "0 \<le> c * d div 6000" using \<open>0 \<le> c * d\<close> by simp
  have "c * d \<le> c * 6000" using assms by (intro mult_left_mono) auto
  then have "c * d div 6000 \<le> c * 6000 div 6000" by (rule zdiv_mono1) simp
  then show "c * d div 6000 \<le> c" by simp
qed

lemma anyready_states: "sched_ok k qs \<Longrightarrow> anyready k \<longleftrightarrow> (\<exists>p. states k p = Ready)"
proof -
  assume ok: "sched_ok k qs"
  note d = sched_okD [OF ok]
  have "anyready k \<longleftrightarrow> (\<exists>i. bit (k_runvec k) i)"
    unfolding anyready_def using bit_eq_iff [of "k_runvec k" 0] by auto
  also have "\<dots> \<longleftrightarrow> (\<exists>i < 22. qs ! i \<noteq> [])" using d(1) by (auto simp: runq_rep_def)
  also have "\<dots> \<longleftrightarrow> (\<exists>p. p \<in> queued qs)" unfolding in_queued d(2) using last_in_set by fastforce
  finally show ?thesis using d(4) by simp
qed

lemma anyhigher_queues:
  assumes ok: "sched_ok k qs" and up: "k_up k = Some up"
  shows "anyhigher k \<longleftrightarrow> (\<exists>i. unat (prios k up) < i \<and> i < 22 \<and> qs ! i \<noteq> [])"
proof -
  note d = sched_okD [OF ok]
  let ?m = "unat (prios k up) + 1"
  have m: "?m < 32" using d(7) [of up] by (simp add: word_less_nat_alt)
  have mask: "push_bit ?m 1 - 1 = (mask ?m :: uint)" by (simp add: mask_eq_exp_minus_1 push_bit_eq_mult)
  have "bit (k_runvec k AND NOT (mask ?m)) i \<longleftrightarrow> bit (k_runvec k) i \<and> ?m \<le> i" for i
    using bit_imp_le_length [of "k_runvec k" i] by (auto simp: bit_simps)
  then have "k_runvec k AND NOT (mask ?m) \<noteq> 0 \<longleftrightarrow> (\<exists>i. bit (k_runvec k) i \<and> ?m \<le> i)"
    using bit_eq_iff [of "k_runvec k AND NOT (mask ?m)" 0] by auto
  then have "anyhigher k \<longleftrightarrow> (\<exists>i. bit (k_runvec k) i \<and> ?m \<le> i)"
    unfolding anyhigher_def using up mask by (simp add: prios_def)
  then show ?thesis using d(1) by (auto simp: runq_rep_def Suc_le_eq)
qed

text \<open>Two processes are ready, process 1 with priority 3 and process 2 with priority 10; with \<open>b\<close>, process 0 runs.\<close>

definition ready_base :: "bool \<Rightarrow> kern" where
  "ready_base b = boot_kern\<lparr>k_up := (if b then Some 0 else None), k_ticks := 200,
     k_procs := (\<lambda>_. boot_proc)(0 := boot_proc\<lparr>p_state := (if b then Running else Dead), p_lastcpu := Some 0\<rparr>,
       1 := boot_proc\<lparr>p_state := Ready, p_lastcpu := Some 0\<rparr>, 2 := boot_proc\<lparr>p_state := Ready\<rparr>)\<rparr>"

definition ready_kern :: "bool \<Rightarrow> kern" where
  "ready_kern b = queueproc 10 2 (queueproc 3 1 (ready_base b))"

lemma ready_runq: "runq_rep (ready_kern b) ((replicate 22 [])[3 := [1], 10 := [2]])"
proof -
  have "runq_rep (ready_base b) (replicate 22 [])"
    by (rule runq_rep_core [OF boot_runq]) (auto simp: ready_base_def boot_kern_def boot_proc_def rnexts_def fun_eq_iff)
  then have "runq_rep (queueproc 3 1 (ready_base b)) ((replicate 22 [])[3 := [1]])"
    using queueproc_runq [of _ _ 3 1] by (force simp: queued_def)
  then show ?thesis
    using queueproc_runq [of _ "(replicate 22 [])[3 := [1]]" 10 2]
    by (simp add: ready_kern_def in_queued nth_list_update)
qed

lemma ready_states: "states (ready_kern b) = (\<lambda>_. Dead)(0 := (if b then Running else Dead), 1 := Ready, 2 := Ready)"
  by (simp add: ready_kern_def states_queueproc) (auto simp: ready_base_def states_def boot_proc_def fun_eq_iff)

lemma ready_core: "kern_core (ready_kern b) = kern_core (ready_base b)"
  by (simp add: ready_kern_def kern_core_queueproc)

lemma ready_ok: "sched_ok (ready_kern b) ((replicate 22 [])[3 := [1], 10 := [2]])"
proof -
  have "p \<in> queued ((replicate 22 [])[3 := [1], 10 := [2]]) \<longleftrightarrow> p = 1 \<or> p = 2" for p
    unfolding in_queued by (auto simp: nth_list_update intro: exI [of _ 3] exI [of _ 10])
  moreover have "p_basepri (k_procs (ready_kern b) p) = 10" for p
    unfolding kern_coreD [OF ready_core] by (simp add: ready_base_def boot_proc_def)
  moreover have "prios (ready_kern b) p < 22" for p
    by (simp add: ready_kern_def prios_queueproc) (simp add: prios_def ready_base_def boot_proc_def)
  ultimately show ?thesis using ready_runq by (auto simp: sched_ok_def ready_states)
qed

lemma ready_kinv: "kinv (ready_kern b)" "sched_inv (ready_kern b)"
proof -
  show "kinv (ready_kern b)"
    unfolding kinv_def kern_coreD [OF ready_core] using ready_ok
    by (auto simp: ready_states) (simp_all add: ready_base_def boot_proc_def boot_kern_def split: if_splits)
  then show "sched_inv (ready_kern b)"
    unfolding sched_inv_def kern_coreD [OF ready_core] by (simp add: ready_states ready_base_def)
qed

lemma ready_affine: "affine (ready_kern b) i p \<longleftrightarrow> True" "k_up (ready_kern b) = (if b then Some 0 else None)"
  "k_readied (ready_kern b) = None"
  unfolding affine_def Let_def kern_coreD [OF ready_core]
  by (simp_all add: ready_base_def boot_proc_def boot_kern_def) (simp add: ready_kern_def queueproc_def Let_def ready_base_def boot_kern_def split: option.split)

text \<open>Process 0 holds lock 7 and process 1 waits for it.\<close>

definition wait_sys :: ksys where
  "wait_sys = boot_sys\<lparr>sys_kern := boot_kern\<lparr>k_procs := (k_procs boot_kern)(1 := boot_proc\<lparr>p_state := Queueing\<rparr>)\<rparr>,
     sys_q := (sys_q boot_sys)(7 := \<lparr>q_locked = True, q_head = Some 1, q_tail = Some 1, q_qpc = 0\<rparr>)\<rparr>"

definition wait_ghost :: ghost where
  "wait_ghost = no_ghost\<lparr>g_own := (\<lambda>_. [])(7 := [0])\<rparr>"

lemma wait_states: "states (sys_kern wait_sys) = (\<lambda>_. Dead)(0 := Running, 1 := Queueing)"
  by (auto simp: wait_sys_def states_def boot_kern_def boot_proc_def fun_eq_iff)

lemma wait_sched: "sched_inv (sys_kern wait_sys)"
proof -
  have r: "runq_rep (sys_kern wait_sys) (replicate 22 [])"
    by (rule runq_rep_core [OF boot_runq]) (auto simp: wait_sys_def boot_kern_def boot_proc_def rnexts_def fun_eq_iff)
  then have "sched_ok (sys_kern wait_sys) (replicate 22 [])"
    by (simp add: sched_ok_def wait_states queued_def prios_def) (simp add: wait_sys_def boot_kern_def boot_proc_def)
  then show ?thesis unfolding sched_inv_def kinv_def
    by (auto simp: wait_states) (simp_all add: wait_sys_def boot_kern_def boot_proc_def split: if_splits)
qed

lemma wait_inv: "lock_inv wait_sys wait_ghost ((\<lambda>_. [])(WQ 7 := [1]))"
proof -
  have "ends wait_sys w = (if w = WQ 7 then (Some 1, Some 1) else (None, None))" for w
    by (cases w) (simp_all add: wait_sys_def boot_sys_def)
  moreover have "qnexts (sys_kern wait_sys) 1 = None" by (simp add: wait_sys_def qnexts_def boot_proc_def)
  ultimately have "lock_rep (sys_kern wait_sys) (ends wait_sys) ((\<lambda>_. [])(WQ 7 := [1]))"
    by (auto simp: lock_rep_def queue_rep_def wait_states)
  then show ?thesis
    using wait_sched by (simp add: lock_inv_def) (simp add: wait_sys_def wait_ghost_def no_ghost_def boot_sys_def q_ok_def rw_ok_def)
qed

end
