(* ===== verification/Kern_Props.thy ===== *)
theory Kern_Props
  imports Kern_Example
begin

text \<open>The properties of the scheduler and of the kernel locks.\<close>



text \<open>
  C26: In every reachable state the run queues hold exactly the ready processes, every one of
  them once; one process is running, the current one; and \<open>anyready\<close> and
  \<open>anyhigher\<close> say from the bits of \<^verbatim>\<open>runvec\<close> whether a process is ready, and
  whether one is ready with a higher priority than that of the current process.
\<close>

theorem ready_queues:
  assumes "interrupts_ok idle" and "kreach idle (s, g)"
  shows "\<exists>qs. runq_rep (sys_kern s) qs \<and> distinct (concat qs)
    \<and> (\<forall>p. p \<in> queued qs \<longleftrightarrow> states (sys_kern s) p = Ready)
    \<and> (\<forall>p. k_up (sys_kern s) = Some p \<longleftrightarrow> states (sys_kern s) p = Running)
    \<and> (anyready (sys_kern s) \<longleftrightarrow> (\<exists>p. states (sys_kern s) p = Ready))
    \<and> (anyhigher (sys_kern s) \<longleftrightarrow> (\<exists>up i. k_up (sys_kern s) = Some up \<and> unat (prios (sys_kern s) up) < i \<and> i < 22 \<and> qs ! i \<noteq> []))"
proof -
  obtain wl where "lock_inv s g wl" using kreach_inv [OF assms] by blast
  then have inv: "sched_inv (sys_kern s)" by (rule lock_invD)
  then obtain qs where ok: "sched_ok (sys_kern s) qs" by (auto simp: sched_inv_def kinv_def)
  note d = sched_okD [OF ok]
  have "distinct (concat qs)" using distinct_queues [OF d(1)] .
  moreover have "anyhigher (sys_kern s) \<longleftrightarrow> (\<exists>up i. k_up (sys_kern s) = Some up \<and> unat (prios (sys_kern s) up) < i \<and> i < 22 \<and> qs ! i \<noteq> [])"
    using anyhigher_queues [OF ok] by (cases "k_up (sys_kern s)") (auto simp: anyhigher_def)
  moreover have "\<forall>p. k_up (sys_kern s) = Some p \<longleftrightarrow> states (sys_kern s) p = Running"
    using inv unfolding sched_inv_def kinv_def by blast
  moreover have "\<forall>p. p \<in> queued qs \<longleftrightarrow> states (sys_kern s) p = Ready" using d(4) by blast
  ultimately show ?thesis using d(1) anyready_states [OF ok] by blast
qed

theorem ready_queues_witness:
  "\<exists>qs. runq_rep boot_kern qs \<and> \<not> anyready boot_kern \<and> (\<forall>p. p \<notin> queued qs)"
proof -
  have b: "sys_kern boot_sys = boot_kern" by (simp add: boot_sys_def)
  have "states boot_kern p \<noteq> Ready" for p by (simp add: boot_states)
  then show ?thesis using ready_queues [OF interrupts_none boot_reach] unfolding b by blast
qed

text \<open>
  C27: In every reachable state the holder of a lock can release it, and the calls that may
  panic do not: \<open>qunlock\<close>, \<open>runlock\<close> and \<open>wunlock\<close> by a holder, \<open>proc_wakeup\<close> of any rendezvous,
  and the clock's \<open>hzsched\<close>, which rebalances the queues, all return.
\<close>

theorem releases_return:
  assumes "interrupts_ok idle" and "kreach idle (s, g)" and "k_up (sys_kern s) = Some up"
  shows "(up \<in> set (g_own g l) \<longrightarrow> qunlock l s \<noteq> None) \<and> (up \<in> set (g_rd g l) \<longrightarrow> runlock l s \<noteq> None)
    \<and> (up \<in> set (g_wr g l) \<longrightarrow> wunlock l s \<noteq> None) \<and> proc_wakeup r (sys_kern s) \<noteq> None \<and> hzsched (sys_kern s) \<noteq> None"
proof -
  obtain wl where i: "lock_inv s g wl" using kreach_inv [OF assms(1,2)] by blast
  note d = lock_invD(1) [OF i]
  have "qunlock l s \<noteq> None" if "up \<in> set (g_own g l)" using qunlock_inv [OF i assms(3) that] by auto
  moreover have "runlock l s \<noteq> None" if "up \<in> set (g_rd g l)" using runlock_inv [OF i assms(3) that] by auto
  moreover have "wunlock l s \<noteq> None" if "up \<in> set (g_wr g l)" using wunlock_inv [OF i assms(3) that] by auto
  moreover obtain k' where "proc_wakeup r (sys_kern s) = Some (k_rendez (sys_kern s) r, k')"
    using wakeup_sched_inv [OF d, of r] by blast
  moreover have "hzsched (sys_kern s) \<noteq> None" using hzsched_inv [OF d assms(3)] by auto
  ultimately show ?thesis by simp
qed

theorem releases_return_witness: "proc_wakeup 4 boot_kern \<noteq> None \<and> hzsched boot_kern \<noteq> None"
proof -
  have b: "sys_kern boot_sys = boot_kern" "k_up boot_kern = Some 0" by (simp_all add: boot_sys_def boot_kern_def)
  show ?thesis using releases_return [OF interrupts_none boot_reach, of 0 _ 4] unfolding b by simp
qed



text \<open>
  C29: When there is a process that last ran on this processor or on none, and no process was readied
  since, \<open>runproc\<close> takes the first such process of the highest queue that has one,
  removes it from that queue and nothing else from any queue, and marks it as being scheduled.
\<close>

theorem runproc_highest:
  assumes "kinv k" and "k_up k = None" and "k_readied k = None" and "sched_ok k qs" and "states k p = Ready" and "affine k 0 p"
  shows "\<exists>pri q as bs k'. runproc idle k = Some (q, k') \<and> pri < 22 \<and> qs ! pri = as @ q # bs \<and> affine k 0 q
    \<and> (\<forall>x \<in> set as. \<not> affine k 0 x) \<and> (\<forall>i. pri < i \<and> i < 22 \<longrightarrow> (\<forall>x \<in> set (qs ! i). \<not> affine k 0 x))
    \<and> sched_ok k' (qs[pri := as @ bs]) \<and> states k' = (states k)(q := Scheding)"
proof -
  let ?k = "k\<lparr>k_preempts := k_preempts k + 1\<rparr>"
  have v: "kview ?k = kview k" by (simp add: kview_def)
  have a: "affine ?k i x = affine k i x" "states ?k = states k" for i x by (simp_all add: affine_def states_def)
  have k: "kinv ?k" "k_up ?k = None" "sched_ok ?k qs" "states ?k p = Ready" "affine ?k 0 p"
    using assms kinv_view [OF v] a by simp_all
  obtain pri q k' where r: "runproc_loop idle 0 0 ?k = Some (q, k')" "picks ?k 0 qs 22 (Some (pri, q))"
      "sched_ok k' (qs[pri := remove1 q (qs ! pri)])" "states k' = (states k)(q := Scheding)"
    using runproc_loop_first [OF k(1,2,3,4,5), of idle 0] a(2) by auto
  obtain as bs where ab: "qs ! pri = as @ q # bs" "\<forall>x \<in> set as. \<not> affine k 0 x"
    and pk: "pri < 22" "affine k 0 q" "\<forall>i. pri < i \<and> i < 22 \<longrightarrow> (\<forall>x \<in> set (qs ! i). \<not> affine k 0 x)"
    using r(2) by (auto simp: picks_def a)
  have "distinct (qs ! pri)" using rq_distinct [OF sched_okD(1) [OF assms(4)] pk(1)] .
  then have "remove1 q (qs ! pri) = as @ bs" using ab(1) remove1_split [of q as bs] by simp
  moreover have "runproc idle k = Some (q, k')" using r(1) assms(3) by (simp add: runproc_def)
  ultimately show ?thesis using r(3,4) ab pk by auto
qed

theorem runproc_highest_witness: "\<exists>k'. runproc no_interrupts (ready_kern False) = Some (2, k')"
proof -
  have p: "k_up (ready_kern False) = None" "k_readied (ready_kern False) = None" "states (ready_kern False) 1 = Ready"
      "affine (ready_kern False) 0 1"
    by (simp_all add: ready_affine ready_states)
  obtain pri q as bs k' where r: "runproc no_interrupts (ready_kern False) = Some (q, k')" "pri < 22"
      "(replicate 22 [])[3 := [1], 10 := [2]] ! pri = as @ q # bs"
      "\<forall>i. pri < i \<and> i < 22 \<longrightarrow> (\<forall>x \<in> set ((replicate 22 [])[3 := [1], 10 := [2]] ! i). \<not> affine (ready_kern False) 0 x)"
    using runproc_highest [OF ready_kinv(1) p(1,2) ready_ok p(3,4), of no_interrupts] by blast
  have "\<not> pri < 10" using r(4) [THEN spec, of 10] by (auto simp: ready_affine)
  then have "pri = 10" "q = 2" using r(2,3) by (auto simp: nth_list_update Cons_eq_append_conv split: if_splits)
  then show ?thesis using r(1) by blast
qed

text \<open>
  C30: A call of \<open>sched\<close> by the running process returns to some process, and the invariant holds
  there, if any process that is ready or running may run on this processor and
  the interrupts taken while the processor idles keep the invariant.
\<close>

theorem sched_returns:
  assumes "interrupts_ok idle" and "sched_inv k" and "k_up k = Some up" and "states k q \<in> {Ready, Running}" and "affine k 1 q"
  shows "\<exists>k'. proc_sched idle k = Some k' \<and> sched_inv k' \<and> k_up k' \<noteq> None"
proof -
  have "\<exists>k'. proc_sched idle k = Some k'"
  proof (cases "delay_sched up k")
    case True
    then show ?thesis using assms(3) by (simp add: proc_sched_def)
  next
    case False
    note l = leaving_same [where p = up and k = k]
    have "kinv (leaving up k)" "k_up (leaving up k) = Some up" "states (leaving up k) up \<noteq> Ready"
      using kinv_view(1) [OF l(1)] assms(2,3) l(4) by (auto simp: sched_inv_def leaving_def)
    moreover have "left_state (states (leaving up k) q) = Ready" "affine (leaving up k) 1 q"
      using assms(4,5) l(4,5) by (auto simp: left_state_def)
    ultimately have "\<exists>k'. do { k \<leftarrow> schedinit (leaving up k); sched_pick idle k } = Some k'" by (rule leave_returns [OF assms(1)])
    then show ?thesis using proc_sched_leave [OF assms(3) False] by (simp add: leaving_def Let_def)
  qed
  then show ?thesis using proc_sched_running [OF assms(1-3)] by blast
qed

theorem sched_returns_witness: "\<exists>k'. proc_sched no_interrupts (ready_kern True) = Some k' \<and> sched_inv k' \<and> k_up k' \<noteq> None"
  using sched_returns [OF interrupts_none ready_kinv(2), of True 0 1] by (simp add: ready_affine ready_states)

text \<open>
  \<open>rebalance\<close> ends, and only moves ready processes between the queues: the process states do
  not change and the invariant still holds.
\<close>

lemma rebalance_ends:
  assumes "sched_inv k"
  shows "\<exists>k'. rebalance k = Some k' \<and> sched_inv k' \<and> states k' = states k \<and> k_up k' = k_up k"
  using rebalance_inv [OF assms] by metis

theorem rebalance_ends_witness:
  "\<exists>k'. rebalance (ready_kern True) = Some k' \<and> states k' 1 = Ready \<and> states k' 2 = Ready"
proof -
  obtain k' where "rebalance (ready_kern True) = Some k'" "states k' = states (ready_kern True)"
    using rebalance_ends [OF ready_kinv(2), of True] by blast
  then show ?thesis by (simp add: ready_states)
qed

text \<open>
  \<open>reprioritize\<close> never panics and gives a priority between 0 and the base priority, whatever
  the load and the cpu average are.
\<close>

lemma priority_bounds:
  assumes "p_basepri (k_procs k p) < 0x80000000"
  shows "\<exists>r. reprioritize p k = Some r \<and> r \<le> p_basepri (k_procs k p)"
  using reprioritize_le [OF assms] .

theorem priority_bounds_witness: "\<exists>r. reprioritize 0 (boot_kern\<lparr>k_load := 3\<rparr>) = Some r \<and> r \<le> 10"
  using priority_bounds [of "boot_kern\<lparr>k_load := 3\<rparr>" 0] by (simp add: boot_kern_def boot_proc_def)

text \<open>
  \<open>updatecpu\<close> keeps the average of a process between 0 and 1000, lowers it for a process that has not been
  running and raises it for the running one, when no more than \<open>2 ^ 31\<close> half ticks have passed since the last update.
\<close>

lemma updatecpu_average:
  assumes "p_cpuavg (k_procs k p) \<le> 1000" and "0 \<le> sint (k_ticks k * 2 + 1 - p_lastupdate (k_procs k p))"
  shows "p_cpuavg (k_procs (updatecpu p k) p) \<le> 1000
    \<and> (if k_up k = Some p then p_cpuavg (k_procs k p) \<le> p_cpuavg (k_procs (updatecpu p k) p)
       else p_cpuavg (k_procs (updatecpu p k) p) \<le> p_cpuavg (k_procs k p))"
proof -
  let ?c = "uint (p_cpuavg (k_procs k p))" and ?n = "sint (k_ticks k * 2 + 1 - p_lastupdate (k_procs k p))"
  define d where "d = 6000 - (if ?n > 6000 then 6000 else ?n)"
  have d: "0 \<le> d" "d \<le> 6000" using assms(2) by (auto simp: d_def)
  have c: "0 \<le> ?c" "?c \<le> 1000" using assms(1) by (simp_all add: word_le_def)
  have "- (2 ^ 31) \<le> ?c" "?c < 2 ^ 31" using c by (simp_all add: order_trans [of _ 0])
  then have sc: "sint (p_cpuavg (k_procs k p)) = ?c" by (simp add: sint_uint signed_take_bit_int_eq_self)
  note down = decay [OF c d] and up = decay [of "1000 - ?c" d]
  have u: "uint (word_of_int x :: uint) = x" if "0 \<le> x" "x \<le> 1000" for x using that by (simp add: uint_word_of_int)
  have up': "s32 (s32 (1000 - ?c) * s32 d) sdiv 6000 = (1000 - ?c) * d div 6000" "0 \<le> (1000 - ?c) * d div 6000"
      "(1000 - ?c) * d div 6000 \<le> 1000 - ?c"
  proof -
    have "s32 (1000 - ?c) = 1000 - ?c" using c by (intro s32_id) linarith+
    then show "s32 (s32 (1000 - ?c) * s32 d) sdiv 6000 = (1000 - ?c) * d div 6000" "0 \<le> (1000 - ?c) * d div 6000"
      "(1000 - ?c) * d div 6000 \<le> 1000 - ?c" using up c d by simp_all
  qed
  show ?thesis
  proof (cases "?n = 0")
    case True
    then show ?thesis using assms(1) by (simp add: updatecpu_def)
  next
    case False
    show ?thesis
    proof (cases "k_up k = Some p")
      case True
      have "s32 (1000 - (1000 - ?c) * d div 6000) = 1000 - (1000 - ?c) * d div 6000"
        using up'(2,3) c by (intro s32_id) linarith+
      then have e: "p_cpuavg (k_procs (updatecpu p k) p) = word_of_int (1000 - (1000 - ?c) * d div 6000)"
        using False True up'(1) by (simp add: updatecpu_def Let_def sc flip: d_def)
      have "uint (word_of_int (1000 - (1000 - ?c) * d div 6000) :: uint) = 1000 - (1000 - ?c) * d div 6000"
        using up'(2,3) c by (intro u) linarith+
      then show ?thesis using True up'(2,3) c unfolding e word_le_def by (simp only: if_True) simp
    next
      case up: False
      have e: "p_cpuavg (k_procs (updatecpu p k) p) = word_of_int (?c * d div 6000)"
        using False up down(1) by (simp add: updatecpu_def Let_def sc flip: d_def)
      show ?thesis using up down(2,3) c unfolding e word_le_def by (simp add: u)
    qed
  qed
qed

theorem updatecpu_average_witness: "p_cpuavg (k_procs (updatecpu 0 (boot_kern\<lparr>k_ticks := 200\<rparr>)) 0) \<le> 1000"
  using updatecpu_average [of "boot_kern\<lparr>k_ticks := 200\<rparr>" 0] by (simp add: boot_kern_def boot_proc_def)

section \<open>Blocking with a spin lock held\<close>

text \<open>
  A process that calls \<open>qlock\<close> with a spin lock held, which the code only reports, is not suspended: \<open>sched\<close>
  returns at once, and \<open>qlock\<close> returns to it although another process holds the lock.
\<close>

lemma qlock_spinlock:
  assumes "k_up (sys_kern s) = Some up" and "q_locked (sys_q s l)" and "p_nlocks (k_procs (sys_kern s) up) \<noteq> 0"
    and "p_delaysched (k_procs (sys_kern s) up) < 20"
  shows "\<exists>s'. qlock idle l pc s = Some s' \<and> k_up (sys_kern s') = Some up \<and> states (sys_kern s') up = Queueing"
proof -
  obtain n h t where q: "add_queue up (qnexts (sys_kern s), q_head (sys_q s l), q_tail (sys_q s l)) = (n, h, t)"
    by (metis surj_pair)
  let ?k = "setp up (\<lambda>x. x\<lparr>p_qpc := pc\<rparr>) (setp up (\<lambda>x. x\<lparr>p_state := Queueing\<rparr>) (set_qnexts n (sys_kern s)))"
  have "delay_sched up ?k" "k_up ?k = Some up" using assms by (simp_all add: delay_sched_def Let_def set_qnexts_def)
  then have "proc_sched idle ?k = Some (setp up (\<lambda>x. x\<lparr>p_delaysched := p_delaysched x + 1\<rparr>) ?k\<lparr>k_delayedscheds := k_delayedscheds ?k + 1\<rparr>)"
    by (simp add: proc_sched_def)
  then show ?thesis using assms q by (simp add: qlock_def Let_def states_def set_qnexts_def)
qed

end
