(* ===== verification/Intmap.thy ===== *)
theory Intmap
  imports Prelude
begin

text \<open>
  The maps from 32-bit ids to pointers of the 9P server library
  (\<^verbatim>\<open>lib_networking/lib9p/intmap.c\<close>): 128 chains, new entries in front. A chain is
  a list of ids and values; the result of \<open>llookup\<close>, a pointer to a link, is the number of links
  before it. The calls of the read-write lock are left out: every operation holds it
  from its first to its last access.
\<close>

section \<open>The contract\<close>

locale keymap =
  fixes rep :: "'m \<Rightarrow> (uint \<Rightarrow> 'v option) \<Rightarrow> bool"
    and find :: "'m \<Rightarrow> uint \<Rightarrow> 'v option"
    and ins :: "'m \<Rightarrow> uint \<Rightarrow> 'v \<Rightarrow> 'v option \<times> 'm"
    and canins :: "'m \<Rightarrow> uint \<Rightarrow> 'v \<Rightarrow> bool \<times> 'm"
    and del :: "'m \<Rightarrow> uint \<Rightarrow> 'v option \<times> 'm"
  assumes rep_find: "rep m f \<Longrightarrow> find m k = f k"
    and rep_ins: "rep m f \<Longrightarrow> fst (ins m k v) = f k \<and> rep (snd (ins m k v)) (f(k := Some v))"
    and rep_canins: "rep m f \<Longrightarrow>
      fst (canins m k v) = (f k = None) \<and> rep (snd (canins m k v)) (if f k = None then f(k := Some v) else f)"
    and rep_del: "rep m f \<Longrightarrow> fst (del m k) = f k \<and> rep (snd (del m k)) (f(k := None))"
begin

text \<open>What was put in is found, until it is deleted; other keys are not affected.\<close>

lemma find_ins: "rep m f \<Longrightarrow> find (snd (ins m k v)) j = (if j = k then Some v else find m j)"
  using rep_ins [of m f k v] rep_find [of m f] rep_find [of "snd (ins m k v)" "f(k := Some v)"] by simp

lemma find_del: "rep m f \<Longrightarrow> find (snd (del m k)) j = (if j = k then None else find m j)"
  using rep_del [of m f k] rep_find [of m f] rep_find [of "snd (del m k)" "f(k := None)"] by simp

lemma canins_find: "rep m f \<Longrightarrow> fst (canins m k v) \<longleftrightarrow> find m k = None"
  using rep_canins [of m f k v] by (simp add: rep_find)

lemma canins_twice: "rep m f \<Longrightarrow> \<not> fst (canins (snd (canins m k v)) k w)"
  using rep_canins [of m f k v] rep_canins [of "snd (canins m k v)" "if f k = None then f(k := Some v) else f" k w]
  by (auto split: if_splits)

lemma ins_del: "rep m f \<Longrightarrow> f k = None \<Longrightarrow> fst (del (snd (ins m k v)) k) = Some v \<and> rep (snd (del (snd (ins m k v)) k)) f"
proof -
  assume r: "rep m f" and k: "f k = None"
  have "(f(k := Some v))(k := None) = f" using k by auto
  then show ?thesis using rep_ins [OF r, of k v] rep_del [of "snd (ins m k v)" "f(k := Some v)" k] by simp
qed

end

section \<open>The hash table\<close>

type_synonym 'v intlist = "(uint \<times> 'v) list"

record 'v intmap =
  im_hash :: "'v intlist list"

abbreviation (input) NHASH :: nat where "NHASH \<equiv> 128"

definition hashid :: "uint \<Rightarrow> nat" where
  "hashid i = unat (i mod 128)"

definition allocmap :: "'v intmap" where
  "allocmap = \<lparr>im_hash = replicate NHASH []\<rparr>"

text \<open>\<open>destroy\<close> changes a state \<open>s\<close>; the order of the calls is that of the loops.\<close>

definition freemap :: "'v intmap \<Rightarrow> ('v \<Rightarrow> 's \<Rightarrow> 's) \<Rightarrow> 's \<Rightarrow> 's" where
  "freemap m destroy s = fold (\<lambda>i. fold (\<lambda>p. destroy (snd p)) (im_hash m ! i)) [0..<NHASH] s"

fun llookup_chain :: "'v intlist \<Rightarrow> uint \<Rightarrow> nat" where
  "llookup_chain [] k = 0"
| "llookup_chain (f # fs) k = (if fst f = k then 0 else Suc (llookup_chain fs k))"

definition llookup :: "'v intmap \<Rightarrow> uint \<Rightarrow> nat" where
  "llookup m k = llookup_chain (im_hash m ! hashid k) k"

text \<open>The entry a link points to, if it is not nil.\<close>

definition deref :: "'v intmap \<Rightarrow> uint \<Rightarrow> nat \<Rightarrow> (uint \<times> 'v) option" where
  "deref m k lf = (let c = im_hash m ! hashid k in if lf < length c then Some (c ! lf) else None)"

definition lookupkey :: "('v \<Rightarrow> 's \<Rightarrow> 's) \<Rightarrow> 'v intmap \<Rightarrow> uint \<Rightarrow> 's \<Rightarrow> 'v option \<times> 's" where
  "lookupkey inc m k s = (case deref m k (llookup m k) of
       Some f \<Rightarrow> (Some (snd f), inc (snd f) s)
     | None \<Rightarrow> (None, s))"

definition insertkey :: "'v intmap \<Rightarrow> uint \<Rightarrow> 'v \<Rightarrow> 'v option \<times> 'v intmap" where
  "insertkey m k v =
     (let h = hashid k; lf = llookup m k; c = im_hash m ! h in
      case deref m k lf of
        Some f \<Rightarrow> (Some (snd f), m\<lparr>im_hash := (im_hash m)[h := c[lf := (fst f, v)]]\<rparr>)
      | None \<Rightarrow> (None, m\<lparr>im_hash := (im_hash m)[h := (k, v) # c]\<rparr>))"

definition caninsertkey :: "'v intmap \<Rightarrow> uint \<Rightarrow> 'v \<Rightarrow> bool \<times> 'v intmap" where
  "caninsertkey m k v =
     (let h = hashid k; c = im_hash m ! h in
      case deref m k (llookup m k) of
        Some f \<Rightarrow> (False, m)
      | None \<Rightarrow> (True, m\<lparr>im_hash := (im_hash m)[h := (k, v) # c]\<rparr>))"

definition deletekey :: "'v intmap \<Rightarrow> uint \<Rightarrow> 'v option \<times> 'v intmap" where
  "deletekey m k =
     (let h = hashid k; lf = llookup m k; c = im_hash m ! h in
      case deref m k lf of
        Some f \<Rightarrow> (Some (snd f), m\<lparr>im_hash := (im_hash m)[h := take lf c @ drop (Suc lf) c]\<rparr>)
      | None \<Rightarrow> (None, m))"

section \<open>It implements the contract\<close>

text \<open>Every entry is in the chain of its id, and no id occurs twice.\<close>

definition im_inv :: "'v intmap \<Rightarrow> bool" where
  "im_inv m \<longleftrightarrow> length (im_hash m) = NHASH \<and>
     (\<forall>i < NHASH. distinct (map fst (im_hash m ! i)) \<and> (\<forall>e \<in> set (im_hash m ! i). hashid (fst e) = i))"

definition im_rep :: "'v intmap \<Rightarrow> (uint \<Rightarrow> 'v option) \<Rightarrow> bool" where
  "im_rep m f \<longleftrightarrow> im_inv m \<and> f = (\<lambda>k. map_of (im_hash m ! hashid k) k)"

lemma hashid_less [simp]: "hashid k < 128"
proof -
  have "unat (k mod 128) = unat k mod 128" by (simp add: unat_mod)
  then show ?thesis by (simp add: hashid_def)
qed

lemma llookup_chain_map_of:
  "(if llookup_chain c k < length c then Some (c ! llookup_chain c k) else None)
    = (case map_of c k of None \<Rightarrow> None | Some v \<Rightarrow> Some (k, v))"
  by (induction c) (auto split: option.splits if_splits)

lemma deref_llookup: "deref m k (llookup m k) = (case map_of (im_hash m ! hashid k) k of None \<Rightarrow> None | Some v \<Rightarrow> Some (k, v))"
  unfolding deref_def llookup_def Let_def by (rule llookup_chain_map_of)

lemma llookup_less: "map_of c k = Some v \<Longrightarrow> llookup_chain c k < length c \<and> c ! llookup_chain c k = (k, v)"
  using llookup_chain_map_of [of c k] by (auto split: if_splits)

text \<open>Replacing the chain of \<open>k\<close>.\<close>

lemma im_rep_chain:
  assumes r: "im_rep m f" and c: "distinct (map fst c)" "\<forall>e \<in> set c. hashid (fst e) = hashid k"
    and g: "\<And>j. hashid j = hashid k \<Longrightarrow> map_of c j = g j" "\<And>j. hashid j \<noteq> hashid k \<Longrightarrow> g j = f j"
  shows "im_rep (m\<lparr>im_hash := (im_hash m)[hashid k := c]\<rparr>) g"
proof -
  have len: "length (im_hash m) = 128" using r by (simp add: im_rep_def im_inv_def)
  have "distinct (map fst ((im_hash m)[hashid k := c] ! i)) \<and> (\<forall>e \<in> set ((im_hash m)[hashid k := c] ! i). hashid (fst e) = i)"
    if "i < 128" for i
    using r c that len by (cases "i = hashid k") (simp_all add: im_rep_def im_inv_def)
  then have "im_inv (m\<lparr>im_hash := (im_hash m)[hashid k := c]\<rparr>)" using len by (simp add: im_inv_def)
  moreover have "g j = map_of ((im_hash m)[hashid k := c] ! hashid j) j" for j
    using g [of j] r len by (cases "hashid j = hashid k") (simp_all add: im_rep_def)
  ultimately show ?thesis by (auto simp: im_rep_def)
qed

lemma chain_props:
  assumes "im_rep m f"
  shows "distinct (map fst (im_hash m ! hashid k))" "e \<in> set (im_hash m ! hashid k) \<Longrightarrow> hashid (fst e) = hashid k"
    "f j = map_of (im_hash m ! hashid j) j"
  using assms by (auto simp: im_rep_def im_inv_def)

lemma map_of_update:
  assumes "distinct (map fst c)" "i < length c" "c ! i = (k, w)"
  shows "map_of (c[i := (k, v)]) = (map_of c)(k := Some v)" "map fst (c[i := (k, v)]) = map fst c"
proof -
  show m: "map fst (c[i := (k, v)]) = map fst c" using assms by (simp add: map_update list_update_same_conv)
  show "map_of (c[i := (k, v)]) = (map_of c)(k := Some v)"
    using assms
  proof (induction c arbitrary: i)
    case (Cons e c)
    show ?case
    proof (cases i)
      case (Suc n)
      then have "k \<in> fst ` set c" using Cons.prems by (force simp: in_set_conv_nth)
      then have "fst e \<noteq> k" using Cons.prems by auto
      moreover have "map_of (c[n := (k, v)]) = (map_of c)(k := Some v)" using Suc Cons by (simp add: fun_upd_def)
      ultimately show ?thesis using Suc by (cases e) (auto simp: fun_eq_iff)
    qed (use Cons.prems in auto)
  qed simp
qed

lemma map_of_remove:
  assumes "distinct (map fst c)" "i < length c" "c ! i = (k, w)"
  shows "map_of (take i c @ drop (Suc i) c) = (map_of c)(k := None)" "distinct (map fst (take i c @ drop (Suc i) c))"
proof -
  have s: "c = take i c @ (k, w) # drop (Suc i) c" using assms(2,3) by (metis id_take_nth_drop)
  then have d: "distinct (map fst (take i c @ (k, w) # drop (Suc i) c))" using assms(1) by simp
  then have n: "map_of (take i c) k = None" "map_of (drop (Suc i) c) k = None" by (auto simp: map_of_eq_None_iff)
  show "map_of (take i c @ drop (Suc i) c) = (map_of c)(k := None)"
  proof
    fix j show "map_of (take i c @ drop (Suc i) c) j = ((map_of c)(k := None)) j"
      using n by (subst s) (auto simp: map_of_append map_add_def split: option.split)
  qed
  show "distinct (map fst (take i c @ drop (Suc i) c))" using d by simp
qed

interpretation intmap: keymap im_rep "\<lambda>m k. fst (lookupkey (\<lambda>v s. s) m k ())" insertkey caninsertkey deletekey
proof
  fix m :: "'v intmap" and f k assume "im_rep m f"
  then show "fst (lookupkey (\<lambda>v s. s) m k ()) = f k"
    using chain_props(3) [of m f k] by (auto simp: lookupkey_def deref_llookup split: option.splits)
next
  fix m :: "'v intmap" and f k v assume r: "im_rep m f"
  note p = chain_props [OF r]
  show "fst (insertkey m k v) = f k \<and> im_rep (snd (insertkey m k v)) (f(k := Some v))"
  proof (cases "f k")
    case None
    then have d: "deref m k (llookup m k) = None" using p(3) [of k] by (simp add: deref_llookup)
    have "im_rep (m\<lparr>im_hash := (im_hash m)[hashid k := (k, v) # im_hash m ! hashid k]\<rparr>) (f(k := Some v))"
      by (rule im_rep_chain [OF r]) (use p(1) [of k] p(2) [of _ k] p(3) None in \<open>auto simp: map_of_eq_None_iff\<close>)
    then show ?thesis using d None by (simp add: insertkey_def Let_def)
  next
    case (Some w)
    then have w: "map_of (im_hash m ! hashid k) k = Some w" using p(3) by simp
    note l = llookup_less [OF w]
    have d: "deref m k (llookup m k) = Some (k, w)" by (simp add: deref_llookup w)
    note u = map_of_update [OF p(1) [of k], of "llookup m k" k w v]
    have "im_rep (m\<lparr>im_hash := (im_hash m)[hashid k := (im_hash m ! hashid k)[llookup m k := (k, v)]]\<rparr>) (f(k := Some v))"
    proof (rule im_rep_chain [OF r])
      show "distinct (map fst ((im_hash m ! hashid k)[llookup m k := (k, v)]))" using u(2) l p(1) by (simp add: llookup_def)
      show "\<forall>e \<in> set ((im_hash m ! hashid k)[llookup m k := (k, v)]). hashid (fst e) = hashid k"
        using p(2) [of _ k] set_update_subset_insert [of "im_hash m ! hashid k"] by fastforce
      show "map_of ((im_hash m ! hashid k)[llookup m k := (k, v)]) j = (f(k := Some v)) j" if "hashid j = hashid k" for j
        using u(1) l p(3) [of j] that by (simp add: llookup_def)
    qed auto
    then show ?thesis using d Some by (simp add: insertkey_def Let_def)
  qed
next
  fix m :: "'v intmap" and f k v assume r: "im_rep m f"
  note p = chain_props [OF r]
  have "im_rep (m\<lparr>im_hash := (im_hash m)[hashid k := (k, v) # im_hash m ! hashid k]\<rparr>) (f(k := Some v))" if "f k = None"
    by (rule im_rep_chain [OF r]) (use p(1) [of k] p(2) [of _ k] p(3) that in \<open>auto simp: map_of_eq_None_iff\<close>)
  then show "fst (caninsertkey m k v) = (f k = None) \<and> im_rep (snd (caninsertkey m k v)) (if f k = None then f(k := Some v) else f)"
    using r p(3) [of k] by (auto simp: caninsertkey_def Let_def deref_llookup split: option.splits)
next
  fix m :: "'v intmap" and f k assume r: "im_rep m f"
  note p = chain_props [OF r]
  show "fst (deletekey m k) = f k \<and> im_rep (snd (deletekey m k)) (f(k := None))"
  proof (cases "f k")
    case None
    moreover have "f(k := None) = f" using None by auto
    ultimately show ?thesis using r p(3) [of k] by (auto simp: deletekey_def Let_def deref_llookup)
  next
    case (Some w)
    then have w: "map_of (im_hash m ! hashid k) k = Some w" using p(3) by simp
    note l = llookup_less [OF w]
    have d: "deref m k (llookup m k) = Some (k, w)" by (simp add: deref_llookup w)
    let ?c = "im_hash m ! hashid k" and ?i = "llookup m k"
    have il: "?i < length ?c" "?c ! ?i = (k, w)" using l by (simp_all add: llookup_def)
    note u = map_of_remove [OF p(1) [of k] il]
    have "im_rep (m\<lparr>im_hash := (im_hash m)[hashid k := take ?i ?c @ drop (Suc ?i) ?c]\<rparr>) (f(k := None))"
    proof (rule im_rep_chain [OF r u(2)])
      show "\<forall>e \<in> set (take ?i ?c @ drop (Suc ?i) ?c). hashid (fst e) = hashid k"
        using p(2) [of _ k] by (auto dest: in_set_takeD in_set_dropD)
      show "map_of (take ?i ?c @ drop (Suc ?i) ?c) j = (f(k := None)) j" if "hashid j = hashid k" for j
        using u(1) p(3) [of j] that by simp
    qed auto
    then show ?thesis using d Some by (simp add: deletekey_def Let_def)
  qed
qed

lemma allocmap_rep: "im_rep allocmap (\<lambda>_. None)"
  by (simp add: im_rep_def im_inv_def allocmap_def)

end
