(* ===== verification/Fidpool.thy ===== *)
theory Fidpool
  imports Intmap Fcall "HOL-Library.Monad_Syntax"
begin

text \<open>
  The reference-counted fids of a 9P server (\<^verbatim>\<open>lib_networking/lib9p/fid.c\<close>): the objects
  by address, the map from fid numbers to addresses, and a log of the calls that closing a fid
  makes. An operation that touches an object that has been freed gives \<open>None\<close>. The address of a new object
  is an argument, what \<^verbatim>\<open>emalloc9p\<close> returns.
\<close>

record fid =
  fid_fid :: uint
  fid_omode :: int
  fid_file :: "nat option"
  fid_rdir :: "nat option"
  fid_ref :: int
  fid_uid :: "bytes option"
  fid_qid :: qid
  fid_diroffset :: uvlong

datatype fevent = Closedirfile nat | Destroy nat | Closefile nat

record fidpool =
  fp_map :: "nat intmap"
  fp_destroy :: bool
  fp_fids :: "nat \<Rightarrow> fid option"
  fp_log :: "fevent list"

definition incfidref :: "nat \<Rightarrow> fidpool \<Rightarrow> fidpool option" where
  "incfidref a p = do {
     f \<leftarrow> fp_fids p a;
     Some (p\<lparr>fp_fids := (fp_fids p)(a := Some (f\<lparr>fid_ref := fid_ref f + 1\<rparr>))\<rparr>) }"

definition allocfidpool :: "bool \<Rightarrow> fidpool" where
  "allocfidpool destroy = \<lparr>fp_map = allocmap, fp_destroy = destroy, fp_fids = (\<lambda>_. None), fp_log = []\<rparr>"

definition freefidpool :: "fidpool \<Rightarrow> fidpool" where
  "freefidpool p = freemap (fp_map p)
     (\<lambda>a p. if fp_destroy p then p\<lparr>fp_log := fp_log p @ [Destroy a]\<rparr> else p) p"

definition closefid :: "nat \<Rightarrow> fidpool \<Rightarrow> fidpool option" where
  "closefid a p = do {
     f \<leftarrow> fp_fids p a;
     let f = f\<lparr>fid_ref := fid_ref f - 1\<rparr>;
     if fid_ref f = 0 then
       let ev = (case fid_rdir f of None \<Rightarrow> [] | Some d \<Rightarrow> [Closedirfile d])
              @ (if fp_destroy p then [Destroy a] else [])
              @ (case fid_file f of None \<Rightarrow> [] | Some x \<Rightarrow> [Closefile x])
       in Some (p\<lparr>fp_fids := (fp_fids p)(a := None), fp_log := fp_log p @ ev\<rparr>)
     else Some (p\<lparr>fp_fids := (fp_fids p)(a := Some f)\<rparr>) }"

definition fid_new :: "uint \<Rightarrow> fid" where
  "fid_new k = \<lparr>fid_fid = k, fid_omode = -1, fid_file = None, fid_rdir = None, fid_ref = 0, fid_uid = None,
     fid_qid = \<lparr>q_path = 0, q_vers = 0, q_type = 0\<rparr>, fid_diroffset = 0\<rparr>"

definition allocfid :: "nat \<Rightarrow> uint \<Rightarrow> fidpool \<Rightarrow> (nat option \<times> fidpool) option" where
  "allocfid a fid p = do {
     let p = p\<lparr>fp_fids := (fp_fids p)(a := Some (fid_new fid))\<rparr>;
     p \<leftarrow> incfidref a p;
     p \<leftarrow> incfidref a p;
     let (ok, m) = caninsertkey (fp_map p) fid a;
     let p = p\<lparr>fp_map := m\<rparr>;
     if \<not> ok then do {
       p \<leftarrow> closefid a p;
       p \<leftarrow> closefid a p;
       Some (None, p) }
     else Some (Some a, p) }"

definition lookupfid :: "uint \<Rightarrow> fidpool \<Rightarrow> (nat option \<times> fidpool) option" where
  "lookupfid fid p = (case lookupkey (\<lambda>a s. s \<bind> incfidref a) (fp_map p) fid (Some p) of
       (v, None) \<Rightarrow> None
     | (v, Some p) \<Rightarrow> Some (v, p))"

definition removefid :: "uint \<Rightarrow> fidpool \<Rightarrow> nat option \<times> fidpool" where
  "removefid fid p = (let (v, m) = deletekey (fp_map p) fid in (v, p\<lparr>fp_map := m\<rparr>))"

section \<open>Counting references\<close>

text \<open>
  The steps of a server, with a ghost count of the references it holds to every object. A
  reference is gained from \<open>allocfid\<close>, \<open>lookupfid\<close> and \<open>removefid\<close>, which hands over the one of the
  map, and given up by \<open>closefid\<close>. The program may change the other fields of a fid.
\<close>

inductive fidstep :: "fidpool \<times> (nat \<Rightarrow> nat) \<Rightarrow> fidpool \<times> (nat \<Rightarrow> nat) \<Rightarrow> bool" where
  alloc: "fp_fids p a = None \<Longrightarrow> allocfid a k p = Some (v, p') \<Longrightarrow>
    fidstep (p, h) (p', case v of None \<Rightarrow> h | Some b \<Rightarrow> h(b := h b + 1))"
| lookup: "lookupfid k p = Some (v, p') \<Longrightarrow> fidstep (p, h) (p', case v of None \<Rightarrow> h | Some b \<Rightarrow> h(b := h b + 1))"
| remove: "removefid k p = (v, p') \<Longrightarrow> fidstep (p, h) (p', case v of None \<Rightarrow> h | Some b \<Rightarrow> h(b := h b + 1))"
| close: "0 < h a \<Longrightarrow> closefid a p = Some p' \<Longrightarrow> fidstep (p, h) (p', h(a := h a - 1))"
| change: "fp_fids p a = Some f \<Longrightarrow> fid_fid g = fid_fid f \<Longrightarrow> fid_ref g = fid_ref f \<Longrightarrow>
    fidstep (p, h) (p\<lparr>fp_fids := (fp_fids p)(a := Some g)\<rparr>, h)"

definition fidreach :: "fidpool \<times> (nat \<Rightarrow> nat) \<Rightarrow> bool" where
  "fidreach ph \<longleftrightarrow> (\<exists>d. fidstep\<^sup>*\<^sup>* (allocfidpool d, \<lambda>_. 0) ph)"

text \<open>An object that exists is counted correctly, and there are no references to others.\<close>

fun fid_ok :: "(uint \<Rightarrow> nat option) \<Rightarrow> nat \<Rightarrow> nat \<Rightarrow> fid option \<Rightarrow> bool" where
  "fid_ok m n a None \<longleftrightarrow> n = 0"
| "fid_ok m n a (Some f) \<longleftrightarrow> fid_ref f = int n + (if m (fid_fid f) = Some a then 1 else 0) \<and> 0 < fid_ref f"

definition fid_inv :: "fidpool \<Rightarrow> (nat \<Rightarrow> nat) \<Rightarrow> (uint \<Rightarrow> nat option) \<Rightarrow> bool" where
  "fid_inv p h m \<longleftrightarrow> im_rep (fp_map p) m \<and> (\<forall>a. fid_ok m (h a) a (fp_fids p a))
     \<and> (\<forall>k a. m k = Some a \<longrightarrow> (\<exists>f. fp_fids p a = Some f \<and> fid_fid f = k))"

lemma fid_invD:
  assumes "fid_inv p h m"
  shows "im_rep (fp_map p) m" "fid_ok m (h a) a (fp_fids p a)" "m k = Some a \<Longrightarrow> \<exists>f. fp_fids p a = Some f \<and> fid_fid f = k"
  using assms by (simp_all add: fid_inv_def)

lemma fid_ok_other: "(\<And>k. m' k = Some a \<longleftrightarrow> m k = Some a) \<Longrightarrow> fid_ok m' n a x = fid_ok m n a x"
  by (cases x) simp_all

text \<open>An object changes its count together with the number of references to it.\<close>

lemma fid_inv_change:
  assumes i: "fid_inv p h m" and fids: "fp_fids p' = (fp_fids p)(a := x)" and m': "im_rep (fp_map p') m'"
    and other: "\<And>k b. b \<noteq> a \<Longrightarrow> m' k = Some b \<longleftrightarrow> m k = Some b"
    and x: "fid_ok m' n a x" "\<And>k. m' k = Some a \<Longrightarrow> \<exists>f. x = Some f \<and> fid_fid f = k"
  shows "fid_inv p' (h(a := n)) m'"
proof -
  note d = fid_invD [OF i]
  have "fid_ok m' ((h(a := n)) b) b (fp_fids p' b)" for b
    using d(2) [of b] x(1) fid_ok_other [of m' b m, OF other] by (cases "b = a") (simp_all add: fids)
  moreover have "\<exists>f. fp_fids p' b = Some f \<and> fid_fid f = k" if "m' k = Some b" for k b
    using that x(2) [of k] other [of b k] d(3) [of k b] by (cases "b = a") (simp_all add: fids)
  ultimately show ?thesis using m' by (simp add: fid_inv_def)
qed

lemma incfidref_inv:
  assumes i: "fid_inv p h m" and a: "fp_fids p a = Some f"
  shows "\<exists>p'. incfidref a p = Some p' \<and> fid_inv p' (h(a := h a + 1)) m"
proof -
  note d = fid_invD [OF i]
  let ?p = "p\<lparr>fp_fids := (fp_fids p)(a := Some (f\<lparr>fid_ref := fid_ref f + 1\<rparr>))\<rparr>"
  have "fid_inv ?p (h(a := h a + 1)) m"
    by (rule fid_inv_change [OF i]) (use d(1) d(2) [of a] d(3) [of _ a] a in auto)
  then show ?thesis using a by (simp add: incfidref_def)
qed

lemma closefid_inv:
  assumes i: "fid_inv p h m" and h: "0 < h a"
  shows "\<exists>p'. closefid a p = Some p' \<and> fid_inv p' (h(a := h a - 1)) m"
proof -
  note d = fid_invD [OF i]
  obtain f where f: "fp_fids p a = Some f" using d(2) [of a] h by (cases "fp_fids p a") auto
  have r: "fid_ref f = int (h a) + (if m (fid_fid f) = Some a then 1 else 0)" using d(2) [of a] f by simp
  show ?thesis
  proof (cases "fid_ref f = 1")
    case True
    have n: "m (fid_fid f) \<noteq> Some a" "h a = 1" using r True h by (auto split: if_splits)
    have nm: "m k \<noteq> Some a" for k using d(3) [of k a] f n(1) by auto
    obtain p' where p': "closefid a p = Some p'" "fp_fids p' = (fp_fids p)(a := None)" "fp_map p' = fp_map p"
      using f True by (auto simp: closefid_def Let_def)
    have "fid_inv p' (h(a := h a - 1)) m"
      by (rule fid_inv_change [OF i p'(2)]) (use d(1) nm n p'(3) in auto)
    then show ?thesis using p'(1) by blast
  next
    case False
    let ?p = "p\<lparr>fp_fids := (fp_fids p)(a := Some (f\<lparr>fid_ref := fid_ref f - 1\<rparr>))\<rparr>"
    have "int (h a - 1) = int (h a) - 1" using h by simp
    then have x: "fid_ok m (h a - 1) a (Some (f\<lparr>fid_ref := fid_ref f - 1\<rparr>))" using r False d(2) [of a] f by simp
    have y: "\<exists>g. Some (f\<lparr>fid_ref := fid_ref f - 1\<rparr>) = Some g \<and> fid_fid g = k" if "m k = Some a" for k using d(3) [OF that] f by simp
    have "fid_inv ?p (h(a := h a - 1)) m" by (rule fid_inv_change [OF i _ _ _ x y]) (simp_all add: d(1))
    then show ?thesis using f False by (simp add: closefid_def Let_def)
  qed
qed

lemma lookupfid_inv:
  assumes i: "fid_inv p h m"
  shows "\<exists>p'. lookupfid k p = Some (m k, p') \<and> fid_inv p' (case m k of None \<Rightarrow> h | Some b \<Rightarrow> h(b := h b + 1)) m"
proof -
  note d = fid_invD [OF i]
  have mo: "map_of (im_hash (fp_map p) ! hashid k) k = m k" using d(1) by (simp add: im_rep_def)
  show ?thesis
  proof (cases "m k")
    case None
    then show ?thesis using i mo by (simp add: lookupfid_def lookupkey_def deref_llookup)
  next
    case (Some a)
    then obtain f where f: "fp_fids p a = Some f" using d(3) by blast
    then show ?thesis using incfidref_inv [OF i f] Some mo by (auto simp: lookupfid_def lookupkey_def deref_llookup)
  qed
qed

lemma removefid_inv:
  assumes i: "fid_inv p h m"
  shows "fst (removefid k p) = m k \<and>
    fid_inv (snd (removefid k p)) (case m k of None \<Rightarrow> h | Some b \<Rightarrow> h(b := h b + 1)) (m(k := None))"
proof -
  note d = fid_invD [OF i]
  have e: "removefid k p = (m k, p\<lparr>fp_map := snd (deletekey (fp_map p) k)\<rparr>)" and r: "im_rep (snd (deletekey (fp_map p) k)) (m(k := None))"
    using intmap.rep_del [OF d(1), of k] by (auto simp: removefid_def split: prod.split)
  show ?thesis
  proof (cases "m k")
    case None
    then have "m(k := None) = m" by auto
    then show ?thesis using i r None by (simp add: e fid_inv_def)
  next
    case (Some a)
    then obtain f where f: "fp_fids p a = Some f" "fid_fid f = k" using d(3) by blast
    have uniq: "m j = Some a \<Longrightarrow> j = k" for j using d(3) [of j a] f by auto
    have "fid_inv (p\<lparr>fp_map := snd (deletekey (fp_map p) k)\<rparr>) (h(a := h a + 1)) (m(k := None))"
    proof (rule fid_inv_change [OF i, of _ _ "Some f"])
      show "fid_ok (m(k := None)) (h a + 1) a (Some f)" using d(2) [of a] f Some by simp
      show "\<exists>g. Some f = Some g \<and> fid_fid g = j" if "(m(k := None)) j = Some a" for j
        using uniq [of j] that by (cases "j = k") simp_all
      show "(m(k := None)) j = Some b \<longleftrightarrow> m j = Some b" if "b \<noteq> a" for j b using Some that by simp
    qed (use r f in \<open>simp_all add: fun_upd_idem\<close>)
    then show ?thesis using Some by (simp add: e)
  qed
qed

text \<open>A new fid has two references, the map's and the caller's; if its number is taken, it is freed again.\<close>

lemma allocfid_inv:
  assumes i: "fid_inv p h m" and a: "fp_fids p a = None"
  shows "\<exists>p'. allocfid a k p = Some (if m k = None then Some a else None, p')
    \<and> fid_inv p' (if m k = None then h(a := h a + 1) else h) (if m k = None then m(k := Some a) else m)"
proof -
  note d = fid_invD [OF i]
  have h: "h a = 0" using d(2) [of a] a by simp
  have nm: "m j \<noteq> Some a" for j using d(3) [of j a] a by auto
  let ?f = "(fid_new k)\<lparr>fid_ref := 2\<rparr>"
  have c: "fst (caninsertkey (fp_map p) k a) = (m k = None)"
      "im_rep (snd (caninsertkey (fp_map p) k a)) (if m k = None then m(k := Some a) else m)"
    using intmap.rep_canins [OF d(1), of k a] by auto
  let ?p = "p\<lparr>fp_fids := (fp_fids p)(a := Some ?f), fp_map := snd (caninsertkey (fp_map p) k a)\<rparr>"
  have run: "allocfid a k p = (if m k = None then Some (Some a, ?p) else do { p \<leftarrow> closefid a ?p; p \<leftarrow> closefid a p; Some (None, p) })"
    using c(1) by (simp add: allocfid_def incfidref_def split_beta fid_new_def)
  show ?thesis
  proof (cases "m k = None")
    case True
    have "fid_inv ?p (h(a := h a + 1)) (m(k := Some a))"
    proof (rule fid_inv_change [OF i])
      show "fid_ok (m(k := Some a)) (h a + 1) a (Some ?f)" using h by (simp add: fid_new_def)
      show "\<exists>f. Some ?f = Some f \<and> fid_fid f = j" if "(m(k := Some a)) j = Some a" for j using nm [of j] that by (cases "j = k") (simp_all add: fid_new_def)
      show "(m(k := Some a)) j = Some b \<longleftrightarrow> m j = Some b" if "b \<noteq> a" for j b using True that by simp
    qed (use c True in simp_all)
    then show ?thesis using run True by simp
  next
    case False
    have 2: "fid_inv ?p (h(a := 2)) m" by (rule fid_inv_change [OF i]) (use c False nm in \<open>auto simp: fid_new_def\<close>)
    obtain p1 where p1: "closefid a ?p = Some p1" "fid_inv p1 (h(a := 1)) m"
      using closefid_inv [OF 2, of a] by auto
    obtain p2 where p2: "closefid a p1 = Some p2" "fid_inv p2 (h(a := 0)) m"
      using closefid_inv [OF p1(2), of a] by auto
    have "h(a := 0) = h" using h by auto
    then show ?thesis using run False p1(1) p2 by simp
  qed
qed

lemma fidstep_inv:
  assumes step: "fidstep (p, h) (p', h')" and i: "fid_inv p h m"
  shows "\<exists>m'. fid_inv p' h' m'"
  using step
proof cases
  case (alloc a k v)
  then show ?thesis using allocfid_inv [OF i alloc(2), of k] by (auto split: if_splits)
next
  case (lookup k v)
  then show ?thesis using lookupfid_inv [OF i, of k] by auto
next
  case (remove k v)
  then show ?thesis using removefid_inv [OF i, of k] by auto
next
  case (close a)
  then show ?thesis using closefid_inv [OF i close(2)] by auto
next
  case (change a f g)
  note d = fid_invD [OF i]
  have "fid_inv (p\<lparr>fp_fids := (fp_fids p)(a := Some g)\<rparr>) (h(a := h a)) m"
    by (rule fid_inv_change [OF i]) (use d(1) d(2) [of a] d(3) [of _ a] change in auto)
  then show ?thesis using change by auto
qed

lemma fidreach_inv: "fidreach (p, h) \<Longrightarrow> \<exists>m. fid_inv p h m"
proof -
  assume "fidreach (p, h)"
  then obtain d where "fidstep\<^sup>*\<^sup>* (allocfidpool d, \<lambda>_. 0) (p, h)" by (auto simp: fidreach_def)
  then have "\<exists>m. fid_inv (fst (p, h)) (snd (p, h)) m"
  proof (induction rule: rtranclp_induct)
    case base
    have "fid_inv (allocfidpool d) (\<lambda>_. 0) (\<lambda>_. None)" using allocmap_rep by (simp add: fid_inv_def allocfidpool_def)
    then show ?case by auto
  next
    case (step y z)
    then show ?case using fidstep_inv by (cases y; cases z) fastforce
  qed
  then show ?thesis by simp
qed

end
