(* ===== verification/Fid_Props.thy ===== *)
theory Fid_Props
  imports Fidpool
begin

text \<open>The properties of the integer maps and of the reference-counted fids.\<close>

section \<open>Sequences of map operations\<close>

datatype 'v mapop = Lookup uint | Insert uint 'v | Caninsert uint 'v | Delete uint

datatype 'v mapres = Value "'v option" | Flag bool

fun im_run :: "'v mapop list \<Rightarrow> 'v intmap \<Rightarrow> 'v mapres list" where
  "im_run [] m = []"
| "im_run (Lookup k # ops) m = Value (fst (lookupkey (\<lambda>v s. s) m k ())) # im_run ops m"
| "im_run (Insert k v # ops) m = (case insertkey m k v of (ov, m) \<Rightarrow> Value ov # im_run ops m)"
| "im_run (Caninsert k v # ops) m = (case caninsertkey m k v of (ok, m) \<Rightarrow> Flag ok # im_run ops m)"
| "im_run (Delete k # ops) m = (case deletekey m k of (ov, m) \<Rightarrow> Value ov # im_run ops m)"

fun map_run :: "'v mapop list \<Rightarrow> (uint \<Rightarrow> 'v option) \<Rightarrow> 'v mapres list" where
  "map_run [] f = []"
| "map_run (Lookup k # ops) f = Value (f k) # map_run ops f"
| "map_run (Insert k v # ops) f = Value (f k) # map_run ops (f(k := Some v))"
| "map_run (Caninsert k v # ops) f =
     Flag (f k = None) # map_run ops (if f k = None then f(k := Some v) else f)"
| "map_run (Delete k # ops) f = Value (f k) # map_run ops (f(k := None))"

lemma im_run_rep: "im_rep m f \<Longrightarrow> im_run ops m = map_run ops f"
proof (induction ops arbitrary: m f)
  case (Cons op ops)
  show ?case
  proof (cases op)
    case (Lookup k)
    then show ?thesis using Cons intmap.rep_find [OF Cons.prems, of k] by simp
  next
    case (Insert k v)
    then show ?thesis using Cons.IH [of "snd (insertkey m k v)"] intmap.rep_ins [OF Cons.prems, of k v] by (auto simp: split_beta)
  next
    case (Caninsert k v)
    then show ?thesis using Cons.IH [of "snd (caninsertkey m k v)"] intmap.rep_canins [OF Cons.prems, of k v] by (auto simp: split_beta)
  next
    case (Delete k)
    then show ?thesis using Cons.IH [of "snd (deletekey m k)"] intmap.rep_del [OF Cons.prems, of k] by (auto simp: split_beta)
  qed
qed simp

text \<open>
  C31: The hash table behaves as a finite map: every sequence of lookups, insertions, conditional
  insertions and deletions on a new table returns the same values as on a map.
\<close>

theorem intmap_refines_map: "im_run ops allocmap = map_run ops (\<lambda>_. None)"
  by (rule im_run_rep [OF allocmap_rep])

text \<open>
  In every state that a server reaches with the operations on fids, a fid exists exactly as
  long as it is referenced; its count is the number of references the server holds, plus one for the map;
  the map only leads to fids with the number looked up; and looking up a number or closing a held
  fid never touches a freed one.
\<close>

lemma fid_references:
  assumes "fidreach (p, h)"
  shows "(\<forall>a. fp_fids p a = None \<longrightarrow> h a = 0)
    \<and> (\<forall>a f. fp_fids p a = Some f \<longrightarrow> 0 < fid_ref f
         \<and> fid_ref f = int (h a) + (if fst (lookupkey (\<lambda>v s. s) (fp_map p) (fid_fid f) ()) = Some a then 1 else 0))
    \<and> (\<forall>a. 0 < h a \<longrightarrow> closefid a p \<noteq> None)
    \<and> (\<forall>k. \<exists>v p'. lookupfid k p = Some (v, p') \<and> (\<forall>a. v = Some a \<longrightarrow> (\<exists>f. fp_fids p a = Some f \<and> fid_fid f = k)))"
proof -
  obtain m where i: "fid_inv p h m" using fidreach_inv [OF assms] by blast
  note d = fid_invD [OF i]
  have lk: "fst (lookupkey (\<lambda>v s. s) (fp_map p) k ()) = m k" for k using intmap.rep_find [OF d(1)] .
  have "\<forall>a. fp_fids p a = None \<longrightarrow> h a = 0" using d(2) by (metis fid_ok.simps(1))
  moreover have "\<forall>a f. fp_fids p a = Some f \<longrightarrow> 0 < fid_ref f \<and> fid_ref f = int (h a) + (if m (fid_fid f) = Some a then 1 else 0)"
    using d(2) by (metis fid_ok.simps(2))
  moreover have "\<forall>a. 0 < h a \<longrightarrow> closefid a p \<noteq> None" using closefid_inv [OF i] by (metis option.distinct(1))
  moreover have "\<forall>k. \<exists>v p'. lookupfid k p = Some (v, p') \<and> (\<forall>a. v = Some a \<longrightarrow> (\<exists>f. fp_fids p a = Some f \<and> fid_fid f = k))"
    using lookupfid_inv [OF i] d(3) by blast
  ultimately show ?thesis unfolding lk by blast
qed

theorem fid_references_witness:
  "\<exists>p. allocfid 5 7 (allocfidpool True) = Some (Some 5, p) \<and> closefid 5 p \<noteq> None"
proof -
  have i: "fid_inv (allocfidpool True) (\<lambda>_. 0) (\<lambda>_. None)" using allocmap_rep by (simp add: fid_inv_def allocfidpool_def)
  obtain p where p: "allocfid 5 7 (allocfidpool True) = Some (Some 5, p)"
    using allocfid_inv [OF i, of 5 7] by (auto simp: allocfidpool_def)
  have "fidstep (allocfidpool True, \<lambda>_. 0) (p, case Some 5 of None \<Rightarrow> \<lambda>_. 0 | Some b \<Rightarrow> (\<lambda>_. 0)(b := (\<lambda>_. 0) b + 1))"
    by (rule fidstep.alloc [OF _ p]) (simp add: allocfidpool_def)
  then have "fidreach (p, (\<lambda>_. 0)(5 := 1))" unfolding fidreach_def by (auto intro: r_into_rtranclp)
  then show ?thesis using fid_references [of p "(\<lambda>_. 0)(5 := 1)"] p by auto
qed

end
