(* ===== verification/Filetree.thy ===== *)
theory Filetree
  imports Dir_Roundtrip
begin

text \<open>
  The file trees of the 9P server library (\<^verbatim>\<open>lib_networking/lib9p/file.c\<close>) and its permission
  check (\<^verbatim>\<open>uid.c\<close>). Files and open directories are objects by address. The list of a directory
  keeps the entries of removed files, empty, while the directory is being read; a pointer into it
  is a position, nil \<open>None\<close>. An operation gives \<open>None\<close> where the program would stop: an \<^verbatim>\<open>assert\<close>
  that fails, or a use of nil or of a file that has been freed. Locks are left out: every
  operation runs to its end. What \<^verbatim>\<open>emalloc9p\<close> and \<^verbatim>\<open>time\<close> return is an argument. Strings are
  NUL-free byte lists, so \<^verbatim>\<open>strcmp\<close> gives 0 for equal ones.
\<close>

section \<open>Files\<close>

abbreviation (input) QTDIR :: uchar where "QTDIR \<equiv> 0x80"
abbreviation (input) QTAPPEND :: uchar where "QTAPPEND \<equiv> 0x40"
abbreviation (input) QTEXCL :: uchar where "QTEXCL \<equiv> 0x20"
abbreviation (input) DMDIR :: uint where "DMDIR \<equiv> 0x80000000"
abbreviation (input) DMAPPEND :: uint where "DMAPPEND \<equiv> 0x40000000"
abbreviation (input) DMEXCL :: uint where "DMEXCL \<equiv> 0x20000000"
abbreviation (input) AEXEC :: uint where "AEXEC \<equiv> 1"
abbreviation (input) AWRITE :: uint where "AWRITE \<equiv> 2"
abbreviation (input) AREAD :: uint where "AREAD \<equiv> 4"

record filerec =
  fi_ref :: int
  fi_dir :: dir
  fi_parent :: "nat option"
  fi_list :: "nat option list"
  fi_nchild :: int
  fi_nxchild :: int
  fi_readers :: int

record readdir =
  rd_dir :: nat
  rd_fl :: "nat option"

record tree =
  tr_root :: nat
  tr_qidgen :: uint
  tr_files :: "nat \<Rightarrow> filerec option"
  tr_free :: "nat list"
  tr_rdirs :: "nat \<Rightarrow> readdir option"
  tr_log :: "nat list"

definition qid_zero :: qid where
  "qid_zero = \<lparr>q_path = 0, q_vers = 0, q_type = 0\<rparr>"

definition file_zero :: filerec where
  "file_zero = \<lparr>fi_ref = 0,
     fi_dir = \<lparr>d_type = 0, d_dev = 0, d_qid = qid_zero, d_mode = 0, d_atime = 0, d_mtime = 0,
       d_length = 0, d_name = None, d_uid = None, d_gid = None, d_muid = None\<rparr>,
     fi_parent = None, fi_list = [], fi_nchild = 0, fi_nxchild = 0, fi_readers = 0\<rparr>"

abbreviation fi_qid :: "filerec \<Rightarrow> qid" where "fi_qid f \<equiv> d_qid (fi_dir f)"

definition upd_file :: "nat \<Rightarrow> (filerec \<Rightarrow> filerec) \<Rightarrow> tree \<Rightarrow> tree option" where
  "upd_file a g t = do {
     f \<leftarrow> tr_files t a;
     Some (t\<lparr>tr_files := (tr_files t)(a := Some (g f))\<rparr>) }"

definition incfile :: "nat \<Rightarrow> tree \<Rightarrow> tree option" where
  "incfile a = upd_file a (\<lambda>f. f\<lparr>fi_ref := fi_ref f + 1\<rparr>)"

text \<open>Files are allocated sixteen at a time; \<open>base\<close> is where the next group would be.\<close>

definition allocfile :: "nat \<Rightarrow> tree \<Rightarrow> nat \<times> tree" where
  "allocfile base t =
     (let t = (if tr_free t = [] then t\<lparr>tr_free := [base ..< base + 16]\<rparr> else t);
          a = hd (tr_free t)
      in (a, t\<lparr>tr_free := tl (tr_free t), tr_files := (tr_files t)(a := Some file_zero)\<rparr>))"

definition freefile :: "nat \<Rightarrow> tree \<Rightarrow> tree option" where
  "freefile a t = do {
     f \<leftarrow> tr_files t a;
     if \<exists>e \<in> set (fi_list f). e \<noteq> None then None
     else if fi_ref f \<noteq> 0 then None
     else Some (t\<lparr>tr_files := (tr_files t)(a := None), tr_free := a # tr_free t\<rparr>) }"

definition cleanfilelist :: "nat \<Rightarrow> tree \<Rightarrow> tree option" where
  "cleanfilelist a t = do {
     f \<leftarrow> tr_files t a;
     if fi_readers f \<noteq> 0 then Some t
     else if fi_nxchild f = 0 then Some t
     else upd_file a (\<lambda>f. f\<lparr>fi_list := filter (\<lambda>e. e \<noteq> None) (fi_list f), fi_nxchild := 0\<rparr>) t }"

definition closefile :: "nat \<Rightarrow> tree \<Rightarrow> tree option" where
  "closefile a t = do {
     t \<leftarrow> upd_file a (\<lambda>f. f\<lparr>fi_ref := fi_ref f - 1\<rparr>) t;
     f \<leftarrow> tr_files t a;
     if fi_ref f = 0 then freefile a (t\<lparr>tr_log := tr_log t @ [a]\<rparr>) else Some t }"

text \<open>The position of the first entry that satisfies \<open>P\<close>, the loops over a \<^verbatim>\<open>Filelist\<close>.\<close>

fun findentry :: "('a \<Rightarrow> bool) \<Rightarrow> 'a list \<Rightarrow> nat option" where
  "findentry P [] = None"
| "findentry P (e # es) = (if P e then Some 0 else map_option Suc (findentry P es))"

text \<open>The error string of a call that returns -1 is its result; \<open>None\<close> is the return value 0.\<close>

definition removefile :: "nat \<Rightarrow> tree \<Rightarrow> (string option \<times> tree) option" where
  "removefile a t = do {
     f \<leftarrow> tr_files t a;
     case fi_parent f of
       None \<Rightarrow> do { t \<leftarrow> closefile a t; Some (Some ''no parent'', t) }
     | Some p \<Rightarrow>
         if p = a then do { t \<leftarrow> closefile a t; Some (Some ''cannot remove root'', t) }
         else if fi_nchild f \<noteq> 0 then do { t \<leftarrow> closefile a t; Some (Some ''has children'', t) }
         else do {
           fp \<leftarrow> tr_files t p;
           i \<leftarrow> findentry (\<lambda>e. e = Some a) (fi_list fp);
           t \<leftarrow> upd_file p (\<lambda>fp. fp\<lparr>fi_list := (fi_list fp)[i := None],
                  fi_nchild := fi_nchild fp - 1, fi_nxchild := fi_nxchild fp + 1\<rparr>) t;
           t \<leftarrow> upd_file a (\<lambda>f. f\<lparr>fi_parent := None\<rparr>) t;
           t \<leftarrow> cleanfilelist p t;
           t \<leftarrow> closefile p t;
           t \<leftarrow> closefile a t;
           t \<leftarrow> closefile a t;
           Some (None, t) } }"

text \<open>The entry of a directory with a name.\<close>

definition entry_named :: "tree \<Rightarrow> bytes \<Rightarrow> nat option \<Rightarrow> bool" where
  "entry_named t name e = (case e of None \<Rightarrow> False
     | Some c \<Rightarrow> (case tr_files t c of None \<Rightarrow> False | Some f \<Rightarrow> d_name (fi_dir f) = Some name))"

definition createfile :: "nat \<Rightarrow> bytes \<Rightarrow> bytes option \<Rightarrow> uint \<Rightarrow> uint \<Rightarrow> nat \<Rightarrow> tree \<Rightarrow> (nat option \<times> tree) option" where
  "createfile p name uid perm now base t = do {
     fp \<leftarrow> tr_files t p;
     if q_type (fi_qid fp) AND QTDIR = 0 then Some (None, t)
     else if findentry (entry_named t name) (fi_list fp) \<noteq> None then Some (None, t)
     else do {
       let (a, t) = allocfile base t;
       let ty = (if perm AND DMDIR \<noteq> 0 then QTDIR else 0);
       let ty = (if perm AND DMAPPEND \<noteq> 0 then ty OR QTAPPEND else ty);
       let ty = (if perm AND DMEXCL \<noteq> 0 then ty OR QTEXCL else ty);
       t \<leftarrow> upd_file a (\<lambda>f. f\<lparr>fi_dir := (fi_dir f)\<lparr>d_name := Some name,
            d_uid := (case uid of None \<Rightarrow> d_uid (fi_dir fp) | Some u \<Rightarrow> Some u), d_gid := d_gid (fi_dir fp),
            d_muid := Some (case uid of None \<Rightarrow> map of_char ''unknown'' | Some u \<Rightarrow> u), d_mode := perm,
            d_qid := \<lparr>q_path = ucast (tr_qidgen t), q_vers = 0, q_type = ty\<rparr>,
            d_atime := now, d_mtime := now, d_length := 0\<rparr>, fi_parent := Some p\<rparr>) t;
       let t = t\<lparr>tr_qidgen := tr_qidgen t + 1\<rparr>;
       t \<leftarrow> incfile p t;
       t \<leftarrow> incfile a t;
       t \<leftarrow> incfile a t;
       t \<leftarrow> upd_file p (\<lambda>fp. fp\<lparr>fi_list := fi_list fp @ [Some a], fi_nchild := fi_nchild fp + 1\<rparr>) t;
       Some (Some a, t) } }"

definition walkfile1 :: "nat \<Rightarrow> bytes \<Rightarrow> tree \<Rightarrow> (nat option \<times> tree) option" where
  "walkfile1 d elem t = do {
     f \<leftarrow> tr_files t d;
     if elem = [0x2E, 0x2E] then do {
       p \<leftarrow> fi_parent f;
       t \<leftarrow> incfile p t;
       t \<leftarrow> closefile d t;
       Some (Some p, t) }
     else case findentry (entry_named t elem) (fi_list f) of
         None \<Rightarrow> do { t \<leftarrow> closefile d t; Some (None, t) }
       | Some i \<Rightarrow> do {
           c \<leftarrow> fi_list f ! i;
           t \<leftarrow> incfile c t;
           t \<leftarrow> closefile d t;
           Some (Some c, t) } }"

text \<open>The loop over the elements of a path; a \<^verbatim>\<open>/\<close> ends an element.\<close>

function walkfile_loop :: "nat \<Rightarrow> bytes \<Rightarrow> tree \<Rightarrow> (nat option \<times> tree) option" where
  "walkfile_loop f s t =
     (if s = [] then Some (Some f, t)
      else
        let e = takeWhile (\<lambda>c. c \<noteq> 0x2F) s; nexts = drop (Suc (length e)) s in
        case walkfile1 f e t of
          None \<Rightarrow> None
        | Some (None, t) \<Rightarrow> Some (None, t)
        | Some (Some f, t) \<Rightarrow> walkfile_loop f nexts t)"
  by pat_completeness auto
termination by (relation "measure (\<lambda>(f, s, t). length s)") auto

definition walkfile :: "nat \<Rightarrow> bytes \<Rightarrow> tree \<Rightarrow> (nat option \<times> tree) option" where
  "walkfile f path t = (if 0x2F \<notin> set path then walkfile1 f path t else walkfile_loop f path t)"

definition alloctree :: "bytes option \<Rightarrow> bytes option \<Rightarrow> uint \<Rightarrow> bytes option \<Rightarrow> uint \<Rightarrow> nat \<Rightarrow> tree option" where
  "alloctree uid gid mode user now base = do {
     let t = \<lparr>tr_root = 0, tr_qidgen = 0, tr_files = (\<lambda>_. None), tr_free = [], tr_rdirs = (\<lambda>_. None), tr_log = []\<rparr>;
     let (a, t) = allocfile base t;
     let uid = (case uid of Some u \<Rightarrow> u | None \<Rightarrow> (case user of Some u \<Rightarrow> u | None \<Rightarrow> map of_char ''none''));
     let gid = (case gid of Some g \<Rightarrow> g | None \<Rightarrow> uid);
     t \<leftarrow> upd_file a (\<lambda>f. f\<lparr>fi_dir := (fi_dir f)\<lparr>d_name := Some [0x2F], d_qid := \<lparr>q_path = 0, q_vers = 0, q_type = QTDIR\<rparr>,
          d_length := 0, d_atime := now, d_mtime := now, d_mode := DMDIR OR mode,
          d_uid := Some uid, d_gid := Some gid, d_muid := Some uid\<rparr>, fi_parent := Some a\<rparr>) t;
     t \<leftarrow> incfile a t;
     Some (t\<lparr>tr_root := a\<rparr>) }"

text \<open>
  \<open>_freefiles\<close> frees the entries of the list before it calls \<open>freefile\<close>, which reads the list
  again. The number of levels is bounded by the first argument.
\<close>

fun freefiles :: "nat \<Rightarrow> nat \<Rightarrow> tree \<Rightarrow> tree option" where
  "freefiles 0 a t = None"
| "freefiles (Suc n) a t = do {
     f \<leftarrow> tr_files t a;
     t \<leftarrow> fold (\<lambda>e r. do { t \<leftarrow> r; c \<leftarrow> e; freefiles n c t }) (fi_list f) (Some t);
     if fi_list f \<noteq> [] then None else freefile a (t\<lparr>tr_log := tr_log t @ [a]\<rparr>) }"

definition freetree :: "nat \<Rightarrow> tree \<Rightarrow> tree option" where
  "freetree n t = freefiles n (tr_root t) t"

section \<open>Reading directories\<close>

definition opendirfile :: "nat \<Rightarrow> nat \<Rightarrow> tree \<Rightarrow> (nat option \<times> tree) option" where
  "opendirfile r a t = do {
     f \<leftarrow> tr_files t a;
     if d_mode (fi_dir f) AND DMDIR = 0 then Some (None, t)
     else do {
       t \<leftarrow> upd_file a (\<lambda>f. f\<lparr>fi_readers := fi_readers f + 1\<rparr>) t;
       Some (Some r, t\<lparr>tr_rdirs := (tr_rdirs t)(r \<mapsto>
         \<lparr>rd_dir = a, rd_fl = (if fi_list f = [] then None else Some 0)\<rparr>)\<rparr>) } }"

text \<open>
  The loop of \<open>readdirfile\<close>, over the rest of the list from position \<open>i\<close>. The result is the position it
  stops at, the number of bytes read and the buffer.
\<close>

fun readdir_loop :: "tree \<Rightarrow> nat option list \<Rightarrow> nat \<Rightarrow> nat \<Rightarrow> nat \<Rightarrow> bytes \<Rightarrow> (nat option \<times> nat \<times> bytes) option" where
  "readdir_loop t [] i m n buf = Some (None, m, buf)"
| "readdir_loop t (e # es) i m n buf =
     (if m + 2 \<le> n then
        (case e of
           None \<Rightarrow> readdir_loop t es (Suc i) (m + 0) n buf
         | Some c \<Rightarrow>
             (case tr_files t c of
                None \<Rightarrow> None
              | Some f \<Rightarrow>
                  (case convD2M (fi_dir f) (drop m buf) (n - m) of
                     (x, w) \<Rightarrow>
                       let buf = take m buf @ w in
                       if x \<le> 2 then Some (Some i, m, buf)
                       else readdir_loop t es (Suc i) (m + x) n buf)))
      else Some (Some i, m, buf))"

definition readdirfile :: "nat \<Rightarrow> bytes \<Rightarrow> nat \<Rightarrow> tree \<Rightarrow> (nat \<times> bytes \<times> tree) option" where
  "readdirfile r buf n t = do {
     d \<leftarrow> tr_rdirs t r;
     (fl, m, buf) \<leftarrow> (case rd_fl d of
         None \<Rightarrow> Some (None, 0, buf)
       | Some i \<Rightarrow> do { f \<leftarrow> tr_files t (rd_dir d); readdir_loop t (drop i (fi_list f)) i 0 n buf });
     Some (m, buf, t\<lparr>tr_rdirs := (tr_rdirs t)(r \<mapsto> d\<lparr>rd_fl := fl\<rparr>)\<rparr>) }"

definition closedirfile :: "nat \<Rightarrow> tree \<Rightarrow> tree option" where
  "closedirfile r t = do {
     d \<leftarrow> tr_rdirs t r;
     t \<leftarrow> upd_file (rd_dir d) (\<lambda>f. f\<lparr>fi_readers := fi_readers f - 1\<rparr>) t;
     f \<leftarrow> tr_files t (rd_dir d);
     t \<leftarrow> (if fi_readers f = 0 then cleanfilelist (rd_dir d) t else Some t);
     Some (t\<lparr>tr_rdirs := (tr_rdirs t)(r := None)\<rparr>) }"

section \<open>Permissions\<close>

definition hasperm :: "filerec \<Rightarrow> bytes \<Rightarrow> uint \<Rightarrow> bool" where
  "hasperm f uid p =
     (let mode = d_mode (fi_dir f); m = mode AND 7 in
      if p AND m = p then True
      else
        let o_ok = (d_uid (fi_dir f) = Some uid);
            m = (if o_ok then m OR (drop_bit 6 mode AND 7) else m) in
        if o_ok \<and> p AND m = p then True
        else
          let g_ok = (d_gid (fi_dir f) = Some uid);
              m = (if g_ok then m OR (drop_bit 3 mode AND 7) else m) in
          g_ok \<and> p AND m = p)"

declare walkfile_loop.simps [simp del]

end
