(* ===== verification/Filetree_Inv.thy ===== *)
theory Filetree_Inv
  imports Filetree
begin

text \<open>
  The invariant of file trees: every file is counted as often as it is referenced, by the program,
  by the tree and by its children, and the lists of the directories agree with the parents of
  the files. Every operation on files that the program holds keeps it, and does not fail.
\<close>

section \<open>Entries of a list\<close>

fun somes :: "'a option list \<Rightarrow> 'a list" where
  "somes [] = []"
| "somes (None # es) = somes es"
| "somes (Some x # es) = x # somes es"

lemma somes_append [simp]: "somes (xs @ ys) = somes xs @ somes ys"
  by (induction xs rule: somes.induct) simp_all

lemma set_somes: "x \<in> set (somes es) \<longleftrightarrow> Some x \<in> set es"
  by (induction es rule: somes.induct) auto

lemma somes_filter [simp]: "somes (filter (\<lambda>e. \<exists>y. e = Some y) es) = somes es"
  by (induction es rule: somes.induct) simp_all

lemma length_filter_Some: "length (filter (\<lambda>e. \<exists>y. e = Some y) es) = length (somes es)"
  by (induction es rule: somes.induct) simp_all

lemma somes_Nil: "somes es = [] \<longleftrightarrow> (\<forall>e \<in> set es. e = None)"
  by (induction es rule: somes.induct) simp_all

lemma findentry_Some:
  "findentry P es = Some i \<Longrightarrow> i < length es \<and> P (es ! i) \<and> (\<forall>j < i. \<not> P (es ! j))"
proof (induction es arbitrary: i)
  case (Cons e es)
  then show ?case by (cases "P e"; cases i) (auto simp: less_Suc_eq_0_disj)
qed simp

lemma findentry_None: "findentry P es = None \<longleftrightarrow> (\<forall>e \<in> set es. \<not> P e)"
  by (induction es) auto

lemma somes_clear:
  "i < length es \<Longrightarrow> es ! i = Some a \<Longrightarrow> distinct (somes es) \<Longrightarrow> somes (es[i := None]) = remove1 a (somes es)"
proof (induction es arbitrary: i rule: somes.induct)
  case (2 es)
  then show ?case by (cases i) simp_all
next
  case (3 x es)
  show ?case
  proof (cases i)
    case (Suc j)
    have "Some a \<in> set es" using 3(2,3) Suc by (auto simp: in_set_conv_nth)
    then have "a \<in> set (somes es)" by (simp add: set_somes)
    then have "x \<noteq> a" using 3 by auto
    then show ?thesis using 3 Suc by simp
  qed (use 3 in simp)
qed simp

section \<open>The invariant\<close>

text \<open>What the files say about each other.\<close>

definition parent_of :: "tree \<Rightarrow> nat \<Rightarrow> nat option" where
  "parent_of t a = tr_files t a \<bind> fi_parent"

definition kids_of :: "tree \<Rightarrow> nat \<Rightarrow> nat set" where
  "kids_of t a = (case tr_files t a of None \<Rightarrow> {} | Some f \<Rightarrow> set (somes (fi_list f)))"

definition name_of :: "tree \<Rightarrow> nat \<Rightarrow> bytes option" where
  "name_of t a = tr_files t a \<bind> (\<lambda>f. d_name (fi_dir f))"

definition readers_of :: "tree \<Rightarrow> nat \<Rightarrow> nat set" where
  "readers_of t a = {r. \<exists>d. tr_rdirs t r = Some d \<and> rd_dir d = a}"

text \<open>\<open>n\<close> is the number of references the program holds.\<close>

definition file_ok :: "tree \<Rightarrow> nat \<Rightarrow> nat \<Rightarrow> filerec \<Rightarrow> bool" where
  "file_ok t n a f \<longleftrightarrow>
     fi_ref f = int n + (if a = tr_root t \<or> fi_parent f \<noteq> None then 1 else 0) + fi_nchild f
     \<and> fi_nchild f = int (length (somes (fi_list f)))
     \<and> fi_nxchild f = int (length (fi_list f)) - fi_nchild f
     \<and> fi_readers f = int (card (readers_of t a))
     \<and> card (readers_of t a) \<le> n
     \<and> 0 < fi_ref f
     \<and> distinct (somes (fi_list f))
     \<and> distinct (map (name_of t) (somes (fi_list f)))
     \<and> (\<forall>c \<in> set (somes (fi_list f)). c \<noteq> tr_root t \<and> parent_of t c = Some a)
     \<and> (\<forall>p. fi_parent f = Some p \<longrightarrow> (if a = tr_root t then p = a else a \<in> kids_of t p))"

definition tree_inv :: "tree \<Rightarrow> (nat \<Rightarrow> nat) \<Rightarrow> bool" where
  "tree_inv t h \<longleftrightarrow>
     (\<forall>a f. tr_files t a = Some f \<longrightarrow> file_ok t (h a) a f)
     \<and> (\<forall>a. tr_files t a = None \<longrightarrow> h a = 0 \<and> readers_of t a = {})
     \<and> parent_of t (tr_root t) = Some (tr_root t)
     \<and> distinct (tr_free t) \<and> (\<forall>a \<in> set (tr_free t). tr_files t a = None)
     \<and> finite (dom (tr_rdirs t))
     \<and> (\<forall>r d f i. tr_rdirs t r = Some d \<longrightarrow> tr_files t (rd_dir d) = Some f \<longrightarrow> rd_fl d = Some i \<longrightarrow> i < length (fi_list f))"

lemma tree_invI:
  assumes "\<And>a f. tr_files t a = Some f \<Longrightarrow> file_ok t (h a) a f" "\<And>a. tr_files t a = None \<Longrightarrow> h a = 0 \<and> readers_of t a = {}"
    "parent_of t (tr_root t) = Some (tr_root t)" "distinct (tr_free t) \<and> (\<forall>a \<in> set (tr_free t). tr_files t a = None)"
    "finite (dom (tr_rdirs t))"
    "\<And>r d f i. tr_rdirs t r = Some d \<Longrightarrow> tr_files t (rd_dir d) = Some f \<Longrightarrow> rd_fl d = Some i \<Longrightarrow> i < length (fi_list f)"
  shows "tree_inv t h"
  using assms by (simp add: tree_inv_def)

lemma tree_invD:
  assumes "tree_inv t h"
  shows "tr_files t a = Some f \<Longrightarrow> file_ok t (h a) a f"
    "tr_files t a = None \<Longrightarrow> h a = 0 \<and> readers_of t a = {}"
    "parent_of t (tr_root t) = Some (tr_root t)"
    "distinct (tr_free t)" "a \<in> set (tr_free t) \<Longrightarrow> tr_files t a = None"
    "finite (dom (tr_rdirs t))"
    "tr_rdirs t r = Some d \<Longrightarrow> tr_files t (rd_dir d) = Some f \<Longrightarrow> rd_fl d = Some i \<Longrightarrow> i < length (fi_list f)"
  using assms unfolding tree_inv_def by blast+

lemma file_okD:
  assumes "file_ok t n a f"
  shows "fi_ref f = int n + (if a = tr_root t \<or> fi_parent f \<noteq> None then 1 else 0) + fi_nchild f"
    "fi_nchild f = int (length (somes (fi_list f)))" "fi_nxchild f = int (length (fi_list f)) - fi_nchild f"
    "fi_readers f = int (card (readers_of t a))" "card (readers_of t a) \<le> n" "0 < fi_ref f"
    "distinct (somes (fi_list f))" "distinct (map (name_of t) (somes (fi_list f)))"
    "c \<in> set (somes (fi_list f)) \<Longrightarrow> c \<noteq> tr_root t \<and> parent_of t c = Some a"
    "fi_parent f = Some p \<Longrightarrow> if a = tr_root t then p = a else a \<in> kids_of t p"
  using assms unfolding file_ok_def by blast+

lemma file_okI:
  assumes "fi_ref f = int n + (if a = tr_root t \<or> fi_parent f \<noteq> None then 1 else 0) + fi_nchild f"
    "fi_nchild f = int (length (somes (fi_list f)))" "fi_nxchild f = int (length (fi_list f)) - fi_nchild f"
    "fi_readers f = int (card (readers_of t a))" "card (readers_of t a) \<le> n" "0 < fi_ref f"
    "distinct (somes (fi_list f))" "distinct (map (name_of t) (somes (fi_list f)))"
    "\<And>c. c \<in> set (somes (fi_list f)) \<Longrightarrow> c \<noteq> tr_root t \<and> parent_of t c = Some a"
    "\<And>p. fi_parent f = Some p \<Longrightarrow> if a = tr_root t then p = a else a \<in> kids_of t p"
  shows "file_ok t n a f"
  unfolding file_ok_def using assms by blast

lemma tree_inv_live: "tree_inv t h \<Longrightarrow> 0 < h a \<Longrightarrow> \<exists>f. tr_files t a = Some f"
  using tree_invD(2) [of t h a] by (cases "tr_files t a") auto

lemma root_live: "tree_inv t h \<Longrightarrow> \<exists>f. tr_files t (tr_root t) = Some f \<and> fi_parent f = Some (tr_root t)"
  using tree_invD(3) [of t h] by (auto simp: parent_of_def bind_eq_Some_conv)

lemma finite_readers: "tree_inv t h \<Longrightarrow> finite (readers_of t a)"
  using tree_invD(6) [of t h] by (rule finite_subset [rotated]) (auto simp: readers_of_def)

text \<open>A file whose relations to others stay as they are.\<close>

lemma file_ok_cong:
  assumes "tr_root t' = tr_root t" "readers_of t' a = readers_of t a"
    and "\<And>c. c \<in> set (somes (fi_list f)) \<Longrightarrow> parent_of t' c = parent_of t c \<and> name_of t' c = name_of t c"
    and k: "\<And>p. fi_parent f = Some p \<Longrightarrow> a \<in> kids_of t' p \<longleftrightarrow> a \<in> kids_of t p"
  shows "file_ok t' n a f = file_ok t n a f"
proof -
  have m: "map (name_of t') (somes (fi_list f)) = map (name_of t) (somes (fi_list f))" using assms(3) by simp
  have p: "(\<forall>p. fi_parent f = Some p \<longrightarrow> (if a = tr_root t' then p = a else a \<in> kids_of t' p))
      \<longleftrightarrow> (\<forall>p. fi_parent f = Some p \<longrightarrow> (if a = tr_root t then p = a else a \<in> kids_of t p))"
    using k assms(1) by auto
  have c: "(\<forall>c \<in> set (somes (fi_list f)). c \<noteq> tr_root t' \<and> parent_of t' c = Some a)
      \<longleftrightarrow> (\<forall>c \<in> set (somes (fi_list f)). c \<noteq> tr_root t \<and> parent_of t c = Some a)" using assms(1,3) by simp
  show ?thesis unfolding file_ok_def m p c unfolding assms(1,2) ..
qed

definition same_links :: "filerec \<Rightarrow> filerec \<Rightarrow> bool" where
  "same_links f g \<longleftrightarrow> fi_parent g = fi_parent f \<and> set (somes (fi_list g)) = set (somes (fi_list f)) \<and> d_name (fi_dir g) = d_name (fi_dir f)"

lemma links_upd:
  assumes "tr_files t a = Some f" "same_links f g" "tr_files t' = (tr_files t)(a := Some g)"
  shows "parent_of t' = parent_of t" "kids_of t' = kids_of t" "name_of t' = name_of t"
  using assms by (auto simp: fun_eq_iff parent_of_def kids_of_def name_of_def same_links_def)

text \<open>One file changes, with the number of references to it, and keeps its place in the tree.\<close>

lemma tree_inv_upd:
  assumes i: "tree_inv t h" and f: "tr_files t a = Some f" and g: "same_links f g" "somes (fi_list g) = somes (fi_list f)"
    and t': "tr_files t' = (tr_files t)(a := Some g)" "tr_root t' = tr_root t" "tr_free t' = tr_free t" "tr_rdirs t' = tr_rdirs t"
    and ok: "fi_nchild g = fi_nchild f" "fi_nxchild g = int (length (fi_list g)) - fi_nchild g" "fi_readers g = fi_readers f"
      "card (readers_of t a) \<le> n" "fi_ref g - int n = fi_ref f - int (h a)" "0 < fi_ref g"
      "\<And>r d j. tr_rdirs t r = Some d \<Longrightarrow> rd_dir d = a \<Longrightarrow> rd_fl d = Some j \<Longrightarrow> j < length (fi_list g)"
  shows "tree_inv t' (h(a := n))"
proof -
  note l = links_upd [OF f g(1) t'(1)]
  have rs: "readers_of t' b = readers_of t b" for b by (simp add: readers_of_def t')
  have c: "file_ok t' m b k = file_ok t m b k" for m b k by (rule file_ok_cong) (simp_all add: t' rs l)
  note fo = tree_invD(1) [OF i f]
  have "file_ok t n a g"
    using fo ok(1-6) g(2) g(1) by (auto simp: file_ok_def same_links_def)
  then have 1: "file_ok t' ((h(a := n)) b) b k" if "tr_files t' b = Some k" for b k
    using that t'(1) tree_invD(1) [OF i, of b k] by (cases "b = a") (auto simp: c)
  have 2: "(h(a := n)) b = 0 \<and> readers_of t' b = {}" if "tr_files t' b = None" for b
    using that t'(1) tree_invD(2) [OF i, of b] by (cases "b = a") (auto simp: rs)
  have 3: "parent_of t' (tr_root t') = Some (tr_root t')" using tree_invD(3) [OF i] by (simp add: l t')
  have 4: "distinct (tr_free t') \<and> (\<forall>b \<in> set (tr_free t'). tr_files t' b = None)"
    using tree_invD(4,5) [OF i] f t' by auto
  have 5: "j < length (fi_list k)" if "tr_rdirs t' r = Some d" "tr_files t' (rd_dir d) = Some k" "rd_fl d = Some j" for r d k j
    using that t' ok(7) [of r d j] tree_invD(7) [OF i, of r d k j] by (cases "rd_dir d = a") auto
  have 6: "finite (dom (tr_rdirs t'))" using tree_invD(6) [OF i] t'(4) by simp
  show ?thesis by (rule tree_invI [OF 1 2 3 4 6 5])
qed

lemma incfile_inv:
  assumes i: "tree_inv t h" and f: "tr_files t a = Some f"
  shows "\<exists>t'. incfile a t = Some t' \<and> tree_inv t' (h(a := h a + 1)) \<and> tr_rdirs t' = tr_rdirs t \<and> tr_root t' = tr_root t"
proof -
  note o = file_okD [OF tree_invD(1) [OF i f]]
  let ?g = "f\<lparr>fi_ref := fi_ref f + 1\<rparr>"
  have "tree_inv (t\<lparr>tr_files := (tr_files t)(a := Some ?g)\<rparr>) (h(a := h a + 1))"
    by (rule tree_inv_upd [OF i f, of ?g]) (use o tree_invD(7) [OF i] f in \<open>auto simp: same_links_def\<close>)
  then show ?thesis using f by (simp add: incfile_def upd_file_def)
qed

lemma cleanfilelist_inv:
  assumes i: "tree_inv t h" and f: "tr_files t a = Some f"
  shows "\<exists>t'. cleanfilelist a t = Some t' \<and> tree_inv t' h \<and> tr_rdirs t' = tr_rdirs t \<and> tr_root t' = tr_root t"
proof -
  note o = file_okD [OF tree_invD(1) [OF i f]]
  let ?g = "f\<lparr>fi_list := filter (\<lambda>e. e \<noteq> None) (fi_list f), fi_nxchild := 0\<rparr>"
  show ?thesis
  proof (cases "fi_readers f \<noteq> 0 \<or> fi_nxchild f = 0")
    case False
    then have nr: "readers_of t a = {}" using o(4) finite_readers [OF i, of a] by simp
    have "tree_inv (t\<lparr>tr_files := (tr_files t)(a := Some ?g)\<rparr>) (h(a := h a))"
      by (rule tree_inv_upd [OF i f, of ?g]) (use o nr in \<open>auto simp: same_links_def length_filter_Some readers_of_def\<close>)
    then show ?thesis using f False by (simp add: cleanfilelist_def upd_file_def)
  qed (use i f in \<open>auto simp: cleanfilelist_def\<close>)
qed

text \<open>A file with nothing but one reference of the program goes away.\<close>

lemma tree_inv_free:
  assumes i: "tree_inv t h" and f: "tr_files t a = Some f" and z: "fi_ref f = 1" "h a = 1" "readers_of t a = {}"
    and t': "tr_files t' = (tr_files t)(a := None)" "tr_root t' = tr_root t" "tr_free t' = a # tr_free t" "tr_rdirs t' = tr_rdirs t"
  shows "tree_inv t' (h(a := 0))"
proof -
  note o = file_okD [OF tree_invD(1) [OF i f]]
  have u: "a \<noteq> tr_root t" "fi_parent f = None" "somes (fi_list f) = []"
    using o(1,2) z by (auto split: if_splits)
  have nk: "a \<notin> kids_of t p" for p
  proof
    assume "a \<in> kids_of t p"
    then obtain g where g: "tr_files t p = Some g" "a \<in> set (somes (fi_list g))" by (auto simp: kids_of_def split: option.splits)
    then have "parent_of t a = Some p" using file_okD(9) [OF tree_invD(1) [OF i g(1)]] by blast
    then show False using u(2) f by (simp add: parent_of_def)
  qed
  have l: "parent_of t' = parent_of t" "kids_of t' = kids_of t" "name_of t' = (name_of t)(a := None)"
    using f u t' by (auto simp: fun_eq_iff parent_of_def kids_of_def name_of_def)
  have rs: "readers_of t' b = readers_of t b" for b by (simp add: readers_of_def t')
  have 1: "file_ok t' ((h(a := 0)) b) b g" if "tr_files t' b = Some g" for b g
  proof -
    have b: "tr_files t b = Some g" "b \<noteq> a" using that t' by (auto split: if_splits)
    have "c \<noteq> a" if "c \<in> set (somes (fi_list g))" for c using nk [of b] that b by (auto simp: kids_of_def)
    then have "file_ok t' (h b) b g = file_ok t (h b) b g" by (intro file_ok_cong) (auto simp: t' rs l)
    then show ?thesis using tree_invD(1) [OF i b(1)] b(2) by simp
  qed
  have 2: "(h(a := 0)) b = 0 \<and> readers_of t' b = {}" if "tr_files t' b = None" for b
    using that t'(1) tree_invD(2) [OF i, of b] z by (cases "b = a") (auto simp: rs)
  have 3: "parent_of t' (tr_root t') = Some (tr_root t')" using tree_invD(3) [OF i] by (simp add: l t')
  have 4: "distinct (tr_free t') \<and> (\<forall>b \<in> set (tr_free t'). tr_files t' b = None)"
    using tree_invD(4,5) [OF i] f t' by auto
  have 5: "j < length (fi_list k)" if "tr_rdirs t' r = Some d" "tr_files t' (rd_dir d) = Some k" "rd_fl d = Some j" for r d k j
    using that t' tree_invD(7) [OF i, of r d k j] by (auto split: if_splits)
  have 6: "finite (dom (tr_rdirs t'))" using tree_invD(6) [OF i] t'(4) by simp
  show ?thesis by (rule tree_invI [OF 1 2 3 4 6 5])
qed

lemma closefile_inv:
  assumes i: "tree_inv t h" and h: "card (readers_of t a) < h a"
  shows "\<exists>t'. closefile a t = Some t' \<and> tree_inv t' (h(a := h a - 1)) \<and> tr_rdirs t' = tr_rdirs t \<and> tr_root t' = tr_root t"
proof -
  obtain f where f: "tr_files t a = Some f" using tree_inv_live [OF i] h by force
  note o = file_okD [OF tree_invD(1) [OF i f]]
  let ?g = "f\<lparr>fi_ref := fi_ref f - 1\<rparr>"
  show ?thesis
  proof (cases "fi_ref f = 1")
    case True
    have "int (h a) + int (length (somes (fi_list f))) \<le> 1" using True o(1,2) by (auto split: if_splits)
    then have "h a = 1 \<and> length (somes (fi_list f)) = 0" using h by linarith
    then have s: "h a = 1" "somes (fi_list f) = []" "readers_of t a = {}"
      using h finite_readers [OF i, of a] by auto
    have "tree_inv (t\<lparr>tr_files := (tr_files t)(a := None), tr_free := a # tr_free t, tr_log := tr_log t @ [a]\<rparr>) (h(a := 0))" (is "tree_inv ?t _")
      by (rule tree_inv_free [OF i f True s(1,3)]) simp_all
    moreover have "closefile a t = Some ?t" using f True s(2) by (simp add: closefile_def upd_file_def freefile_def somes_Nil)
    ultimately show ?thesis using s(1) by simp
  next
    case False
    have "tree_inv (t\<lparr>tr_files := (tr_files t)(a := Some ?g)\<rparr>) (h(a := h a - 1))"
      by (rule tree_inv_upd [OF i f, of ?g]) (use o h False tree_invD(7) [OF i] f in \<open>auto simp: same_links_def\<close>)
    then show ?thesis using f False by (simp add: closefile_def upd_file_def)
  qed
qed

text \<open>Operations that leave the directories as they are.\<close>

definition same_dirs :: "tree \<Rightarrow> tree \<Rightarrow> bool" where
  "same_dirs t t' \<longleftrightarrow> kids_of t' = kids_of t \<and> (\<forall>d c. c \<in> kids_of t d \<longrightarrow> name_of t' c = name_of t c)"

lemma same_dirs_trans: "same_dirs t t' \<Longrightarrow> same_dirs t' t'' \<Longrightarrow> same_dirs t t''"
  by (auto simp: same_dirs_def)

lemma upd_same_dirs:
  assumes "upd_file a g t = Some t'" "\<And>f. tr_files t a = Some f \<Longrightarrow> same_links f (g f)"
  shows "same_dirs t t'"
proof -
  obtain f where f: "tr_files t a = Some f" "t' = t\<lparr>tr_files := (tr_files t)(a := Some (g f))\<rparr>"
    using assms(1) by (auto simp: upd_file_def bind_eq_Some_conv)
  have "tr_files t' = (tr_files t)(a := Some (g f))" using f(2) by simp
  from links_upd [OF f(1) assms(2) [OF f(1)] this] show ?thesis by (simp add: same_dirs_def)
qed

lemma inc_same_dirs: "incfile a t = Some t' \<Longrightarrow> same_dirs t t'"
  unfolding incfile_def by (erule upd_same_dirs) (simp add: same_links_def)

lemma clean_same_dirs: "cleanfilelist a t = Some t' \<Longrightarrow> same_dirs t t'"
proof -
  assume c: "cleanfilelist a t = Some t'"
  consider "t' = t" | "upd_file a (\<lambda>f. f\<lparr>fi_list := filter (\<lambda>e. e \<noteq> None) (fi_list f), fi_nxchild := 0\<rparr>) t = Some t'"
    using c by (auto simp: cleanfilelist_def bind_eq_Some_conv split: if_splits)
  then show ?thesis
  proof cases
    case 2
    then show ?thesis by (rule upd_same_dirs) (simp add: same_links_def)
  qed (simp add: same_dirs_def)
qed

lemma close_same_dirs:
  assumes i: "tree_inv t h" and h: "0 < h a" and c: "closefile a t = Some t'"
  shows "same_dirs t t'"
proof -
  obtain t1 f where t1: "upd_file a (\<lambda>f. f\<lparr>fi_ref := fi_ref f - 1\<rparr>) t = Some t1" "tr_files t1 a = Some f"
      "(if fi_ref f = 0 then freefile a (t1\<lparr>tr_log := tr_log t1 @ [a]\<rparr>) else Some t1) = Some t'"
    using c by (auto simp: closefile_def bind_eq_Some_conv)
  have 1: "same_dirs t t1" by (rule upd_same_dirs [OF t1(1)]) (simp add: same_links_def)
  obtain f0 where f0: "tr_files t a = Some f0" "f = f0\<lparr>fi_ref := fi_ref f0 - 1\<rparr>" using t1(1,2) by (auto simp: upd_file_def bind_eq_Some_conv)
  show ?thesis
  proof (cases "fi_ref f = 0")
    case True
    note o = file_okD [OF tree_invD(1) [OF i f0(1)]]
    have r: "fi_ref f0 = 1" using True f0(2) by simp
    have "int (h a) + int (length (somes (fi_list f0))) \<le> 1" "fi_parent f0 = None"
      using o(1) h unfolding r o(2) by (auto split: if_splits)
    then have "length (somes (fi_list f0)) = 0 \<and> fi_parent f0 = None" using h by linarith
    then have z: "somes (fi_list f) = []" "fi_parent f = None" using f0(2) by simp_all
    have t': "tr_files t' = (tr_files t1)(a := None)" using t1(2,3) True by (auto simp: freefile_def split: if_splits)
    have "kids_of t' = kids_of t1" using z(1) t1(2) by (auto simp: kids_of_def t' fun_eq_iff)
    moreover have "name_of t' c = name_of t1 c" if "c \<in> kids_of t1 d" for c d
    proof -
      have "c \<in> kids_of t d" using 1 that by (simp add: same_dirs_def)
      then have "parent_of t c = Some d" using file_okD(9) [OF tree_invD(1) [OF i]] by (auto simp: kids_of_def split: option.splits)
      then have "c \<noteq> a" using z(2) f0 by (auto simp: parent_of_def)
      then show ?thesis by (simp add: name_of_def t')
    qed
    ultimately show ?thesis using same_dirs_trans [OF 1, of t'] by (simp add: same_dirs_def)
  qed (use 1 t1(3) in simp)
qed

section \<open>Removing and creating\<close>

text \<open>A file leaves its directory: the references that the two had to each other are now the program's.\<close>

lemma tree_inv_detach:
  assumes i: "tree_inv t h" and f: "tr_files t a = Some f" "fi_parent f = Some p" "p \<noteq> a" and fp: "tr_files t p = Some fp"
    and j: "j < length (fi_list fp)" "fi_list fp ! j = Some a"
    and g: "g = f\<lparr>fi_parent := None\<rparr>"
      "gp = fp\<lparr>fi_list := (fi_list fp)[j := None], fi_nchild := fi_nchild fp - 1, fi_nxchild := fi_nxchild fp + 1\<rparr>"
  shows "tree_inv (t\<lparr>tr_files := (tr_files t)(p := Some gp, a := Some g)\<rparr>) (h(p := h p + 1, a := h a + 1))"
    (is "tree_inv ?t ?h")
proof -
  note o = file_okD [OF tree_invD(1) [OF i f(1)]] and op = file_okD [OF tree_invD(1) [OF i fp]]
  have ar: "a \<noteq> tr_root t" using o(10) [OF f(2)] f(3) by (auto split: if_splits)
  have s: "somes (fi_list gp) = remove1 a (somes (fi_list fp))" using somes_clear [OF j op(7)] by (simp add: g)
  have am: "a \<in> set (somes (fi_list fp))" using nth_mem [OF j(1)] j(2) by (simp add: set_somes)
  have l: "parent_of ?t = (parent_of t)(a := None)" "kids_of ?t = (kids_of t)(p := kids_of t p - {a})" "name_of ?t = name_of t"
    using f fp s op(7) by (auto simp: fun_eq_iff parent_of_def kids_of_def name_of_def g(1)) (simp_all add: g(2))
  have rs: "readers_of ?t b = readers_of t b" for b by (simp add: readers_of_def)
  have gp: "fi_ref gp = fi_ref fp" "fi_parent gp = fi_parent fp" "fi_nchild gp = fi_nchild fp - 1" "fi_nxchild gp = fi_nxchild fp + 1"
      "fi_readers gp = fi_readers fp" "length (fi_list gp) = length (fi_list fp)" by (simp_all add: g(2))
  have len: "int (length (somes (fi_list gp))) = int (length (somes (fi_list fp))) - 1"
    using am length_pos_if_in_set [OF am] by (simp add: s length_remove1 of_nat_diff Suc_le_eq)
  have gs: "fi_ref g = fi_ref f" "fi_parent g = None" "fi_nchild g = fi_nchild f" "fi_nxchild g = fi_nxchild f"
      "fi_readers g = fi_readers f" "fi_list g = fi_list f" by (simp_all add: g(1))
  have "file_ok ?t (h p + 1) p gp"
  proof (rule file_okI)
    show "distinct (map (name_of ?t) (somes (fi_list gp)))"
      using op(8) by (auto simp: s l(3) distinct_map intro: inj_on_subset)
    show "if p = tr_root ?t then q = p else p \<in> kids_of ?t q" if "fi_parent gp = Some q" for q
      using op(10) [of q] f(3) that by (auto simp: l(2) gp(2) split: if_splits)
  qed (use op(1-7) op(9) len in \<open>auto simp: gp rs s l(1)\<close>)
  moreover have "file_ok ?t (h a + 1) a g"
  proof (rule file_okI)
    show "c \<noteq> tr_root ?t \<and> parent_of ?t c = Some a" if "c \<in> set (somes (fi_list g))" for c
    proof -
      have "c \<noteq> tr_root t" "parent_of t c = Some a" using that o(9) [of c] by (simp_all add: g(1))
      moreover have "c \<noteq> a" using calculation(2) f by (auto simp: parent_of_def)
      ultimately show ?thesis by (simp add: l(1))
    qed
  qed (use o(1-8) ar f(2) in \<open>simp_all add: gs rs l(3)\<close>)
  moreover have "file_ok ?t (h b) b k" if b: "b \<noteq> a" "b \<noteq> p" "tr_files t b = Some k" for b k
  proof -
    have "c \<noteq> a" if "c \<in> set (somes (fi_list k))" for c
      using file_okD(9) [OF tree_invD(1) [OF i b(3)] that] f(1,2) b(2) by (auto simp: parent_of_def)
    then have "file_ok ?t (h b) b k = file_ok t (h b) b k"
      by (intro file_ok_cong) (use b in \<open>auto simp: rs l\<close>)
    then show ?thesis using tree_invD(1) [OF i b(3)] by simp
  qed
  ultimately have 1: "file_ok ?t (?h b) b k" if "tr_files ?t b = Some k" for b k
    using that f(3) by (cases "b = a"; cases "b = p") auto
  show ?thesis
  proof (rule tree_invI [OF 1])
    show "?h b = 0 \<and> readers_of ?t b = {}" if "tr_files ?t b = None" for b
      using that tree_invD(2) [OF i, of b] by (auto simp: rs split: if_splits)
    show "parent_of ?t (tr_root ?t) = Some (tr_root ?t)" using tree_invD(3) [OF i] ar by (simp add: l)
    show "distinct (tr_free ?t) \<and> (\<forall>b \<in> set (tr_free ?t). tr_files ?t b = None)"
      using tree_invD(4,5) [OF i] f(1) fp by auto
    show "m < length (fi_list k)" if "tr_rdirs ?t r = Some d" "tr_files ?t (rd_dir d) = Some k" "rd_fl d = Some m" for r d k m
      using that tree_invD(7) [OF i, of r d] f(1) fp by (auto simp: g split: if_splits)
  qed (use tree_invD(6) [OF i] in simp_all)
qed

lemma removefile_inv:
  assumes i: "tree_inv t h" and h: "card (readers_of t a) < h a"
  shows "\<exists>e t'. removefile a t = Some (e, t') \<and> tree_inv t' (h(a := h a - 1)) \<and> tr_rdirs t' = tr_rdirs t \<and> tr_root t' = tr_root t
    \<and> (\<forall>d. kids_of t' d = (if e = None then kids_of t d - {a} else kids_of t d)) \<and> (\<forall>d c. c \<in> kids_of t' d \<longrightarrow> name_of t' c = name_of t c)"
proof -
  obtain f where f: "tr_files t a = Some f" using tree_inv_live [OF i] h by force
  note o = file_okD [OF tree_invD(1) [OF i f]]
  have fail: ?thesis if "\<And>t'. closefile a t = Some t' \<Longrightarrow> \<exists>e. removefile a t = Some (Some e, t')"
    using closefile_inv [OF i h] that close_same_dirs [OF i, of a] h unfolding same_dirs_def by (metis gr_implies_not0 not_gr0 option.distinct(1))
  show ?thesis
  proof (cases "fi_parent f = None \<or> fi_parent f = Some a \<or> fi_nchild f \<noteq> 0")
    case True
    then show ?thesis by (intro fail) (auto simp: removefile_def f split: option.splits)
  next
    case False
    then obtain p where p: "fi_parent f = Some p" "p \<noteq> a" "fi_nchild f = 0" by auto
    have "a \<in> kids_of t p" using o(10) [OF p(1)] p(2) by (auto split: if_splits)
    then obtain fp where fp: "tr_files t p = Some fp" "Some a \<in> set (fi_list fp)"
      by (auto simp: kids_of_def set_somes split: option.splits)
    then obtain j where j: "findentry (\<lambda>e. e = Some a) (fi_list fp) = Some j"
      using findentry_None [of "\<lambda>e. e = Some a" "fi_list fp"] by (cases "findentry (\<lambda>e. e = Some a) (fi_list fp)") auto
    have j': "j < length (fi_list fp)" "fi_list fp ! j = Some a" using findentry_Some [OF j] by auto
    let ?gp = "fp\<lparr>fi_list := (fi_list fp)[j := None], fi_nchild := fi_nchild fp - 1, fi_nxchild := fi_nxchild fp + 1\<rparr>"
    let ?t1 = "t\<lparr>tr_files := (tr_files t)(p := Some ?gp, a := Some (f\<lparr>fi_parent := None\<rparr>))\<rparr>"
    have rs: "tr_rdirs t' = tr_rdirs t \<Longrightarrow> readers_of t' b = readers_of t b" for t' b by (simp add: readers_of_def)
    have i1: "tree_inv ?t1 (h(p := h p + 1, a := h a + 1))"
      by (rule tree_inv_detach [OF i f p(1,2) fp(1) j' refl refl])
    obtain t2 where t2: "cleanfilelist p ?t1 = Some t2" "tree_inv t2 (h(p := h p + 1, a := h a + 1))" "tr_rdirs t2 = tr_rdirs t"
      "tr_root t2 = tr_root t"
      using cleanfilelist_inv [OF i1, of p ?gp] p(2) by auto
    have e: "(h(p := h p + 1, a := h a + 1))(p := (h(p := h p + 1, a := h a + 1)) p - 1) = h(a := h a + 1)"
      using p(2) by (auto simp: fun_eq_iff)
    have "card (readers_of t p) \<le> h p" using file_okD(5) [OF tree_invD(1) [OF i fp(1)]] .
    then have hp: "card (readers_of t2 p) < (h(p := h p + 1, a := h a + 1)) p" using p(2) by (simp add: rs [OF t2(3)])
    obtain t3 where t3: "closefile p t2 = Some t3" "tree_inv t3 (h(a := h a + 1))" "tr_rdirs t3 = tr_rdirs t" "tr_root t3 = tr_root t"
      using closefile_inv [OF t2(2) hp, unfolded e t2(3,4)] by blast
    obtain t4 where t4: "closefile a t3 = Some t4" "tree_inv t4 h" "tr_rdirs t4 = tr_rdirs t" "tr_root t4 = tr_root t"
      using closefile_inv [OF t3(2), of a] h t3(3,4) by (auto simp: rs [OF t3(3)])
    obtain t5 where t5: "closefile a t4 = Some t5" "tree_inv t5 (h(a := h a - 1))" "tr_rdirs t5 = tr_rdirs t" "tr_root t5 = tr_root t"
      using closefile_inv [OF t4(2), of a] h t4(3,4) by (auto simp: rs [OF t4(3)])
    have "removefile a t = Some (None, t5)"
    proof -
      have u1: "upd_file p (\<lambda>fp. fp\<lparr>fi_list := (fi_list fp)[j := None], fi_nchild := fi_nchild fp - 1,
          fi_nxchild := fi_nxchild fp + 1\<rparr>) t = Some (t\<lparr>tr_files := (tr_files t)(p := Some ?gp)\<rparr>)"
        by (simp add: upd_file_def fp(1))
      have u2: "upd_file a (\<lambda>f. f\<lparr>fi_parent := None\<rparr>) (t\<lparr>tr_files := (tr_files t)(p := Some ?gp)\<rparr>) = Some ?t1"
        using p(2) by (simp add: upd_file_def f)
      show ?thesis
        by (simp only: removefile_def f p fp(1) j u1 u2 t2(1) t3(1) t4(1) t5(1) bind.bind_lunit option.case if_False simp_thms not_False_eq_True)
    qed
    moreover have "same_dirs ?t1 t5"
      using clean_same_dirs [OF t2(1)] close_same_dirs [OF t2(2) _ t3(1)] close_same_dirs [OF t3(2) _ t4(1)] close_same_dirs [OF t4(2) _ t5(1)] h p(2)
      by (auto intro: same_dirs_trans)
    moreover have "kids_of ?t1 d = kids_of t d - {a}" for d
    proof -
      have "d = p" if "a \<in> kids_of t d" for d
        using that file_okD(9) [OF tree_invD(1) [OF i, of d], of _ a] p(1) f by (auto simp: kids_of_def parent_of_def split: option.splits)
      moreover have "kids_of ?t1 p = kids_of t p - {a}"
        using somes_clear [OF j' file_okD(7) [OF tree_invD(1) [OF i fp(1)]]] file_okD(7) [OF tree_invD(1) [OF i fp(1)]] fp(1) p(2) by (simp add: kids_of_def)
      moreover have "kids_of ?t1 d = kids_of t d" if "d \<noteq> p" using that f by (simp add: kids_of_def)
      ultimately show ?thesis by (cases "d = p") auto
    qed
    moreover have "name_of ?t1 = name_of t" using f fp(1) by (auto simp: name_of_def fun_eq_iff)
    ultimately show ?thesis using t5(2-4) by (auto simp: same_dirs_def)
  qed
qed

text \<open>A new file, with one reference for the program and one for its place in the directory.\<close>

lemma tree_inv_attach:
  assumes i: "tree_inv t h" and a: "tr_files t a = None" and fp: "tr_files t p = Some fp"
    and new: "\<And>c. c \<in> set (somes (fi_list fp)) \<Longrightarrow> name_of t c \<noteq> d_name (fi_dir g)"
    and g: "fi_ref g = 2" "fi_parent g = Some p" "fi_list g = []" "fi_nchild g = 0" "fi_nxchild g = 0" "fi_readers g = 0"
    and gp: "gp = fp\<lparr>fi_ref := fi_ref fp + 1, fi_list := fi_list fp @ [Some a], fi_nchild := fi_nchild fp + 1\<rparr>"
    and t': "tr_files t' = (tr_files t)(a := Some g, p := Some gp)" "tr_root t' = tr_root t" "tr_rdirs t' = tr_rdirs t"
      "distinct (tr_free t')" "\<And>b. b \<in> set (tr_free t') \<Longrightarrow> tr_files t b = None \<and> b \<noteq> a"
  shows "tree_inv t' (h(a := 1))"
proof -
  note op = file_okD [OF tree_invD(1) [OF i fp]]
  have pa: "p \<noteq> a" using a fp by auto
  have ar: "a \<noteq> tr_root t" using root_live [OF i] a by auto
  have nr: "readers_of t a = {}" "h a = 0" using tree_invD(2) [OF i a] by auto
  have nk: "a \<notin> set (somes (fi_list k))" if "tr_files t b = Some k" for b k
    using file_okD(9) [OF tree_invD(1) [OF i that], of a] a by (auto simp: parent_of_def)
  have l: "parent_of t' = (parent_of t)(a := Some p)" "kids_of t' = (kids_of t)(a := {}, p := insert a (kids_of t p))"
      "name_of t' = (name_of t)(a := d_name (fi_dir g))"
    using fp g pa by (auto simp: fun_eq_iff parent_of_def kids_of_def name_of_def gp t')
  have rs: "readers_of t' b = readers_of t b" for b by (simp add: readers_of_def t')
  have gps: "fi_ref gp = fi_ref fp + 1" "fi_parent gp = fi_parent fp" "fi_nchild gp = fi_nchild fp + 1" "fi_nxchild gp = fi_nxchild fp"
      "fi_readers gp = fi_readers fp" "fi_list gp = fi_list fp @ [Some a]" by (simp_all add: gp)
  have "file_ok t' (h p) p gp"
  proof (rule file_okI)
    have m: "map (name_of t') (somes (fi_list fp)) = map (name_of t) (somes (fi_list fp))" using nk [OF fp] by (auto simp: l(3))
    have "name_of t' a \<notin> set (map (name_of t) (somes (fi_list fp)))" using new by (fastforce simp: l(3))
    then show "distinct (map (name_of t') (somes (fi_list gp)))"
      using op(8) unfolding gps somes_append map_append m by simp
    show "if p = tr_root t' then q = p else p \<in> kids_of t' q" if "fi_parent gp = Some q" for q
      using op(10) [of q] that pa a by (auto simp: l(2) gps(2) t' kids_of_def split: if_splits)
  qed (use op(1-7) op(9) nk [OF fp] pa ar in \<open>auto simp: gps rs l(1) t'(2)\<close>)
  moreover have "file_ok t' 1 a g"
    by (rule file_okI) (use g nr ar in \<open>auto simp: rs l(2) t'(2)\<close>)
  moreover have "file_ok t' (h b) b k" if b: "b \<noteq> a" "b \<noteq> p" "tr_files t b = Some k" for b k
  proof -
    have "b \<in> kids_of t' q \<longleftrightarrow> b \<in> kids_of t q" for q using b a by (auto simp: l(2) kids_of_def)
    then have "file_ok t' (h b) b k = file_ok t (h b) b k"
      using nk [OF b(3)] by (intro file_ok_cong) (use b in \<open>auto simp: rs l(1,3) t'(2)\<close>)
    then show ?thesis using tree_invD(1) [OF i b(3)] by simp
  qed
  ultimately have 1: "file_ok t' ((h(a := 1)) b) b k" if "tr_files t' b = Some k" for b k
    using that pa by (cases "b = a"; cases "b = p") (auto simp: t'(1))
  show ?thesis
  proof (rule tree_invI [OF 1])
    show "(h(a := 1)) b = 0 \<and> readers_of t' b = {}" if "tr_files t' b = None" for b
      using that tree_invD(2) [OF i, of b] by (auto simp: rs t'(1) split: if_splits)
    show "parent_of t' (tr_root t') = Some (tr_root t')" using tree_invD(3) [OF i] ar by (simp add: l t'(2))
    show "distinct (tr_free t') \<and> (\<forall>b \<in> set (tr_free t'). tr_files t' b = None)" using t'(4,5) fp by (auto simp: t'(1))
    show "m < length (fi_list k)" if "tr_rdirs t' r = Some d" "tr_files t' (rd_dir d) = Some k" "rd_fl d = Some m" for r d k m
    proof (cases "rd_dir d = a")
      case True
      then show ?thesis using that(1) nr(1) by (auto simp: readers_of_def t'(3))
    next
      case False
      have "m < length (fi_list gp)" if "rd_dir d = p"
        using that \<open>tr_rdirs t' r = Some d\<close> \<open>rd_fl d = Some m\<close> tree_invD(7) [OF i, of r d fp m] fp by (simp add: gps t'(3))
      then show ?thesis using False that tree_invD(7) [OF i, of r d k m] by (auto simp: t'(1,3) split: if_splits)
    qed
  qed (use tree_invD(6) [OF i] in \<open>simp_all add: t'\<close>)
qed

text \<open>A group of files that \<^verbatim>\<open>emalloc9p\<close> returns is not in use.\<close>

definition fresh :: "tree \<Rightarrow> nat \<Rightarrow> bool" where
  "fresh t base \<longleftrightarrow> (tr_free t = [] \<longrightarrow> (\<forall>b \<in> {base ..< base + 16}. tr_files t b = None))"

lemma allocfile_fresh:
  assumes i: "tree_inv t h" and f: "fresh t base" and al: "allocfile base t = (a, t1)"
  shows "tr_files t a = None" "distinct (tr_free t1)" "b \<in> set (tr_free t1) \<Longrightarrow> tr_files t b = None \<and> b \<noteq> a"
    "t1 = t\<lparr>tr_free := tr_free t1, tr_files := (tr_files t)(a := Some file_zero)\<rparr>"
proof -
  define fs where "fs = (if tr_free t = [] then [base ..< base + 16] else tr_free t)"
  have fs: "distinct fs" "fs \<noteq> []" "\<forall>b \<in> set fs. tr_files t b = None"
    using tree_invD(4,5) [OF i] f by (auto simp: fs_def fresh_def)
  have e: "a = hd fs" "t1 = t\<lparr>tr_free := tl fs, tr_files := (tr_files t)(a := Some file_zero)\<rparr>"
    using al by (auto simp: allocfile_def fs_def Let_def split: if_splits)
  obtain x xs where x: "fs = x # xs" using fs(2) by (cases fs) auto
  show "tr_files t a = None" "distinct (tr_free t1)" "b \<in> set (tr_free t1) \<Longrightarrow> tr_files t b = None \<and> b \<noteq> a"
    "t1 = t\<lparr>tr_free := tr_free t1, tr_files := (tr_files t)(a := Some file_zero)\<rparr>"
    using fs e x by auto
qed

text \<open>The name of an entry.\<close>

lemma entry_named_iff: "entry_named t name e \<longleftrightarrow> (\<exists>c. e = Some c \<and> name_of t c = Some name)"
  by (auto simp: entry_named_def name_of_def split: option.splits)

lemma findentry_named:
  "findentry (entry_named t name) es = None \<longleftrightarrow> Some name \<notin> name_of t ` set (somes es)"
  unfolding findentry_None entry_named_iff image_iff Bex_def Ball_def set_somes by metis

definition newfile :: "nat \<Rightarrow> bytes \<Rightarrow> bytes option \<Rightarrow> uint \<Rightarrow> uint \<Rightarrow> filerec \<Rightarrow> uint \<Rightarrow> filerec" where
  "newfile p name uid perm now fp gen = file_zero\<lparr>fi_ref := 2, fi_parent := Some p, fi_dir := (fi_dir file_zero)\<lparr>
     d_name := Some name, d_uid := (case uid of None \<Rightarrow> d_uid (fi_dir fp) | Some u \<Rightarrow> Some u), d_gid := d_gid (fi_dir fp),
     d_muid := Some (case uid of None \<Rightarrow> map of_char ''unknown'' | Some u \<Rightarrow> u), d_mode := perm,
     d_qid := \<lparr>q_path = ucast gen, q_vers = 0, q_type = (if perm AND DMDIR \<noteq> 0 then QTDIR else 0)
        OR (if perm AND DMAPPEND \<noteq> 0 then QTAPPEND else 0) OR (if perm AND DMEXCL \<noteq> 0 then QTEXCL else 0)\<rparr>,
     d_atime := now, d_mtime := now, d_length := 0\<rparr>\<rparr>"

lemma createfile_run:
  assumes fp: "tr_files t p = Some fp" and ok: "q_type (fi_qid fp) AND QTDIR \<noteq> 0" "Some name \<notin> name_of t ` set (somes (fi_list fp))"
    and al: "allocfile base t = (a, t1)" "t1 = t\<lparr>tr_free := tr_free t1, tr_files := (tr_files t)(a := Some file_zero)\<rparr>" and pa: "p \<noteq> a"
  shows "createfile p name uid perm now base t = Some (Some a, t\<lparr>tr_free := tr_free t1, tr_qidgen := tr_qidgen t + 1,
     tr_files := (tr_files t)(a := Some (newfile p name uid perm now fp (tr_qidgen t)),
       p := Some (fp\<lparr>fi_ref := fi_ref fp + 1, fi_list := fi_list fp @ [Some a], fi_nchild := fi_nchild fp + 1\<rparr>))\<rparr>)"
proof -
  have n: "findentry (entry_named t name) (fi_list fp) = None" using ok(2) by (simp add: findentry_named)
  obtain fs where t1: "t1 = t\<lparr>tr_free := fs, tr_files := (tr_files t)(a := Some file_zero)\<rparr>" using al(2) by blast
  show ?thesis using pa unfolding createfile_def fp al(1)
    by (simp add: fp ok(1) n t1 Let_def upd_file_def incfile_def newfile_def fun_upd_twist [of a p] file_zero_def or.commute)
qed

lemma createfile_inv:
  assumes i: "tree_inv t h" and f: "fresh t base" and fp: "tr_files t p = Some fp"
  shows "\<exists>v t'. createfile p name uid perm now base t = Some (v, t')
     \<and> tree_inv t' (case v of None \<Rightarrow> h | Some a \<Rightarrow> h(a := h a + 1)) \<and> tr_rdirs t' = tr_rdirs t \<and> tr_root t' = tr_root t
     \<and> (v = None \<longleftrightarrow> q_type (fi_qid fp) AND QTDIR = 0 \<or> Some name \<in> name_of t ` kids_of t p) \<and> (v = None \<longrightarrow> t' = t)
     \<and> (\<forall>a. v = Some a \<longrightarrow> tr_files t a = None \<and> kids_of t' = (kids_of t)(p := insert a (kids_of t p)) \<and> name_of t' = (name_of t)(a := Some name))"
proof (cases "q_type (fi_qid fp) AND QTDIR = 0 \<or> Some name \<in> name_of t ` set (somes (fi_list fp))")
  case True
  then have "q_type (fi_qid fp) AND QTDIR = 0 \<or> findentry (entry_named t name) (fi_list fp) \<noteq> None"
    by (simp only: findentry_named) blast
  then have "createfile p name uid perm now base t = Some (None, t)" by (auto simp: createfile_def fp)
  then show ?thesis using i True fp by (simp add: kids_of_def)
next
  case False
  obtain a t1 where al: "allocfile base t = (a, t1)" by (cases "allocfile base t")
  note fr = allocfile_fresh [OF i f al]
  have pa: "p \<noteq> a" using fp fr(1) by auto
  let ?t = "t\<lparr>tr_free := tr_free t1, tr_qidgen := tr_qidgen t + 1,
     tr_files := (tr_files t)(a := Some (newfile p name uid perm now fp (tr_qidgen t)),
       p := Some (fp\<lparr>fi_ref := fi_ref fp + 1, fi_list := fi_list fp @ [Some a], fi_nchild := fi_nchild fp + 1\<rparr>))\<rparr>"
  have "kids_of ?t = (kids_of t)(p := insert a (kids_of t p))" "name_of ?t = (name_of t)(a := Some name)"
    using fp pa fr(1) by (auto simp: fun_eq_iff kids_of_def name_of_def newfile_def file_zero_def)
  moreover have "h a = 0" using tree_invD(2) [OF i fr(1)] by simp
  moreover have "tree_inv ?t (h(a := 1))"
  proof (rule tree_inv_attach [OF i fr(1) fp _ _ _ _ _ _ _ refl])
    show "name_of t c \<noteq> d_name (fi_dir (newfile p name uid perm now fp (tr_qidgen t)))" if "c \<in> set (somes (fi_list fp))" for c
      using False that by (force simp: newfile_def)
  qed (use fr in \<open>simp_all add: newfile_def file_zero_def\<close>)
  ultimately show ?thesis using createfile_run [OF fp _ _ al fr(4) pa, of name uid perm now] False fp fr(1)
    by (auto simp: kids_of_def [of t p])
qed

section \<open>Walking\<close>

lemma unique_kid: "tree_inv t h \<Longrightarrow> c \<in> kids_of t d \<Longrightarrow> c' \<in> kids_of t d \<Longrightarrow> name_of t c = name_of t c' \<Longrightarrow> c = c'"
  by (auto simp: kids_of_def distinct_map dest!: tree_invD(1) file_okD(8) dest: inj_onD split: option.splits)

lemma live_kid: "tree_inv t h \<Longrightarrow> c \<in> kids_of t d \<Longrightarrow> \<exists>f. tr_files t c = Some f"
proof -
  assume i: "tree_inv t h" and "c \<in> kids_of t d"
  then obtain g where g: "tr_files t d = Some g" "c \<in> set (somes (fi_list g))" by (auto simp: kids_of_def split: option.splits)
  then show ?thesis using file_okD(9) [OF tree_invD(1) [OF i g(1)] g(2)] by (cases "tr_files t c") (auto simp: parent_of_def)
qed

lemma live_parent: "tree_inv t h \<Longrightarrow> parent_of t d = Some p \<Longrightarrow> \<exists>f. tr_files t p = Some f"
proof -
  assume i: "tree_inv t h" and p: "parent_of t d = Some p"
  then obtain g where g: "tr_files t d = Some g" "fi_parent g = Some p" by (auto simp: parent_of_def bind_eq_Some_conv)
  have "p = tr_root t \<or> d \<in> kids_of t p" using file_okD(10) [OF tree_invD(1) [OF i g(1)] g(2)] by (auto split: if_splits)
  then show ?thesis using root_live [OF i] by (auto simp: kids_of_def split: option.splits)
qed

text \<open>The reference to the directory is exchanged for one to the file found.\<close>

definition passed :: "(nat \<Rightarrow> nat) \<Rightarrow> nat \<Rightarrow> nat option \<Rightarrow> nat \<Rightarrow> nat" where
  "passed h d v = (case v of None \<Rightarrow> h(d := h d - 1) | Some c \<Rightarrow> (h(c := h c + 1))(d := (h(c := h c + 1)) d - 1))"

lemma pass_reference:
  assumes i: "tree_inv t h" and h: "card (readers_of t d) < h d" and c: "tr_files t c = Some f"
  shows "\<exists>t1 t2. incfile c t = Some t1 \<and> closefile d t1 = Some t2 \<and> tree_inv t2 (passed h d (Some c))
    \<and> tr_rdirs t2 = tr_rdirs t \<and> tr_root t2 = tr_root t \<and> same_dirs t t2"
proof -
  obtain t1 where t1: "incfile c t = Some t1" "tree_inv t1 (h(c := h c + 1))" "tr_rdirs t1 = tr_rdirs t" "tr_root t1 = tr_root t"
    using incfile_inv [OF i c] by blast
  have hd: "card (readers_of t1 d) < (h(c := h c + 1)) d" using h t1(3) by (cases "d = c") (simp_all add: readers_of_def)
  then have "0 < (h(c := h c + 1)) d" by linarith
  then show ?thesis using closefile_inv [OF t1(2) hd, unfolded t1(3,4)] t1(1) inc_same_dirs [OF t1(1)] close_same_dirs [OF t1(2), of d] same_dirs_trans
    unfolding passed_def option.case by blast
qed

lemma walkfile1_inv:
  assumes i: "tree_inv t h" and h: "card (readers_of t d) < h d" and up: "elem = [0x2E, 0x2E] \<Longrightarrow> parent_of t d \<noteq> None"
  shows "\<exists>v t'. walkfile1 d elem t = Some (v, t') \<and> tree_inv t' (passed h d v) \<and> tr_rdirs t' = tr_rdirs t \<and> tr_root t' = tr_root t \<and> same_dirs t t'
    \<and> (if elem = [0x2E, 0x2E] then v = parent_of t d
       else case v of None \<Rightarrow> Some elem \<notin> name_of t ` kids_of t d | Some c \<Rightarrow> c \<in> kids_of t d \<and> name_of t c = Some elem)"
proof -
  obtain f where f: "tr_files t d = Some f" using tree_inv_live [OF i] h by force
  show ?thesis
  proof (cases "elem = [0x2E, 0x2E]")
    case True
    obtain p where p: "parent_of t d = Some p" using up True by auto
    then have "fi_parent f = Some p" using f by (simp add: parent_of_def)
    then show ?thesis using pass_reference [OF i h] live_parent [OF i p] f True p by (fastforce simp: walkfile1_def)
  next
    case False
    show ?thesis
    proof (cases "findentry (entry_named t elem) (fi_list f)")
      case None
      then have "Some elem \<notin> name_of t ` kids_of t d" using f by (simp add: findentry_named kids_of_def)
      then show ?thesis using closefile_inv [OF i h] close_same_dirs [OF i, of d] h False None f by (auto simp: walkfile1_def passed_def)
    next
      case (Some j)
      obtain c where c: "fi_list f ! j = Some c" "name_of t c = Some elem" "j < length (fi_list f)"
        using findentry_Some [OF Some] by (auto simp: entry_named_iff)
      have k: "c \<in> kids_of t d" using nth_mem [OF c(3)] c(1) f by (simp add: kids_of_def set_somes)
      obtain g where "tr_files t c = Some g" using live_kid [OF i k] by blast
      then show ?thesis using pass_reference [OF i h] False Some f c k by (fastforce simp: walkfile1_def)
    qed
  qed
qed

section \<open>Open directories\<close>

text \<open>The open directories change, and one file with them.\<close>

lemma tree_inv_rdirs:
  assumes i: "tree_inv t h" and f: "tr_files t a = Some f"
    and t': "tr_files t' = (tr_files t)(a := Some (f\<lparr>fi_readers := int (card (readers_of t' a))\<rparr>))" "tr_root t' = tr_root t" "tr_free t' = tr_free t"
    and rs: "\<And>b. b \<noteq> a \<Longrightarrow> readers_of t' b = readers_of t b" "card (readers_of t' a) \<le> h a" "finite (dom (tr_rdirs t'))"
    and pos: "\<And>r d m k. tr_rdirs t' r = Some d \<Longrightarrow> rd_fl d = Some m \<Longrightarrow> tr_files t (rd_dir d) = Some k \<Longrightarrow> m < length (fi_list k)"
  shows "tree_inv t' h"
proof -
  let ?g = "f\<lparr>fi_readers := int (card (readers_of t' a))\<rparr>"
  have l: "parent_of t' = parent_of t" "kids_of t' = kids_of t" "name_of t' = name_of t"
    by (rule links_upd [OF f _ t'(1)]; simp add: same_links_def)+
  have "file_ok t' (h a) a ?g"
    by (rule file_okI) (use file_okD [OF tree_invD(1) [OF i f]] rs(2) in \<open>auto simp: l t'(2)\<close>)
  moreover have "file_ok t' (h b) b k" if "b \<noteq> a" "tr_files t b = Some k" for b k
  proof -
    have "file_ok t' (h b) b k = file_ok t (h b) b k" by (rule file_ok_cong) (simp_all add: l t'(2) rs(1) [OF that(1)])
    then show ?thesis using tree_invD(1) [OF i that(2)] by simp
  qed
  ultimately have 1: "file_ok t' (h b) b k" if "tr_files t' b = Some k" for b k
    using that by (cases "b = a") (auto simp: t'(1))
  show ?thesis
  proof (rule tree_invI [OF 1])
    show "h b = 0 \<and> readers_of t' b = {}" if "tr_files t' b = None" for b
      using that tree_invD(2) [OF i, of b] rs(1) [of b] by (auto simp: t'(1) split: if_splits)
    show "parent_of t' (tr_root t') = Some (tr_root t')" using tree_invD(3) [OF i] by (simp add: l t'(2))
    show "distinct (tr_free t') \<and> (\<forall>b \<in> set (tr_free t'). tr_files t' b = None)"
      using tree_invD(4,5) [OF i] f by (auto simp: t')
    show "m < length (fi_list k)" if "tr_rdirs t' r = Some d" "tr_files t' (rd_dir d) = Some k" "rd_fl d = Some m" for r d k m
      using that pos [of r d m] f by (auto simp: t'(1) split: if_splits)
  qed (use rs(3) in simp_all)
qed

lemma opendirfile_inv:
  assumes i: "tree_inv t h" and f: "tr_files t a = Some f" and h: "card (readers_of t a) < h a" and r: "tr_rdirs t r = None"
  shows "\<exists>v t'. opendirfile r a t = Some (v, t') \<and> tree_inv t' h \<and> tr_root t' = tr_root t \<and> v = (if d_mode (fi_dir f) AND DMDIR = 0 then None else Some r)"
proof (cases "d_mode (fi_dir f) AND DMDIR = 0")
  case False
  note o = file_okD [OF tree_invD(1) [OF i f]]
  let ?d = "\<lparr>rd_dir = a, rd_fl = (if fi_list f = [] then None else Some 0)\<rparr>"
  let ?t = "t\<lparr>tr_files := (tr_files t)(a := Some (f\<lparr>fi_readers := fi_readers f + 1\<rparr>)), tr_rdirs := (tr_rdirs t)(r := Some ?d)\<rparr>"
  have ra: "readers_of ?t a = insert r (readers_of t a)" "r \<notin> readers_of t a" and rb: "b \<noteq> a \<Longrightarrow> readers_of ?t b = readers_of t b" for b
    using r by (auto simp: readers_of_def)
  have c: "card (readers_of ?t a) = Suc (card (readers_of t a))" using finite_readers [OF i, of a] ra by simp
  have "tree_inv ?t h"
  proof (rule tree_inv_rdirs [OF i f])
    show "m < length (fi_list k)" if "tr_rdirs ?t s = Some d" "rd_fl d = Some m" "tr_files t (rd_dir d) = Some k" for s d m k
      using that tree_invD(7) [OF i, of s d k m] f by (auto split: if_splits)
  qed (use c rb h o(4) tree_invD(6) [OF i] in \<open>simp_all add: add.commute\<close>)
  then show ?thesis using False f by (simp add: opendirfile_def upd_file_def)
qed (use i f in \<open>simp add: opendirfile_def\<close>)

lemma closedirfile_inv:
  assumes i: "tree_inv t h" and r: "tr_rdirs t r = Some d"
  shows "\<exists>t'. closedirfile r t = Some t' \<and> tree_inv t' h \<and> tr_root t' = tr_root t"
proof -
  let ?a = "rd_dir d"
  have m: "r \<in> readers_of t ?a" using r by (auto simp: readers_of_def)
  then obtain f where f: "tr_files t ?a = Some f" using tree_invD(2) [OF i, of ?a] by (cases "tr_files t ?a") auto
  note o = file_okD [OF tree_invD(1) [OF i f]]
  let ?g = "f\<lparr>fi_readers := fi_readers f - 1\<rparr>"
  let ?t = "t\<lparr>tr_files := (tr_files t)(?a := Some ?g), tr_rdirs := (tr_rdirs t)(r := None)\<rparr>"
  have ra: "readers_of ?t ?a = readers_of t ?a - {r}" and rb: "b \<noteq> ?a \<Longrightarrow> readers_of ?t b = readers_of t b" for b
    using r by (auto simp: readers_of_def)
  have c: "int (card (readers_of ?t ?a)) = int (card (readers_of t ?a)) - 1"
    using finite_readers [OF i, of ?a] m ra by (metis card_Diff_singleton card_gt_0_iff empty_iff of_nat_1 of_nat_diff One_nat_def Suc_leI)
  have i1: "tree_inv ?t h"
  proof (rule tree_inv_rdirs [OF i f])
    show "n < length (fi_list k)" if "tr_rdirs ?t s = Some e" "rd_fl e = Some n" "tr_files t (rd_dir e) = Some k" for s e n k
      using that tree_invD(7) [OF i, of s e k n] by (auto split: if_splits)
  qed (use c rb o(4,5) tree_invD(6) [OF i] in auto)
  have cl: "cleanfilelist ?a ?t = map_option (\<lambda>t. t\<lparr>tr_rdirs := (tr_rdirs t)(r := None)\<rparr>)
      (cleanfilelist ?a (t\<lparr>tr_files := (tr_files t)(?a := Some ?g)\<rparr>))"
    by (simp add: cleanfilelist_def upd_file_def)
  obtain t2 where t2: "cleanfilelist ?a ?t = Some t2" "tree_inv t2 h" "tr_root t2 = tr_root t"
    using cleanfilelist_inv [OF i1, of ?a ?g] by auto
  then obtain t3 where t3: "cleanfilelist ?a (t\<lparr>tr_files := (tr_files t)(?a := Some ?g)\<rparr>) = Some t3" "t2 = t3\<lparr>tr_rdirs := (tr_rdirs t3)(r := None)\<rparr>"
    unfolding cl by auto
  show ?thesis
  proof (cases "fi_readers f = 1")
    case True
    then show ?thesis using r f t2(2,3) t3 by (simp add: closedirfile_def upd_file_def)
  next
    case False
    then show ?thesis using r f i1 by (simp add: closedirfile_def upd_file_def)
  qed
qed

end
