(* ===== verification/File_Props.thy ===== *)
theory File_Props
  imports Filetree_Inv
begin

text \<open>The properties of file trees, directory reads and permissions.\<close>

section \<open>Reading a directory\<close>

text \<open>The entries that the files of a list are sent as.\<close>

definition entries :: "tree \<Rightarrow> nat option list \<Rightarrow> bytes" where
  "entries t es = concat (map (\<lambda>c. case tr_files t c of None \<Rightarrow> [] | Some f \<Rightarrow> stat_wire (fi_dir f)) (somes es))"

lemma entries_simps [simp]:
  "entries t [] = []" "entries t (None # es) = entries t es"
  "tr_files t c = Some f \<Longrightarrow> entries t (Some c # es) = stat_wire (fi_dir f) @ entries t es"
  "entries t (xs @ ys) = entries t xs @ entries t ys"
  by (simp_all add: entries_def)

text \<open>Every entry of the list is of a file that exists and fits in \<open>n\<close> bytes.\<close>

definition readable :: "tree \<Rightarrow> nat \<Rightarrow> nat option list \<Rightarrow> bool" where
  "readable t n es \<longleftrightarrow> (\<forall>c. Some c \<in> set es \<longrightarrow> (\<exists>f. tr_files t c = Some f \<and> sizeD2M (fi_dir f) \<le> n))"

lemma readable_Cons: "readable t n (e # es) \<longleftrightarrow> readable t n es \<and> (\<forall>c. e = Some c \<longrightarrow> (\<exists>f. tr_files t c = Some f \<and> sizeD2M (fi_dir f) \<le> n))"
  by (auto simp: readable_def)

lemma readable_drop: "readable t n es \<Longrightarrow> readable t n (drop i es)"
  by (auto simp: readable_def dest: in_set_dropD)

lemma readdir_loop_reads:
  assumes "readable t n es" "n \<le> length buf" "m \<le> n"
  shows "\<exists>es1 es2 buf' m'. es = es1 @ es2 \<and> readdir_loop t es i m n buf = Some (if es2 = [] then None else Some (i + length es1), m', buf')
     \<and> length buf' = length buf \<and> m' \<le> n \<and> take m' buf' = take m buf @ entries t es1
     \<and> (m = 0 \<longrightarrow> 2 \<le> n \<longrightarrow> es \<noteq> [] \<longrightarrow> es1 \<noteq> [])"
  using assms
proof (induction es arbitrary: i m buf)
  case Nil
  then show ?case by (intro exI [of _ "[]"] exI [of _ buf] exI [of _ m]) simp
next
  case (Cons e es)
  have stop: ?case if "readdir_loop t (e # es) i m n buf = Some (Some i, m, buf')" "length buf' = length buf" "take m buf' = take m buf"
      "m = 0 \<Longrightarrow> 2 \<le> n \<Longrightarrow> False" for buf'
    using that Cons.prems by (intro exI [of _ "[]"] exI [of _ "e # es"] exI [of _ buf'] exI [of _ m]) auto
  have go: ?case if run: "readdir_loop t (e # es) i m n buf = readdir_loop t es (Suc i) m1 n buf1" and len: "length buf1 = length buf" "m1 \<le> n"
      and tk: "take m1 buf1 = take m buf @ entries t [e]" for m1 buf1
  proof -
    obtain es1 es2 buf' m' where r: "es = es1 @ es2" "readdir_loop t es (Suc i) m1 n buf1 = Some (if es2 = [] then None else Some (Suc i + length es1), m', buf')"
        "length buf' = length buf1" "m' \<le> n" "take m' buf' = take m1 buf1 @ entries t es1"
      using Cons.IH [of buf1 m1 "Suc i"] Cons.prems len by (auto simp: readable_Cons)
    then show ?thesis using run len tk entries_simps(4) [of t "[e]" es1]
      by (intro exI [of _ "e # es1"] exI [of _ es2] exI [of _ buf'] exI [of _ m']) (simp add: append_assoc)
  qed
  show ?case
  proof (cases "m + 2 \<le> n")
    case False
    then show ?thesis by (intro stop [of buf]) auto
  next
    case m: True
    show ?thesis
    proof (cases e)
      case None
      then show ?thesis using m Cons.prems by (intro go [of m buf]) auto
    next
      case (Some c)
      obtain f where f: "tr_files t c = Some f" "sizeD2M (fi_dir f) \<le> n" using Cons.prems(1) Some by (auto simp: readable_Cons)
      have ln: "n - m \<le> length (drop m buf)" using Cons.prems by simp
      show ?thesis
      proof (cases "sizeD2M (fi_dir f) \<le> n - m")
        case True
        have x: "\<not> sizeD2M (fi_dir f) \<le> 2" using sizeD2M_ge [of "fi_dir f"] by simp
        let ?b = "take m buf @ poke (drop m buf) 0 (stat_wire (fi_dir f))"
        show ?thesis
        proof (rule go [of "m + sizeD2M (fi_dir f)" ?b])
          show "readdir_loop t (e # es) i m n buf = readdir_loop t es (Suc i) (m + sizeD2M (fi_dir f)) n ?b"
            using m Some f convD2M_wire [OF True ln] x by (simp add: Let_def)
          show "length ?b = length buf" "m + sizeD2M (fi_dir f) \<le> n" using True ln Cons.prems m by (simp_all add: length_stat_wire)
          show "take (m + sizeD2M (fi_dir f)) ?b = take m buf @ entries t [e]"
            using Cons.prems Some f take_poke_0 [of "stat_wire (fi_dir f)" "drop m buf"] True ln m sizeD2M_ge [of "fi_dir f"]
            by (auto simp: length_stat_wire min_def)
        qed
      next
        case False
        then have s: "convD2M (fi_dir f) (drop m buf) (n - m) = (2, PBIT16 (of_nat (sizeD2M (fi_dir f) - 2) :: uint) @ drop 2 (drop m buf))"
          using convD2M_short [of "n - m" "fi_dir f" "drop m buf"] ln m by simp
        let ?b = "take m buf @ PBIT16 (of_nat (sizeD2M (fi_dir f) - 2) :: uint) @ drop 2 (drop m buf)"
        show ?thesis
        proof (rule stop [of ?b])
          show "readdir_loop t (e # es) i m n buf = Some (Some i, m, ?b)" using m Some f s by (simp add: Let_def)
          show "length ?b = length buf" "take m ?b = take m buf" using Cons.prems m by simp_all
        qed (use f False in simp)
      qed
    qed
  qed
qed

text \<open>Successive reads of \<open>n\<close> bytes, each into a new buffer.\<close>

fun reads :: "nat \<Rightarrow> nat \<Rightarrow> nat \<Rightarrow> tree \<Rightarrow> (bytes list \<times> tree) option" where
  "reads 0 r n t = Some ([], t)"
| "reads (Suc k) r n t = do {
     (m, buf, t) \<leftarrow> readdirfile r (replicate n 0) n t;
     (ds, t) \<leftarrow> reads k r n t;
     Some (take m buf # ds, t) }"

definition rest :: "filerec \<Rightarrow> nat option \<Rightarrow> nat option list" where
  "rest f fl = (case fl of None \<Rightarrow> [] | Some i \<Rightarrow> drop i (fi_list f))"

lemma readdirfile_reads:
  assumes f: "tr_files t a = Some f" and r: "tr_rdirs t r = Some \<lparr>rd_dir = a, rd_fl = fl\<rparr>" and ok: "readable t n (fi_list f)" "2 \<le> n"
    and fl: "\<And>i. fl = Some i \<Longrightarrow> i < length (fi_list f)"
  shows "\<exists>m buf fl'. readdirfile r (replicate n 0) n t = Some (m, buf, t\<lparr>tr_rdirs := (tr_rdirs t)(r \<mapsto> \<lparr>rd_dir = a, rd_fl = fl'\<rparr>)\<rparr>)
     \<and> (\<forall>i. fl' = Some i \<longrightarrow> i < length (fi_list f)) \<and> entries t (rest f fl) = take m buf @ entries t (rest f fl')
     \<and> length (rest f fl') \<le> length (rest f fl) - 1"
proof (cases fl)
  case None
  then show ?thesis using r by (auto simp: readdirfile_def rest_def)
next
  case (Some i)
  have i: "i < length (fi_list f)" using fl Some by simp
  have len: "n \<le> length (replicate n (0 :: uchar))" by simp
  obtain es1 es2 buf m where l: "drop i (fi_list f) = es1 @ es2"
      "readdir_loop t (drop i (fi_list f)) i 0 n (replicate n 0) = Some (if es2 = [] then None else Some (i + length es1), m, buf)"
      "take m buf = take 0 (replicate n 0) @ entries t es1" "0 = (0 :: nat) \<longrightarrow> 2 \<le> n \<longrightarrow> drop i (fi_list f) \<noteq> [] \<longrightarrow> es1 \<noteq> []"
    using readdir_loop_reads [OF readable_drop [OF ok(1), of i] len le0, of i] by blast
  let ?fl = "if es2 = [] then None else Some (i + length es1)"
  have n: "length (fi_list f) = i + length es1 + length es2" using arg_cong [OF l(1), of length] i by simp
  have "drop (i + length es1) (fi_list f) = es2" using arg_cong [OF l(1), of "drop (length es1)"] by (simp add: add.commute)
  then have rest': "rest f ?fl = es2" by (simp add: rest_def)
  have s: "rest f fl = es1 @ es2" "es1 \<noteq> []" using Some l(1,4) i ok(2) by (auto simp: rest_def)
  then have "length (rest f ?fl) \<le> length (rest f fl) - 1" unfolding rest' by (cases es1) simp_all
  moreover have "entries t (rest f fl) = take m buf @ entries t (rest f ?fl)" unfolding rest' using l(3) s by simp
  moreover have "\<forall>j. ?fl = Some j \<longrightarrow> j < length (fi_list f)" using n by simp
  moreover have "readdirfile r (replicate n 0) n t = Some (m, buf, t\<lparr>tr_rdirs := (tr_rdirs t)(r \<mapsto> \<lparr>rd_dir = a, rd_fl = ?fl\<rparr>)\<rparr>)"
    using r Some f l(2) by (simp add: readdirfile_def)
  ultimately show ?thesis by blast
qed

lemma reads_entries:
  assumes "tr_files t a = Some f" "tr_rdirs t r = Some \<lparr>rd_dir = a, rd_fl = fl\<rparr>" "readable t n (fi_list f)" "2 \<le> n"
    "\<forall>i. fl = Some i \<longrightarrow> i < length (fi_list f)" "length (rest f fl) < k"
  shows "\<exists>ds t'. reads k r n t = Some (ds, t') \<and> tr_files t' = tr_files t \<and> length ds = k \<and> last ds = [] \<and> concat ds = entries t (rest f fl)"
  using assms
proof (induction k arbitrary: t fl)
  case (Suc k)
  obtain m buf fl' where r: "readdirfile r (replicate n 0) n t = Some (m, buf, t\<lparr>tr_rdirs := (tr_rdirs t)(r \<mapsto> \<lparr>rd_dir = a, rd_fl = fl'\<rparr>)\<rparr>)"
      "\<forall>i. fl' = Some i \<longrightarrow> i < length (fi_list f)" "entries t (rest f fl) = take m buf @ entries t (rest f fl')"
      "length (rest f fl') \<le> length (rest f fl) - 1"
    using readdirfile_reads [OF Suc.prems(1-4)] Suc.prems(5) by blast
  let ?t = "t\<lparr>tr_rdirs := (tr_rdirs t)(r \<mapsto> \<lparr>rd_dir = a, rd_fl = fl'\<rparr>)\<rparr>"
  have en: "entries ?t es = entries t es" "readable ?t n es = readable t n es" for es by (simp_all add: entries_def readable_def)
  show ?case
  proof (cases k)
    case 0
    then have "rest f fl = []" using Suc.prems(6) by simp
    then have "take m buf = []" using r(3) by simp
    then show ?thesis using r(1,3) 0 \<open>rest f fl = []\<close> by simp
  next
    case (Suc j)
    have "length (rest f fl') < k" using r(4) Suc.prems(6) Suc by simp
    then obtain ds t' where ds: "reads k r n ?t = Some (ds, t')" "tr_files t' = tr_files t" "length ds = k" "last ds = []" "concat ds = entries t (rest f fl')"
      using Suc.IH [of ?t fl'] Suc.prems(1,3,4) r(2) by (auto simp: en)
    then have "ds \<noteq> []" using Suc by auto
    then show ?thesis using r(1,3) ds by simp
  qed
qed simp

section \<open>Programs that use a tree\<close>

text \<open>
  A program that creates, walks, removes and reads files, with a ghost count of the references it
  holds. It works on files it holds (or on the root), and does not give up its last reference to a directory
  that it is still reading.
\<close>

definition spare :: "tree \<Rightarrow> (nat \<Rightarrow> nat) \<Rightarrow> nat \<Rightarrow> bool" where
  "spare t h a \<longleftrightarrow> card (readers_of t a) < h a"

inductive ftstep :: "tree \<times> (nat \<Rightarrow> nat) \<Rightarrow> tree \<times> (nat \<Rightarrow> nat) \<Rightarrow> bool" where
  create: "0 < h p \<or> p = tr_root t \<Longrightarrow> fresh t base \<Longrightarrow> createfile p name uid perm now base t = Some (v, t') \<Longrightarrow>
    ftstep (t, h) (t', case v of None \<Rightarrow> h | Some a \<Rightarrow> h(a := h a + 1))"
| hold: "0 < h a \<or> a = tr_root t \<Longrightarrow> incfile a t = Some t' \<Longrightarrow> ftstep (t, h) (t', h(a := h a + 1))"
| close: "spare t h a \<Longrightarrow> closefile a t = Some t' \<Longrightarrow> ftstep (t, h) (t', h(a := h a - 1))"
| walk: "spare t h a \<Longrightarrow> walkfile a path t = Some (v, t') \<Longrightarrow> ftstep (t, h) (t', passed h a v)"
| remove: "spare t h a \<Longrightarrow> removefile a t = Some (e, t') \<Longrightarrow> ftstep (t, h) (t', h(a := h a - 1))"
| opendir: "spare t h a \<Longrightarrow> tr_rdirs t r = None \<Longrightarrow> opendirfile r a t = Some (v, t') \<Longrightarrow> ftstep (t, h) (t', h)"
| readdir: "readdirfile r (replicate n 0) n t = Some (m, buf, t') \<Longrightarrow> ftstep (t, h) (t', h)"
| closedir: "closedirfile r t = Some t' \<Longrightarrow> ftstep (t, h) (t', h)"

definition ftreach :: "tree \<times> (nat \<Rightarrow> nat) \<Rightarrow> bool" where
  "ftreach th \<longleftrightarrow> (\<exists>uid gid mode user now base t. alloctree uid gid mode user now base = Some t \<and> ftstep\<^sup>*\<^sup>* (t, \<lambda>_. 0) th)"

lemma alloctree_inv: "\<exists>t. alloctree uid gid mode user now base = Some t \<and> tree_inv t (\<lambda>_. 0) \<and> tr_root t = base"
proof -
  let ?u = "case uid of Some u \<Rightarrow> u | None \<Rightarrow> (case user of Some u \<Rightarrow> u | None \<Rightarrow> map of_char ''none'')"
  let ?g = "case gid of Some g \<Rightarrow> g | None \<Rightarrow> ?u"
  obtain f t where r: "alloctree uid gid mode user now base = Some t" "tr_files t = (\<lambda>_. None)(base := Some f)" "tr_root t = base"
      "tr_free t = [base + 1 ..< base + 16]" "tr_rdirs t = (\<lambda>_. None)" "fi_ref f = 1" "fi_parent f = Some base" "fi_list f = []"
      "fi_nchild f = 0" "fi_nxchild f = 0" "fi_readers f = 0"
    by (auto simp: alloctree_def allocfile_def Let_def upd_file_def incfile_def file_zero_def upt_rec)
  have rs: "readers_of t a = {}" for a by (simp add: readers_of_def r)
  have "tree_inv t (\<lambda>_. 0)"
    by (rule tree_invI) (use r rs in \<open>auto simp: file_ok_def parent_of_def split: if_splits\<close>)
  then show ?thesis using r(1,3) by blast
qed

lemma passed_passed:
  assumes "0 < h d" shows "passed (passed h d (Some c)) c v = passed h d v"
  using assms by (auto simp: passed_def fun_eq_iff split: option.splits)

lemma passed_self: "0 < h d \<Longrightarrow> passed h d (Some d) = h"
  by (auto simp: passed_def fun_eq_iff)

lemma walkfile1_step_inv:
  assumes i: "tree_inv t h" and h: "spare t h d" and w: "walkfile1 d elem t = Some (v, t')"
  shows "tree_inv t' (passed h d v) \<and> (\<forall>c. v = Some c \<longrightarrow> spare t' (passed h d v) c)"
proof -
  have up: "parent_of t d \<noteq> None" if "elem = [0x2E, 0x2E]"
    using w that by (auto simp: walkfile1_def parent_of_def bind_eq_Some_conv)
  then have r: "tree_inv t' (passed h d v)" "tr_rdirs t' = tr_rdirs t" using walkfile1_inv [OF i, of d elem] h w by (auto simp: spare_def)
  have "spare t' (passed h d v) c" if "v = Some c" for c
  proof -
    have "card (readers_of t c) \<le> h c" using tree_invD(1,2) [OF i, of c] file_okD(5) [of t "h c" c] by (cases "tr_files t c") auto
    then show ?thesis using h r(2) that by (auto simp: spare_def passed_def readers_of_def)
  qed
  then show ?thesis using r(1) by blast
qed

lemma walkfile_loop_inv:
  "tree_inv t h \<Longrightarrow> spare t h f \<Longrightarrow> walkfile_loop f s t = Some (v, t') \<Longrightarrow> tree_inv t' (passed h f v)"
proof (induction f s t arbitrary: h rule: walkfile_loop.induct)
  case (1 f s t)
  have hf: "0 < h f" using "1.prems"(2) by (simp add: spare_def)
  show ?case
  proof (cases "s = []")
    case True
    then have "v = Some f" "t' = t" using "1.prems"(3) by (simp_all add: walkfile_loop.simps)
    then show ?thesis using "1.prems"(1) passed_self [of h f, OF hf] by simp
  next
    case False
    let ?e = "takeWhile (\<lambda>c. c \<noteq> 0x2F) s"
    have w: "(case walkfile1 f ?e t of None \<Rightarrow> None | Some (None, t) \<Rightarrow> Some (None, t)
        | Some (Some g, t) \<Rightarrow> walkfile_loop g (drop (Suc (length ?e)) s) t) = Some (v, t')"
      using "1.prems"(3) False by (subst (asm) walkfile_loop.simps) (simp add: Let_def)
    then obtain u t1 where u: "walkfile1 f ?e t = Some (u, t1)" by (cases "walkfile1 f ?e t") auto
    note s = walkfile1_step_inv [OF "1.prems"(1,2) u]
    show ?thesis
    proof (cases u)
      case None
      then show ?thesis using w u s by simp
    next
      case (Some g)
      have "tree_inv t' (passed (passed h f (Some g)) g v)"
        using "1.IH" [OF False refl refl u refl Some] s w u Some by auto
      then show ?thesis using passed_passed [of h f, OF hf] by simp
    qed
  qed
qed

lemma readdirfile_inv:
  assumes i: "tree_inv t h" and r: "readdirfile r (replicate n 0) n t = Some (m, buf, t')"
  shows "tree_inv t' h"
proof -
  obtain d fl where d: "tr_rdirs t r = Some d" "t' = t\<lparr>tr_rdirs := (tr_rdirs t)(r \<mapsto> d\<lparr>rd_fl := fl\<rparr>)\<rparr>"
      and fl: "\<And>j f. fl = Some j \<Longrightarrow> tr_files t (rd_dir d) = Some f \<Longrightarrow> j < length (fi_list f)"
    using r
  proof (cases "tr_rdirs t r \<bind> rd_fl")
    case (Some k)
    then obtain d f where k: "tr_rdirs t r = Some d" "rd_fl d = Some k" "tr_files t (rd_dir d) = Some f"
      using r by (auto simp: readdirfile_def bind_eq_Some_conv)
    then obtain fl m' buf' where l: "readdir_loop t (drop k (fi_list f)) k 0 n (replicate n 0) = Some (fl, m', buf')"
        "t' = t\<lparr>tr_rdirs := (tr_rdirs t)(r \<mapsto> d\<lparr>rd_fl := fl\<rparr>)\<rparr>"
      using r by (auto simp: readdirfile_def bind_eq_Some_conv)
    have pos: "fl = Some j \<Longrightarrow> j < k + length es" if "readdir_loop t es k m n b = Some (fl, m', buf')" for es k m b j
      using that by (induction es arbitrary: k m b) (fastforce simp: Let_def split: if_splits option.splits prod.splits)+
    have "k < length (fi_list f)" using tree_invD(7) [OF i k(1,3,2)] .
    then show ?thesis using that [OF k(1) l(2)] pos [OF l(1)] k(3) by auto
  next
    case None
    then obtain d where "tr_rdirs t r = Some d" "t' = t\<lparr>tr_rdirs := (tr_rdirs t)(r \<mapsto> d\<lparr>rd_fl := None\<rparr>)\<rparr>"
      using r by (auto simp: readdirfile_def bind_eq_Some_conv bind_eq_None_conv)
    then show ?thesis using that [of d None] by simp
  qed
  then have "d \<in> ran (tr_rdirs t)" by (auto simp: ran_def)
  then obtain f where f: "tr_files t (rd_dir d) = Some f"
    using d(1) tree_invD(2) [OF i, of "rd_dir d"] by (cases "tr_files t (rd_dir d)") (auto simp: readers_of_def)
  have rs: "readers_of t' b = readers_of t b" for b using d by (auto simp: readers_of_def)
  have fr: "tr_root t' = tr_root t" "tr_free t' = tr_free t" "finite (dom (tr_rdirs t'))" using tree_invD(6) [OF i] by (simp_all add: d(2))
  have rd: "fi_readers f = int (card (readers_of t (rd_dir d)))" "card (readers_of t (rd_dir d)) \<le> h (rd_dir d)"
    using file_okD(4,5) [OF tree_invD(1) [OF i f]] by auto
  have "f\<lparr>fi_readers := int (card (readers_of t' (rd_dir d)))\<rparr> = f" using rd(1) rs by simp
  then have fs: "tr_files t' = (tr_files t)(rd_dir d := Some (f\<lparr>fi_readers := int (card (readers_of t' (rd_dir d)))\<rparr>))"
    using d(2) f by (auto simp: fun_eq_iff)
  show ?thesis
  proof (rule tree_inv_rdirs [OF i f fs])
    show "j < length (fi_list k)" if "tr_rdirs t' s = Some e" "rd_fl e = Some j" "tr_files t (rd_dir e) = Some k" for s e j k
      using that tree_invD(7) [OF i, of s e k j] fl [of j k] d by (auto split: if_splits)
  qed (use rd(2) fr in \<open>simp_all add: rs\<close>)
qed

lemma ftstep_inv:
  assumes step: "ftstep (t, h) (t', h')" and i: "tree_inv t h"
  shows "tree_inv t' h'"
  using step
proof cases
  case (create p base name uid perm now v)
  obtain fp where "tr_files t p = Some fp" using create(2) tree_inv_live [OF i, of p] root_live [OF i] by auto
  from createfile_inv [OF i create(3) this, of name uid perm now] show ?thesis using create by auto
next
  case (hold a)
  obtain f where "tr_files t a = Some f" using hold(2) tree_inv_live [OF i, of a] root_live [OF i] by auto
  from incfile_inv [OF i this] show ?thesis using hold by auto
next
  case (walk a path v)
  then show ?thesis using walkfile_loop_inv [OF i] walkfile1_step_inv [OF i] by (auto simp: walkfile_def split: if_splits)
next
  case (opendir a r v)
  obtain f where "tr_files t a = Some f" using opendir(4) by (auto simp: opendirfile_def bind_eq_Some_conv)
  from opendirfile_inv [OF i this _ opendir(3)] show ?thesis using opendir by (simp add: spare_def)
next
  case (closedir r)
  then obtain d where "tr_rdirs t r = Some d" by (auto simp: closedirfile_def bind_eq_Some_conv)
  from closedirfile_inv [OF i this] show ?thesis using closedir by auto
qed (use closefile_inv [OF i] removefile_inv [OF i] readdirfile_inv [OF i] in \<open>fastforce simp: spare_def\<close>)+

lemma ftreach_inv: "ftreach (t, h) \<Longrightarrow> tree_inv t h"
proof -
  assume "ftreach (t, h)"
  then obtain t0 where t0: "tree_inv t0 (\<lambda>_. 0)" "ftstep\<^sup>*\<^sup>* (t0, \<lambda>_. 0) (t, h)"
    using alloctree_inv unfolding ftreach_def by (metis option.inject)
  from t0(2) have "tree_inv (fst (t, h)) (snd (t, h))"
  proof (induction rule: rtranclp_induct)
    case base
    then show ?case using t0(1) by simp
  next
    case (step y z)
    then show ?case using ftstep_inv by (cases y; cases z) fastforce
  qed
  then show ?thesis by simp
qed

text \<open>
  C13: In every state that a program reaches with the operations on files, a file's count is the number
  of references that the program holds, plus one if it is in the tree, plus one for each of its
  children; a file exists exactly as long as there is one; and no operation on a file that the
  program holds uses a freed file or fails an assertion, except walking to the parent of a removed one.
\<close>

theorem file_references:
  assumes "ftreach (t, h)"
  shows "(\<forall>a. tr_files t a = None \<longrightarrow> h a = 0)
    \<and> (\<forall>a f. tr_files t a = Some f \<longrightarrow> 0 < fi_ref f
         \<and> fi_ref f = int (h a) + (if fi_parent f \<noteq> None then 1 else 0) + int (card {c. c \<noteq> tr_root t \<and> parent_of t c = Some a}))
    \<and> (\<forall>a. spare t h a \<longrightarrow> closefile a t \<noteq> None \<and> removefile a t \<noteq> None
         \<and> (\<forall>elem. elem \<noteq> [0x2E, 0x2E] \<or> parent_of t a \<noteq> None \<longrightarrow> walkfile1 a elem t \<noteq> None)
         \<and> (\<forall>name uid perm now base. fresh t base \<longrightarrow> createfile a name uid perm now base t \<noteq> None))"
proof -
  note i = ftreach_inv [OF assms]
  have 1: "h a = 0" if "tr_files t a = None" for a using tree_invD(2) [OF i that] by simp
  have 2: "0 < fi_ref f \<and> fi_ref f = int (h a) + (if fi_parent f \<noteq> None then 1 else 0) + int (card {c. c \<noteq> tr_root t \<and> parent_of t c = Some a})"
    if f: "tr_files t a = Some f" for a f
  proof -
    note o = file_okD [OF tree_invD(1) [OF i f]]
    have kid: "c \<in> kids_of t a" if c: "c \<noteq> tr_root t" "parent_of t c = Some a" for c
    proof -
      obtain g where g: "tr_files t c = Some g" "fi_parent g = Some a" using c(2) by (auto simp: parent_of_def bind_eq_Some_conv)
      then show ?thesis using file_okD(10) [OF tree_invD(1) [OF i g(1)] g(2)] c(1) by simp
    qed
    have "{c. c \<noteq> tr_root t \<and> parent_of t c = Some a} = set (somes (fi_list f))"
      using o(9) kid f by (auto simp: kids_of_def)
    then have "card {c. c \<noteq> tr_root t \<and> parent_of t c = Some a} = length (somes (fi_list f))" using o(7) by (simp add: distinct_card)
    moreover have "a = tr_root t \<longrightarrow> fi_parent f \<noteq> None" using root_live [OF i] f by auto
    ultimately show ?thesis using o(1,2,6) by auto
  qed
  have 3: "closefile a t \<noteq> None \<and> removefile a t \<noteq> None
         \<and> (\<forall>elem. elem \<noteq> [0x2E, 0x2E] \<or> parent_of t a \<noteq> None \<longrightarrow> walkfile1 a elem t \<noteq> None)
         \<and> (\<forall>name uid perm now base. fresh t base \<longrightarrow> createfile a name uid perm now base t \<noteq> None)" if s: "spare t h a" for a
  proof -
    have h: "card (readers_of t a) < h a" using s by (simp add: spare_def)
    then obtain f where f: "tr_files t a = Some f" using tree_inv_live [OF i] by force
    have "walkfile1 a elem t \<noteq> None" if "elem \<noteq> [0x2E, 0x2E] \<or> parent_of t a \<noteq> None" for elem
      using walkfile1_inv [OF i h, of elem] that by force
    moreover have "createfile a name uid perm now base t \<noteq> None" if "fresh t base" for name uid perm now base
      using createfile_inv [OF i that f, of name uid perm now] by auto
    moreover have "closefile a t \<noteq> None" "removefile a t \<noteq> None" using closefile_inv [OF i h] removefile_inv [OF i h] by auto
    ultimately show ?thesis by blast
  qed
  show ?thesis using 1 2 3 by blast
qed

section \<open>A tree as a map\<close>

text \<open>What a name leads to in a directory.\<close>

definition lookup_name :: "tree \<Rightarrow> nat \<Rightarrow> bytes \<Rightarrow> nat option" where
  "lookup_name t d name = (case tr_files t d of None \<Rightarrow> None
     | Some f \<Rightarrow> find (\<lambda>c. name_of t c = Some name) (somes (fi_list f)))"

lemma lookup_name_iff:
  assumes i: "tree_inv t h"
  shows "lookup_name t d name = Some c \<longleftrightarrow> c \<in> kids_of t d \<and> name_of t c = Some name"
proof (cases "tr_files t d")
  case (Some f)
  let ?l = "find (\<lambda>c. name_of t c = Some name) (somes (fi_list f))"
  have l: "lookup_name t d name = ?l" and k: "kids_of t d = set (somes (fi_list f))" using Some by (simp_all add: lookup_name_def kids_of_def)
  have found: "x \<in> kids_of t d \<and> name_of t x = Some name" if "?l = Some x" for x using that by (auto simp: find_Some_iff k)
  have "?l = Some c" if c: "c \<in> kids_of t d" "name_of t c = Some name"
  proof (cases ?l)
    case None
    then show ?thesis using c by (auto simp: find_None_iff k)
  next
    case (Some x)
    then show ?thesis using found [OF Some] unique_kid [OF i c(1), of x] c(2) by simp
  qed
  then show ?thesis using found [of c] unfolding l by blast
qed (simp add: lookup_name_def kids_of_def)

lemma same_dirs_lookup: "tree_inv t h \<Longrightarrow> tree_inv t' h' \<Longrightarrow> same_dirs t t' \<Longrightarrow> lookup_name t' = lookup_name t"
proof (intro ext)
  fix d n assume i: "tree_inv t h" "tree_inv t' h'" and s: "same_dirs t t'"
  have "lookup_name t' d n = Some c \<longleftrightarrow> lookup_name t d n = Some c" for c
    using s unfolding lookup_name_iff [OF i(1)] lookup_name_iff [OF i(2)] same_dirs_def by auto
  then show "lookup_name t' d n = lookup_name t d n" by (metis option.exhaust)
qed


lemma lookup_name_ex: "tree_inv t h \<Longrightarrow> lookup_name t d name \<noteq> None \<longleftrightarrow> Some name \<in> name_of t ` kids_of t d"
  unfolding not_None_eq image_iff Bex_def by (simp add: lookup_name_iff) metis

text \<open>
  C14: The operations on files act on the tree as on a map from directories and names to files. Creating a
  file adds its name to its directory, and is refused exactly where the name is taken or the directory is
  not one; removing a file removes its name, and only that; walking gives what the name leads to
  and changes nothing.
\<close>

theorem tree_refines_map:
  assumes "ftreach (t, h)" and s: "spare t h d"
  shows "(\<forall>name uid perm now base fp v t'. fresh t base \<longrightarrow> tr_files t d = Some fp \<longrightarrow> createfile d name uid perm now base t = Some (v, t') \<longrightarrow>
      (v = None \<longleftrightarrow> q_type (fi_qid fp) AND QTDIR = 0 \<or> lookup_name t d name \<noteq> None)
      \<and> (\<forall>d' n. lookup_name t' d' n = (if v \<noteq> None \<and> d' = d \<and> n = name then v else lookup_name t d' n)))
    \<and> (\<forall>e t'. removefile d t = Some (e, t') \<longrightarrow>
      (\<forall>d' n. lookup_name t' d' n = (if e = None \<and> lookup_name t d' n = Some d then None else lookup_name t d' n)))
    \<and> (\<forall>elem v t'. elem \<noteq> [0x2E, 0x2E] \<longrightarrow> walkfile1 d elem t = Some (v, t') \<longrightarrow>
      v = lookup_name t d elem \<and> lookup_name t' = lookup_name t)"
proof -
  note i = ftreach_inv [OF assms(1)]
  have h: "card (readers_of t d) < h d" using s by (simp add: spare_def)
  have cr: "(v = None \<longleftrightarrow> q_type (fi_qid fp) AND QTDIR = 0 \<or> lookup_name t d name \<noteq> None)
      \<and> (\<forall>d' n. lookup_name t' d' n = (if v \<noteq> None \<and> d' = d \<and> n = name then v else lookup_name t d' n))"
    if f: "fresh t base" "tr_files t d = Some fp" and c: "createfile d name uid perm now base t = Some (v, t')" for name uid perm now base fp v t'
  proof -
    note r = createfile_inv [OF i f, of name uid perm now, unfolded c]
    note lookup_name_ex [OF i, of d name]
    moreover have "lookup_name t' d' n = (if d' = d \<and> n = name then v else lookup_name t d' n)" if "v = Some a" for d' n a
    proof -
      have a: "tr_files t a = None" "kids_of t' = (kids_of t)(d := insert a (kids_of t d))" "name_of t' = (name_of t)(a := Some name)"
          "tree_inv t' (h(a := h a + 1))" "Some name \<notin> name_of t ` kids_of t d" using r that by auto
      have nm: "name_of t c \<noteq> Some name" if "c \<in> kids_of t d" for c using a(5) that by (metis imageI)
      have nk: "c \<noteq> a" if "c \<in> kids_of t d" for c d using live_kid [OF i that] a(1) by auto
      have "lookup_name t' d' n = Some c \<longleftrightarrow> (if d' = d \<and> n = name then v else lookup_name t d' n) = Some c" for c
        using nm [of c] nk [of c d'] that unfolding lookup_name_iff [OF a(4)] a(2,3)
        by (cases "d' = d"; cases "c = a") (auto simp: lookup_name_iff [OF i])
      then show ?thesis by (metis option.exhaust)
    qed
    ultimately show ?thesis using r by (cases v) auto
  qed
  have rm: "lookup_name t' d' n = (if e = None \<and> lookup_name t d' n = Some d then None else lookup_name t d' n)"
    if "removefile d t = Some (e, t')" for e t' d' n
  proof -
    obtain e1 t1 where R: "removefile d t = Some (e1, t1)" "tree_inv t1 (h(d := h d - 1))"
        "\<forall>d'. kids_of t1 d' = (if e1 = None then kids_of t d' - {d} else kids_of t d')" "\<forall>d' c. c \<in> kids_of t1 d' \<longrightarrow> name_of t1 c = name_of t c"
      using removefile_inv [OF i h] by blast
    have "e1 = e" "t1 = t'" using R(1) that by simp_all
    then have r: "tree_inv t' (h(d := h d - 1))" "kids_of t' d' = (if e = None then kids_of t d' - {d} else kids_of t d')"
        "\<And>c. c \<in> kids_of t' d' \<Longrightarrow> name_of t' c = name_of t c" using R(2-4) by simp_all
    have "lookup_name t' d' n = Some c \<longleftrightarrow> (if e = None \<and> lookup_name t d' n = Some d then None else lookup_name t d' n) = Some c" for c
    proof -
      have k: "c \<in> kids_of t' d' \<longleftrightarrow> c \<in> kids_of t d' \<and> \<not> (e = None \<and> c = d)" unfolding r(2) by simp
      have "lookup_name t' d' n = Some c \<longleftrightarrow> lookup_name t d' n = Some c \<and> \<not> (e = None \<and> c = d)"
        unfolding lookup_name_iff [OF r(1)] lookup_name_iff [OF i] using k r(3) [of c] by metis
      then show ?thesis by (cases "lookup_name t d' n") auto
    qed
    then show ?thesis by (metis option.exhaust)
  qed
  have wk: "v = lookup_name t d elem \<and> lookup_name t' = lookup_name t" if "elem \<noteq> [0x2E, 0x2E]" "walkfile1 d elem t = Some (v, t')" for elem v t'
  proof -
    note r = walkfile1_inv [OF i h, of elem, unfolded that(2)]
    have "lookup_name t d elem = v"
    proof (cases v)
      case None
      then have "Some elem \<notin> name_of t ` kids_of t d" using r that(1) by auto
      then show ?thesis using lookup_name_ex [OF i, of d elem] None by metis
    next
      case (Some c)
      then show ?thesis using r that(1) lookup_name_iff [OF i, of d elem c] by auto
    qed
    moreover have "tree_inv t' (passed h d v)" "same_dirs t t'" using r that(1) by simp_all
    then have "lookup_name t' = lookup_name t" by (rule same_dirs_lookup [OF i])
    ultimately show ?thesis by simp
  qed
  show ?thesis
    by (intro conjI allI impI) (rule conjunct1 [OF cr] conjunct2 [OF cr, rule_format] rm conjunct1 [OF wk] conjunct2 [OF wk]; assumption)+
qed

text \<open>A tree with a root that the program holds.\<close>

lemma root_held:
  "\<exists>t. ftreach (t, (\<lambda>_. 0)(16 := 1)) \<and> spare t ((\<lambda>_. 0)(16 := 1)) 16 \<and> fresh t 64 \<and> tr_root t = 16 \<and> tr_rdirs t = (\<lambda>_. None)
     \<and> (\<exists>f. tr_files t 16 = Some f \<and> d_mode (fi_dir f) = 0x800001ED \<and> fi_list f = [] \<and> q_type (fi_qid f) = QTDIR \<and> fi_parent f = Some 16)"
proof -
  obtain t0 where a: "alloctree None None 0x1ED None 0 16 = Some t0" "tr_root t0 = 16"
    using alloctree_inv [of None None "0x1ED" None 0 16] by blast
  have "\<exists>f. tr_files t0 16 = Some f \<and> d_mode (fi_dir f) = 0x800001ED \<and> fi_list f = [] \<and> q_type (fi_qid f) = QTDIR
      \<and> tr_free t0 \<noteq> [] \<and> tr_rdirs t0 = (\<lambda>_. None) \<and> fi_parent f = Some 16"
    using a(1) by (auto simp: alloctree_def allocfile_def Let_def upd_file_def incfile_def file_zero_def upt_rec)
  then obtain f where t0: "tr_files t0 16 = Some f" "d_mode (fi_dir f) = 0x800001ED" "fi_list f = []" "q_type (fi_qid f) = QTDIR"
      "tr_free t0 \<noteq> []" "tr_rdirs t0 = (\<lambda>_. None)" "fi_parent f = Some 16" by blast
  let ?t = "t0\<lparr>tr_files := (tr_files t0)(16 := Some (f\<lparr>fi_ref := fi_ref f + 1\<rparr>))\<rparr>"
  have "incfile 16 t0 = Some ?t" using t0(1) by (simp add: incfile_def upd_file_def)
  then have "ftstep (t0, \<lambda>_. 0) (?t, (\<lambda>_. 0)(16 := (\<lambda>_. 0) 16 + 1))" using a(2) by (intro ftstep.hold) auto
  then have "ftstep\<^sup>*\<^sup>* (t0, \<lambda>_. 0) (?t, (\<lambda>_. 0)(16 := 1))" by (simp add: r_into_rtranclp)
  then have "ftreach (?t, (\<lambda>_. 0)(16 := 1))" unfolding ftreach_def using a(1) by blast
  moreover have "readers_of ?t 16 = {}" using t0(6) by (simp add: readers_of_def)
  ultimately show ?thesis using t0 a(2) by (intro exI [of _ ?t]) (simp add: spare_def fresh_def)
qed

theorem file_references_witness:
  "\<exists>t f. tr_files t 16 = Some f \<and> fi_ref f = 2 + int (card {c. c \<noteq> tr_root t \<and> parent_of t c = Some 16}) \<and> closefile 16 t \<noteq> None"
proof -
  obtain t f where t: "ftreach (t, (\<lambda>_. 0)(16 := 1))" "spare t ((\<lambda>_. 0)(16 := 1)) 16" "tr_files t 16 = Some f" "fi_parent f = Some 16"
    using root_held by blast
  note w = file_references [OF t(1)]
  have "fi_ref f = 2 + int (card {c. c \<noteq> tr_root t \<and> parent_of t c = Some 16})" using conjunct1 [OF conjunct2 [OF w]] t(3,4) by simp
  moreover have "closefile 16 t \<noteq> None" using conjunct2 [OF conjunct2 [OF w]] t(2) by blast
  ultimately show ?thesis using t(3) by blast
qed

theorem tree_refines_map_witness:
  "\<exists>t t' a. createfile 16 [0x61] None 0x1ED 0 64 t = Some (Some a, t') \<and> lookup_name t' 16 [0x61] = Some a \<and> lookup_name t 16 [0x61] = None"
proof -
  obtain t f where t: "ftreach (t, (\<lambda>_. 0)(16 := 1))" "spare t ((\<lambda>_. 0)(16 := 1)) 16" "fresh t 64" "tr_files t 16 = Some f"
      "fi_list f = []" "q_type (fi_qid f) = QTDIR"
    using root_held by blast
  have l: "lookup_name t 16 [0x61] = None" using t(4,5) by (simp add: lookup_name_def)
  obtain v t' where c: "createfile 16 [0x61] None 0x1ED 0 64 t = Some (v, t')"
    using createfile_inv [OF ftreach_inv [OF t(1)] t(3,4), of "[0x61]" None "0x1ED" 0] by auto
  have "v \<noteq> None \<and> lookup_name t' 16 [0x61] = v"
    using tree_refines_map [OF t(1,2)] t(3,4,6) c l by fastforce
  then show ?thesis using c l by (cases v) (simp, blast)
qed

text \<open>
  C15: Reading a directory. Opened and read in pieces of \<open>n\<close> bytes, whatever \<open>n\<close> is as long as every single entry
  fits, a directory yields the entries of its files in the order of their creation, each
  exactly once and never cut, and then empty reads.
\<close>

theorem readdir_lists_files:
  assumes "ftreach (t, h)" and "spare t h a" and f: "tr_files t a = Some f" "d_mode (fi_dir f) AND DMDIR \<noteq> 0" and r: "tr_rdirs t r = None"
    and n: "2 \<le> n" "\<forall>c g. Some c \<in> set (fi_list f) \<longrightarrow> tr_files t c = Some g \<longrightarrow> sizeD2M (fi_dir g) \<le> n" and k: "length (fi_list f) < k"
  shows "\<exists>t1 ds t2. opendirfile r a t = Some (Some r, t1) \<and> reads k r n t1 = Some (ds, t2) \<and> last ds = []
    \<and> concat ds = concat (map (\<lambda>c. stat_wire (fi_dir (the (tr_files t c)))) (somes (fi_list f)))"
proof -
  note i = ftreach_inv [OF assms(1)]
  let ?g = "f\<lparr>fi_readers := fi_readers f + 1\<rparr>" and ?fl = "if fi_list f = [] then None else Some 0"
  let ?t = "t\<lparr>tr_files := (tr_files t)(a := Some ?g), tr_rdirs := (tr_rdirs t)(r \<mapsto> \<lparr>rd_dir = a, rd_fl = ?fl\<rparr>)\<rparr>"
  have o: "opendirfile r a t = Some (Some r, ?t)" using f by (simp add: opendirfile_def upd_file_def)
  have live: "\<exists>g. tr_files t c = Some g" if "Some c \<in> set (fi_list f)" for c
    using live_kid [OF i, of c a] that f(1) by (simp add: kids_of_def set_somes)
  have rd: "readable ?t n (fi_list f)" unfolding readable_def
  proof (intro allI impI)
    fix c assume c: "Some c \<in> set (fi_list f)"
    then obtain g where g: "tr_files t c = Some g" "sizeD2M (fi_dir g) \<le> n" using live n(2) by blast
    then show "\<exists>g. tr_files ?t c = Some g \<and> sizeD2M (fi_dir g) \<le> n" using f(1) by (cases "c = a") auto
  qed
  have rest: "rest ?g ?fl = fi_list f" by (simp add: rest_def)
  have "\<exists>ds t'. reads k r n ?t = Some (ds, t') \<and> tr_files t' = tr_files ?t \<and> length ds = k \<and> last ds = [] \<and> concat ds = entries ?t (rest ?g ?fl)"
    by (rule reads_entries [of ?t a ?g r ?fl n k]) (use rd n(1) k rest in simp_all)
  then obtain ds t2 where ds: "reads k r n ?t = Some (ds, t2)" "last ds = []" "concat ds = entries ?t (fi_list f)"
    unfolding rest by blast
  have "entries ?t (fi_list f) = concat (map (\<lambda>c. stat_wire (fi_dir (the (tr_files t c)))) (somes (fi_list f)))"
    unfolding entries_def
  proof (rule arg_cong [where f = concat], rule map_cong [OF refl])
    fix c assume "c \<in> set (somes (fi_list f))"
    then obtain g where "tr_files t c = Some g" using live by (auto simp: set_somes)
    then show "(case tr_files ?t c of None \<Rightarrow> [] | Some f \<Rightarrow> stat_wire (fi_dir f)) = stat_wire (fi_dir (the (tr_files t c)))"
      using f(1) by (cases "c = a") auto
  qed
  then show ?thesis using o ds by auto
qed

text \<open>
  A directory with two files: the root, at address 16, that the program holds; then \<^verbatim>\<open>a\<close> and \<^verbatim>\<open>b\<close> created in it. Each
  entry takes 65 bytes, so reads of 100 bytes yield one entry at a time.
\<close>

definition ls_root :: tree where
  "ls_root = the (incfile 16 (the (alloctree None None 0x1ED None 0 16)))"

definition ls_new :: "uchar \<Rightarrow> tree \<Rightarrow> (nat option \<times> tree) option" where
  "ls_new c t = createfile 16 [c] None 0x1A4 7 64 t"

definition ls_a :: tree where
  "ls_a = snd (the (ls_new 0x61 ls_root))"

definition ls_ab :: tree where
  "ls_ab = snd (the (ls_new 0x62 ls_a))"

lemma ls_create:
  assumes "ftreach (t, h)" "0 < h 16" "tr_free t \<noteq> [] \<and> tr_files t 16 \<noteq> None" "map_option fst (ls_new c t) = Some (Some a)"
  shows "ftreach (snd (the (ls_new c t)), h(a := h a + 1))" "tr_rdirs (snd (the (ls_new c t))) = tr_rdirs t"
proof -
  obtain t' where c: "ls_new c t = Some (Some a, t')" using assms(4) by auto
  have f: "fresh t 64" using assms(3) by (simp add: fresh_def)
  have "ftstep (t, h) (t', case Some a of None \<Rightarrow> h | Some a \<Rightarrow> h(a := h a + 1))"
    using assms(2) f c unfolding ls_new_def by (intro ftstep.create) auto
  then show "ftreach (snd (the (ls_new c t)), h(a := h a + 1))"
    using assms(1) c unfolding ftreach_def by (fastforce intro: rtranclp.rtrancl_into_rtrancl)
  obtain fp where "tr_files t 16 = Some fp" using assms(3) by blast
  from createfile_inv [OF ftreach_inv [OF assms(1)] f this, of "[c]" None "0x1A4" 7]
  show "tr_rdirs (snd (the (ls_new c t))) = tr_rdirs t" using c by (auto simp: ls_new_def)
qed

lemma ls_reach: "ftreach (ls_ab, (\<lambda>_. 0)(16 := 1, 17 := 1, 18 := 1))" "tr_rdirs ls_ab = (\<lambda>_. None)"
proof -
  obtain t0 where a: "alloctree None None 0x1ED None 0 16 = Some t0" "tr_root t0 = 16" "tree_inv t0 (\<lambda>_. 0)"
    using alloctree_inv [of None None "0x1ED" None 0 16] by blast
  have r: "tr_rdirs t0 = (\<lambda>_. None)"
    using a(1) by (auto simp: alloctree_def allocfile_def Let_def upd_file_def incfile_def upt_rec)
  obtain rt where rt: "tr_files t0 16 = Some rt"
    using tree_invD(3) [OF a(3)] a(2) by (cases "tr_files t0 16") (auto simp: parent_of_def)
  obtain t1 where t1: "incfile 16 t0 = Some t1" "tr_rdirs t1 = tr_rdirs t0"
    using incfile_inv [OF a(3) rt] by blast
  then have l: "ls_root = t1" by (simp add: ls_root_def a(1))
  have "ftstep (t0, \<lambda>_. 0) (t1, (\<lambda>_. 0)(16 := (\<lambda>_. 0) 16 + 1))" using a(2) t1(1) by (intro ftstep.hold) auto
  then have "ftstep\<^sup>*\<^sup>* (t0, \<lambda>_. 0) (t1, (\<lambda>_. 0)(16 := 1))" by (simp add: r_into_rtranclp)
  then have 1: "ftreach (ls_root, (\<lambda>_. 0)(16 := 1))" unfolding ftreach_def l using a(1) by blast
  have "tr_free ls_root \<noteq> [] \<and> tr_files ls_root 16 \<noteq> None" "map_option fst (ls_new 0x61 ls_root) = Some (Some 17)"
    by code_simp+
  note 2 = ls_create [OF 1 _ this, folded ls_a_def]
  have "tr_free ls_a \<noteq> [] \<and> tr_files ls_a 16 \<noteq> None" "map_option fst (ls_new 0x62 ls_a) = Some (Some 18)"
    by code_simp+
  note 3 = ls_create [OF 2(1) _ this, folded ls_ab_def]
  show "ftreach (ls_ab, (\<lambda>_. 0)(16 := 1, 17 := 1, 18 := 1))" using 3(1) by simp
  show "tr_rdirs ls_ab = (\<lambda>_. None)" using 3(2) 2(2) t1(2) r l by simp
qed

lemma ls_files:
  "let f = the (tr_files ls_ab 16); x = fi_dir (the (tr_files ls_ab 17)); y = fi_dir (the (tr_files ls_ab 18)) in
     tr_files ls_ab 16 \<noteq> None \<and> tr_files ls_ab 17 \<noteq> None \<and> tr_files ls_ab 18 \<noteq> None \<and> d_mode (fi_dir f) AND DMDIR \<noteq> 0
     \<and> fi_list f = [Some 17, Some 18] \<and> d_name x = Some [0x61] \<and> d_name y = Some [0x62] \<and> sizeD2M x = 65 \<and> sizeD2M y = 65
     \<and> length (stat_wire x) = 65 \<and> length (stat_wire y) = 65"
  by code_simp

lemma ls_pieces:
  "map_option (\<lambda>(ds, t). map length ds) (reads 3 5 100 (snd (the (opendirfile 5 16 ls_ab)))) = Some [65, 65, 0]"
  by code_simp

theorem readdir_lists_files_witness:
  "\<exists>t1 ds t2 x y. opendirfile 5 16 ls_ab = Some (Some 5, t1) \<and> reads 3 5 100 t1 = Some (ds, t2) \<and> last ds = []
     \<and> map length ds = [65, 65, 0] \<and> concat ds = stat_wire x @ stat_wire y \<and> d_name x = Some [0x61] \<and> d_name y = Some [0x62]"
proof -
  define f x y where "f = the (tr_files ls_ab 16)" and "x = fi_dir (the (tr_files ls_ab 17))" and "y = fi_dir (the (tr_files ls_ab 18))"
  have e: "tr_files ls_ab 16 = Some f" "d_mode (fi_dir f) AND DMDIR \<noteq> 0" "fi_list f = [Some 17, Some 18]"
      "d_name x = Some [0x61]" "d_name y = Some [0x62]" "sizeD2M x = 65" "sizeD2M y = 65"
    using ls_files unfolding Let_def f_def [symmetric] x_def [symmetric] y_def [symmetric] by (auto simp: f_def)
  have sp: "spare ls_ab ((\<lambda>_. 0)(16 := 1, 17 := 1, 18 := 1)) 16"
    using ls_reach(2) by (simp add: spare_def readers_of_def)
  have n: "\<forall>c g. Some c \<in> set (fi_list f) \<longrightarrow> tr_files ls_ab c = Some g \<longrightarrow> sizeD2M (fi_dir g) \<le> 100"
    using e(6,7) unfolding e(3) x_def y_def by auto
  obtain t1 ds t2 where o: "opendirfile 5 16 ls_ab = Some (Some 5, t1)" "reads 3 5 100 t1 = Some (ds, t2)" "last ds = []"
      "concat ds = concat (map (\<lambda>c. stat_wire (fi_dir (the (tr_files ls_ab c)))) (somes (fi_list f)))"
    using readdir_lists_files [OF ls_reach(1) sp e(1,2) _ _ n, of 5 3] ls_reach(2) e(3) by auto
  have "map length ds = [65, 65, 0]" using ls_pieces o(1,2) by simp
  moreover have "concat ds = stat_wire x @ stat_wire y" using o(4) by (simp add: e(3) x_def y_def)
  ultimately show ?thesis using o(1-3) e(4,5)
    by (intro exI [of _ t1] exI [of _ ds] exI [of _ t2] exI [of _ x] exI [of _ y]) simp
qed

section \<open>Permissions\<close>

text \<open>The permissions of a user on a file: everyone's, the owner's and the group's, as far as the user is these.\<close>

definition perms :: "filerec \<Rightarrow> bytes \<Rightarrow> uint" where
  "perms f uid = (let m = d_mode (fi_dir f) in (m AND 7)
     OR (if d_uid (fi_dir f) = Some uid then drop_bit 6 m AND 7 else 0)
     OR (if d_gid (fi_dir f) = Some uid then drop_bit 3 m AND 7 else 0))"

lemma and_eq_mono:
  fixes p m n :: uint
  assumes "p AND m = p" shows "p AND (m OR n) = p"
proof (rule bit_word_eqI)
  fix k
  have "bit p k \<Longrightarrow> bit m k" using assms by (metis bit_and_iff)
  then show "bit (p AND (m OR n)) k = bit p k" by (auto simp: bit_simps)
qed

text \<open>
  The permission check grants a request exactly if everything asked for is among the permissions of the user:
  those of others, with those of the owner and of the group added when the user is the owner or has
  the group's name.
\<close>

lemma hasperm_is_subset: "hasperm f uid p \<longleftrightarrow> p AND perms f uid = p"
proof -
  define a b c where "a = d_mode (fi_dir f) AND 7" and "b = drop_bit 6 (d_mode (fi_dir f)) AND 7" and "c = drop_bit 3 (d_mode (fi_dir f)) AND 7"
  note m = and_eq_mono [of p a b] and_eq_mono [of p a c] and_eq_mono [of p "a OR b" c]
  show ?thesis using m unfolding hasperm_def perms_def Let_def a_def [symmetric] b_def [symmetric] c_def [symmetric]
    by (cases "d_uid (fi_dir f) = Some uid"; cases "d_gid (fi_dir f) = Some uid") (auto simp: or.assoc)
qed

section \<open>Defects\<close>

text \<open>A directory that is removed while the program holds it twice.\<close>

lemma removed_up:
  assumes i: "tree_inv t h" and f: "tr_files t a = Some f" "fi_parent f = Some p" "p \<noteq> a" "fi_nchild f = 0"
    and h: "card (readers_of t a) = 0" "h a = 2"
  shows "\<exists>t'. removefile a t = Some (None, t') \<and> walkfile1 a [0x2E, 0x2E] t' = None \<and> readers_of t' a = {}"
proof -
  have s: "card (readers_of t a) < h a" using h by simp
  obtain e t' where r: "removefile a t = Some (e, t')" "tree_inv t' (h(a := h a - 1))" "tr_rdirs t' = tr_rdirs t" "tr_root t' = tr_root t"
      "\<forall>d. kids_of t' d = (if e = None then kids_of t d - {a} else kids_of t d)"
    using removefile_inv [OF i s] by blast
  have e: "e = None" using r(1) f by (auto simp: removefile_def bind_eq_Some_conv)
  obtain g where g: "tr_files t' a = Some g" using tree_inv_live [OF r(2), of a] h by auto
  have ar: "a \<noteq> tr_root t'" using file_okD(10) [OF tree_invD(1) [OF i f(1)] f(2)] f(3) r(4) by (auto split: if_splits)
  have "fi_parent g = None"
  proof (rule ccontr)
    assume "fi_parent g \<noteq> None"
    then obtain q where "fi_parent g = Some q" by auto
    then have "a \<in> kids_of t' q" using file_okD(10) [OF tree_invD(1) [OF r(2) g]] ar by simp
    then show False using r(5) e by simp
  qed
  moreover have "readers_of t' a = {}" using h(1) finite_readers [OF i, of a] r(3) by (simp add: readers_of_def)
  ultimately show ?thesis using r(1) e g by (simp add: walkfile1_def)
qed

lemma root_qid_clash:
  assumes a: "alloctree uid gid mode user now base = Some t" and c: "createfile (tr_root t) name uid (DMDIR OR 0x1ED) now' base t = Some (Some v, t')"
    and fg: "tr_files t' v = Some f" "tr_files t' (tr_root t) = Some g"
  shows "v \<noteq> tr_root t \<and> fi_qid f = fi_qid g"
proof -
  have i: "tree_inv t (\<lambda>_. 0)" using alloctree_inv [of uid gid mode user now base] a by auto
  have "\<exists>g0. tr_files t base = Some g0 \<and> fi_qid g0 = \<lparr>q_path = 0, q_vers = 0, q_type = QTDIR\<rparr> \<and> fi_list g0 = [] \<and> tr_qidgen t = 0
      \<and> tr_root t = base \<and> tr_free t \<noteq> []"
    using a by (auto simp: alloctree_def allocfile_def Let_def upd_file_def incfile_def file_zero_def upt_rec)
  then obtain g0 where g0: "tr_files t base = Some g0" "fi_qid g0 = \<lparr>q_path = 0, q_vers = 0, q_type = QTDIR\<rparr>" "fi_list g0 = []" "tr_qidgen t = 0"
      "tr_root t = base" "tr_free t \<noteq> []" by blast
  obtain b t1 where al: "allocfile base t = (b, t1)" by (cases "allocfile base t")
  have fr: "fresh t base" using g0(6) by (simp add: fresh_def)
  note n = allocfile_fresh [OF i fr al]
  have "b \<noteq> base" using n(1) g0(1) by auto
  moreover have "v = b \<and> tr_files t' = (tr_files t)(b := Some (newfile base name uid (DMDIR OR 0x1ED) now' g0 0),
      base := Some (g0\<lparr>fi_ref := fi_ref g0 + 1, fi_list := fi_list g0 @ [Some b], fi_nchild := fi_nchild g0 + 1\<rparr>))"
    using createfile_run [OF g0(1) _ _ al n(4), of name uid "DMDIR OR 0x1ED" now'] c calculation g0 by auto
  ultimately show ?thesis using fg g0(1,2,5) by (auto simp: newfile_def file_zero_def)
qed

lemma freetree_fails: "ftreach (t, h) \<Longrightarrow> freetree n t = None"
proof -
  assume "ftreach (t, h)"
  then have i: "tree_inv t h" by (rule ftreach_inv)
  obtain f where f: "tr_files t (tr_root t) = Some f" using root_live [OF i] by blast
  then have "fi_ref f \<noteq> 0" using file_okD(6) [OF tree_invD(1) [OF i f]] by simp
  moreover have "x \<bind> (\<lambda>t. None) = (None :: tree option)" for x by (cases x) auto
  ultimately show ?thesis using f by (cases n; cases "fi_list f = []") (auto simp: freetree_def freefile_def)
qed

lemma walk_up_fails:
  "\<exists>t t' h d. ftreach (t, h) \<and> spare t h d \<and> removefile d t = Some (None, t')
    \<and> ftreach (t', h(d := h d - 1)) \<and> spare t' (h(d := h d - 1)) d \<and> walkfile1 d [0x2E, 0x2E] t' = None"
proof -
  let ?h = "(\<lambda>_. 0)(16 := 1) :: nat \<Rightarrow> nat"
  obtain t f where t: "ftreach (t, ?h)" "fresh t 64" "tr_root t = 16" "tr_rdirs t = (\<lambda>_. None)" "tr_files t 16 = Some f" "fi_list f = []"
      "q_type (fi_qid f) = QTDIR" using root_held by blast
  have i: "tree_inv t ?h" using ftreach_inv [OF t(1)] .
  obtain a t1 where al: "allocfile 64 t = (a, t1)" by (cases "allocfile 64 t")
  note n = allocfile_fresh [OF i t(2) al]
  have a: "a \<noteq> 16" using n(1) t(5) by auto
  have q: "q_type (fi_qid f) AND QTDIR \<noteq> 0" "Some [0x61] \<notin> name_of t ` set (somes (fi_list f))" using t(6,7) by simp_all
  obtain t2 g where c: "createfile 16 [0x61] None DMDIR 0 64 t = Some (Some a, t2)" "tr_files t2 a = Some g" "fi_parent g = Some 16" "fi_nchild g = 0"
      "tr_rdirs t2 = (\<lambda>_. None)"
    using createfile_run [OF t(5) q al n(4), of None DMDIR 0] a t(4) by (auto simp: newfile_def file_zero_def)
  have s1: "ftstep (t, ?h) (t2, ?h(a := ?h a + 1))" using ftstep.create [OF _ t(2) c(1), of ?h] t(3) by simp
  let ?t3 = "t2\<lparr>tr_files := (tr_files t2)(a := Some (g\<lparr>fi_ref := fi_ref g + 1\<rparr>))\<rparr>" and ?h3 = "?h(a := 2)"
  have "incfile a t2 = Some ?t3" using c(2) by (simp add: incfile_def upd_file_def)
  then have s2: "ftstep (t2, ?h(a := ?h a + 1)) (?t3, ?h3)" using ftstep.hold [of "?h(a := ?h a + 1)" a t2 ?t3] a by (simp add: numeral_2_eq_2)
  have r3: "ftreach (?t3, ?h3)"
    using t(1) s1 s2 unfolding ftreach_def by (meson rtranclp.rtrancl_into_rtrancl)
  have rd: "readers_of ?t3 a = {}" using c(5) by (simp add: readers_of_def)
  obtain t4 where t4: "removefile a ?t3 = Some (None, t4)" "walkfile1 a [0x2E, 0x2E] t4 = None" "readers_of t4 a = {}"
    using removed_up [OF ftreach_inv [OF r3], of a "g\<lparr>fi_ref := fi_ref g + 1\<rparr>" 16] c(3,4) a rd by auto
  have "ftstep (?t3, ?h3) (t4, ?h3(a := ?h3 a - 1))" using rd t4(1) by (intro ftstep.remove) (auto simp: spare_def)
  then have "ftreach (t4, ?h3(a := ?h3 a - 1))" using r3 unfolding ftreach_def by (meson rtranclp.rtrancl_into_rtrancl)
  moreover have "spare t4 (?h3(a := ?h3 a - 1)) a" using t4(3) by (simp add: spare_def)
  moreover have "spare ?t3 ?h3 a" using rd by (simp add: spare_def)
  ultimately show ?thesis using r3 t4(1,2) by blast
qed

text \<open>
  C40: Three defects of the file trees. The first file that is created gets the path 0 of the root, so a directory has
  the qid of the root. A tree can never be freed: \<^verbatim>\<open>freetree\<close> fails an assertion, or uses freed memory, on every tree.
  And a program that still holds a directory after it has removed it (a history of such a tree is given), and walks up
  from there, uses a nil pointer.
\<close>

theorem filetree_defects:
  "(\<forall>uid gid mode user now base t name now' v t' f g.
      alloctree uid gid mode user now base = Some t \<and> createfile (tr_root t) name uid (DMDIR OR 0x1ED) now' base t = Some (Some v, t')
        \<and> tr_files t' v = Some f \<and> tr_files t' (tr_root t) = Some g \<longrightarrow> v \<noteq> tr_root t \<and> fi_qid f = fi_qid g)
    \<and> (\<forall>t h n. ftreach (t, h) \<longrightarrow> freetree n t = None)
    \<and> (\<exists>t t' h d. ftreach (t, h) \<and> spare t h d \<and> removefile d t = Some (None, t')
        \<and> ftreach (t', h(d := h d - 1)) \<and> spare t' (h(d := h d - 1)) d \<and> walkfile1 d [0x2E, 0x2E] t' = None)"
  using freetree_fails walk_up_fails by (intro conjI allI impI) (use root_qid_clash in blast)+

theorem filetree_defects_witness: "\<exists>t f. tr_files t 16 = Some f \<and> freetree 5 t = None"
proof -
  obtain t f where t: "ftreach (t, (\<lambda>_. 0)(16 := 1))" "tr_files t 16 = Some f" using root_held by blast
  then have "freetree 5 t = None" using filetree_defects by blast
  then show ?thesis using t(2) by blast
qed

end
