(* ===== verification/Srv_Reply.thy ===== *)
theory Srv_Reply
  imports Fidpool Filetree Ninep
begin

text \<open>
  The state of a 9P server (\<^verbatim>\<open>struct Srv\<close> and \<^verbatim>\<open>struct Req\<close> of \<^verbatim>\<open>include/ipc/9p.h\<close>), the reference-counted
  requests (\<^verbatim>\<open>lib_networking/lib9p/req.c\<close>) and the answers (\<^verbatim>\<open>respond\<close> and the functions \<^verbatim>\<open>rversion\<close> to \<^verbatim>\<open>rwstat\<close> of
  \<^verbatim>\<open>srv.c\<close>). Requests and fids are objects by address. \<open>None\<close> is where the server stops: an \<^verbatim>\<open>assert\<close> that
  fails, \<^verbatim>\<open>abort\<close> or \<^verbatim>\<open>sysfatal\<close>, or a use of nil or of freed memory. Every call runs to its end before
  the next, so the locks are left out; \<^verbatim>\<open>write\<close> writes all it is given.
\<close>

section \<open>State\<close>

definition err :: "string \<Rightarrow> bytes" where
  "err e = map of_char e"

text \<open>The buffer with the encoded \<^verbatim>\<open>Dir\<close> of a stat request.\<close>

datatype statbuf = Nostat | Alloc | Freed

record req =
  r_tag :: uint
  r_ifcall :: fcall
  r_ofcall :: fcall
  r_d :: dir
  r_oldreq :: "nat option"
  r_fid :: "nat option"
  r_afid :: "nat option"
  r_newfid :: "nat option"
  r_ref :: int
  r_pool :: bool
  r_responded :: bool
  r_error :: "bytes option"
  r_flush :: "nat list"
  r_stat :: statbuf

text \<open>
  What the application provides: which of the callbacks of \<^verbatim>\<open>struct Srv\<close> are set, the two that return a
  result at once as functions of the messages so far, and what \<^verbatim>\<open>snprint\<close> leaves in an error buffer.
\<close>

datatype fmtcall = Fauth | Fwrite int | Fremove "bytes option" string

datatype sevent = Recv uint | Sent uint | Pass nat | Destroyfid nat | Destroyreq nat

record srvops =
  o_auth :: bool
  o_attach :: bool
  o_open :: bool
  o_create :: bool
  o_read :: bool
  o_write :: bool
  o_remove :: bool
  o_flush :: bool
  o_stat :: bool
  o_wstat :: bool
  o_walk :: bool
  o_clone :: "(sevent list \<Rightarrow> fid \<Rightarrow> fid \<Rightarrow> bytes option) option"
  o_walk1 :: "(sevent list \<Rightarrow> fid \<Rightarrow> bytes \<Rightarrow> bytes option \<times> qid) option"
  o_destroyreq :: bool
  o_fmt :: "fmtcall \<Rightarrow> bytes"

record srv =
  s_ops :: srvops
  s_tree :: "tree option"
  s_fpool :: fidpool
  s_rmap :: "nat intmap"
  s_reqs :: "nat \<Rightarrow> req option"
  s_msize :: uint
  s_out :: bytes
  s_log :: "sevent list"

definition updreq :: "nat \<Rightarrow> (req \<Rightarrow> req) \<Rightarrow> srv \<Rightarrow> srv option" where
  "updreq r g s = do { q \<leftarrow> s_reqs s r; Some (s\<lparr>s_reqs := (s_reqs s)(r := Some (g q))\<rparr>) }"

definition getfid :: "nat option \<Rightarrow> srv \<Rightarrow> fid option" where
  "getfid a s = a \<bind> fp_fids (s_fpool s)"

definition updfid :: "nat option \<Rightarrow> (fid \<Rightarrow> fid) \<Rightarrow> srv \<Rightarrow> srv option" where
  "updfid a g s = do {
     a \<leftarrow> a;
     f \<leftarrow> fp_fids (s_fpool s) a;
     Some (s\<lparr>s_fpool := (s_fpool s)\<lparr>fp_fids := (fp_fids (s_fpool s))(a := Some (g f))\<rparr>\<rparr>) }"

definition logev :: "sevent \<Rightarrow> srv \<Rightarrow> srv" where
  "logev e s = s\<lparr>s_log := s_log s @ [e]\<rparr>"

text \<open>An operation on the file tree, and the file of a fid.\<close>

definition ontree :: "(tree \<Rightarrow> (tree \<times> 'a) option) \<Rightarrow> srv \<Rightarrow> (srv \<times> 'a) option" where
  "ontree g s = do { t \<leftarrow> s_tree s; (t, v) \<leftarrow> g t; Some (s\<lparr>s_tree := Some t\<rparr>, v) }"

definition fileof :: "nat option \<Rightarrow> srv \<Rightarrow> filerec option" where
  "fileof a s = do { t \<leftarrow> s_tree s; a \<leftarrow> a; tr_files t a }"

text \<open>The operations on the pool of fids, with the calls that \<open>closefid\<close> makes.\<close>

fun fidevent :: "fevent \<Rightarrow> srv \<Rightarrow> srv option" where
  "fidevent (Closedirfile d) s = map_option fst (ontree (\<lambda>t. map_option (\<lambda>t. (t, ())) (closedirfile d t)) s)"
| "fidevent (Destroy a) s = Some (logev (Destroyfid a) s)"
| "fidevent (Closefile x) s = map_option fst (ontree (\<lambda>t. map_option (\<lambda>t. (t, ())) (closefile x t)) s)"

definition fidevents :: "fidpool \<Rightarrow> srv \<Rightarrow> srv option" where
  "fidevents p s = fold (\<lambda>e s. s \<bind> fidevent e) (fp_log p) (Some (s\<lparr>s_fpool := p\<lparr>fp_log := []\<rparr>\<rparr>))"

definition closefid_s :: "nat option \<Rightarrow> srv \<Rightarrow> srv option" where
  "closefid_s a s = do { a \<leftarrow> a; p \<leftarrow> closefid a ((s_fpool s)\<lparr>fp_log := []\<rparr>); fidevents p s }"

definition removefid_s :: "uint \<Rightarrow> srv \<Rightarrow> nat option \<times> srv" where
  "removefid_s k s = (case removefid k (s_fpool s) of (v, p) \<Rightarrow> (v, s\<lparr>s_fpool := p\<rparr>))"

definition lookupfid_s :: "uint \<Rightarrow> srv \<Rightarrow> (nat option \<times> srv) option" where
  "lookupfid_s k s = do { (v, p) \<leftarrow> lookupfid k (s_fpool s); Some (v, s\<lparr>s_fpool := p\<rparr>) }"

definition allocfid_s :: "nat \<Rightarrow> uint \<Rightarrow> srv \<Rightarrow> (nat option \<times> srv) option" where
  "allocfid_s a k s = do { (v, p) \<leftarrow> allocfid a k ((s_fpool s)\<lparr>fp_log := []\<rparr>); s \<leftarrow> fidevents p s; Some (v, s) }"

section \<open>Answers\<close>

definition setfcallerror :: "bytes option \<Rightarrow> fcall \<Rightarrow> fcall" where
  "setfcallerror e f = f\<lparr>f_ename := e, f_type := Rerror\<rparr>"

definition changemsize :: "uint \<Rightarrow> srv \<Rightarrow> srv" where
  "changemsize msize s = (if s_msize s = msize then s else s\<lparr>s_msize := msize\<rparr>)"

definition rversion :: "nat \<Rightarrow> bytes option \<Rightarrow> srv \<Rightarrow> srv option" where
  "rversion r e s = do {
     q \<leftarrow> s_reqs s r;
     if e \<noteq> None then None else Some (changemsize (f_msize (r_ofcall q)) s) }"

text \<open>The idiom \<^verbatim>\<open>closefid(removefid(pool, f->fid))\<close> on a fid of the request.\<close>

definition dropfid :: "nat option \<Rightarrow> srv \<Rightarrow> srv option" where
  "dropfid a s = do { f \<leftarrow> getfid a s; let (v, s) = removefid_s (fid_fid f) s; closefid_s v s }"

definition rauth :: "nat \<Rightarrow> bytes option \<Rightarrow> srv \<Rightarrow> srv option" where
  "rauth r e s = do {
     q \<leftarrow> s_reqs s r;
     if e \<noteq> None \<and> r_afid q \<noteq> None then dropfid (r_afid q) s else Some s }"

definition rattach :: "nat \<Rightarrow> bytes option \<Rightarrow> srv \<Rightarrow> srv option" where
  "rattach r e s = do {
     q \<leftarrow> s_reqs s r;
     if e \<noteq> None \<and> r_fid q \<noteq> None then dropfid (r_fid q) s else Some s }"

text \<open>The result is true when the answer is put off; \<open>close\<close> is \<open>closereq\<close>.\<close>

definition rflush :: "(nat \<Rightarrow> srv \<Rightarrow> srv option) \<Rightarrow> nat \<Rightarrow> bytes option \<Rightarrow> srv \<Rightarrow> (bool \<times> srv) option" where
  "rflush close r e s = do {
     q \<leftarrow> s_reqs s r;
     if e \<noteq> None then None
     else case r_oldreq q of
         Some o' \<Rightarrow> do {
           oq \<leftarrow> s_reqs s o';
           if \<not> r_responded oq then do {
             s \<leftarrow> updreq o' (\<lambda>q. q\<lparr>r_flush := r_flush q @ [r]\<rparr>) s;
             Some (True, s) }
           else do {
             s \<leftarrow> close o' s;
             s \<leftarrow> updreq r (\<lambda>q. q\<lparr>r_oldreq := None\<rparr>) s;
             Some (False, s) } }
       | None \<Rightarrow> do {
           s \<leftarrow> updreq r (\<lambda>q. q\<lparr>r_oldreq := None\<rparr>) s;
           Some (False, s) } }"

definition rwalk :: "nat \<Rightarrow> bytes option \<Rightarrow> srv \<Rightarrow> srv option" where
  "rwalk r e s = do {
     q \<leftarrow> s_reqs s r;
     let ic = r_ifcall q;
     let oc = r_ofcall q;
     if e \<noteq> None \<or> f_nwqid oc < f_nwname ic then do {
       s \<leftarrow> (if f_fid ic \<noteq> f_newfid ic \<and> r_newfid q \<noteq> None then dropfid (r_newfid q) s else Some s);
       if f_nwqid oc = 0 then
         if e = None \<and> f_nwname ic \<noteq> 0 then updreq r (\<lambda>q. q\<lparr>r_error := Some (err ''file not found'')\<rparr>) s else Some s
       else updreq r (\<lambda>q. q\<lparr>r_error := None\<rparr>) s }
     else if f_nwqid oc = 0 then do {
       f \<leftarrow> getfid (r_fid q) s;
       updfid (r_newfid q) (\<lambda>nf. nf\<lparr>fid_qid := fid_qid f\<rparr>) s }
     else updfid (r_newfid q) (\<lambda>nf. nf\<lparr>fid_qid := wqid_at oc (unat (f_nwqid oc) - 1)\<rparr>) s }"

text \<open>\<open>omode\<close> is a \<^verbatim>\<open>char\<close>, which is signed.\<close>

definition ropen :: "nat \<Rightarrow> bytes option \<Rightarrow> srv \<Rightarrow> srv option" where
  "ropen r e s = do {
     q \<leftarrow> s_reqs s r;
     if e \<noteq> None then Some s
     else updfid (r_fid q) (\<lambda>f. f\<lparr>fid_omode := sint (f_mode (r_ifcall q)), fid_qid := f_qid (r_ofcall q),
            fid_diroffset := (if q_type (f_qid (r_ofcall q)) AND QTDIR \<noteq> 0 then 0 else fid_diroffset f)\<rparr>) s }"

definition rcreate :: "nat \<Rightarrow> bytes option \<Rightarrow> srv \<Rightarrow> srv option" where
  "rcreate r e s = do {
     q \<leftarrow> s_reqs s r;
     if e \<noteq> None then Some s
     else updfid (r_fid q) (\<lambda>f. f\<lparr>fid_omode := sint (f_mode (r_ifcall q)), fid_qid := f_qid (r_ofcall q)\<rparr>) s }"

definition rread :: "nat \<Rightarrow> bytes option \<Rightarrow> srv \<Rightarrow> srv option" where
  "rread r e s = do {
     q \<leftarrow> s_reqs s r;
     if e \<noteq> None then Some s
     else do {
       f \<leftarrow> getfid (r_fid q) s;
       if q_type (fid_qid f) AND QTDIR \<noteq> 0
       then updfid (r_fid q) (\<lambda>f. f\<lparr>fid_diroffset := fid_diroffset f + ucast (f_count (r_ofcall q))\<rparr>) s
       else Some s } }"

definition rwrite :: "nat \<Rightarrow> bytes option \<Rightarrow> srv \<Rightarrow> srv option" where
  "rwrite r e s = do {
     q \<leftarrow> s_reqs s r;
     if e \<noteq> None then Some s
     else do {
       f \<leftarrow> getfid (r_fid q) s;
       case fid_file f of
         None \<Rightarrow> Some s
       | Some x \<Rightarrow> map_option fst (ontree (\<lambda>t. map_option (\<lambda>t. (t, ())) (upd_file x (\<lambda>f. f\<lparr>fi_dir := (fi_dir f)\<lparr>d_qid :=
           (fi_qid f)\<lparr>q_vers := q_vers (fi_qid f) + 1\<rparr>\<rparr>\<rparr>) t)) s) } }"

definition rremove :: "nat \<Rightarrow> bytes option \<Rightarrow> srv \<Rightarrow> srv option" where
  "rremove r e s = do {
     q \<leftarrow> s_reqs s r;
     if e \<noteq> None then Some s
     else do {
       f \<leftarrow> getfid (r_fid q) s;
       case fid_file f of
         None \<Rightarrow> Some s
       | Some x \<Rightarrow> do {
           (s, er) \<leftarrow> ontree (\<lambda>t. map_option (\<lambda>(e, t). (t, e)) (removefile x t)) s;
           s \<leftarrow> (case er of
               None \<Rightarrow> Some s
             | Some m \<Rightarrow> do {
                 xf \<leftarrow> fileof (Some x) s;
                 updreq r (\<lambda>q. q\<lparr>r_error := Some (o_fmt (s_ops s) (Fremove (d_name (fi_dir xf)) m))\<rparr>) s });
           updfid (r_fid q) (\<lambda>f. f\<lparr>fid_file := None\<rparr>) s } } }"

definition rstat :: "nat \<Rightarrow> bytes option \<Rightarrow> srv \<Rightarrow> srv option" where
  "rstat r e s = do {
     q \<leftarrow> s_reqs s r;
     if e \<noteq> None then Some s
     else
       let (k, tmp) = convD2M (r_d q) (replicate 2 0) 2 in
       if k \<noteq> 2 then updreq r (\<lambda>q. q\<lparr>r_error := Some (err ''convD2M(_,_,BIT16SZ) did not return BIT16SZ'')\<rparr>) s
       else
         let n = unat (GBIT16 tmp 0) + 2; (k, stat) = convD2M (r_d q) (replicate n 0) n; nstat = of_nat k :: ushort in
         if nstat \<le> 2
         then updreq r (\<lambda>q. q\<lparr>r_ofcall := (r_ofcall q)\<lparr>f_nstat := nstat, f_stat := stat\<rparr>, r_stat := Freed, r_error := Some (err ''convD2M fails'')\<rparr>) s
         else updreq r (\<lambda>q. q\<lparr>r_ofcall := (r_ofcall q)\<lparr>f_nstat := nstat, f_stat := stat\<rparr>, r_stat := Alloc\<rparr>) s }"

text \<open>The switch of \<open>respond\<close>.\<close>

definition answer :: "(nat \<Rightarrow> srv \<Rightarrow> srv option) \<Rightarrow> nat \<Rightarrow> bytes option \<Rightarrow> uchar \<Rightarrow> srv \<Rightarrow> (bool \<times> srv) option" where
  "answer close r e t s =
     (let go = map_option (\<lambda>s. (False, s)) in
      if t = Tflush then rflush close r e s
      else if t = Tversion then go (rversion r e s)
      else if t = Tauth then go (rauth r e s)
      else if t = Tattach then go (rattach r e s)
      else if t = Twalk then go (rwalk r e s)
      else if t = Topen then go (ropen r e s)
      else if t = Tcreate then go (rcreate r e s)
      else if t = Tread then go (rread r e s)
      else if t = Twrite then go (rwrite r e s)
      else if t = Tclunk then Some (False, s)
      else if t = Tremove then go (rremove r e s)
      else if t = Tstat then go (rstat r e s)
      else if t = Twstat then Some (False, s)
      else None)"

section \<open>Requests\<close>

definition req_new :: "uint \<Rightarrow> req" where
  "req_new tag = \<lparr>r_tag = tag, r_ifcall = fcall0, r_ofcall = fcall0, r_d = fi_dir file_zero, r_oldreq = None, r_fid = None, r_afid = None,
     r_newfid = None, r_ref = 0, r_pool = True, r_responded = False, r_error = None, r_flush = [], r_stat = Nostat\<rparr>"

definition increqref :: "nat \<Rightarrow> srv \<Rightarrow> srv option" where
  "increqref a = updreq a (\<lambda>q. q\<lparr>r_ref := r_ref q + 1\<rparr>)"

definition lookupreq :: "uint \<Rightarrow> srv \<Rightarrow> (nat option \<times> srv) option" where
  "lookupreq tag s = (case lookupkey (\<lambda>a s. s \<bind> increqref a) (s_rmap s) tag (Some s) of
       (v, None) \<Rightarrow> None
     | (v, Some s) \<Rightarrow> Some (v, s))"

definition removereq :: "uint \<Rightarrow> srv \<Rightarrow> nat option \<times> srv" where
  "removereq tag s = (let (v, m) = deletekey (s_rmap s) tag in (v, s\<lparr>s_rmap := m\<rparr>))"

text \<open>What \<open>closereq\<close> does for a pointer that may be nil.\<close>

definition unlessnil :: "('a \<Rightarrow> srv \<Rightarrow> srv option) \<Rightarrow> 'a option \<Rightarrow> srv \<Rightarrow> srv option" where
  "unlessnil g v s = (case v of None \<Rightarrow> Some s | Some x \<Rightarrow> g x s)"

definition closefids :: "req \<Rightarrow> srv \<Rightarrow> srv option" where
  "closefids q s = do {
     s \<leftarrow> unlessnil (\<lambda>a. closefid_s (Some a)) (r_fid q) s;
     s \<leftarrow> unlessnil (\<lambda>a. closefid_s (Some a)) (r_newfid q) s;
     unlessnil (\<lambda>a. closefid_s (Some a)) (r_afid q) s }"

text \<open>
  \<open>respond\<close> and \<open>closereq\<close> call each other, a level deeper for every flush that waits for a flush; the first
  argument bounds the depth.
\<close>

definition encode_reply :: "nat \<Rightarrow> srv \<Rightarrow> (bytes \<times> srv) option" where
  "encode_reply r s = do {
     q \<leftarrow> s_reqs s r;
     let oc = (r_ofcall q)\<lparr>f_tag := f_tag (r_ifcall q), f_type := f_type (r_ifcall q) + 1\<rparr>;
     let oc = (if r_error q \<noteq> None then setfcallerror (r_error q) oc else oc);
     s \<leftarrow> updreq r (\<lambda>q. q\<lparr>r_ofcall := oc\<rparr>) s;
     let (n, wbuf) = convS2M oc (replicate (unat (s_msize s)) 0) (s_msize s);
     if sint n \<le> 0 then None
     else if sint n \<le> 2 then None
     else Some (take (unat n) wbuf, s) }"

fun respond :: "nat \<Rightarrow> nat \<Rightarrow> bytes option \<Rightarrow> srv \<Rightarrow> srv option"
  and closereq :: "nat \<Rightarrow> nat \<Rightarrow> srv \<Rightarrow> srv option" where
  "respond 0 r e s = None"
| "closereq 0 r s = None"
| "respond (Suc n) r e s = do {
     q \<leftarrow> s_reqs s r;
     if r_responded q then None
     else do {
       s \<leftarrow> updreq r (\<lambda>q. q\<lparr>r_error := e\<rparr>) s;
       (off, s) \<leftarrow> answer (closereq n) r e (f_type (r_ifcall q)) s;
       if off then Some s
       else do {
         (msg, s) \<leftarrow> encode_reply r s;
         s \<leftarrow> (if r_pool q then let (v, s) = removereq (ucast (f_tag (r_ifcall q))) s in unlessnil (closereq n) v s else Some s);
         let s = logev (Sent (ucast (f_tag (r_ifcall q)))) (s\<lparr>s_out := s_out s @ msg\<rparr>);
         s \<leftarrow> updreq r (\<lambda>q. q\<lparr>r_responded := True\<rparr>) s;
         q \<leftarrow> s_reqs s r;
         s \<leftarrow> fold (\<lambda>f s. s \<bind> respond n f None) (r_flush q) (Some s);
         s \<leftarrow> updreq r (\<lambda>q. q\<lparr>r_flush := []\<rparr>) s;
         if r_pool q then closereq n r s else Some (s\<lparr>s_reqs := (s_reqs s)(r := None)\<rparr>) } } }"
| "closereq (Suc n) r s = do {
     s \<leftarrow> updreq r (\<lambda>q. q\<lparr>r_ref := r_ref q - 1\<rparr>) s;
     q \<leftarrow> s_reqs s r;
     if r_ref q \<noteq> 0 then Some s
     else do {
       s \<leftarrow> closefids q s;
       s \<leftarrow> unlessnil (closereq n) (r_oldreq q) s;
       s \<leftarrow> fold (\<lambda>f s. s \<bind> respond n f None) (r_flush q) (Some s);
       if f_type (r_ifcall q) = Tstat \<and> r_stat q = Freed then None
       else
         let s = (if o_destroyreq (s_ops s) then logev (Destroyreq r) s else s) in
         Some (s\<lparr>s_reqs := (s_reqs s)(r := None)\<rparr>) } }"

definition allocreq :: "nat \<Rightarrow> nat \<Rightarrow> uint \<Rightarrow> srv \<Rightarrow> (nat option \<times> srv) option" where
  "allocreq n a tag s = do {
     let s = s\<lparr>s_reqs := (s_reqs s)(a := Some (req_new tag))\<rparr>;
     s \<leftarrow> increqref a s;
     s \<leftarrow> increqref a s;
     let (ok, m) = caninsertkey (s_rmap s) tag a;
     let s = s\<lparr>s_rmap := m\<rparr>;
     if \<not> ok then do {
       s \<leftarrow> closereq n a s;
       s \<leftarrow> closereq n a s;
       Some (None, s) }
     else Some (Some a, s) }"

end
