(* ===== verification/Srv.thy ===== *)
theory Srv
  imports Srv_Reply
begin

text \<open>
  The requests of a 9P server (\<^verbatim>\<open>lib_networking/lib9p/srv.c\<close>): receiving one (\<^verbatim>\<open>getreq\<close>), the functions \<^verbatim>\<open>sversion\<close> to
  \<^verbatim>\<open>swstat\<close>, and the switch of \<^verbatim>\<open>srv\<close>. A function ends in \<open>respond\<close>, or hands the request to a callback
  of the application, an event \<open>Pass\<close>, and the application calls \<open>respond\<close> later. What \<^verbatim>\<open>emalloc9p\<close> returns is
  an argument: \<open>na\<close> for a fid or an open directory. \<open>n\<close> bounds the depth of \<open>respond\<close>.
\<close>

abbreviation (input) NOFID :: uint where "NOFID \<equiv> 0xFFFFFFFF"
abbreviation (input) IOHDRSZ :: uint where "IOHDRSZ \<equiv> 24"
abbreviation (input) OREAD :: int where "OREAD \<equiv> 0"
abbreviation (input) OWRITE :: int where "OWRITE \<equiv> 1"
abbreviation (input) ORDWR :: int where "ORDWR \<equiv> 2"
abbreviation (input) OEXEC :: int where "OEXEC \<equiv> 3"
abbreviation (input) OTRUNC :: uchar where "OTRUNC \<equiv> 16"
abbreviation (input) ORCLOSE :: uchar where "ORCLOSE \<equiv> 64"

definition Eunknownfid :: bytes where "Eunknownfid = err ''unknown fid''"
definition Edupfid :: bytes where "Edupfid = err ''duplicate fid''"
definition Ebotch :: bytes where "Ebotch = err ''9P protocol botch''"
definition Eperm :: bytes where "Eperm = err ''permission denied''"

text \<open>Handing a request to the application.\<close>

definition pass :: "nat \<Rightarrow> srv \<Rightarrow> srv option" where
  "pass r s = Some (logev (Pass r) s)"

section \<open>Walking\<close>

text \<open>The loop of \<open>filewalk\<close>; \<open>f\<close> is the file reached, and the result has the number of steps.\<close>

fun filewalk_loop :: "bytes option list \<Rightarrow> nat \<Rightarrow> nat \<Rightarrow> qid list \<Rightarrow> tree \<Rightarrow> (tree \<times> nat \<times> nat option \<times> qid list) option" where
  "filewalk_loop [] i f ws t = Some (t, i, Some f, ws)"
| "filewalk_loop (name # names) i f ws t = do {
     name \<leftarrow> name;
     (v, t) \<leftarrow> walkfile f name t;
     case v of
       None \<Rightarrow> Some (t, i, None, ws)
     | Some f \<Rightarrow> do {
         x \<leftarrow> tr_files t f;
         filewalk_loop names (Suc i) f (ws[i := fi_qid x]) t } }"

definition filewalk :: "nat \<Rightarrow> nat \<Rightarrow> srv \<Rightarrow> srv option" where
  "filewalk n r s = do {
     q \<leftarrow> s_reqs s r;
     fid \<leftarrow> getfid (r_fid q) s;
     f \<leftarrow> fid_file fid;
     let names = map (wname_at (r_ifcall q)) [0..<unat (f_nwname (r_ifcall q))];
     (s, i, v, ws) \<leftarrow> ontree (\<lambda>t. do { t \<leftarrow> incfile f t; filewalk_loop names 0 f (f_wqid (r_ofcall q)) t }) s;
     s \<leftarrow> updreq r (\<lambda>q. q\<lparr>r_ofcall := (r_ofcall q)\<lparr>f_wqid := ws, f_nwqid := of_nat i\<rparr>\<rparr>) s;
     s \<leftarrow> (case v of
         None \<Rightarrow> Some s
       | Some f \<Rightarrow> do {
           x \<leftarrow> fileof (Some f) s;
           updfid (r_newfid q) (\<lambda>nf. nf\<lparr>fid_file := Some f, fid_qid := fi_qid x\<rparr>) s });
     respond n r None s }"

text \<open>\<open>walkandclone\<close> with \<open>oldwalk1\<close> and \<open>oldclone\<close>, on the callbacks of the server.\<close>

definition oldwalk1 :: "(sevent list \<Rightarrow> fid \<Rightarrow> bytes \<Rightarrow> bytes option \<times> qid) \<Rightarrow> nat option \<Rightarrow> bytes \<Rightarrow> srv \<Rightarrow> (bytes option \<times> srv) option" where
  "oldwalk1 walk1 a name s = do {
     f \<leftarrow> getfid a s;
     let (e, qid) = walk1 (s_log s) f name;
     if e \<noteq> None then Some (e, s)
     else do { s \<leftarrow> updfid a (\<lambda>f. f\<lparr>fid_qid := qid\<rparr>) s; Some (None, s) } }"

fun walk1_loop :: "(nat option \<Rightarrow> bytes \<Rightarrow> srv \<Rightarrow> (bytes option \<times> srv) option) \<Rightarrow> nat option \<Rightarrow> bytes option list \<Rightarrow> nat \<Rightarrow> qid list \<Rightarrow> srv
    \<Rightarrow> (srv \<times> nat \<times> bytes option \<times> qid list) option" where
  "walk1_loop walk1 a [] i ws s = Some (s, i, None, ws)"
| "walk1_loop walk1 a (name # names) i ws s = do {
     name \<leftarrow> name;
     (e, s) \<leftarrow> walk1 a name s;
     if e \<noteq> None then Some (s, i, e, ws)
     else do { f \<leftarrow> getfid a s; walk1_loop walk1 a names (Suc i) (ws[i := fid_qid f]) s } }"

definition walkandclone :: "(nat option \<Rightarrow> bytes \<Rightarrow> srv \<Rightarrow> (bytes option \<times> srv) option) \<Rightarrow> (sevent list \<Rightarrow> fid \<Rightarrow> fid \<Rightarrow> bytes option) option
    \<Rightarrow> nat \<Rightarrow> nat \<Rightarrow> srv \<Rightarrow> srv option" where
  "walkandclone walk1 clone n r s = do {
     q \<leftarrow> s_reqs s r;
     if r_fid q = r_newfid q \<and> 1 < f_nwname (r_ifcall q)
     then respond n r (Some (err ''lib9p: unused documented feature not implemented'')) s
     else do {
       fid \<leftarrow> getfid (r_fid q) s;
       (e, s) \<leftarrow> (if r_fid q \<noteq> r_newfid q then do {
           s \<leftarrow> updfid (r_newfid q) (\<lambda>nf. nf\<lparr>fid_qid := fid_qid fid\<rparr>) s;
           newfid \<leftarrow> getfid (r_newfid q) s;
           Some (case clone of None \<Rightarrow> None | Some c \<Rightarrow> c (s_log s) fid newfid, s) }
         else Some (None, s));
       if e \<noteq> None then respond n r e s
       else do {
         let names = map (wname_at (r_ifcall q)) [0..<unat (f_nwname (r_ifcall q))];
         (s, i, e, ws) \<leftarrow> walk1_loop walk1 (r_newfid q) names 0 (f_wqid (r_ofcall q)) s;
         s \<leftarrow> updreq r (\<lambda>q. q\<lparr>r_ofcall := (r_ofcall q)\<lparr>f_wqid := ws, f_nwqid := of_nat i\<rparr>\<rparr>) s;
         respond n r (if e \<noteq> None \<and> i = 0 then e else None) s } } }"

section \<open>The requests\<close>

definition sversion :: "nat \<Rightarrow> nat \<Rightarrow> srv \<Rightarrow> srv option" where
  "sversion n r s = do {
     q \<leftarrow> s_reqs s r;
     v \<leftarrow> f_version (r_ifcall q);
     if take 2 v \<noteq> [0x39, 0x50] then do {
       s \<leftarrow> updreq r (\<lambda>q. q\<lparr>r_ofcall := (r_ofcall q)\<lparr>f_version := Some (err ''unknown'')\<rparr>\<rparr>) s;
       respond n r None s }
     else do {
       s \<leftarrow> updreq r (\<lambda>q. q\<lparr>r_ofcall := (r_ofcall q)\<lparr>f_version := Some (err ''9P2000''), f_msize := f_msize (r_ifcall q)\<rparr>\<rparr>) s;
       respond n r None s } }"

definition sauth :: "nat \<Rightarrow> nat \<Rightarrow> nat \<Rightarrow> srv \<Rightarrow> srv option" where
  "sauth na n r s = do {
     q \<leftarrow> s_reqs s r;
     (v, s) \<leftarrow> allocfid_s na (f_afid (r_ifcall q)) s;
     s \<leftarrow> updreq r (\<lambda>q. q\<lparr>r_afid := v\<rparr>) s;
     if v = None then respond n r (Some Edupfid) s
     else if o_auth (s_ops s) then pass r s
     else respond n r (Some (o_fmt (s_ops s) Fauth)) s }"

definition sattach :: "nat \<Rightarrow> nat \<Rightarrow> nat \<Rightarrow> srv \<Rightarrow> srv option" where
  "sattach na n r s = do {
     q \<leftarrow> s_reqs s r;
     (v, s) \<leftarrow> allocfid_s na (f_fid (r_ifcall q)) s;
     s \<leftarrow> updreq r (\<lambda>q. q\<lparr>r_fid := v\<rparr>) s;
     if v = None then respond n r (Some Edupfid) s
     else do {
       s \<leftarrow> updreq r (\<lambda>q. q\<lparr>r_afid := None\<rparr>) s;
       (w, s) \<leftarrow> (if f_afid (r_ifcall q) \<noteq> NOFID then lookupfid_s (f_afid (r_ifcall q)) s else Some (None, s));
       s \<leftarrow> updreq r (\<lambda>q. q\<lparr>r_afid := w\<rparr>) s;
       if f_afid (r_ifcall q) \<noteq> NOFID \<and> w = None then respond n r (Some Eunknownfid) s
       else do {
         u \<leftarrow> f_uname (r_ifcall q);
         s \<leftarrow> updfid v (\<lambda>f. f\<lparr>fid_uid := Some u\<rparr>) s;
         s \<leftarrow> (case s_tree s of
             None \<Rightarrow> Some s
           | Some t \<Rightarrow> do {
               s \<leftarrow> updfid v (\<lambda>f. f\<lparr>fid_file := Some (tr_root t)\<rparr>) s;
               (s, _) \<leftarrow> ontree (\<lambda>t. map_option (\<lambda>t. (t, ())) (incfile (tr_root t) t)) s;
               x \<leftarrow> fileof (Some (tr_root t)) s;
               s \<leftarrow> updreq r (\<lambda>q. q\<lparr>r_ofcall := (r_ofcall q)\<lparr>f_qid := fi_qid x\<rparr>\<rparr>) s;
               updfid v (\<lambda>f. f\<lparr>fid_qid := fi_qid x\<rparr>) s });
         if o_attach (s_ops s) then pass r s else respond n r None s } } }"

definition sflush :: "nat \<Rightarrow> nat \<Rightarrow> srv \<Rightarrow> srv option" where
  "sflush n r s = do {
     q \<leftarrow> s_reqs s r;
     (v, s) \<leftarrow> lookupreq (ucast (f_oldtag (r_ifcall q))) s;
     s \<leftarrow> updreq r (\<lambda>q. q\<lparr>r_oldreq := v\<rparr>) s;
     if v = None \<or> v = Some r then respond n r None s
     else if o_flush (s_ops s) then pass r s
     else respond n r None s }"

definition swalk :: "nat \<Rightarrow> nat \<Rightarrow> nat \<Rightarrow> srv \<Rightarrow> srv option" where
  "swalk na n r s = do {
     q \<leftarrow> s_reqs s r;
     let ic = r_ifcall q;
     (v, s) \<leftarrow> lookupfid_s (f_fid ic) s;
     s \<leftarrow> updreq r (\<lambda>q. q\<lparr>r_fid := v\<rparr>) s;
     if v = None then respond n r (Some Eunknownfid) s
     else do {
       f \<leftarrow> getfid v s;
       if fid_omode f \<noteq> -1 then respond n r (Some (err ''cannot clone open fid'')) s
       else if f_nwname ic \<noteq> 0 \<and> q_type (fid_qid f) AND QTDIR = 0 then respond n r (Some (err ''walk in non-directory'')) s
       else do {
         (ok, s) \<leftarrow> (if f_fid ic \<noteq> f_newfid ic then do {
             (w, s) \<leftarrow> allocfid_s na (f_newfid ic) s;
             s \<leftarrow> updreq r (\<lambda>q. q\<lparr>r_newfid := w\<rparr>) s;
             if w = None then Some (False, s)
             else do {
               u \<leftarrow> fid_uid f;
               s \<leftarrow> updfid w (\<lambda>nf. nf\<lparr>fid_uid := Some u\<rparr>) s;
               Some (True, s) } }
           else do {
             s \<leftarrow> updfid v (\<lambda>f. f\<lparr>fid_ref := fid_ref f + 1\<rparr>) s;
             s \<leftarrow> updreq r (\<lambda>q. q\<lparr>r_newfid := v\<rparr>) s;
             Some (True, s) });
         if \<not> ok then respond n r (Some Edupfid) s
         else if fid_file f \<noteq> None then filewalk n r s
         else case o_walk1 (s_ops s) of
             Some w \<Rightarrow> walkandclone (oldwalk1 w) (o_clone (s_ops s)) n r s
           | None \<Rightarrow> if o_walk (s_ops s) then pass r s else None } } }"

text \<open>The access that an open mode asks for.\<close>

definition openperm :: "uchar \<Rightarrow> uint" where
  "openperm mode =
     (let m = mode AND 3; p = (if m = 0 then AREAD else if m = 1 then AWRITE else if m = 2 then AREAD OR AWRITE else AEXEC)
      in if mode AND OTRUNC \<noteq> 0 then p OR AWRITE else p)"

definition sopen :: "nat \<Rightarrow> nat \<Rightarrow> nat \<Rightarrow> srv \<Rightarrow> srv option" where
  "sopen na n r s = do {
     q \<leftarrow> s_reqs s r;
     let ic = r_ifcall q;
     (v, s) \<leftarrow> lookupfid_s (f_fid ic) s;
     s \<leftarrow> updreq r (\<lambda>q. q\<lparr>r_fid := v\<rparr>) s;
     if v = None then respond n r (Some Eunknownfid) s
     else do {
       f \<leftarrow> getfid v s;
       let isdir = (q_type (fid_qid f) AND QTDIR \<noteq> 0);
       if fid_omode f \<noteq> -1 then respond n r (Some Ebotch) s
       else if isdir \<and> f_mode ic AND NOT ORCLOSE \<noteq> 0 then respond n r (Some (err ''is a directory'')) s
       else do {
         s \<leftarrow> updreq r (\<lambda>q. q\<lparr>r_ofcall := (r_ofcall q)\<lparr>f_qid := fid_qid f\<rparr>\<rparr>) s;
         let p = openperm (f_mode ic);
         if isdir \<and> p \<noteq> AREAD then respond n r (Some Eperm) s
         else do {
           (er, s) \<leftarrow> (case fid_file f of
               None \<Rightarrow> Some (None, s)
             | Some x \<Rightarrow> do {
                 xf \<leftarrow> fileof (Some x) s;
                 uid \<leftarrow> fid_uid f;
                 if \<not> hasperm xf uid p then Some (Some Eperm, s)
                 else do {
                   pf \<leftarrow> (if f_mode ic AND ORCLOSE \<noteq> 0 then fileof (fi_parent xf) s else Some xf);
                   if f_mode ic AND ORCLOSE \<noteq> 0 \<and> \<not> hasperm pf uid AWRITE then Some (Some Eperm, s)
                   else do {
                     s \<leftarrow> updreq r (\<lambda>q. q\<lparr>r_ofcall := (r_ofcall q)\<lparr>f_qid := fi_qid xf\<rparr>\<rparr>) s;
                     if q_type (fi_qid xf) AND QTDIR \<noteq> 0 then do {
                       (s, rd) \<leftarrow> ontree (\<lambda>t. map_option (\<lambda>(d, t). (t, d)) (opendirfile na x t)) s;
                       s \<leftarrow> updfid v (\<lambda>f. f\<lparr>fid_rdir := rd\<rparr>) s;
                       Some (if rd = None then Some (err ''opendirfile failed'') else None, s) }
                     else Some (None, s) } } });
           if er \<noteq> None then respond n r er s
           else if o_open (s_ops s) then pass r s
           else respond n r None s } } } }"

definition screate :: "nat \<Rightarrow> nat \<Rightarrow> srv \<Rightarrow> srv option" where
  "screate n r s = do {
     q \<leftarrow> s_reqs s r;
     (v, s) \<leftarrow> lookupfid_s (f_fid (r_ifcall q)) s;
     s \<leftarrow> updreq r (\<lambda>q. q\<lparr>r_fid := v\<rparr>) s;
     if v = None then respond n r (Some Eunknownfid) s
     else do {
       f \<leftarrow> getfid v s;
       if fid_omode f \<noteq> -1 then respond n r (Some Ebotch) s
       else if q_type (fid_qid f) AND QTDIR = 0 then respond n r (Some (err ''create in non-directory'')) s
       else do {
         perm \<leftarrow> (case fid_file f of
             None \<Rightarrow> Some True
           | Some x \<Rightarrow> do { xf \<leftarrow> fileof (Some x) s; uid \<leftarrow> fid_uid f; Some (hasperm xf uid AWRITE) });
         if \<not> perm then respond n r (Some Eperm) s
         else if o_create (s_ops s) then pass r s
         else respond n r (Some (err ''create prohibited'')) s } } }"

definition sread :: "nat \<Rightarrow> nat \<Rightarrow> srv \<Rightarrow> srv option" where
  "sread n r s = do {
     q \<leftarrow> s_reqs s r;
     let ic = r_ifcall q;
     (v, s) \<leftarrow> lookupfid_s (f_fid ic) s;
     s \<leftarrow> updreq r (\<lambda>q. q\<lparr>r_fid := v\<rparr>) s;
     if v = None then respond n r (Some Eunknownfid) s
     else do {
       f \<leftarrow> getfid v s;
       let isdir = (q_type (fid_qid f) AND QTDIR \<noteq> 0);
       if sint (f_count ic) < 0 then respond n r (Some Ebotch) s
       else if sint (f_offset ic) < 0 \<or> isdir \<and> f_offset ic \<noteq> 0 \<and> f_offset ic \<noteq> fid_diroffset f
       then respond n r (Some (err ''bad offset'')) s
       else do {
         let count = (if s_msize s - IOHDRSZ < f_count ic then s_msize s - IOHDRSZ else f_count ic);
         s \<leftarrow> updreq r (\<lambda>q. q\<lparr>r_ifcall := (r_ifcall q)\<lparr>f_count := count\<rparr>,
                r_ofcall := (r_ofcall q)\<lparr>f_data := replicate (unat count) 0\<rparr>\<rparr>) s;
         let m = fid_omode f AND 3;
         if m \<noteq> OREAD \<and> m \<noteq> ORDWR \<and> m \<noteq> OEXEC then respond n r (Some Ebotch) s
         else if isdir \<and> fid_file f \<noteq> None then do {
           rd \<leftarrow> fid_rdir f;
           (s, m, buf) \<leftarrow> ontree (\<lambda>t. map_option (\<lambda>(m, buf, t). (t, m, buf)) (readdirfile rd (replicate (unat count) 0) (unat count) t)) s;
           s \<leftarrow> updreq r (\<lambda>q. q\<lparr>r_ofcall := (r_ofcall q)\<lparr>f_data := buf, f_count := of_nat m\<rparr>\<rparr>) s;
           respond n r None s }
         else if o_read (s_ops s) then pass r s
         else respond n r (Some (err ''no srv->read'')) s } } }"

definition swrite :: "nat \<Rightarrow> nat \<Rightarrow> srv \<Rightarrow> srv option" where
  "swrite n r s = do {
     q \<leftarrow> s_reqs s r;
     let ic = r_ifcall q;
     (v, s) \<leftarrow> lookupfid_s (f_fid ic) s;
     s \<leftarrow> updreq r (\<lambda>q. q\<lparr>r_fid := v\<rparr>) s;
     if v = None then respond n r (Some Eunknownfid) s
     else do {
       f \<leftarrow> getfid v s;
       if sint (f_count ic) < 0 then respond n r (Some Ebotch) s
       else if sint (f_offset ic) < 0 then respond n r (Some Ebotch) s
       else do {
         let count = (if s_msize s - IOHDRSZ < f_count ic then s_msize s - IOHDRSZ else f_count ic);
         s \<leftarrow> updreq r (\<lambda>q. q\<lparr>r_ifcall := (r_ifcall q)\<lparr>f_count := count\<rparr>\<rparr>) s;
         let m = fid_omode f AND 3;
         if m \<noteq> OWRITE \<and> m \<noteq> ORDWR then respond n r (Some (o_fmt (s_ops s) (Fwrite (fid_omode f)))) s
         else if o_write (s_ops s) then pass r s
         else respond n r (Some (err ''no srv->write'')) s } } }"

definition sclunk :: "nat \<Rightarrow> nat \<Rightarrow> srv \<Rightarrow> srv option" where
  "sclunk n r s = do {
     q \<leftarrow> s_reqs s r;
     let (v, s) = removefid_s (f_fid (r_ifcall q)) s;
     s \<leftarrow> updreq r (\<lambda>q. q\<lparr>r_fid := v\<rparr>) s;
     respond n r (if v = None then Some Eunknownfid else None) s }"

definition sremove :: "nat \<Rightarrow> nat \<Rightarrow> srv \<Rightarrow> srv option" where
  "sremove n r s = do {
     q \<leftarrow> s_reqs s r;
     let (v, s) = removefid_s (f_fid (r_ifcall q)) s;
     s \<leftarrow> updreq r (\<lambda>q. q\<lparr>r_fid := v\<rparr>) s;
     if v = None then respond n r (Some Eunknownfid) s
     else do {
       f \<leftarrow> getfid v s;
       perm \<leftarrow> (case fid_file f of
           None \<Rightarrow> Some True
         | Some x \<Rightarrow> do { xf \<leftarrow> fileof (Some x) s; pf \<leftarrow> fileof (fi_parent xf) s; uid \<leftarrow> fid_uid f; Some (hasperm pf uid AWRITE) });
       if \<not> perm then respond n r (Some Eperm) s
       else if o_remove (s_ops s) then pass r s
       else respond n r (if fid_file f \<noteq> None then None else Some (err ''remove prohibited'')) s } }"

definition sstat :: "nat \<Rightarrow> nat \<Rightarrow> srv \<Rightarrow> srv option" where
  "sstat n r s = do {
     q \<leftarrow> s_reqs s r;
     (v, s) \<leftarrow> lookupfid_s (f_fid (r_ifcall q)) s;
     s \<leftarrow> updreq r (\<lambda>q. q\<lparr>r_fid := v\<rparr>) s;
     if v = None then respond n r (Some Eunknownfid) s
     else do {
       f \<leftarrow> getfid v s;
       s \<leftarrow> (case fid_file f of
           None \<Rightarrow> Some s
         | Some x \<Rightarrow> do { xf \<leftarrow> fileof (Some x) s; updreq r (\<lambda>q. q\<lparr>r_d := fi_dir xf\<rparr>) s });
       if o_stat (s_ops s) then pass r s
       else if fid_file f \<noteq> None then respond n r None s
       else respond n r (Some (err ''stat prohibited'')) s } }"

text \<open>
  The changes that \<open>swstat\<close> refuses, in its order. \<^verbatim>\<open>convM2D\<close> stores its strings at the start of the very buffer it reads,
  where it never overtakes the reading, so they are the same as in a buffer of their own.
\<close>

definition wstat_error :: "dir \<Rightarrow> qid \<Rightarrow> bytes option" where
  "wstat_error d fq =
     (if d_type d \<noteq> 0xFFFF then Some (err ''wstat -- attempt to change type'')
      else if d_dev d \<noteq> 0xFFFFFFFF then Some (err ''wstat -- attempt to change dev'')
      else if q_type (d_qid d) \<noteq> 0xFF \<or> q_vers (d_qid d) \<noteq> 0xFFFFFFFF \<or> q_path (d_qid d) \<noteq> 0xFFFFFFFFFFFFFFFF
      then Some (err ''wstat -- attempt to change qid'')
      else if (case d_muid d of None \<Rightarrow> False | Some m \<Rightarrow> m \<noteq> []) then Some (err ''wstat -- attempt to change muid'')
      else if d_mode d \<noteq> 0xFFFFFFFF \<and> drop_bit 24 (d_mode d AND DMDIR) \<noteq> ucast (q_type fq AND QTDIR)
      then Some (err ''wstat -- attempt to change DMDIR bit'')
      else None)"

definition swstat :: "nat \<Rightarrow> nat \<Rightarrow> srv \<Rightarrow> srv option" where
  "swstat n r s = do {
     q \<leftarrow> s_reqs s r;
     let ic = r_ifcall q;
     (v, s) \<leftarrow> lookupfid_s (f_fid ic) s;
     s \<leftarrow> updreq r (\<lambda>q. q\<lparr>r_fid := v\<rparr>) s;
     if v = None then respond n r (Some Eunknownfid) s
     else do {
       f \<leftarrow> getfid v s;
       if \<not> o_wstat (s_ops s) then respond n r (Some (err ''wstat prohibited'')) s
       else
         let (k, d) = (case convM2D (f_stat ic) 0 (unat (f_nstat ic)) (r_d q) (Some []) of
             None \<Rightarrow> (0, r_d q) | Some (k, d, _) \<Rightarrow> (k, d)) in
         if k \<noteq> unat (f_nstat ic) then respond n r (Some (err ''bad directory in wstat'')) s
         else do {
           s \<leftarrow> updreq r (\<lambda>q. q\<lparr>r_d := d\<rparr>) s;
           if wstat_error d (fid_qid f) \<noteq> None then respond n r (wstat_error d (fid_qid f)) s
           else pass r s } } }"

section \<open>The loop\<close>

definition dispatch :: "nat \<Rightarrow> nat \<Rightarrow> nat \<Rightarrow> uchar \<Rightarrow> srv \<Rightarrow> srv option" where
  "dispatch na n r t s =
     (if t = Tversion then sversion n r s
      else if t = Tauth then sauth na n r s
      else if t = Tattach then sattach na n r s
      else if t = Tflush then sflush n r s
      else if t = Twalk then swalk na n r s
      else if t = Topen then sopen na n r s
      else if t = Tcreate then screate n r s
      else if t = Tread then sread n r s
      else if t = Twrite then swrite n r s
      else if t = Tclunk then sclunk n r s
      else if t = Tremove then sremove n r s
      else if t = Tstat then sstat n r s
      else if t = Twstat then swstat n r s
      else respond n r (Some (err ''unknown message'')) s)"

text \<open>
  A message \<open>f\<close> that \<open>getreq\<close> has read and decoded. Its request is at \<open>a\<close>; for a tag in use, a request outside of
  the pool is made up at \<open>fake\<close>.
\<close>

definition serve :: "nat \<Rightarrow> nat \<Rightarrow> nat \<Rightarrow> nat \<Rightarrow> fcall \<Rightarrow> srv \<Rightarrow> srv option" where
  "serve a fake na n f s = do {
     (v, s) \<leftarrow> allocreq n a (ucast (f_tag f)) (logev (Recv (ucast (f_tag f))) s);
     case v of
       None \<Rightarrow>
         respond n fake (Some (err ''duplicate tag''))
           (s\<lparr>s_reqs := (s_reqs s)(fake := Some ((req_new (ucast (f_tag f)))\<lparr>r_ref := 1, r_ifcall := f,
                r_error := Some (err ''duplicate tag''), r_pool := False\<rparr>))\<rparr>)
     | Some r \<Rightarrow> do {
         s \<leftarrow> updreq r (\<lambda>q. q\<lparr>r_ifcall := f\<rparr>) s;
         dispatch na n r (f_type f) s } }"

text \<open>The start of \<open>srv\<close>, on a new \<^verbatim>\<open>Srv\<close>, and its end when \<open>getreq\<close> fails.\<close>

definition srv_start :: "srvops \<Rightarrow> bool \<Rightarrow> tree option \<Rightarrow> uint \<Rightarrow> srv" where
  "srv_start ops destroyfid tree msize = changemsize (if msize = 0 then 8192 + IOHDRSZ else msize)
     \<lparr>s_ops = ops, s_tree = tree, s_fpool = allocfidpool destroyfid, s_rmap = allocmap, s_reqs = (\<lambda>_. None),
      s_msize = msize, s_out = [], s_log = []\<rparr>"

definition srv_end :: "srv \<Rightarrow> srv" where
  "srv_end s =
     (let p = freefidpool ((s_fpool s)\<lparr>fp_log := []\<rparr>);
          s = s\<lparr>s_msize := 0, s_log := s_log s @ [Destroyfid a. Destroy a \<leftarrow> fp_log p]\<rparr>
      in freemap (s_rmap s) (\<lambda>a s. if o_destroyreq (s_ops s) then logev (Destroyreq a) s else s) s)"

end
