(* ===== verification/Srv_Inv.thy ===== *)
theory Srv_Inv
  imports Srv
begin

text \<open>
  The invariant of a 9P server: every fid and every request is counted as often as it is referenced, the tags of
  the requests that are being served are in the table, each under its own tag, and every message received
  has been answered once, or its tag is in the table and it will be.
\<close>

section \<open>Results of partial operations\<close>

text \<open>\<open>Q\<close> holds of the result, if there is one.\<close>

definition post :: "('a \<Rightarrow> bool) \<Rightarrow> 'a option \<Rightarrow> bool" where
  "post Q x \<longleftrightarrow> (\<forall>v. x = Some v \<longrightarrow> Q v)"

named_theorems wp \<open>rules for post\<close>

lemma post_Some [wp]: "Q v \<Longrightarrow> post Q (Some v)"
  by (simp add: post_def)

lemma post_None [wp]: "post Q None"
  by (simp add: post_def)

lemma post_bind [wp]: "post (\<lambda>v. post Q (f v)) x \<Longrightarrow> post Q (x \<bind> f)"
  by (auto simp: post_def bind_eq_Some_conv)

lemma post_if [wp]: "(b \<Longrightarrow> post Q x) \<Longrightarrow> (\<not> b \<Longrightarrow> post Q y) \<Longrightarrow> post Q (if b then x else y)"
  by simp

lemma post_option [wp]: "(ov = None \<Longrightarrow> post Q x) \<Longrightarrow> (\<And>w. ov = Some w \<Longrightarrow> post Q (g w)) \<Longrightarrow> post Q (case ov of None \<Rightarrow> x | Some w \<Rightarrow> g w)"
  by (cases ov) simp_all

lemma post_prod [wp]: "(\<And>a b. p = (a, b) \<Longrightarrow> post Q (h a b)) \<Longrightarrow> post Q (case p of (a, b) \<Rightarrow> h a b)"
  by (cases p) simp

lemma post_map [wp]: "post (\<lambda>v. Q (k v)) x \<Longrightarrow> post Q (map_option k x)"
  by (auto simp: post_def)

lemma post_Let [wp]: "post Q (l v) \<Longrightarrow> post Q (Let v l)"
  by simp

lemma postD: "post Q x \<Longrightarrow> x = Some v \<Longrightarrow> Q v"
  by (simp add: post_def)

lemma postI: "(\<And>v. x = Some v \<Longrightarrow> Q v) \<Longrightarrow> post Q x"
  by (simp add: post_def)

lemma post_mono: "post P x \<Longrightarrow> (\<And>v. P v \<Longrightarrow> Q v) \<Longrightarrow> post Q x"
  by (auto simp: post_def)

lemma post_fold:
  assumes "\<And>x s. x \<in> set xs \<Longrightarrow> I s \<Longrightarrow> post I (g x s)" and "I s"
  shows "post I (fold (\<lambda>x s. s \<bind> g x) xs (Some s))"
proof -
  have "post I r \<Longrightarrow> post I (fold (\<lambda>x s. s \<bind> g x) xs r)" for r
    using assms(1)
  proof (induction xs arbitrary: r)
    case (Cons x xs)
    have "post I (r \<bind> g x)" using Cons.prems by (auto simp: post_def bind_eq_Some_conv)
    then show ?case using Cons.IH Cons.prems(2) by simp
  qed simp
  from this [of "Some s"] show ?thesis using assms(2) by (auto simp: post_def)
qed

section \<open>The invariant\<close>

text \<open>Sums over the requests.\<close>

definition sumreqs :: "(req \<Rightarrow> nat) \<Rightarrow> (nat \<Rightarrow> req option) \<Rightarrow> nat" where
  "sumreqs w R = (\<Sum>x \<in> dom R. w (the (R x)))"

lemma sumreqs_upd:
  assumes "finite (dom R)" "R r = Some q"
  shows "sumreqs w (R(r := Some q')) + w q = sumreqs w R + w q'" "sumreqs w (R(r := None)) + w q = sumreqs w R"
proof -
  have r: "r \<in> dom R" using assms(2) by auto
  have s: "sumreqs w R = w q + (\<Sum>x \<in> dom R - {r}. w (the (R x)))"
    unfolding sumreqs_def using sum.remove [OF assms(1) r, of "\<lambda>x. w (the (R x))"] assms(2) by simp
  have e: "(\<Sum>x \<in> dom R - {r}. w (the ((R(r := v)) x))) = (\<Sum>x \<in> dom R - {r}. w (the (R x)))" for v
    by (rule sum.cong) auto
  have d: "dom (R(r := Some q')) = insert r (dom R - {r})" "dom (R(r := None)) = dom R - {r}" by auto
  have "sumreqs w (R(r := Some q')) = w q' + (\<Sum>x \<in> dom R - {r}. w (the (R x)))"
    unfolding sumreqs_def [of w "R(r := Some q')"] d(1) by (subst sum.insert) (use assms(1) e in simp_all)
  then show "sumreqs w (R(r := Some q')) + w q = sumreqs w R + w q'" unfolding s by simp
  show "sumreqs w (R(r := None)) + w q = sumreqs w R" unfolding s sumreqs_def [of w "R(r := None)"] d(2) e by simp
qed

lemma sumreqs_new: "finite (dom R) \<Longrightarrow> R r = None \<Longrightarrow> sumreqs w (R(r := Some q)) = sumreqs w R + w q"
proof -
  assume a: "finite (dom R)" "R r = None"
  have "(\<Sum>x \<in> dom R. w (the ((R(r := Some q)) x))) = (\<Sum>x \<in> dom R. w (the (R x)))"
    by (rule sum.cong) (use a(2) in auto)
  moreover have "r \<notin> dom R" using a(2) by auto
  ultimately show ?thesis using a(1) by (simp add: sumreqs_def)
qed

text \<open>The references to a fid and to a request.\<close>

definition one :: "nat option \<Rightarrow> nat \<Rightarrow> nat" where
  "one v a = (if v = Some a then 1 else 0)"

definition fidrefs :: "nat \<Rightarrow> req \<Rightarrow> nat" where
  "fidrefs a q = one (r_fid q) a + one (r_newfid q) a + one (r_afid q) a"

definition hold :: "srv \<Rightarrow> nat \<Rightarrow> nat" where
  "hold s a = sumreqs (fidrefs a) (s_reqs s)"

definition flushers :: "srv \<Rightarrow> nat \<Rightarrow> nat" where
  "flushers s a = sumreqs (\<lambda>q. one (r_oldreq q) a) (s_reqs s)"

definition queued :: "srv \<Rightarrow> nat \<Rightarrow> nat \<Rightarrow> bool" where
  "queued s a x \<longleftrightarrow> (\<exists>y. s_reqs s x = Some y \<and> \<not> r_responded y \<and> r_oldreq y = Some a)"

text \<open>\<open>n\<close> references to the request are held by calls that have not returned.\<close>

definition req_ok :: "srv \<Rightarrow> (uint \<Rightarrow> nat option) \<Rightarrow> nat \<Rightarrow> nat \<Rightarrow> req \<Rightarrow> bool" where
  "req_ok s m n a q \<longleftrightarrow>
     r_pool q \<and> r_tag q = ucast (f_tag (r_ifcall q))
     \<and> r_ref q = int (flushers s a) + int n + (if r_responded q then 0 else 2) \<and> 0 < r_ref q
     \<and> (\<not> r_responded q \<longrightarrow> m (r_tag q) = Some a \<and> distinct (r_flush q) \<and> (\<forall>x \<in> set (r_flush q). queued s a x))
     \<and> (r_responded q \<longrightarrow> r_oldreq q = None \<and> (n = 0 \<longrightarrow> r_flush q = []))
     \<and> (\<forall>b. r_oldreq q = Some b \<longrightarrow> f_type (r_ifcall q) = Tflush \<and> s_reqs s b \<noteq> None)"

definition msgs :: "srv \<Rightarrow> sevent list" where
  "msgs s = filter (\<lambda>e. case e of Recv k \<Rightarrow> True | Sent k \<Rightarrow> True | _ \<Rightarrow> False) (s_log s)"

definition reqs_inv :: "srv \<Rightarrow> (uint \<Rightarrow> nat option) \<Rightarrow> (nat \<Rightarrow> nat) \<Rightarrow> bool" where
  "reqs_inv s m X \<longleftrightarrow> im_rep (s_rmap s) m \<and> finite (dom (s_reqs s))
     \<and> (\<forall>a q. s_reqs s a = Some q \<longrightarrow> req_ok s m (X a) a q)
     \<and> (\<forall>a. s_reqs s a = None \<longrightarrow> X a = 0)
     \<and> (\<forall>k a. m k = Some a \<longrightarrow> (\<exists>q. s_reqs s a = Some q \<and> r_tag q = k \<and> \<not> r_responded q))
     \<and> (\<forall>k. count_list (msgs s) (Recv k) = count_list (msgs s) (Sent k) + (if m k = None then 0 else 1))"

lemma reqs_invD:
  assumes "reqs_inv s m X"
  shows "im_rep (s_rmap s) m" "finite (dom (s_reqs s))" "s_reqs s a = Some q \<Longrightarrow> req_ok s m (X a) a q" "s_reqs s a = None \<Longrightarrow> X a = 0"
    "m k = Some a \<Longrightarrow> \<exists>q. s_reqs s a = Some q \<and> r_tag q = k \<and> \<not> r_responded q"
    "count_list (msgs s) (Recv k) = count_list (msgs s) (Sent k) + (if m k = None then 0 else 1)"
  using assms unfolding reqs_inv_def by blast+

lemma reqs_invI:
  assumes "im_rep (s_rmap s) m" "finite (dom (s_reqs s))" "\<And>a q. s_reqs s a = Some q \<Longrightarrow> req_ok s m (X a) a q" "\<And>a. s_reqs s a = None \<Longrightarrow> X a = 0"
    "\<And>k a. m k = Some a \<Longrightarrow> \<exists>q. s_reqs s a = Some q \<and> r_tag q = k \<and> \<not> r_responded q"
    "\<And>k. count_list (msgs s) (Recv k) = count_list (msgs s) (Sent k) + (if m k = None then 0 else 1)"
  shows "reqs_inv s m X"
  using assms unfolding reqs_inv_def by blast

lemma req_okD:
  assumes "req_ok s m n a q"
  shows "r_pool q" "r_tag q = ucast (f_tag (r_ifcall q))" "r_ref q = int (flushers s a) + int n + (if r_responded q then 0 else 2)" "0 < r_ref q"
    "\<not> r_responded q \<Longrightarrow> m (r_tag q) = Some a" "\<not> r_responded q \<Longrightarrow> distinct (r_flush q)"
    "\<not> r_responded q \<Longrightarrow> x \<in> set (r_flush q) \<Longrightarrow> queued s a x"
    "r_responded q \<Longrightarrow> r_oldreq q = None" "r_responded q \<Longrightarrow> n = 0 \<Longrightarrow> r_flush q = []"
    "r_oldreq q = Some b \<Longrightarrow> f_type (r_ifcall q) = Tflush" "r_oldreq q = Some b \<Longrightarrow> \<exists>bq. s_reqs s b = Some bq"
  using assms unfolding req_ok_def by blast+

text \<open>\<open>X\<close> are the references of calls that have not returned, none between the calls.\<close>

definition srv_inv :: "srv \<Rightarrow> (uint \<Rightarrow> nat option) \<Rightarrow> (uint \<Rightarrow> nat option) \<Rightarrow> (nat \<Rightarrow> nat) \<Rightarrow> bool" where
  "srv_inv s m mf X \<longleftrightarrow> reqs_inv s m X \<and> fid_inv (s_fpool s) (hold s) mf"

text \<open>What the invariant of the requests depends on.\<close>

definition core :: "req \<Rightarrow> uint \<times> ushort \<times> uchar \<times> nat option \<times> int \<times> bool \<times> bool \<times> nat list" where
  "core q = (r_tag q, f_tag (r_ifcall q), f_type (r_ifcall q), r_oldreq q, r_ref q, r_pool q, r_responded q, r_flush q)"

definition same_core :: "srv \<Rightarrow> srv \<Rightarrow> bool" where
  "same_core s s' \<longleftrightarrow> (\<forall>x. map_option core (s_reqs s' x) = map_option core (s_reqs s x)) \<and> s_rmap s' = s_rmap s \<and> msgs s' = msgs s"

lemma same_core_refl [simp]: "same_core s s"
  by (simp add: same_core_def)

lemma same_core_trans: "same_core s s' \<Longrightarrow> same_core s' s'' \<Longrightarrow> same_core s s''"
  by (simp add: same_core_def)

lemma same_coreD:
  assumes "same_core s s'" "s_reqs s' x = Some q'"
  shows "\<exists>q. s_reqs s x = Some q \<and> core q = core q'"
proof -
  have "map_option core (s_reqs s' x) = map_option core (s_reqs s x)" using assms(1) by (simp add: same_core_def)
  then show ?thesis using assms(2) by (cases "s_reqs s x") auto
qed

lemma same_core_sym: "same_core s s' \<Longrightarrow> same_core s' s"
  by (simp add: same_core_def)

lemma same_core_dom: "same_core s s' \<Longrightarrow> dom (s_reqs s') = dom (s_reqs s)"
proof -
  assume c: "same_core s s'"
  have "s_reqs s' x = None \<longleftrightarrow> s_reqs s x = None" for x
    using same_coreD [OF c, of x] same_coreD [OF same_core_sym [OF c], of x] by (cases "s_reqs s x"; cases "s_reqs s' x") auto
  then show ?thesis by (auto simp: dom_def)
qed

lemma same_core_flushers: "same_core s s' \<Longrightarrow> flushers s' a = flushers s a"
proof -
  assume c: "same_core s s'"
  have d: "dom (s_reqs s') = dom (s_reqs s)" using same_core_dom [OF c] .
  have "one (r_oldreq (the (s_reqs s' x))) a = one (r_oldreq (the (s_reqs s x))) a" if "x \<in> dom (s_reqs s)" for x
    using same_coreD [OF same_core_sym [OF c]] that by (fastforce simp: core_def)
  then show ?thesis unfolding flushers_def sumreqs_def d by (intro sum.cong) auto
qed

lemma reqs_inv_core:
  assumes c: "same_core s s'" and i: "reqs_inv s m X"
  shows "reqs_inv s' m X"
proof (rule reqs_invI)
  note d = reqs_invD [OF i]
  have q: "queued s' a x" if "queued s a x" for a x
    using that same_coreD [OF same_core_sym [OF c]] by (fastforce simp: queued_def core_def)
  show "im_rep (s_rmap s') m" using d(1) c by (simp add: same_core_def)
  have dm: "dom (s_reqs s') = dom (s_reqs s)" using same_core_dom [OF c] .
  then show "finite (dom (s_reqs s'))" using d(2) by simp
  show "req_ok s' m (X a) a q'" if s': "s_reqs s' a = Some q'" for a q'
  proof -
    obtain qq where qq: "s_reqs s a = Some qq" "core qq = core q'" using same_coreD [OF c s'] by blast
    note o = req_okD [OF d(3) [OF qq(1)]]
    have live: "s_reqs s b = Some z \<Longrightarrow> s_reqs s' b \<noteq> None" for b z using dm by auto
    show ?thesis using o qq(2) q live unfolding req_ok_def same_core_flushers [OF c] by (fastforce simp: core_def)
  qed
  show "X a = 0" if "s_reqs s' a = None" for a using that d(4) [of a] dm by auto
  show "\<exists>q. s_reqs s' a = Some q \<and> r_tag q = k \<and> \<not> r_responded q" if "m k = Some a" for k a
    using d(5) [OF that] same_coreD [OF same_core_sym [OF c]] by (fastforce simp: core_def)
  show "count_list (msgs s') (Recv k) = count_list (msgs s') (Sent k) + (if m k = None then 0 else 1)" for k
    using d(6) [of k] c by (simp add: same_core_def)
qed

section \<open>Fids\<close>

text \<open>What operations on fids and files leave alone.\<close>

definition same_reqs :: "srv \<Rightarrow> srv \<Rightarrow> bool" where
  "same_reqs s s' \<longleftrightarrow> s_reqs s' = s_reqs s \<and> s_rmap s' = s_rmap s \<and> msgs s' = msgs s \<and> s_ops s' = s_ops s \<and> s_out s' = s_out s"

lemma same_reqs_refl [simp]: "same_reqs s s"
  by (simp add: same_reqs_def)

lemma same_reqs_trans: "same_reqs s s' \<Longrightarrow> same_reqs s' s'' \<Longrightarrow> same_reqs s s''"
  by (simp add: same_reqs_def)

lemma same_reqs_core: "same_reqs s s' \<Longrightarrow> same_core s s'"
  by (simp add: same_reqs_def same_core_def)

lemma same_reqs_hold: "same_reqs s s' \<Longrightarrow> hold s' = hold s"
  unfolding same_reqs_def hold_def by (intro ext) simp

lemma msgs_logev [simp]:
  "msgs (logev (Pass r) s) = msgs s" "msgs (logev (Destroyfid a) s) = msgs s" "msgs (logev (Destroyreq a) s) = msgs s"
  "msgs (logev (Recv k) s) = msgs s @ [Recv k]" "msgs (logev (Sent k) s) = msgs s @ [Sent k]"
  by (simp_all add: msgs_def logev_def)

lemma srv_logev [simp]:
  "s_reqs (logev e s) = s_reqs s" "s_rmap (logev e s) = s_rmap s" "s_fpool (logev e s) = s_fpool s" "s_ops (logev e s) = s_ops s"
  "s_tree (logev e s) = s_tree s" "s_msize (logev e s) = s_msize s" "s_out (logev e s) = s_out s" "s_log (logev e s) = s_log s @ [e]"
  by (simp_all add: logev_def)

lemma msgs_upd [simp]:
  "msgs (s\<lparr>s_tree := t\<rparr>) = msgs s" "msgs (s\<lparr>s_fpool := p\<rparr>) = msgs s" "msgs (s\<lparr>s_reqs := R\<rparr>) = msgs s" "msgs (s\<lparr>s_rmap := i\<rparr>) = msgs s"
  "msgs (s\<lparr>s_out := b\<rparr>) = msgs s" "msgs (s\<lparr>s_msize := n\<rparr>) = msgs s"
  by (simp_all add: msgs_def)

lemma ontree_same: "ontree g s = Some (s', v) \<Longrightarrow> same_reqs s s' \<and> s_fpool s' = s_fpool s"
  by (auto simp: ontree_def bind_eq_Some_conv same_reqs_def)

lemma fidevent_same: "fidevent e s = Some s' \<Longrightarrow> same_reqs s s' \<and> s_fpool s' = s_fpool s"
  by (cases e) (auto simp: same_reqs_def dest!: ontree_same)

lemma fidevents_same: "fidevents p s = Some s' \<Longrightarrow> same_reqs s s' \<and> s_fpool s' = p\<lparr>fp_log := []\<rparr>"
proof -
  assume e: "fidevents p s = Some s'"
  have "post (\<lambda>t'. same_reqs t t' \<and> s_fpool t' = s_fpool t) (fold (\<lambda>e s. s \<bind> fidevent e) es (Some t))" for t es
    by (rule post_fold) (auto simp: post_def dest: fidevent_same intro: same_reqs_trans)
  from postD [OF this e [unfolded fidevents_def]] show ?thesis by (simp add: same_reqs_def)
qed

text \<open>The log of the pool does not matter.\<close>

lemma fid_inv_log [simp]: "fid_inv (p\<lparr>fp_log := l\<rparr>) h mf = fid_inv p h mf"
  by (simp add: fid_inv_def)

lemma closefid_s_inv:
  assumes i: "fid_inv (s_fpool s) h mf" and h: "0 < h a" and c: "closefid_s (Some a) s = Some s'"
  shows "same_reqs s s' \<and> fid_inv (s_fpool s') (h(a := h a - 1)) mf"
proof -
  obtain p where p: "closefid a ((s_fpool s)\<lparr>fp_log := []\<rparr>) = Some p" "fidevents p s = Some s'"
    using c by (auto simp: closefid_s_def bind_eq_Some_conv)
  have "fid_inv p (h(a := h a - 1)) mf" using closefid_inv [of "(s_fpool s)\<lparr>fp_log := []\<rparr>" h mf a] i h p(1) by simp
  then show ?thesis using fidevents_same [OF p(2)] by simp
qed

lemma removefid_s_inv:
  assumes i: "fid_inv (s_fpool s) h mf" and r: "removefid_s k s = (v, s')"
  shows "same_reqs s s' \<and> v = mf k \<and> fid_inv (s_fpool s') (\<lambda>a. h a + one v a) (mf(k := None))"
proof -
  have "(case mf k of None \<Rightarrow> h | Some b \<Rightarrow> h(b := h b + 1)) = (\<lambda>a. h a + one (mf k) a)"
    by (auto simp: one_def fun_eq_iff split: option.splits)
  then show ?thesis using removefid_inv [OF i, of k] r by (auto simp: removefid_s_def same_reqs_def split: prod.splits)
qed

lemma lookupfid_s_inv:
  assumes i: "fid_inv (s_fpool s) h mf" and r: "lookupfid_s k s = Some (v, s')"
  shows "same_reqs s s' \<and> v = mf k \<and> fid_inv (s_fpool s') (\<lambda>a. h a + one v a) mf"
proof -
  have "(case mf k of None \<Rightarrow> h | Some b \<Rightarrow> h(b := h b + 1)) = (\<lambda>a. h a + one (mf k) a)"
    by (auto simp: one_def fun_eq_iff split: option.splits)
  then show ?thesis using lookupfid_inv [OF i, of k] r by (auto simp: lookupfid_s_def same_reqs_def bind_eq_Some_conv)
qed

lemma allocfid_s_inv:
  assumes i: "fid_inv (s_fpool s) h mf" and a: "fp_fids (s_fpool s) a = None" and r: "allocfid_s a k s = Some (v, s')"
  shows "same_reqs s s' \<and> v = (if mf k = None then Some a else None) \<and> fid_inv (s_fpool s') (\<lambda>b. h b + one v b) (if mf k = None then mf(k := Some a) else mf)"
proof -
  have "(if mf k = None then h(a := h a + 1) else h) = (\<lambda>b. h b + one (if mf k = None then Some a else None) b)"
    by (auto simp: one_def fun_eq_iff)
  moreover obtain p where p: "allocfid a k ((s_fpool s)\<lparr>fp_log := []\<rparr>) = Some (v, p)" "fidevents p s = Some s'"
    using r by (auto simp: allocfid_s_def bind_eq_Some_conv)
  ultimately show ?thesis using allocfid_inv [of "(s_fpool s)\<lparr>fp_log := []\<rparr>" h mf a k] i a p(1) fidevents_same [OF p(2)] by simp
qed

lemma updfid_inv:
  assumes i: "fid_inv (s_fpool s) h mf" and g: "\<And>f. fid_fid (g f) = fid_fid f \<and> fid_ref (g f) = fid_ref f" and u: "updfid a g s = Some s'"
  shows "same_reqs s s' \<and> fid_inv (s_fpool s') h mf"
proof -
  obtain b f where b: "a = Some b" "fp_fids (s_fpool s) b = Some f" "s' = s\<lparr>s_fpool := (s_fpool s)\<lparr>fp_fids := (fp_fids (s_fpool s))(b := Some (g f))\<rparr>\<rparr>"
    using u by (auto simp: updfid_def bind_eq_Some_conv)
  note d = fid_invD [OF i]
  have "fid_inv ((s_fpool s)\<lparr>fp_fids := (fp_fids (s_fpool s))(b := Some (g f))\<rparr>) (h(b := h b)) mf"
    by (rule fid_inv_change [OF i]) (use d(1) d(2) [of b] d(3) [of _ b] b(2) g [of f] in auto)
  then show ?thesis using b(3) by (simp add: same_reqs_def)
qed

text \<open>Taking one more reference to a fid.\<close>

lemma incfid_inv:
  assumes i: "fid_inv (s_fpool s) h mf" and u: "updfid (Some b) (\<lambda>f. f\<lparr>fid_ref := fid_ref f + 1\<rparr>) s = Some s'"
  shows "same_reqs s s' \<and> fid_inv (s_fpool s') (\<lambda>a. h a + one (Some b) a) mf"
proof -
  obtain f where f: "fp_fids (s_fpool s) b = Some f" using u by (auto simp: updfid_def bind_eq_Some_conv)
  have "h(b := h b + 1) = (\<lambda>a. h a + one (Some b) a)" by (auto simp: one_def fun_eq_iff)
  then show ?thesis using incfidref_inv [OF i f] u f by (auto simp: updfid_def incfidref_def same_reqs_def)
qed

lemma dropfid_inv:
  assumes i: "fid_inv (s_fpool s) h mf" and d: "dropfid a s = Some s'"
  shows "same_reqs s s' \<and> (\<exists>mf'. fid_inv (s_fpool s') h mf')"
proof -
  obtain f where "getfid a s = Some f" using d by (auto simp: dropfid_def bind_eq_Some_conv)
  moreover obtain v s1 where "removefid_s (fid_fid f) s = (v, s1)" by (cases "removefid_s (fid_fid f) s")
  ultimately have f: "removefid_s (fid_fid f) s = (v, s1)" "closefid_s v s1 = Some s'" using d by (auto simp: dropfid_def)
  note r = removefid_s_inv [OF i f(1)]
  obtain b where b: "v = Some b" using f(2) by (cases v) (auto simp: closefid_s_def)
  have "0 < h b + one v b" by (simp add: b one_def)
  from closefid_s_inv [OF conjunct2 [OF conjunct2 [OF r]] this, of s'] f(2) b
  have "same_reqs s1 s' \<and> fid_inv (s_fpool s') ((\<lambda>a. h a + one v a)(b := h b + one v b - 1)) (mf(fid_fid f := None))" by simp
  moreover have "(\<lambda>a. h a + one v a)(b := h b + one v b - 1) = h" by (auto simp: one_def b fun_eq_iff)
  ultimately show ?thesis using r same_reqs_trans by metis
qed

section \<open>Answers\<close>

text \<open>The requests keep their fields, except for what is sent back.\<close>

definition fids :: "req \<Rightarrow> nat option \<times> nat option \<times> nat option" where
  "fids q = (r_fid q, r_newfid q, r_afid q)"

definition keep :: "srv \<Rightarrow> srv \<Rightarrow> bool" where
  "keep s s' \<longleftrightarrow> same_core s s' \<and> (\<forall>x. map_option fids (s_reqs s' x) = map_option fids (s_reqs s x)) \<and> s_ops s' = s_ops s \<and> s_out s' = s_out s"

lemma keep_refl [simp]: "keep s s"
  by (simp add: keep_def)

lemma keep_trans: "keep s s' \<Longrightarrow> keep s' s'' \<Longrightarrow> keep s s''"
  by (auto simp: keep_def intro: same_core_trans)

lemma same_reqs_keep: "same_reqs s s' \<Longrightarrow> keep s s'"
  by (simp add: keep_def same_reqs_core) (simp add: same_reqs_def)

lemma sumreqs_cong: "dom R' = dom R \<Longrightarrow> (\<And>x q q'. R x = Some q \<Longrightarrow> R' x = Some q' \<Longrightarrow> w q' = w q) \<Longrightarrow> sumreqs w R' = sumreqs w R"
  unfolding sumreqs_def by (intro sum.cong) fastforce+

lemma keep_hold: "keep s s' \<Longrightarrow> hold s' = hold s"
proof
  fix a assume k: "keep s s'"
  show "hold s' a = hold s a" unfolding hold_def
  proof (rule sumreqs_cong)
    show "dom (s_reqs s') = dom (s_reqs s)" using k same_core_dom by (simp add: keep_def)
    show "fidrefs a q' = fidrefs a q" if "s_reqs s x = Some q" "s_reqs s' x = Some q'" for x q q'
    proof -
      have "map_option fids (s_reqs s' x) = map_option fids (s_reqs s x)" using k by (simp add: keep_def)
      then show ?thesis using that by (simp add: fids_def fidrefs_def)
    qed
  qed
qed

definition safe :: "(uint \<Rightarrow> nat option) \<Rightarrow> (nat \<Rightarrow> nat) \<Rightarrow> srv \<Rightarrow> srv \<Rightarrow> bool" where
  "safe m X s0 s \<longleftrightarrow> keep s0 s \<and> (\<exists>mf. srv_inv s m mf X)"

lemma safe_init: "srv_inv s m mf X \<Longrightarrow> safe m X s s"
  by (auto simp: safe_def)

lemma safe_step:
  assumes s: "safe m X s0 s" and k: "keep s s'" and f: "\<And>mf. fid_inv (s_fpool s) (hold s) mf \<Longrightarrow> \<exists>mf'. fid_inv (s_fpool s') (hold s) mf'"
  shows "safe m X s0 s'"
proof -
  obtain mf where i: "srv_inv s m mf X" and k0: "keep s0 s" using s by (auto simp: safe_def)
  have "same_core s s'" using k by (simp add: keep_def)
  then have "reqs_inv s' m X" using reqs_inv_core i by (simp add: srv_inv_def)
  moreover obtain mf' where "fid_inv (s_fpool s') (hold s) mf'" using f i unfolding srv_inv_def by blast
  ultimately have "srv_inv s' m mf' X" using keep_hold [OF k] by (simp add: srv_inv_def)
  then show ?thesis using keep_trans [OF k0 k] by (auto simp: safe_def)
qed

lemma safe_post:
  assumes s: "safe m X s0 s" and x: "\<And>s' mf. x = Some s' \<Longrightarrow> fid_inv (s_fpool s) (hold s) mf \<Longrightarrow> keep s s' \<and> (\<exists>mf'. fid_inv (s_fpool s') (hold s) mf')"
    and Q: "\<And>s'. safe m X s0 s' \<Longrightarrow> Q s'"
  shows "post Q x"
proof (rule postI)
  fix s' assume e: "x = Some s'"
  obtain mf where "fid_inv (s_fpool s) (hold s) mf" using s by (auto simp: safe_def srv_inv_def)
  then have "keep s s'" using x [OF e] by blast
  then have "safe m X s0 s'" by (rule safe_step [OF s]) (use x [OF e] in blast)
  then show "Q s'" by (rule Q)
qed

lemma safe_getreq [wp]: "(\<And>q. s_reqs s r = Some q \<Longrightarrow> Q q) \<Longrightarrow> post Q (s_reqs s r)"
  by (simp add: post_def)

lemma safe_getfid [wp]: "(\<And>f. getfid a s = Some f \<Longrightarrow> Q f) \<Longrightarrow> post Q (getfid a s)"
  by (simp add: post_def)

lemma safe_fileof [wp]: "(\<And>f. fileof a s = Some f \<Longrightarrow> Q f) \<Longrightarrow> post Q (fileof a s)"
  by (simp add: post_def)

lemma updreq_keep: "(\<And>q. core (g q) = core q \<and> fids (g q) = fids q) \<Longrightarrow> updreq r g s = Some s' \<Longrightarrow> keep s s' \<and> s_fpool s' = s_fpool s"
  by (auto simp: updreq_def bind_eq_Some_conv keep_def same_core_def)

lemma safe_updreq [wp]:
  "safe m X s0 s \<Longrightarrow> (\<And>q. core (g q) = core q \<and> fids (g q) = fids q) \<Longrightarrow> (\<And>s'. safe m X s0 s' \<Longrightarrow> Q s') \<Longrightarrow> post Q (updreq r g s)"
proof (erule safe_post)
  fix s' mf assume g: "\<And>q. core (g q) = core q \<and> fids (g q) = fids q" and u: "updreq r g s = Some s'" and f: "fid_inv (s_fpool s) (hold s) mf"
  show "keep s s' \<and> (\<exists>mf'. fid_inv (s_fpool s') (hold s) mf')" using updreq_keep [OF g u] f by auto
qed

lemma safe_updfid [wp]:
  "safe m X s0 s \<Longrightarrow> (\<And>f. fid_fid (g f) = fid_fid f \<and> fid_ref (g f) = fid_ref f) \<Longrightarrow> (\<And>s'. safe m X s0 s' \<Longrightarrow> Q s') \<Longrightarrow> post Q (updfid a g s)"
proof (erule safe_post)
  fix s' mf assume g: "\<And>f. fid_fid (g f) = fid_fid f \<and> fid_ref (g f) = fid_ref f" and u: "updfid a g s = Some s'" and f: "fid_inv (s_fpool s) (hold s) mf"
  show "keep s s' \<and> (\<exists>mf'. fid_inv (s_fpool s') (hold s) mf')" using updfid_inv [OF f g u] same_reqs_keep by auto
qed

lemma safe_ontree [wp]:
  "safe m X s0 s \<Longrightarrow> (\<And>s' v. safe m X s0 s' \<Longrightarrow> Q (s', v)) \<Longrightarrow> post Q (ontree g s)"
proof (rule postI)
  fix v assume s: "safe m X s0 s" and Q: "\<And>s' v. safe m X s0 s' \<Longrightarrow> Q (s', v)" and o: "ontree g s = Some v"
  obtain s' w where v: "v = (s', w)" by (cases v)
  have "safe m X s0 s'" by (rule safe_step [OF s]) (use ontree_same [OF o [unfolded v]] in \<open>auto intro: same_reqs_keep\<close>)
  then show "Q v" using Q v by simp
qed

lemma safe_dropfid [wp]: "safe m X s0 s \<Longrightarrow> (\<And>s'. safe m X s0 s' \<Longrightarrow> Q s') \<Longrightarrow> post Q (dropfid a s)"
proof (erule safe_post)
  fix s' mf assume u: "dropfid a s = Some s'" and f: "fid_inv (s_fpool s) (hold s) mf"
  show "keep s s' \<and> (\<exists>mf'. fid_inv (s_fpool s') (hold s) mf')" using dropfid_inv [OF f u] same_reqs_keep by auto
qed

lemma core_upd [simp]:
  "core (q\<lparr>r_ofcall := oc\<rparr>) = core q" "core (q\<lparr>r_d := d\<rparr>) = core q" "core (q\<lparr>r_error := e\<rparr>) = core q" "core (q\<lparr>r_stat := st\<rparr>) = core q"
  "core (q\<lparr>r_fid := v\<rparr>) = core q" "core (q\<lparr>r_newfid := v\<rparr>) = core q" "core (q\<lparr>r_afid := v\<rparr>) = core q"
  "core (q\<lparr>r_ifcall := (r_ifcall q)\<lparr>f_count := c\<rparr>\<rparr>) = core q"
  by (simp_all add: core_def)

lemma fids_upd [simp]:
  "fids (q\<lparr>r_ofcall := oc\<rparr>) = fids q" "fids (q\<lparr>r_d := d\<rparr>) = fids q" "fids (q\<lparr>r_error := e\<rparr>) = fids q" "fids (q\<lparr>r_stat := st\<rparr>) = fids q"
  "fids (q\<lparr>r_ifcall := ic\<rparr>) = fids q" "fids (q\<lparr>r_oldreq := v\<rparr>) = fids q" "fids (q\<lparr>r_ref := n\<rparr>) = fids q" "fids (q\<lparr>r_flush := fl\<rparr>) = fids q"
  "fids (q\<lparr>r_responded := b\<rparr>) = fids q"
  by (simp_all add: fids_def)

lemma safe_same: "safe m X s0 s \<Longrightarrow> same_reqs s s' \<Longrightarrow> s_fpool s' = s_fpool s \<Longrightarrow> safe m X s0 s'"
  by (rule safe_step) (auto intro: same_reqs_keep)

lemma safe_changemsize: "safe m X s0 s \<Longrightarrow> safe m X s0 (changemsize n s)"
  by (erule safe_same) (auto simp: changemsize_def same_reqs_def)

lemma post_go: "post P x \<Longrightarrow> post (\<lambda>(off, s'). \<not> off \<and> P s') (map_option (\<lambda>s. (False, s)) x)"
  by (auto simp: post_def)

lemma answer_inv:
  assumes s: "safe m X s0 s" and t: "t \<noteq> Tflush"
  shows "post (\<lambda>(off, s'). \<not> off \<and> safe m X s0 s') (answer close r e t s)"
proof -
  have 1: "post (safe m X s0) (rversion r e s)" using s unfolding rversion_def by (intro wp safe_changemsize)
  have 2: "post (safe m X s0) (rauth r e s)" using s unfolding rauth_def by (intro wp)
  have 3: "post (safe m X s0) (rattach r e s)" using s unfolding rattach_def by (intro wp)
  have 4: "post (safe m X s0) (rwalk r e s)" using s unfolding rwalk_def by (intro wp) simp_all
  have 5: "post (safe m X s0) (ropen r e s)" using s unfolding ropen_def by (intro wp) simp_all
  have 6: "post (safe m X s0) (rcreate r e s)" using s unfolding rcreate_def by (intro wp) simp_all
  have 7: "post (safe m X s0) (rread r e s)" using s unfolding rread_def by (intro wp) simp_all
  have 8: "post (safe m X s0) (rwrite r e s)" using s unfolding rwrite_def by (intro wp) simp_all
  have 9: "post (safe m X s0) (rremove r e s)" using s unfolding rremove_def by (intro wp) simp_all
  have 10: "post (safe m X s0) (rstat r e s)" using s unfolding rstat_def by (intro wp) simp_all
  have n: "post (\<lambda>(off, s'). \<not> off \<and> safe m X s0 s') (Some (False, s))" using s by (simp add: post_def)
  show ?thesis using t unfolding answer_def Let_def
    by (auto intro: post_go 1 2 3 4 5 6 7 8 9 10 n post_None)
qed

end
