(* ===== verification/Fcall_Header.thy ===== *)
theory Fcall_Header
  imports Fcall_Wire
begin

text \<open>
  Whatever the rest of a message is, what \<open>convS2M\<close> encodes starts with its size, type and tag: nothing is written
  in front of the write offset, which is behind the header.
\<close>

definition behind :: "(wstate \<Rightarrow> wstate) \<Rightarrow> bool" where
  "behind g \<longleftrightarrow> (\<forall>m p. 7 \<le> p \<longrightarrow> 7 \<le> length m \<longrightarrow>
     7 \<le> snd (g (m, p)) \<and> length m \<le> length (fst (g (m, p))) \<and> take 7 (fst (g (m, p))) = take 7 m)"

named_theorems behind_intros \<open>operations that write behind the header\<close>

lemma behindD:
  assumes "behind g" "7 \<le> p" "7 \<le> length m"
  shows "7 \<le> snd (g (m, p))" "length m \<le> length (fst (g (m, p)))" "take 7 (fst (g (m, p))) = take 7 m"
  using assms unfolding behind_def by blast+

lemma behind_poke: "7 \<le> p \<Longrightarrow> 7 \<le> length m \<Longrightarrow> take 7 (poke m p bs) = take 7 m \<and> length m \<le> length (poke m p bs)"
  by (auto simp: poke_def)

lemma behind_put [behind_intros]: "behind (put bs)"
  by (auto simp: behind_def put_def behind_poke)

lemma behind_pstring [behind_intros]: "behind (pstring s)"
proof -
  have "take 7 (poke (poke m (p + 2) b) p c) = take 7 m \<and> length m \<le> length (poke (poke m (p + 2) b) p c)"
    if "7 \<le> p" "7 \<le> length m" for m :: bytes and p b c
    using behind_poke [of "p + 2" m b] behind_poke [of p "poke m (p + 2) b" c] that by auto
  then show ?thesis by (auto simp: behind_def pstring_def behind_poke Let_def split: option.splits)
qed

lemma behind_steps [behind_intros]: "(\<And>g. g \<in> set gs \<Longrightarrow> behind g) \<Longrightarrow> behind (steps gs)"
proof (induction gs rule: rev_induct)
  case (snoc g gs)
  have b: "behind (steps gs)" "behind g" using snoc by auto
  show ?case unfolding behind_def
  proof (intro allI impI)
    fix m :: bytes and p :: nat assume p: "7 \<le> p" "7 \<le> length m"
    obtain m1 p1 where s: "steps gs (m, p) = (m1, p1)" by fastforce
    have 1: "7 \<le> p1" "length m \<le> length m1" "take 7 m1 = take 7 m" using behindD [OF b(1) p] s by auto
    have e: "steps (gs @ [g]) (m, p) = g (m1, p1)" using s by (simp add: steps_def)
    show "7 \<le> snd (steps (gs @ [g]) (m, p)) \<and> length m \<le> length (fst (steps (gs @ [g]) (m, p))) \<and> take 7 (fst (steps (gs @ [g]) (m, p))) = take 7 m"
      using behindD [OF b(2) 1(1), of m1] 1 p unfolding e by auto
  qed
qed (simp add: behind_def steps_def)

lemma behind_pqid [behind_intros]: "behind (pqid q)"
  unfolding pqid_def by (rule behind_steps) (auto intro: behind_intros)

text \<open>The switch keeps the header.\<close>

definition kept :: "bytes \<Rightarrow> bytes \<times> nat option \<Rightarrow> bool" where
  "kept m r \<longleftrightarrow> (\<forall>w k. r = (w, Some k) \<longrightarrow> length m \<le> length w \<and> take 7 w = take 7 m)"

lemma kept_None: "kept m (x, None)"
  by (simp add: kept_def)

lemma kept_if: "kept m x \<Longrightarrow> kept m y \<Longrightarrow> kept m (if b then x else y)"
  by simp

lemma kept_ok:
  assumes "7 \<le> p" "7 \<le> length m" "\<forall>g \<in> set gs. behind g"
  shows "kept m (apsnd Some (steps gs (m, p)))"
proof -
  have "behind (steps gs)" using assms(3) by (auto intro: behind_steps)
  note b = behindD [OF this assms(1,2)]
  show ?thesis using b(2,3) by (cases "steps gs (m, p)") (simp add: kept_def)
qed

lemma kept_ok2:
  assumes "7 \<le> p" "7 \<le> length m" "\<forall>g \<in> set gs. behind g" "\<forall>g \<in> set hs. behind g"
  shows "kept m (apsnd Some (steps hs (steps gs (m, p))))"
proof -
  have "steps hs (steps gs (m, p)) = steps (gs @ hs) (m, p)" by (simp add: steps_def)
  then show ?thesis using kept_ok [OF assms(1,2), of "gs @ hs"] assms(3,4) by auto
qed

lemma kept_ok1:
  assumes "7 \<le> p" "7 \<le> length m" "behind g" "\<forall>g \<in> set hs. behind g"
  shows "kept m (apsnd Some (steps hs (g (m, p))))"
  using kept_ok2 [OF assms(1,2), of "[g]" hs] assms(3,4) by (simp add: steps_def)

lemma kept_body:
  assumes "7 \<le> p" "7 \<le> length m"
  shows "kept m (convS2M_T f (m, p))" "kept m (convS2M_R f (m, p))"
  unfolding convS2M_T_def convS2M_R_def Let_def
  by (intro kept_if kept_None kept_ok2 kept_ok kept_ok1 assms; auto intro: behind_intros)+

lemma convS2M_header:
  assumes "convS2M f m nap = (n, w)" "n \<noteq> 0"
  shows "take 7 w = PBIT32 n @ PBIT8 (f_type f) @ PBIT16 (f_tag f)" "length m \<le> length w" "n \<le> nap"
proof -
  let ?h = "PBIT32 n @ PBIT8 (f_type f) @ PBIT16 (f_tag f)"
  have n: "n = sizeS2M f" "n \<le> nap" using assms by (auto simp: convS2M_def Let_def not_less split: if_splits prod.splits option.splits)
  have st: "steps [put (PBIT32 n), put (PBIT8 (f_type f)), put (PBIT16 (f_tag f))] (m, 0) = (?h @ drop 7 m, 7)"
    by (simp add: steps_def put_def poke_def)
  obtain k where "(if is_T (f_type f) then convS2M_T f (?h @ drop 7 m, 7) else convS2M_R f (?h @ drop 7 m, 7)) = (w, Some k)"
    using assms n(2) st unfolding convS2M_def n(1) [symmetric] by (auto simp: Let_def split: if_splits prod.splits option.splits)
  moreover have "kept (?h @ drop 7 m) (if is_T (f_type f) then convS2M_T f (?h @ drop 7 m, 7) else convS2M_R f (?h @ drop 7 m, 7))"
    by (intro kept_if kept_body) simp_all
  ultimately have "length (?h @ drop 7 m) \<le> length w" "take 7 w = take 7 (?h @ drop 7 m)" by (auto simp: kept_def)
  then show "take 7 w = ?h" "length m \<le> length w" "n \<le> nap" using n(2) by simp_all
qed

end
