(* ===== verification/Srv_Respond.thy ===== *)
theory Srv_Respond
  imports Srv_Inv Fcall_Header
begin

text \<open>
  \<open>respond\<close> and \<open>closereq\<close> keep the invariant of the server: an answer takes the request out of the table and
  answers the flushes that wait for it, and the last reference to a request closes its fids.
\<close>

section \<open>Changing one request\<close>

lemma flushers_upd:
  assumes "finite (dom (s_reqs s))" "s_reqs s a = Some q" "s_reqs s' = (s_reqs s)(a := Some q')"
  shows "flushers s' b + one (r_oldreq q) b = flushers s b + one (r_oldreq q') b"
  using sumreqs_upd(1) [OF assms(1,2)] assms(3) by (simp add: flushers_def)

lemma flushers_same:
  assumes "finite (dom (s_reqs s))" "s_reqs s a = Some q" "s_reqs s' = (s_reqs s)(a := Some q')" "r_oldreq q' = r_oldreq q"
  shows "flushers s' b = flushers s b"
  using flushers_upd [OF assms(1-3), of b] assms(4) by simp

lemma hold_upd:
  assumes "finite (dom (s_reqs s))" "s_reqs s a = Some q" "s_reqs s' = (s_reqs s)(a := Some q')"
  shows "hold s' b + fidrefs b q = hold s b + fidrefs b q'"
  using sumreqs_upd(1) [OF assms(1,2), of "fidrefs b" q'] assms(3) by (simp add: hold_def)

lemma hold_same:
  assumes "finite (dom (s_reqs s))" "s_reqs s a = Some q" "s_reqs s' = (s_reqs s)(a := Some q')" "fids q' = fids q"
  shows "hold s' = hold s"
proof
  fix b
  have "fidrefs b q' = fidrefs b q" using assms(4) by (simp add: fidrefs_def fids_def)
  then show "hold s' b = hold s b" using hold_upd [OF assms(1-3), of b] by simp
qed

lemma hold_ge: "finite (dom (s_reqs s)) \<Longrightarrow> s_reqs s a = Some q \<Longrightarrow> fidrefs b q \<le> hold s b"
  using sumreqs_upd(2) [of "s_reqs s" a q "fidrefs b"] by (simp add: hold_def)

lemma flushers_ge: "finite (dom (s_reqs s)) \<Longrightarrow> s_reqs s a = Some q \<Longrightarrow> one (r_oldreq q) b \<le> flushers s b"
  using sumreqs_upd(2) [of "s_reqs s" a q "\<lambda>q. one (r_oldreq q) b"] by (simp add: flushers_def)

lemma reqs_inv_upd:
  assumes i: "reqs_inv s m X" and q: "s_reqs s a = Some q"
    and same: "r_oldreq q' = r_oldreq q" "r_responded q' = r_responded q" "r_tag q' = r_tag q" and ok: "req_ok s m n a q'"
    and s': "s_reqs s' = (s_reqs s)(a := Some q')" "s_rmap s' = s_rmap s" "msgs s' = msgs s"
  shows "reqs_inv s' m (X(a := n))"
proof (rule reqs_invI)
  note d = reqs_invD [OF i]
  note fl = flushers_same [OF d(2) q s'(1) same(1)]
  have qd: "queued s' b x \<longleftrightarrow> queued s b x" for b x using q same by (auto simp: queued_def s'(1))
  have live: "s_reqs s' b = None \<longleftrightarrow> s_reqs s b = None" for b using q by (simp add: s'(1))
  have c: "req_ok s' m k b z = req_ok s m k b z" for k b z by (simp add: req_ok_def fl qd live)
  show "req_ok s' m ((X(a := n)) b) b z" if "s_reqs s' b = Some z" for b z
    using that d(3) [of b z] ok by (cases "b = a") (simp_all add: c s'(1))
  show "(X(a := n)) b = 0" if "s_reqs s' b = None" for b using that d(4) [of b] q by (auto simp: s'(1) split: if_splits)
  show "\<exists>z. s_reqs s' b = Some z \<and> r_tag z = k \<and> \<not> r_responded z" if "m k = Some b" for k b
    using d(5) [OF that] q same by (auto simp: s'(1))
  show "finite (dom (s_reqs s'))" using d(2) by (simp add: s'(1))
qed (use reqs_invD(1,6) [OF i] s' in simp_all)

lemma reqs_inv_remove:
  assumes i: "reqs_inv s m X" and q: "s_reqs s a = Some q" "r_responded q" "r_ref q = 1" "X a = 1"
    and s': "s_reqs s' = (s_reqs s)(a := None)" "s_rmap s' = s_rmap s" "msgs s' = msgs s"
  shows "reqs_inv s' m (X(a := 0))"
proof (rule reqs_invI)
  note d = reqs_invD [OF i]
  note o = req_okD [OF d(3) [OF q(1)]]
  have f0: "flushers s a = 0" using o(3) q by simp
  have no: "r_oldreq z \<noteq> Some a" if "s_reqs s b = Some z" for b z
    using flushers_ge [OF d(2) that, of a] f0 by (auto simp: one_def split: if_splits)
  have fl: "flushers s' b = flushers s b" for b
    using sumreqs_upd(2) [OF d(2) q(1), of "\<lambda>q. one (r_oldreq q) b"] o(8) [OF q(2)] by (simp add: flushers_def s'(1) one_def)
  have qd: "queued s b x \<Longrightarrow> queued s' b x" for b x using q by (auto simp: queued_def s'(1))
  show "req_ok s' m ((X(a := 0)) b) b z" if "s_reqs s' b = Some z" for b z
  proof -
    have b: "b \<noteq> a" "s_reqs s b = Some z" using that by (auto simp: s'(1) split: if_splits)
    note ob = d(3) [OF b(2)]
    show ?thesis using ob qd no [OF b(2)] b unfolding req_ok_def fl by (auto simp: s'(1))
  qed
  show "(X(a := 0)) b = 0" if "s_reqs s' b = None" for b using that d(4) [of b] by (auto simp: s'(1) split: if_splits)
  show "\<exists>z. s_reqs s' b = Some z \<and> r_tag z = k \<and> \<not> r_responded z" if "m k = Some b" for k b
    using d(5) [OF that] q by (auto simp: s'(1))
  show "finite (dom (s_reqs s'))" using d(2) by (simp add: s'(1))
qed (use reqs_invD(1,6) [OF i] s' in simp_all)

section \<open>Giving up a request\<close>

lemma closefids_inv:
  assumes i: "fid_inv (s_fpool s) h mf" and h: "\<And>a. fidrefs a q \<le> h a" and c: "closefids q s = Some s'"
  shows "same_reqs s s' \<and> fid_inv (s_fpool s') (\<lambda>a. h a - fidrefs a q) mf"
proof -
  have one: "same_reqs s s' \<and> fid_inv (s_fpool s') (\<lambda>a. h a - one v a) mf"
    if "fid_inv (s_fpool s) h mf" "\<And>a. one v a \<le> h a" "unlessnil (\<lambda>a. closefid_s (Some a)) v s = Some s'" for v s s' and h :: "nat \<Rightarrow> nat"
  proof (cases v)
    case None
    then show ?thesis using that by (simp add: unlessnil_def one_def)
  next
    case (Some a)
    have "0 < h a" using that(2) [of a] Some by (simp add: one_def)
    moreover have "h(a := h a - 1) = (\<lambda>b. h b - one v b)" using Some by (auto simp: one_def)
    ultimately show ?thesis using closefid_s_inv [OF that(1), of a s'] that(3) Some by (simp add: unlessnil_def)
  qed
  obtain s1 s2 where s: "unlessnil (\<lambda>a. closefid_s (Some a)) (r_fid q) s = Some s1" "unlessnil (\<lambda>a. closefid_s (Some a)) (r_newfid q) s1 = Some s2"
      "unlessnil (\<lambda>a. closefid_s (Some a)) (r_afid q) s2 = Some s'"
    using c by (auto simp: closefids_def bind_eq_Some_conv)
  have le: "one (r_fid q) a + one (r_newfid q) a + one (r_afid q) a \<le> h a" for a using h by (simp add: fidrefs_def)
  have le1: "one (r_fid q) a \<le> h a" "one (r_newfid q) a \<le> h a - one (r_fid q) a" "one (r_afid q) a \<le> h a - one (r_fid q) a - one (r_newfid q) a" for a
    using le [of a] by linarith+
  have 1: "same_reqs s s1 \<and> fid_inv (s_fpool s1) (\<lambda>a. h a - one (r_fid q) a) mf"
    by (rule one [OF i le1(1) s(1)])
  have 2: "same_reqs s1 s2 \<and> fid_inv (s_fpool s2) (\<lambda>a. h a - one (r_fid q) a - one (r_newfid q) a) mf"
    by (rule one [OF conjunct2 [OF 1] le1(2) s(2)])
  have 3: "same_reqs s2 s' \<and> fid_inv (s_fpool s') (\<lambda>a. h a - one (r_fid q) a - one (r_newfid q) a - one (r_afid q) a) mf"
    by (rule one [OF conjunct2 [OF 2] le1(3) s(3)])
  have "(\<lambda>a. h a - one (r_fid q) a - one (r_newfid q) a - one (r_afid q) a) = (\<lambda>a. h a - fidrefs a q)"
    by (simp add: fidrefs_def fun_eq_iff)
  moreover have "same_reqs s s'" using 1 2 3 by (blast intro: same_reqs_trans)
  ultimately show ?thesis using 3 by simp
qed

text \<open>What \<open>closereq\<close> does to a request with \<open>X a\<close> references from calls.\<close>

lemma closereq_inv:
  assumes i: "srv_inv s m mf X" and q: "s_reqs s a = Some q" and x: "0 < X a" and fl: "r_responded q \<Longrightarrow> X a = 1 \<Longrightarrow> r_flush q = []"
    and c: "closereq n a s = Some s'"
  shows "srv_inv s' m mf (X(a := X a - 1)) \<and> msgs s' = msgs s \<and> s_out s' = s_out s \<and> (\<forall>b. b \<noteq> a \<longrightarrow> s_reqs s' b = s_reqs s b)
    \<and> (s_reqs s' a = Some (q\<lparr>r_ref := r_ref q - 1\<rparr>) \<or> s_reqs s' a = None \<and> r_responded q \<and> X a = 1)"
proof -
  obtain k where n: "n = Suc k" using c by (cases n) auto
  have ri: "reqs_inv s m X" and fi: "fid_inv (s_fpool s) (hold s) mf" using i by (auto simp: srv_inv_def)
  note d = reqs_invD [OF ri]
  note o = req_okD [OF d(3) [OF q]]
  let ?q = "q\<lparr>r_ref := r_ref q - 1\<rparr>"
  let ?s = "s\<lparr>s_reqs := (s_reqs s)(a := Some ?q)\<rparr>"
  show ?thesis
  proof (cases "r_ref q = 1")
    case False
    have s': "s' = ?s" using c False by (simp add: n updreq_def q)
    have "req_ok s m (X a - 1) a ?q"
      using d(3) [OF q] x False fl by (auto simp: req_ok_def of_nat_diff)
    then have "reqs_inv ?s m (X(a := X a - 1))" by (intro reqs_inv_upd [OF ri q]) simp_all
    moreover have "hold ?s = hold s" by (rule hold_same [OF d(2) q, of _ ?q]) simp_all
    ultimately show ?thesis using fi s' by (simp add: srv_inv_def)
  next
    case True
    have r: "r_responded q" using o(3) True x by (auto split: if_splits)
    have x1: "X a = 1" "flushers s a = 0" using o(3) True x r by auto
    have cl: "r_flush q = []" "r_oldreq q = None" using fl r x1 o(8) by auto
    obtain s1 where s1: "closefids ?q ?s = Some s1"
        "s' = (if o_destroyreq (s_ops s1) then logev (Destroyreq a) s1 else s1)\<lparr>s_reqs := (s_reqs s1)(a := None)\<rparr>"
      using c True cl q by (auto simp: n updreq_def unlessnil_def bind_eq_Some_conv Let_def split: if_splits)
    have h: "hold ?s = hold s" by (rule hold_same [OF d(2) q, of _ ?q]) simp_all
    have f: "fidrefs b ?q = fidrefs b q" for b by (simp add: fidrefs_def)
    have "same_reqs ?s s1 \<and> fid_inv (s_fpool s1) (\<lambda>b. hold s b - fidrefs b ?q) mf"
      by (rule closefids_inv [OF _ _ s1(1)]) (use fi hold_ge [OF d(2) q] in \<open>simp_all add: f\<close>)
    then have s1': "s_reqs s1 = (s_reqs s)(a := Some ?q)" "s_rmap s1 = s_rmap s" "msgs s1 = msgs s" "s_out s1 = s_out s"
        "fid_inv (s_fpool s1) (\<lambda>b. hold s b - fidrefs b q) mf" by (simp_all add: same_reqs_def f)
    have R: "s_reqs s' = (s_reqs s)(a := None)" "s_rmap s' = s_rmap s" "msgs s' = msgs s" "s_fpool s' = s_fpool s1" "s_out s' = s_out s"
      using s1(2) s1' by auto
    have "hold s' = (\<lambda>b. hold s b - fidrefs b q)"
    proof
      fix b show "hold s' b = hold s b - fidrefs b q" using sumreqs_upd(2) [OF d(2) q, of "fidrefs b"] by (simp add: hold_def R(1))
    qed
    then show ?thesis using reqs_inv_remove [OF ri q r True x1(1) R(1-3)] s1'(5) R r x1 by (simp add: srv_inv_def)
  qed
qed

section \<open>What an answer leaves alone\<close>

text \<open>A flush is settled if the request it waits for has been answered.\<close>

definition settled :: "srv \<Rightarrow> nat option \<Rightarrow> bool" where
  "settled s v \<longleftrightarrow> (\<forall>b. v = Some b \<longrightarrow> (\<exists>z. s_reqs s b = Some z \<and> r_responded z))"

definition frame :: "(nat \<Rightarrow> nat) \<Rightarrow> nat set \<Rightarrow> srv \<Rightarrow> srv \<Rightarrow> bool" where
  "frame X A s s' \<longleftrightarrow>
     (\<forall>x y. s_reqs s x = Some y \<longrightarrow> r_responded y \<longrightarrow> 0 < X x \<longrightarrow> (\<exists>z. s_reqs s' x = Some z \<and> r_responded z \<and> r_flush z = r_flush y))
     \<and> (\<forall>x y. s_reqs s x = Some y \<longrightarrow> \<not> r_responded y \<longrightarrow> x \<notin> A \<longrightarrow> settled s (r_oldreq y)
          \<longrightarrow> (\<exists>z. s_reqs s' x = Some z \<and> \<not> r_responded z \<and> r_oldreq z = r_oldreq y \<and> r_tag z = r_tag y))
     \<and> (\<forall>x y z. s_reqs s x = Some y \<longrightarrow> r_responded y \<longrightarrow> s_reqs s' x = Some z \<longrightarrow> r_responded z)
     \<and> (\<forall>x. s_reqs s x = None \<longrightarrow> s_reqs s' x = None)"

lemma frameD:
  assumes "frame X A s s'"
  shows "s_reqs s x = Some y \<Longrightarrow> r_responded y \<Longrightarrow> 0 < X x \<Longrightarrow> \<exists>z. s_reqs s' x = Some z \<and> r_responded z \<and> r_flush z = r_flush y"
    "s_reqs s x = Some y \<Longrightarrow> \<not> r_responded y \<Longrightarrow> x \<notin> A \<Longrightarrow> settled s (r_oldreq y)
      \<Longrightarrow> \<exists>z. s_reqs s' x = Some z \<and> \<not> r_responded z \<and> r_oldreq z = r_oldreq y \<and> r_tag z = r_tag y"
    "s_reqs s x = Some y \<Longrightarrow> r_responded y \<Longrightarrow> s_reqs s' x = Some z \<Longrightarrow> r_responded z"
    "s_reqs s x = None \<Longrightarrow> s_reqs s' x = None"
  using assms unfolding frame_def by blast+

lemma frame_trans:
  assumes f: "frame X A s s'" and g: "frame X B s' s''" and i: "srv_inv s' m mf Y"
  shows "frame X (A \<union> B) s s''"
  unfolding frame_def
proof (intro conjI allI impI)
  fix x y assume y: "s_reqs s x = Some y" "r_responded y" "0 < X x"
  then show "\<exists>z. s_reqs s'' x = Some z \<and> r_responded z \<and> r_flush z = r_flush y" using frameD(1) [OF f y] frameD(1) [OF g, of x] by force
next
  fix x y assume y: "s_reqs s x = Some y" "\<not> r_responded y" "x \<notin> A \<union> B" "settled s (r_oldreq y)"
  obtain z where z: "s_reqs s' x = Some z" "\<not> r_responded z" "r_oldreq z = r_oldreq y" "r_tag z = r_tag y" using frameD(2) [OF f y(1,2) _ y(4)] y(3) by blast
  have "settled s' (r_oldreq z)" unfolding settled_def
  proof (intro allI impI)
    fix b assume b: "r_oldreq z = Some b"
    then obtain c where c: "s_reqs s' b = Some c" using i reqs_invD(3) [of s' m Y x z] z(1) req_okD(11) by (metis srv_inv_def)
    obtain d where "s_reqs s b = Some d" "r_responded d" using y(4) b z(3) by (auto simp: settled_def)
    then show "\<exists>z. s_reqs s' b = Some z \<and> r_responded z" using c frameD(3) [OF f] by blast
  qed
  then show "\<exists>z. s_reqs s'' x = Some z \<and> \<not> r_responded z \<and> r_oldreq z = r_oldreq y \<and> r_tag z = r_tag y"
    using frameD(2) [OF g z(1,2)] y(3) z(3,4) by auto
next
  fix x y z assume y: "s_reqs s x = Some y" "r_responded y" "s_reqs s'' x = Some z"
  show "r_responded z"
  proof (cases "s_reqs s' x")
    case None
    then show ?thesis using frameD(4) [OF g] y(3) by simp
  next
    case (Some w)
    then show ?thesis using frameD(3) [OF f y(1,2) Some] frameD(3) [OF g Some _ y(3)] by blast
  qed
next
  fix x assume "s_reqs s x = None"
  then show "s_reqs s'' x = None" using frameD(4) [OF f] frameD(4) [OF g] by blast
qed

lemma frame_refl [simp]: "frame X A s s"
  by (auto simp: frame_def)

lemma frame_mono: "frame X A s s' \<Longrightarrow> A \<subseteq> B \<Longrightarrow> (\<And>x. Y x \<le> X x) \<Longrightarrow> frame Y B s s'"
  unfolding frame_def by (meson less_le_trans subsetD)

lemma keep_frame: "keep s s' \<Longrightarrow> frame X A s s'"
proof -
  assume "keep s s'"
  then have c: "same_core s s'" by (simp add: keep_def)
  have n: "s_reqs s' x = None" if "s_reqs s x = None" for x using same_coreD [OF c, of x] that by (cases "s_reqs s' x") auto
  show ?thesis unfolding frame_def
    using same_coreD [OF same_core_sym [OF c]] same_coreD [OF c] n by (fastforce simp: core_def)
qed

text \<open>Changing or removing a single request.\<close>

lemma frame_one:
  assumes "\<forall>b. b \<noteq> a \<longrightarrow> s_reqs s' b = s_reqs s b" "s_reqs s a = Some q"
    and "r_responded q \<Longrightarrow> 0 < X a \<Longrightarrow> \<exists>z. s_reqs s' a = Some z \<and> r_responded z \<and> r_flush z = r_flush q"
    and "\<not> r_responded q \<Longrightarrow> a \<notin> A \<Longrightarrow> \<exists>z. s_reqs s' a = Some z \<and> \<not> r_responded z \<and> r_oldreq z = r_oldreq q \<and> r_tag z = r_tag q"
    and "\<And>z. r_responded q \<Longrightarrow> s_reqs s' a = Some z \<Longrightarrow> r_responded z"
  shows "frame X A s s'"
  unfolding frame_def
proof (intro conjI allI impI)
  fix x y assume "s_reqs s x = Some y" "r_responded y" "0 < X x"
  then show "\<exists>z. s_reqs s' x = Some z \<and> r_responded z \<and> r_flush z = r_flush y" using assms(1-3) by (cases "x = a") auto
next
  fix x y assume "s_reqs s x = Some y" "\<not> r_responded y" "x \<notin> A"
  then show "\<exists>z. s_reqs s' x = Some z \<and> \<not> r_responded z \<and> r_oldreq z = r_oldreq y \<and> r_tag z = r_tag y" using assms(1,2,4) by (cases "x = a") auto
next
  fix x y z assume "s_reqs s x = Some y" "r_responded y" "s_reqs s' x = Some z"
  then show "r_responded z" using assms(1,2,5) by (cases "x = a") auto
next
  fix x assume "s_reqs s x = None"
  then show "s_reqs s' x = None" using assms(1,2) by (cases "x = a") auto
qed

section \<open>The answer\<close>

text \<open>The request leaves the table.\<close>

lemma answered_inv:
  assumes i: "srv_inv s m mf X" and q: "s_reqs s r = Some q" "\<not> r_responded q" "r_oldreq q = None"
    and rm: "removereq (ucast (f_tag (r_ifcall q))) s = (v, s1)" "unlessnil (closereq n) v s1 = Some s2"
    and s3: "updreq r (\<lambda>q. q\<lparr>r_responded := True\<rparr>) (logev (Sent (ucast (f_tag (r_ifcall q)))) (s2\<lparr>s_out := b\<rparr>)) = Some s3"
  shows "srv_inv s3 (m(r_tag q := None)) mf (X(r := X r + 1))
    \<and> s_reqs s3 = (s_reqs s)(r := Some (q\<lparr>r_ref := r_ref q - 1, r_responded := True\<rparr>)) \<and> msgs s3 = msgs s @ [Sent (r_tag q)]
    \<and> s_out s3 = b \<and> s_out s2 = s_out s"
proof -
  have ri: "reqs_inv s m X" and fi: "fid_inv (s_fpool s) (hold s) mf" using i by (auto simp: srv_inv_def)
  note d = reqs_invD [OF ri]
  note o = req_okD [OF d(3) [OF q(1)]]
  let ?q = "q\<lparr>r_ref := r_ref q - 1, r_responded := True\<rparr>"
  have mr: "m (r_tag q) = Some r" using o(5) q(2) .
  have rk: "fst (deletekey (s_rmap s) (r_tag q)) = Some r" "im_rep (snd (deletekey (s_rmap s) (r_tag q))) (m(r_tag q := None))"
    using intmap.rep_del [OF d(1), of "r_tag q"] mr by auto
  have s1: "v = Some r" "s1 = s\<lparr>s_rmap := snd (deletekey (s_rmap s) (r_tag q))\<rparr>"
    using rm(1) rk(1) o(2) by (auto simp: removereq_def split: prod.splits)
  obtain k where n: "n = Suc k" using rm(2) s1(1) by (cases n) (auto simp: unlessnil_def)
  have "r_ref q - 1 \<noteq> 0" using o(3) q(2) by simp
  then have s2: "s2 = s1\<lparr>s_reqs := (s_reqs s)(r := Some (q\<lparr>r_ref := r_ref q - 1\<rparr>))\<rparr>"
    using rm(2) q(1) by (simp add: s1 unlessnil_def n updreq_def)
  have R: "s_reqs s3 = (s_reqs s)(r := Some ?q)" "msgs s3 = msgs s @ [Sent (r_tag q)]" "s_fpool s3 = s_fpool s"
      "s_rmap s3 = snd (deletekey (s_rmap s) (r_tag q))" "s_out s3 = b" "s_out s2 = s_out s"
    using s3 o(2) by (auto simp: updreq_def s2 s1)
  have fl: "flushers s3 a = flushers s a" for a by (rule flushers_same [OF d(2) q(1) R(1)]) simp
  have qd: "queued s a x \<Longrightarrow> queued s3 a x" for a x using q by (auto simp: queued_def R(1))
  have "reqs_inv s3 (m(r_tag q := None)) (X(r := X r + 1))"
  proof (rule reqs_invI)
    show "req_ok s3 (m(r_tag q := None)) ((X(r := X r + 1)) a) a z" if "s_reqs s3 a = Some z" for a z
    proof (cases "a = r")
      case True
      then show ?thesis using that o(1-4) q(2,3) unfolding req_ok_def by (auto simp: R(1) fl)
    next
      case False
      then have z: "s_reqs s a = Some z" using that by (simp add: R(1))
      have "\<not> r_responded z \<Longrightarrow> r_tag z \<noteq> r_tag q" using req_okD(5) [OF d(3) [OF z]] mr False by auto
      then show ?thesis using d(3) [OF z] False qd unfolding req_ok_def fl by (auto simp: R(1))
    qed
    show "im_rep (s_rmap s3) (m(r_tag q := None))" using rk(2) R(4) by simp
    show "finite (dom (s_reqs s3))" using d(2) by (simp add: R(1))
    show "(X(r := X r + 1)) a = 0" if "s_reqs s3 a = None" for a using that d(4) [of a] by (auto simp: R(1) split: if_splits)
    show "\<exists>z. s_reqs s3 a = Some z \<and> r_tag z = k \<and> \<not> r_responded z" if k: "(m(r_tag q := None)) k = Some a" for k a
    proof -
      have "m k = Some a" "k \<noteq> r_tag q" using k by (auto split: if_splits)
      then show ?thesis using d(5) [of k a] q(1) by (auto simp: R(1))
    qed
    show "count_list (msgs s3) (Recv k) = count_list (msgs s3) (Sent k) + (if (m(r_tag q := None)) k = None then 0 else 1)" for k
      using d(6) [of k] mr by (auto simp: R(2))
  qed
  moreover have "hold s3 = hold s" by (rule hold_same [OF d(2) q(1) R(1)]) simp
  ultimately show ?thesis using fi R(1-3,5,6) by (simp add: srv_inv_def)
qed

text \<open>Closing fids does not look at the requests.\<close>

lemma ontree_reqs: "ontree g (s\<lparr>s_reqs := R\<rparr>) = map_option (\<lambda>(s', v). (s'\<lparr>s_reqs := R\<rparr>, v)) (ontree g s)"
  by (cases "s_tree s") (auto simp: ontree_def split: option.splits bind_splits)

lemma fidevent_reqs: "fidevent e (s\<lparr>s_reqs := R\<rparr>) = map_option (\<lambda>s'. s'\<lparr>s_reqs := R\<rparr>) (fidevent e s)"
  by (cases e) (simp_all add: ontree_reqs option.map_comp comp_def split_beta logev_def)

lemma fidevents_reqs: "fidevents p (s\<lparr>s_reqs := R\<rparr>) = map_option (\<lambda>s'. s'\<lparr>s_reqs := R\<rparr>) (fidevents p s)"
proof -
  have f: "fold (\<lambda>e s. s \<bind> fidevent e) es (map_option (\<lambda>s'. s'\<lparr>s_reqs := R\<rparr>) r) = map_option (\<lambda>s'. s'\<lparr>s_reqs := R\<rparr>) (fold (\<lambda>e s. s \<bind> fidevent e) es r)" for es r
  proof (induction es arbitrary: r)
    case (Cons e es)
    have "map_option (\<lambda>s'. s'\<lparr>s_reqs := R\<rparr>) r \<bind> fidevent e = map_option (\<lambda>s'. s'\<lparr>s_reqs := R\<rparr>) (r \<bind> fidevent e)"
      by (cases r) (simp_all add: fidevent_reqs)
    then show ?case using Cons.IH by simp
  qed simp
  have e: "s\<lparr>s_reqs := R, s_fpool := q\<rparr> = s\<lparr>s_fpool := q, s_reqs := R\<rparr>" for q by (cases s) simp
  show ?thesis unfolding fidevents_def e using f [of "fp_log p" "Some (s\<lparr>s_fpool := p\<lparr>fp_log := []\<rparr>\<rparr>)"] by simp
qed

lemma closefid_s_reqs: "closefid_s a (s\<lparr>s_reqs := R\<rparr>) = map_option (\<lambda>s'. s'\<lparr>s_reqs := R\<rparr>) (closefid_s a s)"
proof (cases a)
  case (Some b)
  then show ?thesis by (cases "closefid b ((s_fpool s)\<lparr>fp_log := []\<rparr>)") (simp_all add: closefid_s_def fidevents_reqs)
qed (simp add: closefid_s_def)

lemma closefids_reqs: "closefids q (s\<lparr>s_reqs := R\<rparr>) = map_option (\<lambda>s'. s'\<lparr>s_reqs := R\<rparr>) (closefids q s)"
proof -
  have u: "unlessnil (\<lambda>a. closefid_s (Some a)) v (s\<lparr>s_reqs := R\<rparr>) = map_option (\<lambda>s'. s'\<lparr>s_reqs := R\<rparr>) (unlessnil (\<lambda>a. closefid_s (Some a)) v s)" for v s
    by (cases v) (simp_all add: unlessnil_def closefid_s_reqs)
  show ?thesis unfolding closefids_def u
    by (cases "unlessnil (\<lambda>a. closefid_s (Some a)) (r_fid q) s") (simp_all add: u split: bind_splits)
qed

text \<open>Giving up a request that waits for nothing commutes with a change of another one.\<close>

lemma closereq_other:
  assumes b: "s_reqs s b = Some z" "b \<noteq> r" "r_ref z = 1 \<Longrightarrow> r_flush z = [] \<and> r_oldreq z = None"
  shows "closereq n b (s\<lparr>s_reqs := (s_reqs s)(r := Some q')\<rparr>) = map_option (\<lambda>s'. s'\<lparr>s_reqs := (s_reqs s')(r := Some q')\<rparr>) (closereq n b s)"
proof (cases n)
  case (Suc k)
  have sw: "f(r := Some q', b := v) = f(b := v, r := Some q')" for f :: "nat \<Rightarrow> req option" and v by (rule fun_upd_twist) (use b(2) in simp)
  show ?thesis
  proof (cases "r_ref z = 1")
    case False
    then show ?thesis using b by (simp add: Suc updreq_def sw)
  next
    case True
    let ?z = "z\<lparr>r_ref := 0\<rparr>"
    let ?R = "(s_reqs s)(b := Some ?z)"
    have c: "closefids ?z (s\<lparr>s_reqs := ?R(r := Some q')\<rparr>) = map_option (\<lambda>s'. s'\<lparr>s_reqs := ?R(r := Some q')\<rparr>) (closefids ?z s)"
        "closefids ?z (s\<lparr>s_reqs := ?R\<rparr>) = map_option (\<lambda>s'. s'\<lparr>s_reqs := ?R\<rparr>) (closefids ?z s)"
      by (simp_all only: closefids_reqs)
    show ?thesis using b True
      by (cases "closefids ?z s") (simp_all add: Suc updreq_def sw c unlessnil_def Let_def logev_def)
  qed
qed simp

text \<open>A flush: it waits for its request, or gives it up.\<close>

lemma rflush_inv:
  assumes i: "srv_inv s m mf X" and q: "s_reqs s r = Some q" "\<not> r_responded q"
    and nq: "\<And>b z. r_oldreq q = Some b \<Longrightarrow> s_reqs s b = Some z \<Longrightarrow> \<not> r_responded z \<Longrightarrow> r \<notin> set (r_flush z)"
    and c: "rflush (closereq n) r e s = Some (off, s')"
  shows "srv_inv s' m mf X \<and> frame X {r} s s' \<and> msgs s' = msgs s \<and> s_out s' = s_out s \<and> off \<noteq> settled s (r_oldreq q)
    \<and> (\<not> off \<longrightarrow> s_reqs s' r = Some (q\<lparr>r_oldreq := None\<rparr>))
    \<and> (\<forall>x y. s_reqs s x = Some y \<longrightarrow> \<not> r_responded y \<longrightarrow> (\<exists>z. s_reqs s' x = Some z \<and> r_tag z = r_tag y))"
proof -
  have ri: "reqs_inv s m X" and fi: "fid_inv (s_fpool s) (hold s) mf" using i by (auto simp: srv_inv_def)
  note d = reqs_invD [OF ri]
  note o = req_okD [OF d(3) [OF q(1)]]
  show ?thesis
  proof (cases "r_oldreq q")
    case None
    then have "q\<lparr>r_oldreq := None\<rparr> = q" by simp
    then have "s' = s\<lparr>s_reqs := s_reqs s\<rparr> \<and> \<not> off" using c q None by (auto simp: rflush_def updreq_def fun_upd_idem split: if_splits)
    then show ?thesis using i q None by (auto simp: settled_def)
  next
    case (Some b)
    obtain z where z: "s_reqs s b = Some z" using o(11) [OF Some] by blast
    note oz = req_okD [OF d(3) [OF z]]
    show ?thesis
    proof (cases "r_responded z")
      case False
      let ?z = "z\<lparr>r_flush := r_flush z @ [r]\<rparr>"
      let ?s = "s\<lparr>s_reqs := (s_reqs s)(b := Some ?z)\<rparr>"
      have s': "s' = ?s" "off" using c q Some z False by (auto simp: rflush_def updreq_def split: if_splits)
      have "queued s b r" using q Some by (simp add: queued_def)
      then have "req_ok s m (X b) b ?z"
        using d(3) [OF z] nq [OF Some z False] False unfolding req_ok_def by auto
      then have "reqs_inv ?s m (X(b := X b))" by (intro reqs_inv_upd [OF ri z]) simp_all
      moreover have "hold ?s = hold s" by (rule hold_same [OF d(2) z, of _ ?z]) simp_all
      moreover have "frame X {r} s ?s" by (rule frame_one [OF _ z]) (use False in simp_all)
      moreover have "\<not> settled s (r_oldreq q)" using z False Some by (simp add: settled_def)
      ultimately show ?thesis using fi s' z False by (auto simp: srv_inv_def)
    next
      case True
      have br: "b \<noteq> r" using z q True by auto
      let ?q = "q\<lparr>r_oldreq := None\<rparr>"
      let ?s = "s\<lparr>s_reqs := (s_reqs s)(r := Some ?q)\<rparr>"
      obtain s1 where s1: "closereq n b s = Some s1" "updreq r (\<lambda>q. q\<lparr>r_oldreq := None\<rparr>) s1 = Some s'" "\<not> off"
        using c q Some z True by (auto simp: rflush_def bind_eq_Some_conv split: if_splits)
      have z1: "r_ref z = 1 \<Longrightarrow> r_flush z = [] \<and> r_oldreq z = None"
      proof -
        assume "r_ref z = 1"
        moreover have "1 \<le> flushers s b" using flushers_ge [OF d(2) q(1), of b] Some by (simp add: one_def)
        ultimately have "X b = 0" using oz(3) True by simp
        then show ?thesis using oz(8,9) True by simp
      qed
      have c': "closereq n b ?s = Some (s1\<lparr>s_reqs := (s_reqs s1)(r := Some ?q)\<rparr>)"
        using closereq_other [OF z br z1, of n ?q] s1(1) by simp
      have fl: "flushers ?s a + one (Some b) a = flushers s a" for a
        using flushers_upd [OF d(2) q(1), of ?s ?q a] Some by (simp add: one_def)
      have qd: "queued s a x \<Longrightarrow> a \<noteq> b \<Longrightarrow> queued ?s a x" for a x using q Some by (auto simp: queued_def)
      have "reqs_inv ?s m (X(b := X b + 1))"
      proof (rule reqs_invI)
        show "req_ok ?s m ((X(b := X b + 1)) a) a w" if w: "s_reqs ?s a = Some w" for a w
        proof -
          consider "a = r" | "a = b" | "a \<noteq> r" "a \<noteq> b" by blast
          then show ?thesis
          proof cases
            case 1
            then show ?thesis using w d(3) [OF q(1)] br qd fl [of r] unfolding req_ok_def by (auto simp: one_def)
          next
            case 2
            then show ?thesis using w z br oz True fl [of b] unfolding req_ok_def by (auto simp: one_def)
          next
            case 3
            then have "s_reqs s a = Some w" using w by simp
            from d(3) [OF this] show ?thesis using 3 qd fl [of a] unfolding req_ok_def by (auto simp: one_def)
          qed
        qed
        show "(X(b := X b + 1)) a = 0" if "s_reqs ?s a = None" for a using that d(4) [of a] z by (auto split: if_splits)
        show "\<exists>w. s_reqs ?s a = Some w \<and> r_tag w = k \<and> \<not> r_responded w" if "m k = Some a" for k a
          using d(5) [OF that] q by auto
      qed (use d(1,2,6) in simp_all)
      moreover have "hold ?s = hold s" by (rule hold_same [OF d(2) q(1), of _ ?q]) simp_all
      ultimately have i1: "srv_inv ?s m mf (X(b := X b + 1))" using fi by (simp add: srv_inv_def)
      have zs: "s_reqs ?s b = Some z" using z br by simp
      note C = closereq_inv [OF i1 zs _ _ c']
      have fl0: "r_flush z = []" if "(X(b := X b + 1)) b = 1" using that oz(9) True by simp
      have C': "srv_inv (s1\<lparr>s_reqs := (s_reqs s1)(r := Some ?q)\<rparr>) m mf X" "msgs (s1\<lparr>s_reqs := (s_reqs s1)(r := Some ?q)\<rparr>) = msgs s"
          "s_out s1 = s_out s"
          "\<forall>a. a \<noteq> b \<longrightarrow> ((s_reqs s1)(r := Some ?q)) a = ((s_reqs s)(r := Some ?q)) a"
          "s_reqs s1 b = Some (z\<lparr>r_ref := r_ref z - 1\<rparr>) \<or> s_reqs s1 b = None \<and> X b = 0"
        using C fl0 br by auto
      have cr: "s_reqs s1 r = Some q"
      proof -
        have "s1 = s1\<lparr>s_reqs := (s_reqs s1)(r := Some q)\<rparr>"
          using closereq_other [OF z br z1, of n q] s1(1) q(1) by (simp add: fun_upd_idem)
        from arg_cong [OF this, of "\<lambda>s. s_reqs s r"] show ?thesis by simp
      qed
      have s': "s' = s1\<lparr>s_reqs := (s_reqs s1)(r := Some ?q)\<rparr>" using s1(2) cr by (simp add: updreq_def)
      have "frame X {r} s s'"
      proof -
        have f1: "frame X {r} s ?s" by (rule frame_one [OF _ q(1)]) (use q in simp_all)
        have f2: "frame X {r} ?s s'"
        proof (rule frame_one [OF _ zs])
          show "\<forall>a. a \<noteq> b \<longrightarrow> s_reqs s' a = s_reqs ?s a" using C'(4) s' by simp
        qed (use C'(5) True br s' in auto)
        show ?thesis using frame_trans [OF f1 f2 i1] by simp
      qed
      moreover have "\<exists>w. s_reqs s' x = Some w \<and> r_tag w = r_tag y" if y: "s_reqs s x = Some y" "\<not> r_responded y" for x y
      proof (cases "x = r")
        case True
        then show ?thesis using y(1) q(1) s' by simp
      next
        case False
        have "x \<noteq> b" using y z \<open>r_responded z\<close> by auto
        then have "s_reqs s' x = s_reqs s x" using spec [OF C'(4), of x] False s' by simp
        then show ?thesis using y(1) by simp
      qed
      moreover have "settled s (r_oldreq q)" using Some z True by (simp add: settled_def)
      ultimately show ?thesis using C'(1-3) s' s1(3) by simp
    qed
  qed
qed

section \<open>respond keeps the invariant\<close>

text \<open>A reply starts with its length, its type, which is the request's plus one or that of an error, and the request's tag.\<close>

definition reply_of :: "req \<Rightarrow> bytes \<Rightarrow> bool" where
  "reply_of q msg \<longleftrightarrow> (\<exists>t (n :: uint). t \<in> {f_type (r_ifcall q) + 1, Rerror} \<and> length msg = unat n \<and> 2 < sint n
     \<and> take 7 msg = take (unat n) (PBIT32 n @ PBIT8 t @ PBIT16 (f_tag (r_ifcall q))))"

lemma encode_upd:
  assumes e: "encode_reply r s = Some (msg, s')" and q: "s_reqs s r = Some q"
  shows "\<exists>oc. updreq r (\<lambda>q. q\<lparr>r_ofcall := oc\<rparr>) s = Some s' \<and> reply_of q msg"
proof -
  let ?oc = "(r_ofcall q)\<lparr>f_tag := f_tag (r_ifcall q), f_type := f_type (r_ifcall q) + 1\<rparr>"
  let ?of = "if r_error q \<noteq> None then setfcallerror (r_error q) ?oc else ?oc"
  define oc where "oc = ?of"
  have c: "(do { s \<leftarrow> updreq r (\<lambda>q. q\<lparr>r_ofcall := oc\<rparr>) s; let (n, wbuf) = convS2M oc (replicate (unat (s_msize s)) 0) (s_msize s);
      if sint n \<le> 0 then None else if sint n \<le> 2 then None else Some (take (unat n) wbuf, s) }) = Some (msg, s')"
    using e unfolding encode_reply_def q bind.bind_lunit oc_def by (simp only: Let_def)
  obtain s1 where s1: "updreq r (\<lambda>q. q\<lparr>r_ofcall := oc\<rparr>) s = Some s1" using c by (cases "updreq r (\<lambda>q. q\<lparr>r_ofcall := oc\<rparr>) s") auto
  obtain n w where n: "convS2M oc (replicate (unat (s_msize s1)) 0) (s_msize s1) = (n, w)" by fastforce
  have k: "2 < sint n" "take (unat n) w = msg" "s1 = s'" using c s1 n by (auto split: if_splits)
  then have "n \<noteq> 0" by auto
  note h = convS2M_header [OF n this]
  have "length msg = unat n" using h(2,3) k(2) by (auto simp: word_le_nat_alt min_def)
  moreover have "take 7 msg = take (unat n) (take 7 w)" unfolding k(2) [symmetric] by (simp add: min.commute)
  moreover have "f_tag oc = f_tag (r_ifcall q)" "f_type oc \<in> {f_type (r_ifcall q) + 1, Rerror}" by (auto simp: oc_def setfcallerror_def)
  ultimately have "reply_of q msg" unfolding reply_of_def using k(1) by (intro exI [of _ "f_type oc"] exI [of _ n]) (simp add: h(1))
  then show ?thesis using s1 k(3) by blast
qed

lemma encode_keep: "encode_reply r s = Some (msg, s') \<Longrightarrow> keep s s' \<and> s_fpool s' = s_fpool s"
proof -
  assume e: "encode_reply r s = Some (msg, s')"
  then obtain q where q: "s_reqs s r = Some q" by (auto simp: encode_reply_def bind_eq_Some_conv)
  obtain oc where "updreq r (\<lambda>q. q\<lparr>r_ofcall := oc\<rparr>) s = Some s'" using encode_upd [OF e q] by blast
  then show ?thesis by (rule updreq_keep [rotated]) simp
qed

lemma keep_inv: "keep s s' \<Longrightarrow> s_fpool s' = s_fpool s \<Longrightarrow> srv_inv s m mf X \<Longrightarrow> srv_inv s' m mf X"
proof -
  assume a: "keep s s'" "s_fpool s' = s_fpool s" "srv_inv s m mf X"
  have "same_core s s'" using a(1) by (simp add: keep_def)
  then show ?thesis using reqs_inv_core keep_hold [OF a(1)] a(2,3) by (auto simp: srv_inv_def)
qed

text \<open>
  What is sent: nothing for a flush that has to wait; otherwise the reply, and then the replies to the flushes that
  waited for it.
\<close>

definition sent :: "req \<Rightarrow> srv \<Rightarrow> bytes \<Rightarrow> sevent list \<Rightarrow> bool" where
  "sent q s b l \<longleftrightarrow> (\<exists>msg b'. b = msg @ b' \<and> reply_of q msg)
     \<and> (\<exists>l'. l = Sent (r_tag q) # l' \<and> (\<forall>x \<in> set (r_flush q). \<forall>y. s_reqs s x = Some y \<longrightarrow> Sent (r_tag y) \<in> set l'))"

definition adds :: "srv \<Rightarrow> srv \<Rightarrow> bytes \<Rightarrow> sevent list \<Rightarrow> bool" where
  "adds s s' b l \<longleftrightarrow> s_out s' = s_out s @ b \<and> msgs s' = msgs s @ l"

definition replied :: "req \<Rightarrow> srv \<Rightarrow> srv \<Rightarrow> bool" where
  "replied q s s' \<longleftrightarrow> (\<exists>b l. adds s s' b l \<and> (if settled s (r_oldreq q) then sent q s b l else b = [] \<and> l = []))"

text \<open>The flushes that wait for an answered request are answered one after the other.\<close>

lemma flushes_inv:
  assumes IH: "\<And>s m mf X f q s'. srv_inv s m mf X \<Longrightarrow> s_reqs s f = Some q \<Longrightarrow> \<not> r_responded q \<Longrightarrow> settled s (r_oldreq q)
      \<Longrightarrow> respond n f None s = Some s' \<Longrightarrow> \<exists>m' mf'. srv_inv s' m' mf' X \<and> frame X {f} s s' \<and> replied q s s'"
  shows "srv_inv s m mf X \<Longrightarrow> s_reqs s r = Some z \<Longrightarrow> r_responded z \<Longrightarrow> 0 < X r \<Longrightarrow> distinct fs \<Longrightarrow> \<forall>f \<in> set fs. queued s r f
    \<Longrightarrow> fold (\<lambda>f s. s \<bind> respond n f None) fs (Some s) = Some s' \<Longrightarrow> \<exists>m' mf'. srv_inv s' m' mf' X \<and> frame X (set fs) s s'
      \<and> (\<exists>b l. adds s s' b l \<and> (\<forall>f \<in> set fs. \<forall>y. s_reqs s f = Some y \<longrightarrow> Sent (r_tag y) \<in> set l))"
proof (induction fs arbitrary: s m mf z)
  case (Cons f fs)
  obtain s1 where s1: "respond n f None s = Some s1" "fold (\<lambda>f s. s \<bind> respond n f None) fs (Some s1) = Some s'"
  proof (cases "respond n f None s")
    case None
    have "fold (\<lambda>f s. s \<bind> respond n f None) fs None = None" by (induction fs) auto
    then show ?thesis using Cons.prems(7) None by simp
  qed (use Cons.prems(7) in simp)
  obtain q where q: "s_reqs s f = Some q" "\<not> r_responded q" "r_oldreq q = Some r"
    using Cons.prems(6) unfolding queued_def by (meson list.set_intros(1))
  have se: "settled s (Some r)" using Cons.prems(2,3) by (simp add: settled_def)
  obtain m1 mf1 where i1: "srv_inv s1 m1 mf1 X" "frame X {f} s s1" "replied q s s1"
    using IH [OF Cons.prems(1) q(1,2) _ s1(1)] se q(3) by auto
  obtain b1 l1 where b1: "adds s s1 b1 l1" "Sent (r_tag q) \<in> set l1" using i1(3) se q(3) by (auto simp: replied_def sent_def)
  obtain z1 where z1: "s_reqs s1 r = Some z1" "r_responded z1" using frameD(1) [OF i1(2) Cons.prems(2,3,4)] by blast
  have nxt: "queued s1 r g \<and> (\<forall>y. s_reqs s g = Some y \<longrightarrow> (\<exists>y1. s_reqs s1 g = Some y1 \<and> r_tag y1 = r_tag y))" if g: "g \<in> set fs" for g
  proof -
    obtain y where y: "s_reqs s g = Some y" "\<not> r_responded y" "r_oldreq y = Some r"
      using Cons.prems(6) g unfolding queued_def by (meson list.set_intros(2))
    have "g \<notin> {f}" using g Cons.prems(5) by auto
    then show ?thesis using frameD(2) [OF i1(2) y(1,2)] y(1,3) se by (auto simp: queued_def)
  qed
  then have "\<exists>m' mf'. srv_inv s' m' mf' X \<and> frame X (set fs) s1 s' \<and> (\<exists>b l. adds s1 s' b l \<and> (\<forall>f \<in> set fs. \<forall>y. s_reqs s1 f = Some y \<longrightarrow> Sent (r_tag y) \<in> set l))"
    by (intro Cons.IH [OF i1(1) z1 Cons.prems(4) _ _ s1(2)]) (use Cons.prems(5) in auto)
  then obtain m' mf' b l where r: "srv_inv s' m' mf' X" "frame X (set fs) s1 s'" "adds s1 s' b l"
      "\<forall>f \<in> set fs. \<forall>y. s_reqs s1 f = Some y \<longrightarrow> Sent (r_tag y) \<in> set l" by blast
  have ad: "adds s s' (b1 @ b) (l1 @ l)" using b1(1) r(3) by (simp add: adds_def)
  have al: "\<forall>g \<in> set (f # fs). \<forall>y. s_reqs s g = Some y \<longrightarrow> Sent (r_tag y) \<in> set (l1 @ l)"
  proof (intro ballI allI impI)
    fix g y assume g: "g \<in> set (f # fs)" "s_reqs s g = Some y"
    show "Sent (r_tag y) \<in> set (l1 @ l)"
    proof (cases "g = f")
      case True
      then show ?thesis using g(2) q(1) b1(2) by simp
    next
      case False
      then obtain y1 where "g \<in> set fs" "s_reqs s1 g = Some y1" "r_tag y1 = r_tag y" using nxt g by auto
      then show ?thesis using r(4) by force
    qed
  qed
  have fr: "frame X (set (f # fs)) s s'" using frame_trans [OF i1(2) r(2) i1(1)] by simp
  show ?case using r(1) fr ad al by blast
qed (auto simp: adds_def)

text \<open>The rest of \<open>respond\<close>, when the answer is not put off.\<close>

lemma finish_inv:
  assumes IH: "\<And>s m mf X f q s'. srv_inv s m mf X \<Longrightarrow> s_reqs s f = Some q \<Longrightarrow> \<not> r_responded q \<Longrightarrow> settled s (r_oldreq q)
      \<Longrightarrow> respond k f None s = Some s' \<Longrightarrow> \<exists>m' mf'. srv_inv s' m' mf' X \<and> frame X {f} s s' \<and> replied q s s'"
    and i: "srv_inv s m mf X" and q: "s_reqs s r = Some q" "\<not> r_responded q" "r_oldreq q = None" "f_tag (r_ifcall q) = tg"
    and rest: "(do {
         (msg, s) \<leftarrow> encode_reply r s;
         s \<leftarrow> (let (v, s) = removereq (ucast tg) s in unlessnil (closereq k) v s);
         let s = logev (Sent (ucast tg)) (s\<lparr>s_out := s_out s @ msg\<rparr>);
         s \<leftarrow> updreq r (\<lambda>q. q\<lparr>r_responded := True\<rparr>) s;
         q \<leftarrow> s_reqs s r;
         s \<leftarrow> fold (\<lambda>f s. s \<bind> respond k f None) (r_flush q) (Some s);
         s \<leftarrow> updreq r (\<lambda>q. q\<lparr>r_flush := []\<rparr>) s;
         if r_pool q then closereq k r s else Some (s\<lparr>s_reqs := (s_reqs s)(r := None)\<rparr>) }) = Some s'"
  shows "\<exists>m' mf'. srv_inv s' m' mf' X \<and> frame X {r} s s' \<and> replied q s s'"
proof -
  obtain msg s3 where s3: "encode_reply r s = Some (msg, s3)" using rest by (auto simp: bind_eq_Some_conv)
  note k3 = encode_keep [OF s3]
  have oc: "reply_of q msg" using encode_upd [OF s3 q(1)] by blast
  have i3: "srv_inv s3 m mf X" using keep_inv k3 i by blast
  obtain q3 where q3: "s_reqs s3 r = Some q3" "core q = core q3"
    using same_coreD [OF same_core_sym, of s s3 r q] k3 q(1) by (auto simp: keep_def)
  have q3': "\<not> r_responded q3" "r_oldreq q3 = None" "f_tag (r_ifcall q3) = tg" "r_flush q3 = r_flush q" using q3(2) q by (auto simp: core_def)
  have ok3: "req_ok s3 m (X r) r q3" using i3 reqs_invD(3) q3(1) by (auto simp: srv_inv_def)
  obtain v s4 where s4: "removereq (ucast (f_tag (r_ifcall q3))) s3 = (v, s4)" by fastforce
  obtain s5 where s5: "unlessnil (closereq k) v s4 = Some s5"
    using rest s3 s4 q3'(3) by (auto simp: bind_eq_Some_conv)
  obtain s6 where s6: "updreq r (\<lambda>q. q\<lparr>r_responded := True\<rparr>) (logev (Sent (ucast (f_tag (r_ifcall q3)))) (s5\<lparr>s_out := s_out s5 @ msg\<rparr>)) = Some s6"
    using rest s3 s4 s5 q3'(3) by (auto simp: bind_eq_Some_conv Let_def)
  let ?X = "X(r := X r + 1)"
  let ?q6 = "q3\<lparr>r_ref := r_ref q3 - 1, r_responded := True\<rparr>"
  note A = answered_inv [OF i3 q3(1) q3'(1,2) s4 s5 s6]
  have i6: "srv_inv s6 (m(r_tag q3 := None)) mf ?X" using A by blast
  have q6: "s_reqs s6 = (s_reqs s3)(r := Some ?q6)" using A by blast
  obtain s7 where s7: "fold (\<lambda>f s. s \<bind> respond k f None) (r_flush q3) (Some s6) = Some s7"
      "updreq r (\<lambda>q. q\<lparr>r_flush := []\<rparr>) s7 \<bind> closereq k r = Some s'"
    using rest s3 s4 s5 s6 q3'(3) q6 req_okD(1) [OF ok3] by (auto simp: bind_eq_Some_conv Let_def)
  have qd: "\<forall>f \<in> set (r_flush q3). queued s6 r f"
  proof
    fix f assume "f \<in> set (r_flush q3)"
    then have "queued s3 r f" using req_okD(7) [OF ok3 q3'(1)] by blast
    then show "queued s6 r f" using q3(1) q3'(2) by (auto simp: queued_def q6)
  qed
  have r6: "s_reqs s6 r = Some ?q6" using q6 by simp
  obtain m7 mf7 b7 l7 where i7: "srv_inv s7 m7 mf7 ?X" "frame ?X (set (r_flush q3)) s6 s7" "adds s6 s7 b7 l7"
      "\<forall>f \<in> set (r_flush q3). \<forall>y. s_reqs s6 f = Some y \<longrightarrow> Sent (r_tag y) \<in> set l7"
  proof -
    have "\<exists>m' mf'. srv_inv s7 m' mf' ?X \<and> frame ?X (set (r_flush q3)) s6 s7
        \<and> (\<exists>b l. adds s6 s7 b l \<and> (\<forall>f \<in> set (r_flush q3). \<forall>y. s_reqs s6 f = Some y \<longrightarrow> Sent (r_tag y) \<in> set l))"
      by (rule flushes_inv [OF _ i6 r6 _ _ req_okD(6) [OF ok3 q3'(1)] qd s7(1)]) (erule IH, simp_all)
    then show ?thesis using that by blast
  qed
  obtain q7 where q7: "s_reqs s7 r = Some q7" "r_responded q7" using frameD(1) [OF i7(2) r6] by auto
  let ?q8 = "q7\<lparr>r_flush := []\<rparr>"
  let ?s8 = "s7\<lparr>s_reqs := (s_reqs s7)(r := Some ?q8)\<rparr>"
  have s8: "closereq k r ?s8 = Some s'" using s7(2) q7(1) by (simp add: updreq_def)
  have ri7: "reqs_inv s7 m7 ?X" using i7(1) by (simp add: srv_inv_def)
  note d7 = reqs_invD [OF ri7]
  have "req_ok s7 m7 (X r + 1) r ?q8" using d7(3) [OF q7(1)] q7(2) by (simp add: req_ok_def)
  then have "reqs_inv ?s8 m7 (?X(r := X r + 1))" by (intro reqs_inv_upd [OF ri7 q7(1)]) simp_all
  moreover have "hold ?s8 = hold s7" by (rule hold_same [OF d7(2) q7(1), of _ ?q8]) simp_all
  ultimately have i8: "srv_inv ?s8 m7 mf7 ?X" using i7(1) by (simp add: srv_inv_def)
  have r8: "s_reqs ?s8 r = Some ?q8" by simp
  have x8: "0 < ?X r" by simp
  have C: "srv_inv s' m7 mf7 (?X(r := ?X r - 1)) \<and> msgs s' = msgs ?s8 \<and> s_out s' = s_out ?s8 \<and> (\<forall>b. b \<noteq> r \<longrightarrow> s_reqs s' b = s_reqs ?s8 b)
      \<and> (s_reqs s' r = Some (?q8\<lparr>r_ref := r_ref ?q8 - 1\<rparr>) \<or> s_reqs s' r = None \<and> r_responded ?q8 \<and> ?X r = 1)"
    by (rule closereq_inv [OF i8 r8 x8 _ s8]) simp
  have X: "?X(r := ?X r - 1) = X" by (rule ext) simp
  have rep: "replied q s s'"
  proof -
    have s6o: "s_out s6 = s_out s @ msg" using A k3 by (simp add: keep_def)
    have ad: "adds s s' (msg @ b7) (Sent (r_tag q) # l7)" using C i7(3) s6o A k3 q3(2) by (auto simp: adds_def keep_def same_core_def core_def)
    have "\<forall>x \<in> set (r_flush q). \<forall>y. s_reqs s x = Some y \<longrightarrow> Sent (r_tag y) \<in> set l7"
    proof (intro ballI allI impI)
      fix x y assume x: "x \<in> set (r_flush q)" "s_reqs s x = Some y"
      obtain y3 where y3: "s_reqs s3 x = Some y3" "core y = core y3"
        using same_coreD [OF same_core_sym, of s s3 x y] k3 x(2) by (auto simp: keep_def)
      have "x \<noteq> r" using qd x(1) q3'(4) r6 by (auto simp: queued_def)
      then show "Sent (r_tag y) \<in> set l7" using i7(4) x(1) q3'(4) y3 by (auto simp: q6 core_def)
    qed
    then have "sent q s (msg @ b7) (Sent (r_tag q) # l7)" using oc unfolding sent_def by blast
    then show ?thesis using ad q(3) unfolding replied_def by (auto simp: settled_def)
  qed
  have "frame X {r} s s'"
    unfolding frame_def
  proof (intro conjI allI impI)
    fix x y assume y: "s_reqs s x = Some y" "r_responded y" "0 < X x"
    have xr: "x \<noteq> r" using y q by auto
    obtain y3 where y3: "s_reqs s3 x = Some y3" "core y = core y3"
      using same_coreD [OF same_core_sym, of s s3 x y] k3 y(1) by (auto simp: keep_def)
    have "s_reqs s6 x = Some y3" using y3(1) xr by (simp add: q6)
    then have "\<exists>z. s_reqs s7 x = Some z \<and> r_responded z \<and> r_flush z = r_flush y3"
      using frameD(1) [OF i7(2), of x y3] y3(2) y(2,3) xr by (simp add: core_def)
    then show "\<exists>z. s_reqs s' x = Some z \<and> r_responded z \<and> r_flush z = r_flush y" using C xr y3(2) by (auto simp: core_def)
  next
    fix x y assume y: "s_reqs s x = Some y" "\<not> r_responded y" "x \<notin> {r}" "settled s (r_oldreq y)"
    obtain y3 where y3: "s_reqs s3 x = Some y3" "core y = core y3"
      using same_coreD [OF same_core_sym, of s s3 x y] k3 y(1) by (auto simp: keep_def)
    have 6: "s_reqs s6 x = Some y3" using y3(1) y(3) by (simp add: q6)
    have nr: "r_oldreq y3 \<noteq> Some r" using y(4) q y3(2) by (auto simp: settled_def core_def)
    have nf: "x \<notin> set (r_flush q3)" using qd 6 nr by (auto simp: queued_def)
    have "settled s6 (r_oldreq y3)" unfolding settled_def
    proof (intro allI impI)
      fix b assume b: "r_oldreq y3 = Some b"
      then obtain z where z: "s_reqs s b = Some z" "r_responded z" using y(4) y3(2) by (auto simp: settled_def core_def)
      obtain z3 where "s_reqs s3 b = Some z3" "core z = core z3"
        using same_coreD [OF same_core_sym, of s s3 b z] k3 z(1) by (auto simp: keep_def)
      then show "\<exists>z. s_reqs s6 b = Some z \<and> r_responded z" using z(2) by (auto simp: q6 core_def)
    qed
    then have "\<exists>z. s_reqs s7 x = Some z \<and> \<not> r_responded z \<and> r_oldreq z = r_oldreq y3 \<and> r_tag z = r_tag y3"
      using frameD(2) [OF i7(2) 6 _ nf] y3(2) y(2) by (simp add: core_def)
    then show "\<exists>z. s_reqs s' x = Some z \<and> \<not> r_responded z \<and> r_oldreq z = r_oldreq y \<and> r_tag z = r_tag y" using C y(3) y3(2) by (auto simp: core_def)
  next
    fix x y z assume y: "s_reqs s x = Some y" "r_responded y" "s_reqs s' x = Some z"
    have xr: "x \<noteq> r" using y q by auto
    obtain y3 where y3: "s_reqs s3 x = Some y3" "core y = core y3"
      using same_coreD [OF same_core_sym, of s s3 x y] k3 y(1) by (auto simp: keep_def)
    have "s_reqs s6 x = Some y3" using y3(1) xr by (simp add: q6)
    then show "r_responded z" using frameD(3) [OF i7(2), of x y3 z] y3(2) y C xr by (simp add: core_def)
  next
    fix x assume n: "s_reqs s x = None"
    then have xr: "x \<noteq> r" using q by auto
    have "s_reqs s3 x = None" using same_coreD [of s s3 x] k3 n by (cases "s_reqs s3 x") (auto simp: keep_def)
    then have "s_reqs s6 x = None" using xr by (simp add: q6)
    then show "s_reqs s' x = None" using frameD(4) [OF i7(2)] C xr by simp
  qed
  then show ?thesis using C X rep by auto
qed

lemma respond_inv:
  "srv_inv s m mf X \<Longrightarrow> s_reqs s r = Some q \<Longrightarrow> \<not> r_responded q
    \<Longrightarrow> (\<And>b z. r_oldreq q = Some b \<Longrightarrow> s_reqs s b = Some z \<Longrightarrow> \<not> r_responded z \<Longrightarrow> r \<notin> set (r_flush z))
    \<Longrightarrow> respond n r e s = Some s' \<Longrightarrow> \<exists>m' mf'. srv_inv s' m' mf' X \<and> frame X {r} s s' \<and> replied q s s'"
proof (induction n arbitrary: s m mf X r q e s')
  case (Suc k)
  note i = Suc.prems(1) and q = Suc.prems(2,3)
  have ok: "req_ok s m (X r) r q" using i reqs_invD(3) q(1) by (auto simp: srv_inv_def)
  note o = req_okD [OF ok]
  let ?q = "q\<lparr>r_error := e\<rparr>"
  let ?s = "s\<lparr>s_reqs := (s_reqs s)(r := Some ?q)\<rparr>"
  have k0: "keep s ?s" "s_fpool ?s = s_fpool s" using updreq_keep [of "\<lambda>q. q\<lparr>r_error := e\<rparr>" r s ?s] q(1) by (simp_all add: updreq_def)
  note i0 = keep_inv [OF k0 i]
  obtain off s2 where a: "answer (closereq k) r e (f_type (r_ifcall q)) ?s = Some (off, s2)"
    using Suc.prems(5) q by (cases "answer (closereq k) r e (f_type (r_ifcall q)) ?s") (auto simp: updreq_def)
  have s2: "off \<Longrightarrow> s' = s2" using Suc.prems(5) q a by (simp add: updreq_def)
  have rest: "\<not> off \<Longrightarrow> (do {
         (msg, s) \<leftarrow> encode_reply r s2;
         s \<leftarrow> (let (v, s) = removereq (ucast (f_tag (r_ifcall q))) s in unlessnil (closereq k) v s);
         let s = logev (Sent (ucast (f_tag (r_ifcall q)))) (s\<lparr>s_out := s_out s @ msg\<rparr>);
         s \<leftarrow> updreq r (\<lambda>q. q\<lparr>r_responded := True\<rparr>) s;
         q \<leftarrow> s_reqs s r;
         s \<leftarrow> fold (\<lambda>f s. s \<bind> respond k f None) (r_flush q) (Some s);
         s \<leftarrow> updreq r (\<lambda>q. q\<lparr>r_flush := []\<rparr>) s;
         if r_pool q then closereq k r s else Some (s\<lparr>s_reqs := (s_reqs s)(r := None)\<rparr>) }) = Some s'"
    using Suc.prems(5) q a o(1) by (simp add: updreq_def [of r "\<lambda>q. q\<lparr>r_error := e\<rparr>"])
  have nq: "r \<notin> set (r_flush z)" if z: "r_oldreq ?q = Some b" "s_reqs ?s b = Some z" "\<not> r_responded z" for b z
  proof (cases "b = r")
    case True
    then show ?thesis using z Suc.prems(4) [of b q] q by auto
  next
    case False
    then show ?thesis using z Suc.prems(4) [of b z] by simp
  qed
  have IH: "\<exists>m' mf'. srv_inv s' m' mf' X \<and> frame X {f} s s' \<and> replied q s s'"
    if "srv_inv s m mf X" "s_reqs s f = Some q" "\<not> r_responded q" "settled s (r_oldreq q)" "respond k f None s = Some s'" for s m mf X f q s'
    by (rule Suc.IH [OF that(1-3) _ that(5)]) (use that(4) in \<open>auto simp: settled_def\<close>)
  have r0: "s_reqs ?s r = Some ?q" by simp
  have se: "settled ?s v \<longleftrightarrow> settled s v" for v using q by (auto simp: settled_def)
  have 2: "\<exists>mf2. srv_inv s2 m mf2 X \<and> frame X {r} ?s s2 \<and> msgs s2 = msgs ?s \<and> s_out s2 = s_out ?s \<and> off \<noteq> settled s (r_oldreq q)
      \<and> (\<not> off \<longrightarrow> (\<exists>q2. s_reqs s2 r = Some q2 \<and> \<not> r_responded q2 \<and> r_oldreq q2 = None
           \<and> f_tag (r_ifcall q2) = f_tag (r_ifcall q) \<and> f_type (r_ifcall q2) = f_type (r_ifcall q) \<and> r_tag q2 = r_tag q \<and> r_flush q2 = r_flush q))
      \<and> (\<forall>x y. s_reqs ?s x = Some y \<longrightarrow> \<not> r_responded y \<longrightarrow> (\<exists>z. s_reqs s2 x = Some z \<and> r_tag z = r_tag y))"
  proof (cases "f_type (r_ifcall q) = Tflush")
    case True
    then have c: "rflush (closereq k) r e ?s = Some (off, s2)" using a by (simp add: answer_def)
    have "srv_inv s2 m mf X \<and> frame X {r} ?s s2 \<and> msgs s2 = msgs ?s \<and> s_out s2 = s_out ?s \<and> off \<noteq> settled ?s (r_oldreq ?q)
        \<and> (\<not> off \<longrightarrow> s_reqs s2 r = Some (?q\<lparr>r_oldreq := None\<rparr>))
        \<and> (\<forall>x y. s_reqs ?s x = Some y \<longrightarrow> \<not> r_responded y \<longrightarrow> (\<exists>z. s_reqs s2 x = Some z \<and> r_tag z = r_tag y))"
      by (rule rflush_inv [OF i0 r0 _ nq c]) (use q(2) in simp_all)
    then show ?thesis using q(2) se by (intro exI [of _ mf]) auto
  next
    case False
    have "post (\<lambda>(off, s'). \<not> off \<and> safe m X ?s s') (answer (closereq k) r e (f_type (r_ifcall q)) ?s)"
      by (rule answer_inv [OF safe_init [OF i0] False])
    then have s: "\<not> off" "safe m X ?s s2" using postD [OF _ a] by auto
    then obtain mf2 where m2: "keep ?s s2" "srv_inv s2 m mf2 X" by (auto simp: safe_def)
    have old: "r_oldreq q = None" using o(10) False by (cases "r_oldreq q") auto
    have c2: "same_core ?s s2" using m2(1) by (simp add: keep_def)
    obtain q2 where "s_reqs s2 r = Some q2" "core ?q = core q2" using same_coreD [OF same_core_sym [OF c2] r0] by auto
    moreover have "\<exists>z. s_reqs s2 x = Some z \<and> r_tag z = r_tag y" if "s_reqs ?s x = Some y" for x y
      using same_coreD [OF same_core_sym [OF c2] that] by (auto simp: core_def)
    moreover have "msgs s2 = msgs ?s" "s_out s2 = s_out ?s" using m2(1) by (simp_all add: keep_def same_core_def)
    ultimately show ?thesis using m2 keep_frame [OF m2(1)] old q(2) s(1) by (auto simp: core_def settled_def)
  qed
  have f0: "frame X {r} s ?s" by (rule keep_frame [OF k0(1)])
  show ?case
  proof (cases off)
    case True
    then show ?thesis using 2 s2 frame_trans [OF f0 _ i0, of "{r}" s2] by (auto simp: replied_def adds_def)
  next
    case False
    then obtain mf2 q2 where m2: "srv_inv s2 m mf2 X" "frame X {r} ?s s2" "s_reqs s2 r = Some q2" "\<not> r_responded q2" "r_oldreq q2 = None"
        "f_tag (r_ifcall q2) = f_tag (r_ifcall q)" and m2': "f_type (r_ifcall q2) = f_type (r_ifcall q)" "r_tag q2 = r_tag q" "r_flush q2 = r_flush q"
        "msgs s2 = msgs s" "s_out s2 = s_out s" "settled s (r_oldreq q)"
        and tg: "\<forall>x y. s_reqs ?s x = Some y \<longrightarrow> \<not> r_responded y \<longrightarrow> (\<exists>z. s_reqs s2 x = Some z \<and> r_tag z = r_tag y)" using 2 by auto
    have "\<exists>m' mf'. srv_inv s' m' mf' X \<and> frame X {r} s2 s' \<and> replied q2 s2 s'"
      by (rule finish_inv [OF _ m2(1,3-6) rest [OF False]]) (erule IH)
    then obtain m' mf' where F: "srv_inv s' m' mf' X" "frame X {r} s2 s'" "replied q2 s2 s'" by blast
    obtain b l where bl: "adds s2 s' b l" "sent q2 s2 b l" using F(3) m2(5) by (auto simp: replied_def settled_def)
    have tags: "\<exists>z. s_reqs s2 x = Some z \<and> r_tag z = r_tag y" if x: "x \<in> set (r_flush q)" "s_reqs s x = Some y" for x y
    proof (cases "x = r")
      case True
      then show ?thesis using m2(3) m2'(2) x(2) q(1) by simp
    next
      case False
      have "\<not> r_responded y" using o(7) [OF q(2) x(1)] x(2) by (auto simp: queued_def)
      then show ?thesis using tg False x(2) by simp
    qed
    have "sent q s b l" unfolding sent_def
    proof (intro conjI)
      show "\<exists>msg b'. b = msg @ b' \<and> reply_of q msg" using bl(2) m2(6) m2'(1) by (simp add: sent_def reply_of_def)
      obtain l' where l': "l = Sent (r_tag q) # l'" "\<forall>x \<in> set (r_flush q). \<forall>y. s_reqs s2 x = Some y \<longrightarrow> Sent (r_tag y) \<in> set l'"
        using bl(2) m2'(2,3) by (auto simp: sent_def)
      have "Sent (r_tag y) \<in> set l'" if x: "x \<in> set (r_flush q)" "s_reqs s x = Some y" for x y
        using tags [OF x] l'(2) x(1) by force
      then show "\<exists>l'. l = Sent (r_tag q) # l' \<and> (\<forall>x \<in> set (r_flush q). \<forall>y. s_reqs s x = Some y \<longrightarrow> Sent (r_tag y) \<in> set l')" using l'(1) by blast
    qed
    moreover have "adds s s' b l" using bl(1) m2'(4,5) by (simp add: adds_def)
    ultimately have "replied q s s'" using m2'(6) by (auto simp: replied_def)
    then show ?thesis using F(1) frame_trans [OF frame_trans [OF f0 m2(2) i0] F(2) m2(1)] by auto
  qed
qed simp

end
