(* ===== verification/Srv_Handlers.thy ===== *)
theory Srv_Handlers
  imports Srv_Respond
begin

text \<open>
  The functions \<^verbatim>\<open>sversion\<close> to \<^verbatim>\<open>swstat\<close> keep the invariant of the server. Between taking a reference to
  a fid and storing it in the request, the reference is owed; a handler ends with none.
\<close>

section \<open>A request that is being handled\<close>

definition owe :: "nat \<Rightarrow> nat option \<times> nat option \<times> nat option \<Rightarrow> nat option \<Rightarrow> srv \<Rightarrow> bool" where
  "owe r F v s \<longleftrightarrow> (\<exists>m mf q. reqs_inv s m (\<lambda>_. 0) \<and> fid_inv (s_fpool s) (\<lambda>a. hold s a + one v a) mf
     \<and> s_reqs s r = Some q \<and> \<not> r_responded q \<and> r_oldreq q = None \<and> fids q = F)"

abbreviation ready :: "nat \<Rightarrow> nat option \<times> nat option \<times> nat option \<Rightarrow> srv \<Rightarrow> bool" where
  "ready r F \<equiv> owe r F None"

text \<open>Between the calls.\<close>

definition idle :: "srv \<Rightarrow> bool" where
  "idle s \<longleftrightarrow> (\<exists>m mf. srv_inv s m mf (\<lambda>_. 0))"

lemma one_None [simp]: "one None a = 0"
  by (simp add: one_def)

lemma readyD:
  assumes "ready r F s"
  shows "\<exists>m mf q. srv_inv s m mf (\<lambda>_. 0) \<and> s_reqs s r = Some q \<and> \<not> r_responded q \<and> r_oldreq q = None \<and> fids q = F"
  using assms by (simp add: owe_def srv_inv_def)

lemma owe_keep:
  assumes o: "owe r F v s" and k: "keep s s'"
    and f: "\<And>mf. fid_inv (s_fpool s) (\<lambda>a. hold s a + one v a) mf \<Longrightarrow> \<exists>mf'. fid_inv (s_fpool s') (\<lambda>a. hold s a + one w a) mf'"
  shows "owe r F w s'"
proof -
  obtain m mf q where i: "reqs_inv s m (\<lambda>_. 0)" "fid_inv (s_fpool s) (\<lambda>a. hold s a + one v a) mf"
      "s_reqs s r = Some q" "\<not> r_responded q" "r_oldreq q = None" "fids q = F"
    using o by (auto simp: owe_def)
  have c: "same_core s s'" using k by (simp add: keep_def)
  obtain q' where q': "s_reqs s' r = Some q'" "core q' = core q" using same_coreD [OF same_core_sym [OF c] i(3)] by blast
  have "map_option fids (s_reqs s' r) = map_option fids (s_reqs s r)" using k by (simp add: keep_def)
  then have "fids q' = F" using q'(1) i(3,6) by simp
  moreover obtain mf' where "fid_inv (s_fpool s') (\<lambda>a. hold s' a + one w a) mf'"
    using f [OF i(2)] unfolding keep_hold [OF k] by blast
  moreover have "reqs_inv s' m (\<lambda>_. 0)" by (rule reqs_inv_core [OF c i(1)])
  moreover have "\<not> r_responded q'" "r_oldreq q' = None" using q'(2) i(4,5) by (simp_all add: core_def)
  ultimately show ?thesis using q'(1) unfolding owe_def by blast
qed

lemma owe_post:
  assumes o: "owe r F v s" and x: "\<And>s' mf. x = Some s' \<Longrightarrow> fid_inv (s_fpool s) (\<lambda>a. hold s a + one v a) mf
      \<Longrightarrow> keep s s' \<and> (\<exists>mf'. fid_inv (s_fpool s') (\<lambda>a. hold s a + one w a) mf')"
    and Q: "\<And>s'. owe r F w s' \<Longrightarrow> Q s'"
  shows "post Q x"
proof (rule postI)
  fix s' assume e: "x = Some s'"
  obtain mf where "fid_inv (s_fpool s) (\<lambda>a. hold s a + one v a) mf" using o by (auto simp: owe_def)
  then have "keep s s'" using x [OF e] by blast
  then have "owe r F w s'" by (rule owe_keep [OF o]) (use x [OF e] in blast)
  then show "Q s'" by (rule Q)
qed

named_theorems hp \<open>rules for post in handlers\<close>

declare post_Some [hp] post_None [hp] post_bind [hp] post_if [hp] post_option [hp] post_prod [hp] post_map [hp] post_Let [hp]
declare safe_getreq [hp] safe_getfid [hp] safe_fileof [hp]

lemma hp_updreq [hp]:
  "owe r F v s \<Longrightarrow> (\<And>q. core (g q) = core q \<and> fids (g q) = fids q) \<Longrightarrow> (\<And>s'. owe r F v s' \<Longrightarrow> Q s') \<Longrightarrow> post Q (updreq a g s)"
proof (erule owe_post)
  fix s' mf assume g: "\<And>q. core (g q) = core q \<and> fids (g q) = fids q" and u: "updreq a g s = Some s'" and f: "fid_inv (s_fpool s) (\<lambda>a. hold s a + one v a) mf"
  show "keep s s' \<and> (\<exists>mf'. fid_inv (s_fpool s') (\<lambda>a. hold s a + one v a) mf')" using updreq_keep [OF g u] f by auto
qed

lemma hp_updfid [hp]:
  "owe r F v s \<Longrightarrow> (\<And>f. fid_fid (g f) = fid_fid f \<and> fid_ref (g f) = fid_ref f) \<Longrightarrow> (\<And>s'. owe r F v s' \<Longrightarrow> Q s') \<Longrightarrow> post Q (updfid a g s)"
proof (erule owe_post)
  fix s' mf assume g: "\<And>f. fid_fid (g f) = fid_fid f \<and> fid_ref (g f) = fid_ref f" and u: "updfid a g s = Some s'"
    and f: "fid_inv (s_fpool s) (\<lambda>a. hold s a + one v a) mf"
  show "keep s s' \<and> (\<exists>mf'. fid_inv (s_fpool s') (\<lambda>a. hold s a + one v a) mf')" using updfid_inv [OF f g u] same_reqs_keep by auto
qed

lemma hp_ontree [hp]: "owe r F v s \<Longrightarrow> (\<And>s' w. owe r F v s' \<Longrightarrow> Q (s', w)) \<Longrightarrow> post Q (ontree g s)"
proof (rule postI)
  fix x assume s: "owe r F v s" and Q: "\<And>s' w. owe r F v s' \<Longrightarrow> Q (s', w)" and o: "ontree g s = Some x"
  obtain s' w where x: "x = (s', w)" by (cases x)
  have "owe r F v s'" by (rule owe_keep [OF s]) (use ontree_same [OF o [unfolded x]] in \<open>auto intro: same_reqs_keep\<close>)
  then show "Q x" using Q x by simp
qed

text \<open>Taking a reference.\<close>

lemma hp_lookupfid [hp]: "ready r F s \<Longrightarrow> (\<And>v s'. owe r F v s' \<Longrightarrow> Q (v, s')) \<Longrightarrow> post Q (lookupfid_s k s)"
proof (rule postI)
  fix x assume s: "ready r F s" and Q: "\<And>v s'. owe r F v s' \<Longrightarrow> Q (v, s')" and o: "lookupfid_s k s = Some x"
  obtain v s' where x: "x = (v, s')" by (cases x)
  obtain mf where "fid_inv (s_fpool s) (hold s) mf" using s by (auto simp: owe_def)
  then have k: "same_reqs s s'" using lookupfid_s_inv o x by blast
  have "owe r F v s'" by (rule owe_keep [OF s same_reqs_keep [OF k]]) (use lookupfid_s_inv [OF _ o [unfolded x]] in force)
  then show "Q x" using Q x by simp
qed

lemma hp_removefid [hp]: "ready r F s \<Longrightarrow> (\<And>v s'. owe r F v s' \<Longrightarrow> post Q (g v s')) \<Longrightarrow> post Q (case removefid_s k s of (v, s) \<Rightarrow> g v s)"
proof -
  assume s: "ready r F s" and Q: "\<And>v s'. owe r F v s' \<Longrightarrow> post Q (g v s')"
  obtain v s' where x: "removefid_s k s = (v, s')" by fastforce
  obtain mf where "fid_inv (s_fpool s) (hold s) mf" using s by (auto simp: owe_def)
  then have k: "same_reqs s s'" using removefid_s_inv x by blast
  have "owe r F v s'" by (rule owe_keep [OF s same_reqs_keep [OF k]]) (use removefid_s_inv [OF _ x] in force)
  then show ?thesis using Q x by simp
qed

lemma hp_allocfid [hp]:
  "ready r F s \<Longrightarrow> fp_fids (s_fpool s) a = None \<Longrightarrow> (\<And>v s'. owe r F v s' \<Longrightarrow> Q (v, s')) \<Longrightarrow> post Q (allocfid_s a k s)"
proof (rule postI)
  fix x assume s: "ready r F s" and a: "fp_fids (s_fpool s) a = None" and Q: "\<And>v s'. owe r F v s' \<Longrightarrow> Q (v, s')" and o: "allocfid_s a k s = Some x"
  obtain v s' where x: "x = (v, s')" by (cases x)
  obtain mf where "fid_inv (s_fpool s) (hold s) mf" using s by (auto simp: owe_def)
  then have k: "same_reqs s s'" using allocfid_s_inv a o x by blast
  have "owe r F v s'" by (rule owe_keep [OF s same_reqs_keep [OF k]]) (use allocfid_s_inv [OF _ a o [unfolded x]] in force)
  then show "Q x" using Q x by simp
qed

lemma hp_incfid:
  "ready r F s \<Longrightarrow> (\<And>s'. owe r F (Some b) s' \<Longrightarrow> Q s') \<Longrightarrow> post Q (updfid (Some b) (\<lambda>f. f\<lparr>fid_ref := fid_ref f + 1\<rparr>) s)"
proof (erule owe_post)
  fix s' mf assume u: "updfid (Some b) (\<lambda>f. f\<lparr>fid_ref := fid_ref f + 1\<rparr>) s = Some s'" and f: "fid_inv (s_fpool s) (\<lambda>a. hold s a + one None a) mf"
  show "keep s s' \<and> (\<exists>mf'. fid_inv (s_fpool s') (\<lambda>a. hold s a + one (Some b) a) mf')"
    using incfid_inv [of s "hold s" mf b s'] f u same_reqs_keep by auto
qed

text \<open>Storing it in the request.\<close>

lemma owe_store:
  assumes o: "owe r F v s" and g: "\<And>q. core (g q) = core q" and F: "\<And>q. fids q = F \<Longrightarrow> fids (g q) = F'"
    and one: "\<And>q a. fids q = F \<Longrightarrow> fidrefs a (g q) = fidrefs a q + one v a" and u: "updreq r g s = Some s'"
  shows "ready r F' s'"
proof -
  obtain m mf q where i: "reqs_inv s m (\<lambda>_. 0)" "fid_inv (s_fpool s) (\<lambda>a. hold s a + one v a) mf"
      "s_reqs s r = Some q" "\<not> r_responded q" "r_oldreq q = None" "fids q = F"
    using o by (auto simp: owe_def)
  have s': "s' = s\<lparr>s_reqs := (s_reqs s)(r := Some (g q))\<rparr>" using u i(3) by (simp add: updreq_def)
  have c: "same_core s s'" using s' i(3) g by (simp add: same_core_def)
  have h: "hold s' a = hold s a + one v a" for a
    using hold_upd [OF reqs_invD(2) [OF i(1)] i(3), of s' "g q" a] one [OF i(6), of a] s' by simp
  have "fid_inv (s_fpool s') (\<lambda>a. hold s' a) mf" unfolding h using i(2) s' by simp
  moreover have "s_reqs s' r = Some (g q)" using s' by simp
  moreover have "\<not> r_responded (g q)" "r_oldreq (g q) = None" using g [of q] i(4,5) by (simp_all add: core_def)
  ultimately show ?thesis using reqs_inv_core [OF c i(1)] F [OF i(6)] unfolding owe_def by auto
qed

lemma hp_fid: "owe r (None, n, a) v s \<Longrightarrow> (\<And>s'. ready r (v, n, a) s' \<Longrightarrow> Q s') \<Longrightarrow> post Q (updreq r (\<lambda>q. q\<lparr>r_fid := v\<rparr>) s)"
proof (rule postI)
  fix s' assume o: "owe r (None, n, a) v s" and Q: "\<And>s'. ready r (v, n, a) s' \<Longrightarrow> Q s'" and u: "updreq r (\<lambda>q. q\<lparr>r_fid := v\<rparr>) s = Some s'"
  show "Q s'" by (rule Q, rule owe_store [OF o _ _ _ u]) (auto simp: fids_def fidrefs_def)
qed

lemma hp_newfid: "owe r (f, None, a) v s \<Longrightarrow> (\<And>s'. ready r (f, v, a) s' \<Longrightarrow> Q s') \<Longrightarrow> post Q (updreq r (\<lambda>q. q\<lparr>r_newfid := v\<rparr>) s)"
proof (rule postI)
  fix s' assume o: "owe r (f, None, a) v s" and Q: "\<And>s'. ready r (f, v, a) s' \<Longrightarrow> Q s'" and u: "updreq r (\<lambda>q. q\<lparr>r_newfid := v\<rparr>) s = Some s'"
  show "Q s'" by (rule Q, rule owe_store [OF o _ _ _ u]) (auto simp: fids_def fidrefs_def)
qed

lemma hp_afid: "owe r (f, n, None) v s \<Longrightarrow> (\<And>s'. ready r (f, n, v) s' \<Longrightarrow> Q s') \<Longrightarrow> post Q (updreq r (\<lambda>q. q\<lparr>r_afid := v\<rparr>) s)"
proof (rule postI)
  fix s' assume o: "owe r (f, n, None) v s" and Q: "\<And>s'. ready r (f, n, v) s' \<Longrightarrow> Q s'" and u: "updreq r (\<lambda>q. q\<lparr>r_afid := v\<rparr>) s = Some s'"
  show "Q s'" by (rule Q, rule owe_store [OF o _ _ _ u]) (auto simp: fids_def fidrefs_def)
qed

lemmas hp_store = hp_fid hp_newfid hp_afid

lemma post_pair: "post Q (h a b) \<Longrightarrow> post Q (case (a, b) of (a, b) \<Rightarrow> h a b)"
  by simp

text \<open>The end of a handler.\<close>

lemma hp_respond [hp]: "ready r F s \<Longrightarrow> post idle (respond n r e s)"
proof (rule postI)
  fix s' assume s: "ready r F s" and c: "respond n r e s = Some s'"
  obtain m mf q where q: "srv_inv s m mf (\<lambda>_. 0)" "s_reqs s r = Some q" "\<not> r_responded q" "r_oldreq q = None" using readyD [OF s] by blast
  then show "idle s'" using respond_inv [OF q(1-3) _ c] by (auto simp: idle_def)
qed

lemma idle_same: "idle s \<Longrightarrow> same_reqs s s' \<Longrightarrow> s_fpool s' = s_fpool s \<Longrightarrow> idle s'"
proof -
  assume i: "idle s" and k: "same_reqs s s'" "s_fpool s' = s_fpool s"
  then show ?thesis unfolding idle_def using keep_inv [OF same_reqs_keep [OF k(1)] k(2)] by blast
qed

lemma hp_pass [hp]: "ready r F s \<Longrightarrow> post idle (pass r s)"
proof -
  assume "ready r F s"
  then have "idle s" using readyD [of r F s] by (auto simp: idle_def)
  then have "idle (logev (Pass r) s)" by (rule idle_same) (simp_all add: same_reqs_def)
  then show ?thesis by (simp add: pass_def post_def)
qed

end
