(* ===== verification/Srv_Steps.thy ===== *)
theory Srv_Steps
  imports Srv_Handlers
begin

text \<open>Every request keeps the invariant of the server; so does everything that the application may do.\<close>

section \<open>The handlers\<close>

lemma hp_fields [hp]:
  "(\<And>x. fid_file f = Some x \<Longrightarrow> QA x) \<Longrightarrow> post QA (fid_file f)" "(\<And>x. fid_rdir f = Some x \<Longrightarrow> QB x) \<Longrightarrow> post QB (fid_rdir f)"
  "(\<And>x. fid_uid f = Some x \<Longrightarrow> QC x) \<Longrightarrow> post QC (fid_uid f)" "(\<And>x. f_uname m = Some x \<Longrightarrow> QC x) \<Longrightarrow> post QC (f_uname m)"
  "(\<And>x. f_version m = Some x \<Longrightarrow> QC x) \<Longrightarrow> post QC (f_version m)"
  by (simp_all add: post_def)

lemma hp_filewalk [hp]: "ready r F s \<Longrightarrow> post idle (filewalk n r s)"
  unfolding filewalk_def by (assumption | (rule hp_store, assumption) | rule post_pair hp | simp)+

lemma hp_oldwalk1: "ready r F s \<Longrightarrow> (\<And>e s'. ready r F s' \<Longrightarrow> Q (e, s')) \<Longrightarrow> post Q (oldwalk1 w a name s)"
  unfolding oldwalk1_def by (assumption | (rule hp_store, assumption) | rule post_pair hp | simp)+

lemma hp_walk1_loop: "ready r F s \<Longrightarrow> (\<And>e s' i e ws. ready r F s' \<Longrightarrow> Q (s', i, e, ws)) \<Longrightarrow> post Q (walk1_loop (oldwalk1 w) a names i ws s)"
proof (induction names arbitrary: i ws s)
  case (Cons name names)
  show ?case
  proof (cases name)
    case (Some nm)
    have "post (\<lambda>x. post Q (case x of (e, s) \<Rightarrow> if e \<noteq> None then Some (s, i, e, ws)
        else getfid a s \<bind> (\<lambda>f. walk1_loop (oldwalk1 w) a names (Suc i) (ws[i := fid_qid f]) s))) (oldwalk1 w a nm s)"
      by (rule hp_oldwalk1 [OF Cons.prems(1)]) (auto intro!: hp Cons.IH Cons.prems(2))
    then show ?thesis by (simp add: Some post_bind)
  qed (simp add: post_def)
qed (simp add: post_def)

lemma hp_walkandclone [hp]: "ready r F s \<Longrightarrow> post idle (walkandclone (oldwalk1 w) c n r s)"
  unfolding walkandclone_def by (assumption | rule hp_walk1_loop post_pair hp | simp)+

lemma hp_sversion: "ready r (None, None, None) s \<Longrightarrow> post idle (sversion n r s)"
  unfolding sversion_def by (assumption | (rule hp_store, assumption) | rule post_pair hp | simp)+

lemma hp_sauth: "ready r (None, None, None) s \<Longrightarrow> fp_fids (s_fpool s) na = None \<Longrightarrow> post idle (sauth na n r s)"
  unfolding sauth_def by (assumption | (rule hp_store, assumption) | rule post_pair hp | simp)+

lemma hp_sattach: "ready r (None, None, None) s \<Longrightarrow> fp_fids (s_fpool s) na = None \<Longrightarrow> post idle (sattach na n r s)"
  unfolding sattach_def by (assumption | (rule hp_store, assumption) | rule post_pair hp | simp)+

lemma hp_sopen: "ready r (None, None, None) s \<Longrightarrow> post idle (sopen na n r s)"
  unfolding sopen_def by (assumption | (rule hp_store, assumption) | rule post_pair hp | simp)+

lemma hp_screate: "ready r (None, None, None) s \<Longrightarrow> post idle (screate n r s)"
  unfolding screate_def by (assumption | (rule hp_store, assumption) | rule post_pair hp | simp)+

lemma hp_sread: "ready r (None, None, None) s \<Longrightarrow> post idle (sread n r s)"
  unfolding sread_def by (assumption | (rule hp_store, assumption) | rule post_pair hp | simp)+

lemma hp_swrite: "ready r (None, None, None) s \<Longrightarrow> post idle (swrite n r s)"
  unfolding swrite_def by (assumption | (rule hp_store, assumption) | rule post_pair hp | simp)+

lemma hp_sclunk: "ready r (None, None, None) s \<Longrightarrow> post idle (sclunk n r s)"
  unfolding sclunk_def by (assumption | (rule hp_store, assumption) | rule post_pair hp | simp)+

lemma hp_sremove: "ready r (None, None, None) s \<Longrightarrow> post idle (sremove n r s)"
  unfolding sremove_def by (assumption | (rule hp_store, assumption) | rule post_pair hp | simp)+

lemma hp_sstat: "ready r (None, None, None) s \<Longrightarrow> post idle (sstat n r s)"
  unfolding sstat_def by (assumption | (rule hp_store, assumption) | rule post_pair hp | simp)+

lemma hp_swstat: "ready r (None, None, None) s \<Longrightarrow> post idle (swstat n r s)"
  unfolding swstat_def by (assumption | (rule hp_store, assumption) | rule post_pair hp | simp)+

text \<open>A walk allocates a fid after it has looked one up; the address is still free then.\<close>

definition free :: "nat \<Rightarrow> srv \<Rightarrow> bool" where
  "free a s \<longleftrightarrow> fp_fids (s_fpool s) a = None"

lemma hp_lookupfid_free:
  "ready r F s \<Longrightarrow> free b s \<Longrightarrow> (\<And>v s'. owe r F v s' \<Longrightarrow> free b s' \<Longrightarrow> Q (v, s')) \<Longrightarrow> post Q (lookupfid_s k s)"
proof (rule postI)
  fix x assume s: "ready r F s" "free b s" and Q: "\<And>v s'. owe r F v s' \<Longrightarrow> free b s' \<Longrightarrow> Q (v, s')" and o: "lookupfid_s k s = Some x"
  have "post (\<lambda>(v, s'). owe r F v s') (lookupfid_s k s)" by (rule hp_lookupfid [OF s(1)]) simp
  moreover have "free b s'" if "lookupfid_s k s = Some (v, s')" for v s'
    using that s(2) by (auto simp: lookupfid_s_def lookupfid_def lookupkey_def incfidref_def free_def bind_eq_Some_conv split: option.splits)
  ultimately show "Q x" using Q o by (cases x) (auto dest: postD)
qed

lemma hp_fid_free:
  "owe r (None, n, a) v s \<Longrightarrow> free b s \<Longrightarrow> (\<And>s'. ready r (v, n, a) s' \<Longrightarrow> free b s' \<Longrightarrow> Q s') \<Longrightarrow> post Q (updreq r (\<lambda>q. q\<lparr>r_fid := v\<rparr>) s)"
proof (rule postI)
  fix s' assume s: "owe r (None, n, a) v s" "free b s" and Q: "\<And>s'. ready r (v, n, a) s' \<Longrightarrow> free b s' \<Longrightarrow> Q s'"
    and o: "updreq r (\<lambda>q. q\<lparr>r_fid := v\<rparr>) s = Some s'"
  have "ready r (v, n, a) s'" using postD [OF hp_fid [OF s(1)] o] by blast
  moreover have "free b s'" using o s(2) by (auto simp: updreq_def free_def bind_eq_Some_conv)
  ultimately show "Q s'" using Q by blast
qed

lemma hp_allocfid_free: "ready r F s \<Longrightarrow> free a s \<Longrightarrow> (\<And>v s'. owe r F v s' \<Longrightarrow> Q (v, s')) \<Longrightarrow> post Q (allocfid_s a k s)"
  by (rule hp_allocfid) (simp_all add: free_def)

lemma hp_incfid_any: "ready r F s \<Longrightarrow> (\<And>s'. owe r F v s' \<Longrightarrow> Q s') \<Longrightarrow> post Q (updfid v (\<lambda>f. f\<lparr>fid_ref := fid_ref f + 1\<rparr>) s)"
proof (cases v)
  case None
  then show "post Q (updfid v (\<lambda>f. f\<lparr>fid_ref := fid_ref f + 1\<rparr>) s)" by (simp add: updfid_def post_def)
next
  case (Some b)
  assume "ready r F s" "\<And>s'. owe r F v s' \<Longrightarrow> Q s'"
  then show "post Q (updfid v (\<lambda>f. f\<lparr>fid_ref := fid_ref f + 1\<rparr>) s)" unfolding Some by (rule hp_incfid)
qed

lemma hp_walk1 [hp]: "(\<And>w. o_walk1 p = Some w \<Longrightarrow> post Q (g w)) \<Longrightarrow> (o_walk1 p = None \<Longrightarrow> post Q x) \<Longrightarrow> post Q (case o_walk1 p of None \<Rightarrow> x | Some w \<Rightarrow> g w)"
  by (cases "o_walk1 p") simp_all

lemma hp_swalk: "ready r (None, None, None) s \<Longrightarrow> free na s \<Longrightarrow> post idle (swalk na n r s)"
  unfolding swalk_def
  by (assumption | (rule hp_lookupfid_free, assumption, assumption) | (rule hp_fid_free, assumption, assumption)
      | (rule hp_store, assumption) | (rule hp_allocfid_free, assumption, assumption) | (rule hp_incfid_any, assumption) | rule post_pair hp | simp)+

section \<open>Flushing\<close>

text \<open>The flush takes a reference to the request it waits for.\<close>

lemma lookupreq_eq:
  assumes "im_rep (s_rmap s) m"
  shows "lookupreq k s = (case m k of None \<Rightarrow> Some (None, s) | Some b \<Rightarrow> map_option (\<lambda>s. (Some b, s)) (increqref b s))"
  using chain_props(3) [OF assms, of k] by (auto simp: lookupreq_def lookupkey_def deref_llookup split: option.splits)

lemma flushref_inv:
  assumes i: "srv_inv s m mf (\<lambda>_. 0)" and q: "s_reqs s r = Some q" "\<not> r_responded q" "r_oldreq q = None" "f_type (r_ifcall q) = Tflush"
    and l: "lookupreq k s = Some (v, s1)" and u: "updreq r (\<lambda>q. q\<lparr>r_oldreq := v\<rparr>) s1 = Some s2"
  shows "srv_inv s2 m mf (\<lambda>_. 0) \<and> v = m k \<and> (\<exists>q2. s_reqs s2 r = Some q2 \<and> \<not> r_responded q2 \<and> r_oldreq q2 = v \<and> r_tag q2 = r_tag q)
    \<and> (\<forall>b z. s_reqs s2 b = Some z \<longrightarrow> \<not> r_responded z \<longrightarrow> r \<notin> set (r_flush z)) \<and> msgs s2 = msgs s \<and> s_out s2 = s_out s \<and> s_ops s2 = s_ops s"
proof -
  have ri: "reqs_inv s m (\<lambda>_. 0)" and fi: "fid_inv (s_fpool s) (hold s) mf" using i by (auto simp: srv_inv_def)
  note d = reqs_invD [OF ri]
  have nf: "r \<notin> set (r_flush z)" if "s_reqs s b = Some z" "\<not> r_responded z" for b z
    using req_okD(7) [OF d(3) [OF that(1)] that(2), of r] q by (auto simp: queued_def)
  show ?thesis
  proof (cases "m k")
    case None
    then have "v = None" "s1 = s" using l lookupreq_eq [OF d(1), of k] by auto
    moreover have "q\<lparr>r_oldreq := None\<rparr> = q" using q by simp
    ultimately have "s2 = s\<lparr>s_reqs := s_reqs s\<rparr>" using u q by (simp add: updreq_def fun_upd_idem)
    then have "s2 = s" by simp
    then show ?thesis using i q nf None \<open>v = None\<close> by auto
  next
    case (Some b)
    obtain z where z: "s_reqs s b = Some z" "\<not> r_responded z" using d(5) [OF Some] by blast
    have v: "v = Some b" "s1 = s\<lparr>s_reqs := (s_reqs s)(b := Some (z\<lparr>r_ref := r_ref z + 1\<rparr>))\<rparr>"
      using l lookupreq_eq [OF d(1), of k] Some z by (auto simp: increqref_def updreq_def)
    let ?g = "\<lambda>x y. y\<lparr>r_ref := r_ref y + int (one v x), r_oldreq := if x = r then v else r_oldreq y\<rparr>"
    have R: "s_reqs s2 x = map_option (?g x) (s_reqs s x)" for x
    proof (cases "x = r")
      case True
      then show ?thesis using u q v z by (cases "b = r") (auto simp: updreq_def one_def)
    next
      case False
      then show ?thesis using u q v z by (cases "b = r"; cases "x = b"; cases "s_reqs s x") (auto simp: updreq_def one_def)
    qed
    have s2: "s_rmap s2 = s_rmap s" "msgs s2 = msgs s" "s_fpool s2 = s_fpool s" "s_out s2 = s_out s" "s_ops s2 = s_ops s"
      using u v q by (cases "b = r"; auto simp: updreq_def bind_eq_Some_conv)+
    have dm: "dom (s_reqs s2) = dom (s_reqs s)" by (auto simp: R dom_def)
    have fl: "flushers s2 a = flushers s a + one v a" for a
    proof -
      have e: "s_reqs s2 = (\<lambda>x. map_option (?g x) (s_reqs s x))" using R by blast
      have rd: "r \<in> dom (s_reqs s)" using q by auto
      have "(\<Sum>x \<in> dom (s_reqs s) - {r}. one (r_oldreq (the (s_reqs s2 x))) a) = (\<Sum>x \<in> dom (s_reqs s) - {r}. one (r_oldreq (the (s_reqs s x))) a)"
        by (rule sum.cong) (auto simp: R)
      then show ?thesis unfolding flushers_def sumreqs_def dm
        using sum.remove [OF d(2) rd, of "\<lambda>x. one (r_oldreq (the (s_reqs s2 x))) a"] sum.remove [OF d(2) rd, of "\<lambda>x. one (r_oldreq (the (s_reqs s x))) a"] q
        by (simp add: R)
    qed
    have qd: "queued s a x \<Longrightarrow> queued s2 a x" for a x using q by (cases "x = r") (auto simp: queued_def R)
    have "reqs_inv s2 m (\<lambda>_. 0)"
    proof (rule reqs_invI)
      show "req_ok s2 m 0 a y" if y: "s_reqs s2 a = Some y" for a y
      proof -
        obtain w where w: "s_reqs s a = Some w" "y = ?g a w" using y by (auto simp: R)
        have m: "r_responded w \<Longrightarrow> one v a = 0" using v(1) z w(1) by (auto simp: one_def)
        have old: "r_oldreq y = Some c \<Longrightarrow> f_type (r_ifcall y) = Tflush \<and> s_reqs s2 c \<noteq> None" for c
        proof (cases "a = r")
          case True
          assume "r_oldreq y = Some c"
          then show ?thesis using w q z v(1) True by (auto simp: R)
        next
          case False
          assume "r_oldreq y = Some c"
          then show ?thesis using req_okD(10,11) [OF d(3) [OF w(1)], of c] w(2) False by (auto simp: R)
        qed
        note o = req_okD [OF d(3) [OF w(1)]]
        have r: "r_responded y \<Longrightarrow> r_oldreq y = None" using w q o(8) by auto
        show ?thesis unfolding req_ok_def using old r o(1-7,9) m qd w(2) by (auto simp: fl)
      qed
      show "\<exists>y. s_reqs s2 a = Some y \<and> r_tag y = j \<and> \<not> r_responded y" if "m j = Some a" for j a
        using d(5) [OF that] by (cases "a = r") (auto simp: R)
    qed (use d(1,2,6) dm s2 in simp_all)
    moreover have "hold s2 = hold s"
      unfolding hold_def by (intro ext sumreqs_cong dm) (auto simp: R fidrefs_def)
    ultimately have "srv_inv s2 m mf (\<lambda>_. 0)" using fi s2 by (simp add: srv_inv_def)
    moreover have "r \<notin> set (r_flush z)" if "s_reqs s2 b = Some z" "\<not> r_responded z" for b z using that nf by (auto simp: R)
    ultimately show ?thesis using R [of r] q v(1) Some s2 by auto
  qed
qed

lemma hp_sflush:
  assumes s: "ready r (None, None, None) s" and q: "s_reqs s r = Some q" "f_type (r_ifcall q) = Tflush"
  shows "post idle (sflush n r s)"
proof (rule postI)
  fix s' assume c: "sflush n r s = Some s'"
  obtain v s1 where l: "lookupreq (ucast (f_oldtag (r_ifcall q))) s = Some (v, s1)" using c q by (auto simp: sflush_def bind_eq_Some_conv)
  obtain s2 where u: "updreq r (\<lambda>q. q\<lparr>r_oldreq := v\<rparr>) s1 = Some s2" using c q l by (auto simp: sflush_def bind_eq_Some_conv)
  obtain m mf where i: "srv_inv s m mf (\<lambda>_. 0)" "\<not> r_responded q" "r_oldreq q = None" using readyD [OF s] q(1) by auto
  note F = flushref_inv [OF i(1) q(1) i(2,3) q(2) l u]
  obtain q2 where q2: "s_reqs s2 r = Some q2" "\<not> r_responded q2" using F by blast
  have "post idle (respond n r None s2)"
  proof (rule postI)
    fix s' assume "respond n r None s2 = Some s'"
    then show "idle s'" using respond_inv [OF conjunct1 [OF F] q2, of n None s'] F by (auto simp: idle_def)
  qed
  moreover have "post idle (pass r s2)"
  proof -
    have "idle s2" using F by (auto simp: idle_def)
    then have "idle (logev (Pass r) s2)" by (rule idle_same) (simp_all add: same_reqs_def)
    then show ?thesis by (simp add: pass_def post_def)
  qed
  ultimately show "idle s'" using c l u q by (auto simp: sflush_def post_def split: if_splits)
qed

section \<open>Messages\<close>

text \<open>A message whose tag is free becomes a request with two references, the table's and the one that \<open>respond\<close> gives up.\<close>

lemma allocreq_free:
  assumes i: "im_rep (s_rmap s) m" and m: "m k = None"
  shows "allocreq n a k s = Some (Some a, s\<lparr>s_reqs := (s_reqs s)(a := Some ((req_new k)\<lparr>r_ref := 2\<rparr>)), s_rmap := snd (caninsertkey (s_rmap s) k a)\<rparr>)
    \<and> im_rep (snd (caninsertkey (s_rmap s) k a)) (m(k := Some a))"
proof -
  have c: "fst (caninsertkey (s_rmap s) k a)" "im_rep (snd (caninsertkey (s_rmap s) k a)) (m(k := Some a))"
    using intmap.rep_canins [OF i, of k a] m by auto
  then show ?thesis by (auto simp: allocreq_def increqref_def updreq_def req_new_def split_beta)
qed

text \<open>One whose tag is in use leaves no trace in the table.\<close>

lemma allocreq_dup:
  assumes i: "im_rep (s_rmap s) m" and m: "m k = Some b" and a: "s_reqs s a = None" and c: "allocreq n a k s = Some (v, s')"
  shows "v = None \<and> s' = (if o_destroyreq (s_ops s) then logev (Destroyreq a) s else s)"
proof -
  have f: "\<not> fst (caninsertkey (s_rmap s) k a)" using intmap.rep_canins [OF i, of k a] m by auto
  then have "caninsertkey (s_rmap s) k a = (False, s_rmap s)"
    by (auto simp: caninsertkey_def Let_def split: option.splits)
  moreover obtain j where "n = Suc j" using c f by (cases n) (auto simp: allocreq_def increqref_def updreq_def split_beta)
  moreover have "s\<lparr>s_reqs := (s_reqs s)(a := None)\<rparr> = s" using a by (simp add: fun_upd_idem)
  moreover have "s\<lparr>s_log := s_log s @ [Destroyreq a], s_reqs := (s_reqs s)(a := None)\<rparr> = s\<lparr>s_log := s_log s @ [Destroyreq a]\<rparr>"
    using a by (simp add: fun_upd_idem)
  ultimately show ?thesis using c
    by (auto simp: allocreq_def increqref_def updreq_def req_new_def closefids_def unlessnil_def fcall0_def Let_def logev_def split: if_splits)
qed

lemma accept_inv:
  assumes i: "srv_inv s m mf (\<lambda>_. 0)" and a: "s_reqs s a = None" and m: "m (ucast (f_tag f)) = None" and fr: "free na s"
    and c: "allocreq n a (ucast (f_tag f)) (logev (Recv (ucast (f_tag f))) s) = Some (Some r, s1)" and u: "updreq r (\<lambda>q. q\<lparr>r_ifcall := f\<rparr>) s1 = Some s2"
  shows "r = a \<and> ready a (None, None, None) s2 \<and> (\<exists>q. s_reqs s2 a = Some q \<and> r_ifcall q = f) \<and> free na s2"
proof -
  have ri: "reqs_inv s m (\<lambda>_. 0)" and fi: "fid_inv (s_fpool s) (hold s) mf" using i by (auto simp: srv_inv_def)
  note d = reqs_invD [OF ri]
  let ?k = "ucast (f_tag f) :: uint"
  let ?q = "(req_new ?k)\<lparr>r_ref := 2, r_ifcall := f\<rparr>"
  note A = allocreq_free [of "logev (Recv ?k) s" m ?k n a]
  have r: "r = a" using A d(1) m c by simp
  have s2: "s_reqs s2 = (s_reqs s)(a := Some ?q)" "im_rep (s_rmap s2) (m(?k := Some a))" "msgs s2 = msgs s @ [Recv ?k]" "s_fpool s2 = s_fpool s"
    using A d(1) m c u by (auto simp: updreq_def)
  have fl: "flushers s2 b = flushers s b" for b
    using sumreqs_new [of "s_reqs s" a "\<lambda>q. one (r_oldreq q) b" ?q] d(2) a by (simp add: flushers_def s2(1) req_new_def)
  have fl0: "flushers s a = 0"
  proof -
    have "one (r_oldreq z) a = 0" if "s_reqs s x = Some z" for x z using req_okD(11) [OF d(3) [OF that], of a] a by (auto simp: one_def)
    then show ?thesis unfolding flushers_def sumreqs_def by (auto intro: sum.neutral)
  qed
  have qd: "queued s b x \<Longrightarrow> queued s2 b x" for b x using a by (auto simp: queued_def s2(1))
  have "reqs_inv s2 (m(?k := Some a)) (\<lambda>_. 0)"
  proof (rule reqs_invI)
    show "req_ok s2 (m(?k := Some a)) 0 b z" if z: "s_reqs s2 b = Some z" for b z
    proof (cases "b = a")
      case True
      then show ?thesis using z fl0 by (auto simp: req_ok_def s2(1) fl req_new_def)
    next
      case False
      then have z': "s_reqs s b = Some z" using z by (simp add: s2(1))
      have "\<not> r_responded z \<Longrightarrow> r_tag z \<noteq> ?k" using req_okD(5) [OF d(3) [OF z']] m by auto
      then show ?thesis using d(3) [OF z'] qd unfolding req_ok_def fl by (auto simp: s2(1))
    qed
    show "finite (dom (s_reqs s2))" using d(2) by (simp add: s2(1))
    show "\<exists>q. s_reqs s2 b = Some q \<and> r_tag q = j \<and> \<not> r_responded q" if "(m(?k := Some a)) j = Some b" for j b
      using d(5) [of j b] that a by (auto simp: s2(1) req_new_def split: if_splits)
    show "count_list (msgs s2) (Recv j) = count_list (msgs s2) (Sent j) + (if (m(?k := Some a)) j = None then 0 else 1)" for j
      using d(6) [of j] m by (auto simp: s2(3))
  qed (use s2(2) in simp_all)
  moreover have "hold s2 = hold s"
  proof
    fix b show "hold s2 b = hold s b"
      using sumreqs_new [of "s_reqs s" a "fidrefs b" ?q] d(2) a by (simp add: hold_def s2(1) req_new_def fidrefs_def)
  qed
  ultimately show ?thesis using r fi fr s2 by (simp add: owe_def free_def) (auto simp: req_new_def fids_def)
qed

text \<open>The request that \<open>getreq\<close> makes up is outside of the table; it is answered and forgotten.\<close>

lemma answer_fake:
  assumes q: "s_reqs s r = Some q" "r_newfid q = None" "r_fid q = None" "r_afid q = None" "f_nwqid (r_ofcall q) = 0"
    and c: "answer cl r (Some e) t s = Some (off, s')"
  shows "\<not> off \<and> s' = s"
  using c q by (auto simp: answer_def Let_def rflush_def rversion_def rauth_def rattach_def rwalk_def ropen_def rcreate_def rread_def rwrite_def
      rremove_def rstat_def split: if_splits)

lemma respond_fake:
  assumes a: "s_reqs s r = None" and q: "\<not> r_pool q" "\<not> r_responded q" "r_newfid q = None" "r_fid q = None" "r_afid q = None"
      "f_nwqid (r_ofcall q) = 0" "r_flush q = []"
    and c: "respond n r (Some e) (s\<lparr>s_reqs := (s_reqs s)(r := Some q)\<rparr>) = Some s'"
  shows "\<exists>b. s' = logev (Sent (ucast (f_tag (r_ifcall q)))) (s\<lparr>s_out := b\<rparr>)"
proof -
  obtain k where n: "n = Suc k" using c by (cases n) auto
  let ?q = "q\<lparr>r_error := Some e\<rparr>"
  let ?s = "s\<lparr>s_reqs := (s_reqs s)(r := Some ?q)\<rparr>"
  obtain off s2 where an: "answer (closereq k) r (Some e) (f_type (r_ifcall q)) ?s = Some (off, s2)"
    using c q by (cases "answer (closereq k) r (Some e) (f_type (r_ifcall q)) ?s") (auto simp: n updreq_def)
  have s2: "\<not> off" "s2 = ?s" using answer_fake [OF _ _ _ _ _ an, of ?q] q by auto
  obtain msg s3 where s3: "encode_reply r ?s = Some (msg, s3)"
    using c q an s2 by (cases "encode_reply r ?s") (auto simp: n updreq_def)
  obtain oc where oc: "s3 = s\<lparr>s_reqs := (s_reqs s)(r := Some (?q\<lparr>r_ofcall := oc\<rparr>))\<rparr>"
    using encode_upd [OF s3] by (auto simp: updreq_def)
  show ?thesis using c q an s2 s3 a by (auto simp: n updreq_def oc logev_def fun_upd_idem)
qed

section \<open>Reachable servers\<close>

lemma dispatch_inv:
  assumes s: "ready r (None, None, None) s" and fr: "free na s" and q: "s_reqs s r = Some q" "f_type (r_ifcall q) = t"
  shows "post idle (dispatch na n r t s)"
  unfolding dispatch_def
  by (intro post_if hp_sversion hp_sauth hp_sattach hp_swalk hp_sopen hp_screate hp_sread hp_swrite hp_sclunk hp_sremove hp_sstat hp_swstat hp_respond [OF s]
      hp_sflush [OF _ q(1)] s fr fr [unfolded free_def]) (simp add: q(2))

lemma serve_inv:
  assumes i: "idle s" and a: "s_reqs s a = None" "s_reqs s fake = None" and fr: "free na s" and c: "serve a fake na n f s = Some s'"
  shows "idle s'"
proof -
  obtain m mf where i: "srv_inv s m mf (\<lambda>_. 0)" using i by (auto simp: idle_def)
  let ?k = "ucast (f_tag f) :: uint"
  note d = reqs_invD [OF conjunct1 [OF i [unfolded srv_inv_def]]]
  obtain v s1 where s1: "allocreq n a ?k (logev (Recv ?k) s) = Some (v, s1)" using c by (auto simp: serve_def bind_eq_Some_conv)
  show ?thesis
  proof (cases "m ?k")
    case None
    have "v = Some a" using allocreq_free [of "logev (Recv ?k) s" m ?k n a] None d(1) s1 by simp
    then obtain s2 where s2: "updreq a (\<lambda>q. q\<lparr>r_ifcall := f\<rparr>) s1 = Some s2" "dispatch na n a (f_type f) s2 = Some s'"
      using c s1 by (auto simp: serve_def bind_eq_Some_conv)
    have A: "a = a \<and> ready a (None, None, None) s2 \<and> (\<exists>q. s_reqs s2 a = Some q \<and> r_ifcall q = f) \<and> free na s2"
      by (rule accept_inv [OF i a(1) None fr _ s2(1)]) (use s1 \<open>v = Some a\<close> in simp)
    then obtain q where q: "s_reqs s2 a = Some q" "r_ifcall q = f" by blast
    have "post idle (dispatch na n a (f_type f) s2)"
      by (rule dispatch_inv [OF _ _ q(1)]) (use A q(2) in simp_all)
    then show ?thesis using s2(2) by (simp add: post_def)
  next
    case (Some b)
    have v: "v = None" "same_reqs (logev (Recv ?k) s) s1" "s_fpool s1 = s_fpool s"
      using allocreq_dup [of "logev (Recv ?k) s" m ?k b a n v s1] Some d(1) a(1) s1 by (auto simp: same_reqs_def)
    have "s_reqs s1 fake = None" using v(2) a(2) by (simp add: same_reqs_def)
    moreover have "respond n fake (Some (err ''duplicate tag''))
           (s1\<lparr>s_reqs := (s_reqs s1)(fake := Some ((req_new ?k)\<lparr>r_ref := 1, r_ifcall := f,
                r_error := Some (err ''duplicate tag''), r_pool := False\<rparr>))\<rparr>) = Some s'"
      using c s1 v(1) by (simp add: serve_def)
    ultimately obtain o' where s': "s' = logev (Sent ?k) (s1\<lparr>s_out := o'\<rparr>)"
      using respond_fake [of s1 fake "(req_new ?k)\<lparr>r_ref := 1, r_ifcall := f, r_error := Some (err ''duplicate tag''), r_pool := False\<rparr>" n "err ''duplicate tag''" s']
      by (auto simp: req_new_def fcall0_def)
    have R: "s_reqs s' = s_reqs s" "s_rmap s' = s_rmap s" "s_fpool s' = s_fpool s" "msgs s' = msgs s @ [Recv ?k, Sent ?k]"
      using v(2,3) s' by (simp_all add: same_reqs_def)
    have ok: "req_ok s' m 0 x q = req_ok s m 0 x q" for x q by (simp add: req_ok_def flushers_def queued_def R(1))
    have "reqs_inv s' m (\<lambda>_. 0)" unfolding reqs_inv_def R(1-2) ok using d by (auto simp: R(4))
    moreover have "hold s' = hold s" by (rule ext) (simp add: hold_def R(1))
    ultimately have "srv_inv s' m mf (\<lambda>_. 0)" using i R(3) by (simp add: srv_inv_def)
    then show ?thesis by (auto simp: idle_def)
  qed
qed

text \<open>
  A step is a message, an answer by the application, or a change that the application makes on its own: to what a
  request that has not been answered will be answered with, to a fid apart from its number and count, and
  to the files. It answers a request once, so not a flush that has been put off.
\<close>

definition putoff :: "srv \<Rightarrow> nat \<Rightarrow> bool" where
  "putoff s r \<longleftrightarrow> (\<exists>b z. s_reqs s b = Some z \<and> r \<in> set (r_flush z))"

inductive srvstep :: "srv \<Rightarrow> srv \<Rightarrow> bool" where
  message: "s_reqs s a = None \<Longrightarrow> s_reqs s fake = None \<Longrightarrow> a \<noteq> fake \<Longrightarrow> free na s \<Longrightarrow> serve a fake na n f s = Some s' \<Longrightarrow> srvstep s s'"
| answer: "s_reqs s r = Some q \<Longrightarrow> \<not> r_responded q \<Longrightarrow> \<not> putoff s r \<Longrightarrow> respond n r e s = Some s' \<Longrightarrow> srvstep s s'"
| change_req: "updreq r (\<lambda>q. q\<lparr>r_ofcall := oc, r_d := d, r_error := e\<rparr>) s = Some s' \<Longrightarrow> srvstep s s'"
| change_fid: "(\<And>f. fid_fid (g f) = fid_fid f \<and> fid_ref (g f) = fid_ref f) \<Longrightarrow> updfid v g s = Some s' \<Longrightarrow> srvstep s s'"
| change_tree: "srvstep s (s\<lparr>s_tree := t\<rparr>)"

definition srvreach :: "srv \<Rightarrow> bool" where
  "srvreach s \<longleftrightarrow> (\<exists>ops d t msize. srvstep\<^sup>*\<^sup>* (srv_start ops d t msize) s)"

lemma srv_start_idle: "idle (srv_start ops d t msize)"
proof -
  have "srv_inv (srv_start ops d t msize) (\<lambda>_. None) (\<lambda>_. None) (\<lambda>_. 0)"
    by (auto simp: srv_inv_def reqs_inv_def fid_inv_def srv_start_def changemsize_def allocfidpool_def allocmap_rep msgs_def hold_def sumreqs_def)
  then show ?thesis by (auto simp: idle_def)
qed

lemma srvstep_idle: "srvstep s s' \<Longrightarrow> idle s \<Longrightarrow> idle s'"
proof (induction rule: srvstep.induct)
  case (message s a fake na n f s')
  then show ?case using serve_inv by blast
next
  case (answer s r q n e s')
  obtain m mf where i: "srv_inv s m mf (\<lambda>_. 0)" using answer.prems by (auto simp: idle_def)
  have "\<exists>m' mf'. srv_inv s' m' mf' (\<lambda>_. 0) \<and> frame (\<lambda>_. 0) {r} s s' \<and> replied q s s'"
    by (rule respond_inv [OF i answer.hyps(1,2) _ answer.hyps(4)]) (use answer.hyps(3) in \<open>auto simp: putoff_def\<close>)
  then show ?case by (auto simp: idle_def)
next
  case (change_req r oc d e s s')
  have k: "keep s s' \<and> s_fpool s' = s_fpool s"
    by (rule updreq_keep [OF _ change_req.hyps]) (simp add: core_def fids_def)
  obtain m mf where "srv_inv s m mf (\<lambda>_. 0)" using change_req.prems by (auto simp: idle_def)
  from keep_inv [OF conjunct1 [OF k] conjunct2 [OF k] this] show ?case by (auto simp: idle_def)
next
  case (change_fid g v s s')
  obtain m mf where i: "srv_inv s m mf (\<lambda>_. 0)" using change_fid.prems by (auto simp: idle_def)
  have f: "fid_inv (s_fpool s) (hold s) mf" using i by (simp add: srv_inv_def)
  note u = updfid_inv [OF f change_fid.hyps]
  have "reqs_inv s' m (\<lambda>_. 0)" using reqs_inv_core [OF same_reqs_core [OF conjunct1 [OF u]]] i by (simp add: srv_inv_def)
  then have "srv_inv s' m mf (\<lambda>_. 0)" using u same_reqs_hold [OF conjunct1 [OF u]] by (simp add: srv_inv_def)
  then show ?case by (auto simp: idle_def)
next
  case (change_tree s t)
  show ?case by (rule idle_same [OF change_tree]) (simp_all add: same_reqs_def)
qed

lemma srvreach_idle: "srvreach s \<Longrightarrow> idle s"
proof -
  have "srvstep\<^sup>*\<^sup>* s0 s \<Longrightarrow> idle s0 \<Longrightarrow> idle s" for s0 s by (induction rule: rtranclp_induct) (auto intro: srvstep_idle)
  then show "srvreach s \<Longrightarrow> idle s" using srv_start_idle by (auto simp: srvreach_def)
qed

lemma srvreach_inv: "srvreach s \<Longrightarrow> \<exists>m mf. srv_inv s m mf (\<lambda>_. 0)"
  using srvreach_idle by (auto simp: idle_def)

end
