(* ===== verification/Srv_Props.thy ===== *)
theory Srv_Props
  imports Srv_Steps
begin

text \<open>
  Properties of the 9P server: in every state that a server can reach, fids and requests are counted exactly and every
  message is answered once; replies are of the right type; a flush is answered after what it flushes; and
  the messages that stop the server.
\<close>

section \<open>An example\<close>

text \<open>
  A server with the callbacks \<open>read\<close> and \<open>write\<close> only and buffers of 64 bytes; a client attaches fid 5 (tag 1, answered at
  once), reads from it (tag 2, handed to the application) and flushes the read (tag 3).
\<close>

definition nullsrv :: srvops where
  "nullsrv = \<lparr>o_auth = False, o_attach = False, o_open = False, o_create = False, o_read = True, o_write = True, o_remove = False,
     o_flush = False, o_stat = False, o_wstat = False, o_walk = False, o_clone = None, o_walk1 = None, o_destroyreq = False, o_fmt = (\<lambda>_. [])\<rparr>"

definition deliver :: "nat \<Rightarrow> nat \<Rightarrow> nat \<Rightarrow> nat \<Rightarrow> fcall \<Rightarrow> srv \<Rightarrow> srv option" where
  "deliver a fake na n f s = (if s_reqs s a = None \<and> s_reqs s fake = None \<and> a \<noteq> fake \<and> free na s then serve a fake na n f s else None)"

definition ex_read :: fcall where
  "ex_read = fcall0\<lparr>f_type := Tread, f_tag := 2, f_fid := 5, f_count := 10\<rparr>"

definition ex_start :: srv where
  "ex_start = srv_start nullsrv False None 64"

definition ex_attached :: srv where
  "ex_attached = the (deliver 0 1 0 3 (fcall0\<lparr>f_type := Tattach, f_tag := 1, f_fid := 5, f_afid := NOFID, f_uname := Some [103], f_aname := Some []\<rparr>) ex_start)"

definition ex_reading :: srv where
  "ex_reading = the (deliver 0 1 1 3 ex_read ex_attached)"

definition ex_flushing :: srv where
  "ex_flushing = the (deliver 1 2 1 3 (fcall0\<lparr>f_type := Tflush, f_tag := 3, f_oldtag := 2\<rparr>) ex_reading)"

lemma deliver_reach: "srvreach s \<Longrightarrow> deliver a fake na n f s \<noteq> None \<Longrightarrow> srvreach (the (deliver a fake na n f s))"
proof -
  assume r: "srvreach s" and d: "deliver a fake na n f s \<noteq> None"
  then obtain s' where s': "deliver a fake na n f s = Some s'" by auto
  then have "srvstep s s'" by (auto simp: deliver_def intro: srvstep.message split: if_splits)
  moreover obtain ops dd t msize where "srvstep\<^sup>*\<^sup>* (srv_start ops dd t msize) s" using r by (auto simp: srvreach_def)
  ultimately have "srvstep\<^sup>*\<^sup>* (srv_start ops dd t msize) s'" by (rule rtranclp.rtrancl_into_rtrancl [rotated])
  then show ?thesis using s' unfolding srvreach_def by auto
qed

lemma ex_reach: "srvreach ex_start" "srvreach ex_attached" "srvreach ex_reading" "srvreach ex_flushing"
proof -
  show 0: "srvreach ex_start" by (auto simp: srvreach_def ex_start_def)
  have "deliver 0 1 0 3 (fcall0\<lparr>f_type := Tattach, f_tag := 1, f_fid := 5, f_afid := NOFID, f_uname := Some [103], f_aname := Some []\<rparr>) ex_start \<noteq> None"
    by code_simp
  then show 1: "srvreach ex_attached" unfolding ex_attached_def by (rule deliver_reach [OF 0])
  have "deliver 0 1 1 3 ex_read ex_attached \<noteq> None" by code_simp
  then show 2: "srvreach ex_reading" unfolding ex_reading_def by (rule deliver_reach [OF 1])
  have "deliver 1 2 1 3 (fcall0\<lparr>f_type := Tflush, f_tag := 3, f_oldtag := 2\<rparr>) ex_reading \<noteq> None" by code_simp
  then show "srvreach ex_flushing" unfolding ex_flushing_def by (rule deliver_reach [OF 2])
qed

section \<open>References\<close>

text \<open>The fid and the request that a number stands for.\<close>

definition fidtab :: "srv \<Rightarrow> uint \<Rightarrow> nat option" where
  "fidtab s k = fst (lookupkey (\<lambda>a s. s) (fp_map (s_fpool s)) k ())"

definition reqtab :: "srv \<Rightarrow> uint \<Rightarrow> nat option" where
  "reqtab s k = fst (lookupkey (\<lambda>a s. s) (s_rmap s) k ())"

lemma fidtab_eq: "im_rep (fp_map (s_fpool s)) mf \<Longrightarrow> fidtab s k = mf k"
  unfolding fidtab_def by (rule intmap.rep_find)

lemma reqtab_eq: "im_rep (s_rmap s) m \<Longrightarrow> reqtab s k = m k"
  unfolding reqtab_def by (rule intmap.rep_find)

lemma flushers_gone: "reqs_inv s m X \<Longrightarrow> s_reqs s a = None \<Longrightarrow> flushers s a = 0"
proof -
  assume i: "reqs_inv s m X" and a: "s_reqs s a = None"
  have "one (r_oldreq z) a = 0" if "s_reqs s x = Some z" for x z
    using req_okD(11) [OF reqs_invD(3) [OF i that], of a] a by (auto simp: one_def)
  then show ?thesis unfolding flushers_def sumreqs_def by (auto intro: sum.neutral)
qed

text \<open>C7: In every state that a server reaches by messages, by answers of the application and by its changes to
  requests, fids and files, a fid that exists is counted exactly: as often as the requests being served
  refer to it, and once more while its number is in the table, where it is found under its own number. No request refers
  to a fid that was freed. A request is counted as often as flushes refer to it, and twice more until it has been
  answered; no flush refers to one that was freed.\<close>

lemma server_references:
  assumes "srvreach s"
  shows "(\<forall>a f. fp_fids (s_fpool s) a = Some f \<longrightarrow> 0 < fid_ref f \<and> fid_ref f = int (hold s a) + (if fidtab s (fid_fid f) = Some a then 1 else 0))
    \<and> (\<forall>k a. fidtab s k = Some a \<longrightarrow> (\<exists>f. fp_fids (s_fpool s) a = Some f \<and> fid_fid f = k))
    \<and> (\<forall>a. fp_fids (s_fpool s) a = None \<longrightarrow> hold s a = 0)
    \<and> (\<forall>r q. s_reqs s r = Some q \<longrightarrow> 0 < r_ref q \<and> r_ref q = int (flushers s r) + (if r_responded q then 0 else 2))
    \<and> (\<forall>r. s_reqs s r = None \<longrightarrow> flushers s r = 0)"
proof -
  obtain m mf where i: "srv_inv s m mf (\<lambda>_. 0)" using srvreach_inv [OF assms] by blast
  then have ri: "reqs_inv s m (\<lambda>_. 0)" and fi: "fid_inv (s_fpool s) (hold s) mf" by (simp_all add: srv_inv_def)
  note f = fid_invD [OF fi]
  have "0 < fid_ref g \<and> fid_ref g = int (hold s a) + (if fidtab s (fid_fid g) = Some a then 1 else 0)" if "fp_fids (s_fpool s) a = Some g" for a g
    using f(2) [of a] that by (simp add: fidtab_eq [OF f(1)])
  moreover have "\<exists>g. fp_fids (s_fpool s) a = Some g \<and> fid_fid g = k" if "fidtab s k = Some a" for k a
    using f(3) [of k a] that by (simp add: fidtab_eq [OF f(1)])
  moreover have "hold s a = 0" if "fp_fids (s_fpool s) a = None" for a using f(2) [of a] that by simp
  moreover have "0 < r_ref q \<and> r_ref q = int (flushers s r) + (if r_responded q then 0 else 2)" if "s_reqs s r = Some q" for r q
    using req_okD(3,4) [OF reqs_invD(3) [OF ri that]] by simp
  ultimately show ?thesis using flushers_gone [OF ri] by blast
qed

lemma server_references_witness:
  "fid_ref (the (fp_fids (s_fpool ex_reading) 0)) = int (hold ex_reading 0) + 1 \<and> r_ref (the (s_reqs ex_flushing 0)) = int (flushers ex_flushing 0) + 2"
proof -
  have "fp_fids (s_fpool ex_reading) 0 \<noteq> None" "fidtab ex_reading (fid_fid (the (fp_fids (s_fpool ex_reading) 0))) = Some 0" by code_simp+
  moreover have "s_reqs ex_flushing 0 \<noteq> None" "\<not> r_responded (the (s_reqs ex_flushing 0))" by code_simp+
  ultimately show ?thesis using server_references [OF ex_reach(3)] server_references [OF ex_reach(4)] by auto
qed

section \<open>Answers\<close>

lemma count_msgs: "count_list (msgs s) (Recv k) = count_list (s_log s) (Recv k)" "count_list (msgs s) (Sent k) = count_list (s_log s) (Sent k)"
proof -
  have "count_list (filter P l) x = (if P x then count_list l x else 0)" for P and l :: "sevent list" and x by (induction l) auto
  then show "count_list (msgs s) (Recv k) = count_list (s_log s) (Recv k)" "count_list (msgs s) (Sent k) = count_list (s_log s) (Sent k)"
    by (simp_all add: msgs_def)
qed

text \<open>C8: In every state that a server reaches, as many answers have been sent with a tag as messages were received with
  it, except for one while a request with that tag is outstanding. The table finds exactly the requests that
  have not been answered, each under the tag of its message, so there is never more than one for a tag. A second
  message with a tag in use is counted in as well: it is refused, and its answer carries the tag.\<close>

lemma answered_once:
  assumes "srvreach s"
  shows "count_list (s_log s) (Recv k) = count_list (s_log s) (Sent k) + (if reqtab s k = None then 0 else 1)
    \<and> (\<forall>r. reqtab s k = Some r \<longleftrightarrow> (\<exists>q. s_reqs s r = Some q \<and> \<not> r_responded q \<and> ucast (f_tag (r_ifcall q)) = k))"
proof -
  obtain m mf where i: "srv_inv s m mf (\<lambda>_. 0)" using srvreach_inv [OF assms] by blast
  then have ri: "reqs_inv s m (\<lambda>_. 0)" by (simp add: srv_inv_def)
  note d = reqs_invD [OF ri]
  have "m k = Some r \<longleftrightarrow> (\<exists>q. s_reqs s r = Some q \<and> \<not> r_responded q \<and> ucast (f_tag (r_ifcall q)) = k)" for r
    using d(5) [of k r] req_okD(2,5) [OF d(3) [of r]] by metis
  then show ?thesis using d(6) [of k] by (simp add: reqtab_eq [OF d(1)] count_msgs)
qed

lemma answered_once_witness: "count_list (s_log ex_flushing) (Recv 2) = count_list (s_log ex_flushing) (Sent 2) + 1"
proof -
  have "reqtab ex_flushing 2 \<noteq> None" by code_simp
  then show ?thesis using answered_once [OF ex_reach(4), of 2] by auto
qed

text \<open>The read is outstanding; in the last state the flush waits for it.\<close>

lemma ex_outstanding:
  "s_reqs ex_reading 0 \<noteq> None" "\<not> r_responded (the (s_reqs ex_reading 0))" "r_oldreq (the (s_reqs ex_reading 0)) = None"
  "f_type (r_ifcall (the (s_reqs ex_reading 0))) = Tread" "f_tag (r_ifcall (the (s_reqs ex_reading 0))) = 2"
  "respond 3 0 None ex_reading \<noteq> None"
  "s_reqs ex_flushing 0 \<noteq> None" "\<not> r_responded (the (s_reqs ex_flushing 0))" "r_oldreq (the (s_reqs ex_flushing 0)) = None"
  "r_tag (the (s_reqs ex_flushing 0)) = 2" "r_flush (the (s_reqs ex_flushing 0)) = [1]" "s_reqs ex_flushing 1 \<noteq> None"
  "r_tag (the (s_reqs ex_flushing 1)) = 3" "respond 3 0 None ex_flushing \<noteq> None"
proof -
  have "let s = ex_reading; q = the (s_reqs s 0) in s_reqs s 0 \<noteq> None \<and> \<not> r_responded q \<and> r_oldreq q = None
      \<and> f_type (r_ifcall q) = Tread \<and> f_tag (r_ifcall q) = 2 \<and> respond 3 0 None s \<noteq> None" by code_simp
  then show "s_reqs ex_reading 0 \<noteq> None" "\<not> r_responded (the (s_reqs ex_reading 0))" "r_oldreq (the (s_reqs ex_reading 0)) = None"
      "f_type (r_ifcall (the (s_reqs ex_reading 0))) = Tread" "f_tag (r_ifcall (the (s_reqs ex_reading 0))) = 2"
      "respond 3 0 None ex_reading \<noteq> None"
    unfolding Let_def by blast+
  have "let s = ex_flushing; q = the (s_reqs s 0); p = the (s_reqs s 1) in s_reqs s 0 \<noteq> None \<and> \<not> r_responded q \<and> r_oldreq q = None
      \<and> r_tag q = 2 \<and> r_flush q = [1] \<and> s_reqs s 1 \<noteq> None \<and> r_tag p = 3 \<and> respond 3 0 None s \<noteq> None" by code_simp
  then show "s_reqs ex_flushing 0 \<noteq> None" "\<not> r_responded (the (s_reqs ex_flushing 0))" "r_oldreq (the (s_reqs ex_flushing 0)) = None"
      "r_tag (the (s_reqs ex_flushing 0)) = 2" "r_flush (the (s_reqs ex_flushing 0)) = [1]" "s_reqs ex_flushing 1 \<noteq> None"
      "r_tag (the (s_reqs ex_flushing 1)) = 3" "respond 3 0 None ex_flushing \<noteq> None"
    unfolding Let_def by blast+
qed

text \<open>The fid is attached and not open.\<close>

lemma ex_fid:
  "reqtab ex_attached 2 = None" "reqtab ex_attached 9 = None" "fidtab ex_attached 5 = Some 0" "fp_fids (s_fpool ex_attached) 0 \<noteq> None"
  "s_reqs ex_attached 0 = None" "7 \<le> s_msize ex_attached" "o_read (s_ops ex_attached)" "fid_omode (the (fp_fids (s_fpool ex_attached) 0)) = -1"
  "q_type (fid_qid (the (fp_fids (s_fpool ex_attached) 0))) AND QTDIR = 0" "fid_file (the (fp_fids (s_fpool ex_attached) 0)) = None"
  "fid_rdir (the (fp_fids (s_fpool ex_attached) 0)) = None" "fid_ref (the (fp_fids (s_fpool ex_attached) 0)) = 1"
  "fid_fid (the (fp_fids (s_fpool ex_attached) 0)) = 5"
proof -
  have "let s = ex_attached; g = the (fp_fids (s_fpool s) 0) in reqtab s 2 = None \<and> reqtab s 9 = None \<and> fidtab s 5 = Some 0
      \<and> fp_fids (s_fpool s) 0 \<noteq> None \<and> s_reqs s 0 = None \<and> 7 \<le> s_msize s \<and> o_read (s_ops s) \<and> fid_omode g = -1
      \<and> q_type (fid_qid g) AND QTDIR = 0 \<and> fid_file g = None \<and> fid_rdir g = None \<and> fid_ref g = 1 \<and> fid_fid g = 5" by code_simp
  then show "reqtab ex_attached 2 = None" "reqtab ex_attached 9 = None" "fidtab ex_attached 5 = Some 0" "fp_fids (s_fpool ex_attached) 0 \<noteq> None"
      "s_reqs ex_attached 0 = None" "7 \<le> s_msize ex_attached" "o_read (s_ops ex_attached)" "fid_omode (the (fp_fids (s_fpool ex_attached) 0)) = -1"
      "q_type (fid_qid (the (fp_fids (s_fpool ex_attached) 0))) AND QTDIR = 0" "fid_file (the (fp_fids (s_fpool ex_attached) 0)) = None"
      "fid_rdir (the (fp_fids (s_fpool ex_attached) 0)) = None" "fid_ref (the (fp_fids (s_fpool ex_attached) 0)) = 1"
      "fid_fid (the (fp_fids (s_fpool ex_attached) 0)) = 5"
    unfolding Let_def by blast+
qed

lemma ex_putoff: "\<not> putoff ex_reading 0" "\<not> putoff ex_flushing 0"
proof -
  have "\<not> putoff s 0" if s: "srvreach s" "s_reqs s 0 \<noteq> None" "r_oldreq (the (s_reqs s 0)) = None" for s
  proof
    assume "putoff s 0"
    then obtain b z where z: "s_reqs s b = Some z" "0 \<in> set (r_flush z)" by (auto simp: putoff_def)
    obtain m mf where "srv_inv s m mf (\<lambda>_. 0)" using srvreach_inv [OF s(1)] by blast
    then have o: "req_ok s m 0 b z" using z(1) reqs_invD(3) by (auto simp: srv_inv_def)
    then have "queued s b 0" using req_okD(7,9) [OF o] z(2) by (cases "r_responded z") auto
    then show False using s(2,3) by (auto simp: queued_def)
  qed
  then show "\<not> putoff ex_reading 0" "\<not> putoff ex_flushing 0" using ex_reach ex_outstanding by blast+
qed

text \<open>C10: When the application answers a request other than a flush that has to wait, the bytes sent begin with a message
  of exactly the length that it starts with, of the type of the request plus one or \<^verbatim>\<open>Rerror\<close>, and with the tag of the
  request; and what is sent after it are the answers to the flushes that waited.\<close>

lemma reply_type:
  assumes "srvreach s" "s_reqs s r = Some q" "\<not> r_responded q" "\<not> putoff s r" "settled s (r_oldreq q)" "respond n r e s = Some s'"
  shows "\<exists>msg rest t (k :: uint). s_out s' = s_out s @ msg @ rest \<and> t \<in> {f_type (r_ifcall q) + 1, Rerror} \<and> length msg = unat k \<and> 2 < sint k
    \<and> take 7 msg = take (unat k) (PBIT32 k @ PBIT8 t @ PBIT16 (f_tag (r_ifcall q)))"
proof -
  obtain m mf where i: "srv_inv s m mf (\<lambda>_. 0)" using srvreach_inv [OF assms(1)] by blast
  have "replied q s s'" using respond_inv [OF i assms(2,3) _ assms(6)] assms(4) by (auto simp: putoff_def)
  then obtain msg b where "s_out s' = s_out s @ msg @ b" "reply_of q msg" using assms(5) by (auto simp: replied_def sent_def adds_def)
  then show ?thesis unfolding reply_of_def by blast
qed

lemma reply_type_witness:
  "\<exists>msg rest t (k :: uint). s_out (the (respond 3 0 None ex_reading)) = s_out ex_reading @ msg @ rest \<and> t \<in> {Rread, Rerror} \<and> length msg = unat k
    \<and> 2 < sint k \<and> take 7 msg = take (unat k) (PBIT32 k @ PBIT8 t @ PBIT16 (2 :: ushort))"
proof -
  note e = ex_outstanding
  have q: "s_reqs ex_reading 0 = Some (the (s_reqs ex_reading 0))" "respond 3 0 None ex_reading = Some (the (respond 3 0 None ex_reading))"
    using e(1,6) by (simp_all only: option.collapse not_False_eq_True)
  have "settled ex_reading (r_oldreq (the (s_reqs ex_reading 0)))" by (simp only: e(3) settled_def) simp
  from reply_type [OF ex_reach(3) q(1) e(2) ex_putoff(1) this q(2)] show ?thesis unfolding e(4,5) by simp
qed

section \<open>Flushes\<close>

text \<open>C9: A flush is answered after the request it flushes. When the application answers a flush whose request is
  outstanding, nothing is sent and the flush is put in the queue of that request; and when that
  request is answered, its answer is sent first and then one for every flush in its queue.\<close>

lemma flush_ordered:
  assumes "srvreach s" "s_reqs s b = Some z" "\<not> r_responded z" "\<not> putoff s b" "settled s (r_oldreq z)"
  shows "(\<forall>r q n s'. s_reqs s r = Some q \<longrightarrow> \<not> r_responded q \<longrightarrow> \<not> putoff s r \<longrightarrow> r_oldreq q = Some b \<longrightarrow> respond n r None s = Some s'
      \<longrightarrow> s_out s' = s_out s \<and> (\<exists>z'. s_reqs s' b = Some z' \<and> r_flush z' = r_flush z @ [r]))
    \<and> (\<forall>n e s'. respond n b e s = Some s' \<longrightarrow> (\<exists>l. msgs s' = msgs s @ Sent (r_tag z) # l
      \<and> (\<forall>r \<in> set (r_flush z). \<forall>q. s_reqs s r = Some q \<longrightarrow> Sent (r_tag q) \<in> set l)))"
proof (intro conjI allI impI)
  obtain m mf where i: "srv_inv s m mf (\<lambda>_. 0)" using srvreach_inv [OF assms(1)] by blast
  fix r q n s' assume q: "s_reqs s r = Some q" "\<not> r_responded q" "\<not> putoff s r" "r_oldreq q = Some b" and c: "respond n r None s = Some s'"
  have ty: "f_type (r_ifcall q) = Tflush"
    using req_okD(10) [OF reqs_invD(3) [OF conjunct1 [OF i [unfolded srv_inv_def]] q(1)] q(4)] .
  have br: "b \<noteq> r" using assms(2,5) q by (auto simp: settled_def)
  obtain k where n: "n = Suc k" using c by (cases n) auto
  have s': "s' = s\<lparr>s_reqs := (s_reqs s)(r := Some (q\<lparr>r_error := None\<rparr>), b := Some (z\<lparr>r_flush := r_flush z @ [r]\<rparr>))\<rparr>"
    using c q(1,2,4) assms(2,3) br ty by (simp add: n updreq_def answer_def rflush_def)
  show "s_out s' = s_out s" "\<exists>z'. s_reqs s' b = Some z' \<and> r_flush z' = r_flush z @ [r]" using s' by auto
next
  obtain m mf where i: "srv_inv s m mf (\<lambda>_. 0)" using srvreach_inv [OF assms(1)] by blast
  fix n e s' assume c: "respond n b e s = Some s'"
  have "replied z s s'" using respond_inv [OF i assms(2,3) _ c] assms(4) by (auto simp: putoff_def)
  then show "\<exists>l. msgs s' = msgs s @ Sent (r_tag z) # l \<and> (\<forall>r \<in> set (r_flush z). \<forall>q. s_reqs s r = Some q \<longrightarrow> Sent (r_tag q) \<in> set l)"
    using assms(5) by (auto simp: replied_def sent_def adds_def)
qed

lemma flush_ordered_witness: "\<exists>l. msgs (the (respond 3 0 None ex_flushing)) = msgs ex_flushing @ Sent 2 # l \<and> Sent 3 \<in> set l"
proof -
  note e = ex_outstanding
  have q: "s_reqs ex_flushing 0 = Some (the (s_reqs ex_flushing 0))" "s_reqs ex_flushing 1 = Some (the (s_reqs ex_flushing 1))"
      "respond 3 0 None ex_flushing = Some (the (respond 3 0 None ex_flushing))"
    using e(7,12,14) by (simp_all only: option.collapse not_False_eq_True)
  have "settled ex_flushing (r_oldreq (the (s_reqs ex_flushing 0)))" by (simp only: e(9) settled_def) simp
  from conjunct2 [OF flush_ordered [OF ex_reach(4) q(1) e(8) ex_putoff(2) this]] q(3)
  obtain l where l: "msgs (the (respond 3 0 None ex_flushing)) = msgs ex_flushing @ Sent 2 # l"
      "\<forall>r \<in> set [1]. \<forall>q. s_reqs ex_flushing r = Some q \<longrightarrow> Sent (r_tag q) \<in> set l" unfolding e(10,11) by blast
  have "Sent (r_tag (the (s_reqs ex_flushing 1))) \<in> set l" using l(2) q(2) by simp
  then show ?thesis using l(1) unfolding e(13) by blast
qed

section \<open>Messages that stop the server\<close>

lemma allocreq_Some: "allocreq n a k s = Some (Some r, s') \<Longrightarrow> r = a \<and> s_reqs s' a = Some ((req_new k)\<lparr>r_ref := 2\<rparr>)"
  by (auto simp: allocreq_def increqref_def updreq_def req_new_def bind_eq_Some_conv Let_def split: prod.splits if_splits)

lemma serve_stops:
  assumes "\<And>s r q e k. s_reqs s r = Some q \<Longrightarrow> r_ifcall q = f \<Longrightarrow> answer (closereq k) r (Some e) (f_type f) s = None"
    and "\<And>s r q. s_reqs s r = Some q \<Longrightarrow> r_ifcall q = f \<Longrightarrow> r_ofcall q = fcall0 \<Longrightarrow> \<not> r_responded q \<Longrightarrow> dispatch na n r (f_type f) s = None"
  shows "serve a fake na n f s = None"
proof -
  have fake: "respond n fake (Some e) s = None" if "s_reqs s fake = Some q" "r_ifcall q = f" for s q e
  proof (cases n)
    case (Suc k)
    show ?thesis using that assms(1) [of "s\<lparr>s_reqs := (s_reqs s)(fake := Some (q\<lparr>r_error := Some e\<rparr>))\<rparr>" fake "q\<lparr>r_error := Some e\<rparr>" k e]
      by (simp add: Suc updreq_def)
  qed simp
  show ?thesis
  proof (cases "allocreq n a (ucast (f_tag f)) (logev (Recv (ucast (f_tag f))) s)")
    case (Some x)
    obtain v s1 where x: "x = (v, s1)" by (cases x)
    show ?thesis
    proof (cases v)
      case None
      then show ?thesis using Some x fake by (simp add: serve_def)
    next
      case (Some r)
      have r: "r = a" "s_reqs s1 a = Some ((req_new (ucast (f_tag f)))\<lparr>r_ref := 2\<rparr>)"
        using allocreq_Some \<open>allocreq _ _ _ _ = Some x\<close> x Some by auto
      let ?q = "(req_new (ucast (f_tag f)))\<lparr>r_ref := 2, r_ifcall := f\<rparr>"
      have "dispatch na n a (f_type f) (s1\<lparr>s_reqs := (s_reqs s1)(a := Some ?q)\<rparr>) = None"
        using assms(2) [of "s1\<lparr>s_reqs := (s_reqs s1)(a := Some ?q)\<rparr>" a ?q] by (simp add: req_new_def)
      then show ?thesis using \<open>allocreq _ _ _ _ = Some x\<close> x Some r by (simp add: serve_def updreq_def)
    qed
  qed (simp add: serve_def)
qed

lemma respond_None: "s_reqs s r = Some q \<Longrightarrow> (\<And>k. answer (closereq k) r e (f_type (r_ifcall q)) (s\<lparr>s_reqs := (s_reqs s)(r := Some (q\<lparr>r_error := e\<rparr>))\<rparr>) = None)
    \<Longrightarrow> respond n r e s = None"
  by (cases n) (simp_all add: updreq_def)

text \<open>An answer that does not fit into the buffer.\<close>

lemma version_too_long:
  assumes q: "s_reqs s r = Some q" and t: "f_type (r_ifcall q) = Tversion"
    and v: "f_version (r_ofcall q) = Some v" "length v < 100" and m: "unat (f_msize (r_ofcall q)) < 13 + length v"
  shows "respond n r None s = None"
proof (cases n)
  case (Suc k)
  let ?q = "q\<lparr>r_error := None\<rparr>"
  let ?s = "s\<lparr>s_reqs := (s_reqs s)(r := Some ?q)\<rparr>"
  let ?m = "f_msize (r_ofcall q)"
  let ?s2 = "changemsize ?m ?s"
  have a: "answer (closereq k) r None Tversion ?s = Some (False, ?s2)" by (simp add: answer_def rversion_def Let_def)
  have s2: "s_reqs ?s2 = (s_reqs s)(r := Some ?q)" "s_msize ?s2 = ?m" by (simp_all add: changemsize_def)
  let ?oc = "(r_ofcall q)\<lparr>f_tag := f_tag (r_ifcall q), f_type := Rversion\<rparr>"
  have sz: "sizeS2M ?oc = of_nat (13 + length v)" using v(1) by (simp add: sizeS2M_def stringsz_def)
  have u: "unat (of_nat (13 + length v) :: uint) = 13 + length v" using v(2) by (simp only: unat_of_nat) (simp add: take_bit_nat_eq_self)
  have "?m < sizeS2M ?oc" using m unfolding sz word_less_nat_alt u .
  then have c: "convS2M ?oc b ?m = (0, b)" for b by (simp add: convS2M_def Let_def)
  have "encode_reply r ?s2 = None"
    unfolding encode_reply_def using t by (simp add: s2 updreq_def c Let_def)
  then show ?thesis using q t a by (cases "r_responded q") (simp_all add: Suc updreq_def)
qed simp

text \<open>C12: Messages that stop the server, in any state: one of a type that only servers send, because \<^verbatim>\<open>respond\<close>
  asserts that the type is a request's; and a \<^verbatim>\<open>Tversion\<close> whose version does not begin with \<^verbatim>\<open>9P\<close> or whose
  \<^verbatim>\<open>msize\<close> is less than 19, because the buffer is made as small as the answer says before the answer is encoded.
  In the first of these the answer's \<^verbatim>\<open>msize\<close> is 0, though the client should be told that the version is unknown.\<close>

lemma server_stops:
  "(\<not> is_T (f_type f) \<longrightarrow> serve a fake na n f s = None)
    \<and> (f_type f = Tversion \<and> f_version f = Some v \<and> (take 2 v \<noteq> map of_char ''9P'' \<or> f_msize f < 19) \<longrightarrow> serve a fake na n f s = None)"
proof (intro conjI impI)
  assume t: "\<not> is_T (f_type f)"
  then have an: "answer c r e (f_type f) s = None" for c r e s by (simp add: answer_def is_T_def Let_def)
  show "serve a fake na n f s = None"
  proof (rule serve_stops)
    fix s :: srv and r q assume q: "s_reqs s r = Some q" "r_ifcall q = f"
    have "respond n r e s = None" for e by (rule respond_None [OF q(1)]) (simp add: q(2) an)
    then show "dispatch na n r (f_type f) s = None" using t by (simp add: dispatch_def is_T_def)
  qed (rule an)
next
  assume f: "f_type f = Tversion \<and> f_version f = Some v \<and> (take 2 v \<noteq> map of_char ''9P'' \<or> f_msize f < 19)"
  show "serve a fake na n f s = None"
  proof (rule serve_stops)
    fix s :: srv and r q assume q: "s_reqs s r = Some q" "r_ifcall q = f" "r_ofcall q = fcall0"
    have 9: "map of_char ''9P'' = ([0x39, 0x50] :: bytes)" by simp
    have d: "dispatch na n r (f_type f) s = sversion n r s" using f by (simp add: dispatch_def)
    show "dispatch na n r (f_type f) s = None"
    proof (cases "take 2 v = [0x39, 0x50]")
      case False
      let ?q = "q\<lparr>r_ofcall := (r_ofcall q)\<lparr>f_version := Some (err ''unknown'')\<rparr>\<rparr>"
      have "respond n r None (s\<lparr>s_reqs := (s_reqs s)(r := Some ?q)\<rparr>) = None"
        by (rule version_too_long [of _ _ ?q "err ''unknown''"]) (use f q in \<open>simp_all add: err_def fcall0_def\<close>)
      then show ?thesis using d f q False by (simp add: sversion_def updreq_def)
    next
      case True
      let ?q = "q\<lparr>r_ofcall := (r_ofcall q)\<lparr>f_version := Some (err ''9P2000''), f_msize := f_msize f\<rparr>\<rparr>"
      have "f_msize f < 19" using f True unfolding 9 by simp
      then have "unat (f_msize f) < 19" by (simp add: word_less_nat_alt)
      then have "respond n r None (s\<lparr>s_reqs := (s_reqs s)(r := Some ?q)\<rparr>) = None"
        by (intro version_too_long [of _ _ ?q "err ''9P2000''"]) (use f q in \<open>simp_all add: err_def\<close>)
      then show ?thesis using d f q True by (simp add: sversion_def updreq_def)
    qed
  next
    fix s :: srv and r q e k assume q: "s_reqs s r = Some q" "r_ifcall q = f"
    then show "answer (closereq k) r (Some e) (f_type f) s = None" using f by (simp add: answer_def rversion_def Let_def)
  qed
qed

lemma server_stops_witness:
  "serve 0 1 0 9 (fcall0\<lparr>f_type := Rclunk\<rparr>) ex_start = None
    \<and> serve 0 1 0 9 (fcall0\<lparr>f_type := Tversion, f_version := Some (map of_char ''8P''), f_msize := 8192\<rparr>) ex_start = None"
  using server_stops [of "fcall0\<lparr>f_type := Rclunk\<rparr>" 0 1 0 9 ex_start "[]"]
    server_stops [of "fcall0\<lparr>f_type := Tversion, f_version := Some (map of_char ''8P''), f_msize := 8192\<rparr>" 0 1 0 9 ex_start "map of_char ''8P''"]
  by (simp add: is_T_def)

section \<open>The depth\<close>

text \<open>A larger bound on the depth of \<open>respond\<close> and \<open>closereq\<close> gives the same result.\<close>

definition below :: "'a option \<Rightarrow> 'a option \<Rightarrow> bool" where
  "below x y \<longleftrightarrow> (\<forall>v. x = Some v \<longrightarrow> y = Some v)"

lemma below_refl [simp]: "below x x"
  by (simp add: below_def)

lemma below_bind: "below x y \<Longrightarrow> (\<And>v. below (f v) (g v)) \<Longrightarrow> below (x \<bind> f) (y \<bind> g)"
  by (auto simp: below_def bind_eq_Some_conv)

lemma below_if: "below x x' \<Longrightarrow> below y y' \<Longrightarrow> below (if b then x else y) (if b then x' else y')"
  by simp

lemma below_prod: "(\<And>a b. below (f a b) (g a b)) \<Longrightarrow> below (case p of (a, b) \<Rightarrow> f a b) (case p of (a, b) \<Rightarrow> g a b)"
  by (cases p) simp

lemma below_option: "below x x' \<Longrightarrow> (\<And>v. below (f v) (g v)) \<Longrightarrow> below (case ov of None \<Rightarrow> x | Some v \<Rightarrow> f v) (case ov of None \<Rightarrow> x' | Some v \<Rightarrow> g v)"
  by (cases ov) simp_all

lemma below_Let: "(\<And>v. below (f v) (g v)) \<Longrightarrow> below (Let v f) (Let v g)"
  by simp

lemmas below_intros = below_bind below_if below_prod below_option below_Let below_refl

lemma below_fold: "(\<And>x s. below (f x s) (g x s)) \<Longrightarrow> below r r' \<Longrightarrow> below (fold (\<lambda>x s. s \<bind> f x) xs r) (fold (\<lambda>x s. s \<bind> g x) xs r')"
  by (induction xs arbitrary: r r') (simp_all add: below_bind)

lemma below_unlessnil: "(\<And>x. below (f x s) (g x s)) \<Longrightarrow> below (unlessnil f v s) (unlessnil g v s)"
  by (cases v) (simp_all add: unlessnil_def)

lemma below_answer: "(\<And>a s. below (c a s) (d a s)) \<Longrightarrow> below (answer c r e t s) (answer d r e t s)"
proof (cases "t = Tflush")
  case True
  assume c: "\<And>a s. below (c a s) (d a s)"
  have "below (rflush c r e s) (rflush d r e s)"
    unfolding rflush_def by (intro below_intros c)
  then show "below (answer c r e t s) (answer d r e t s)" using True by (simp add: answer_def)
qed (simp add: answer_def)

lemma deeper: "below (respond n r e s) (respond (Suc n) r e s) \<and> below (closereq n r s) (closereq (Suc n) r s)"
proof (induction n arbitrary: r e s)
  case 0
  show ?case by (simp add: below_def)
next
  case (Suc n)
  have r: "below (respond n r e s) (respond (Suc n) r e s)" and c: "below (closereq n r s) (closereq (Suc n) r s)" for r e s
    using Suc.IH by blast+
  have "below (respond (Suc n) r e s) (respond (Suc (Suc n)) r e s)"
    by (subst respond.simps(2), subst respond.simps(2)) (intro below_intros below_answer below_fold below_unlessnil r c)
  moreover have "below (closereq (Suc n) r s) (closereq (Suc (Suc n)) r s)"
    by (subst closereq.simps(2), subst closereq.simps(2)) (intro below_intros below_unlessnil below_fold r c)
  ultimately show ?case by blast
qed

lemma respond_deeper: "respond n r e s = Some s' \<Longrightarrow> n \<le> k \<Longrightarrow> respond k r e s = Some s'"
  by (induction k) (use deeper in \<open>auto simp: below_def le_Suc_eq\<close>)

section \<open>Single requests\<close>

text \<open>A message whose tag is free is handled in a state with its request.\<close>

definition accepted :: "nat \<Rightarrow> fcall \<Rightarrow> srv \<Rightarrow> srv" where
  "accepted a f s = s\<lparr>s_log := s_log s @ [Recv (ucast (f_tag f))], s_rmap := snd (caninsertkey (s_rmap s) (ucast (f_tag f)) a),
     s_reqs := (s_reqs s)(a := Some ((req_new (ucast (f_tag f)))\<lparr>r_ref := 2, r_ifcall := f\<rparr>))\<rparr>"

lemma serve_accepted:
  assumes "im_rep (s_rmap s) m" "m (ucast (f_tag f)) = None"
  shows "serve a fake na n f s = dispatch na n a (f_type f) (accepted a f s)"
    "im_rep (s_rmap (accepted a f s)) (m(ucast (f_tag f) := Some a))"
  using allocreq_free [of "logev (Recv (ucast (f_tag f))) s" m "ucast (f_tag f)" n a] assms
  by (simp_all add: serve_def updreq_def accepted_def logev_def)

text \<open>C38: A flush of its own tag waits for itself: it finds itself in the table, since its tag was entered before, so it is put in
  its own queue. Nothing is sent, and the tag stays in use.\<close>

lemma flush_of_itself:
  assumes "srvreach s" "s_reqs s a = None" "reqtab s (ucast (f_tag f)) = None" "f_type f = Tflush" "f_oldtag f = f_tag f"
  shows "\<exists>s' q. serve a fake na (Suc n) f s = Some s' \<and> s_out s' = s_out s \<and> reqtab s' (ucast (f_tag f)) = Some a
    \<and> s_reqs s' a = Some q \<and> \<not> r_responded q \<and> r_oldreq q = Some a \<and> r_flush q = [a]"
proof -
  obtain m mf where i: "srv_inv s m mf (\<lambda>_. 0)" using srvreach_inv [OF assms(1)] by blast
  then have im: "im_rep (s_rmap s) m" by (simp add: srv_inv_def reqs_inv_def)
  have mk: "m (ucast (f_tag f)) = None" using assms(3) by (simp add: reqtab_eq [OF im])
  let ?s = "accepted a f s" and ?q = "(req_new (ucast (f_tag f)))\<lparr>r_ref := 2, r_ifcall := f\<rparr>"
  note acc = serve_accepted(1) [OF im mk, of a fake na "Suc n"] serve_accepted(2) [OF im mk, of a]
  have r: "s_reqs ?s = (s_reqs s)(a := Some ?q)" by (simp add: accepted_def)
  let ?q1 = "?q\<lparr>r_ref := 3, r_oldreq := Some a\<rparr>"
  let ?s1 = "?s\<lparr>s_reqs := (s_reqs s)(a := Some ?q1)\<rparr>"
  have l: "lookupreq (ucast (f_oldtag f)) ?s = Some (Some a, ?s\<lparr>s_reqs := (s_reqs s)(a := Some (?q\<lparr>r_ref := 3\<rparr>))\<rparr>)"
    using lookupreq_eq [OF acc(2), of "ucast (f_tag f)"] assms(5) by (simp add: r increqref_def updreq_def)
  have "sflush (Suc n) a ?s = respond (Suc n) a None ?s1"
    using l by (simp add: sflush_def r updreq_def)
  also have "\<dots> = Some (?s1\<lparr>s_reqs := (s_reqs s)(a := Some (?q1\<lparr>r_error := None, r_flush := [a]\<rparr>))\<rparr>)"
    using assms(4) by (simp add: updreq_def answer_def rflush_def req_new_def)
  finally have "serve a fake na (Suc n) f s = Some (?s1\<lparr>s_reqs := (s_reqs s)(a := Some (?q1\<lparr>r_error := None, r_flush := [a]\<rparr>))\<rparr>)"
    using acc(1) assms(4) by (simp add: dispatch_def)
  moreover have "reqtab (?s1\<lparr>s_reqs := R\<rparr>) (ucast (f_tag f)) = Some a" for R
    using reqtab_eq [of "?s1\<lparr>s_reqs := R\<rparr>", OF _] acc(2) by simp
  ultimately show ?thesis by (simp add: accepted_def req_new_def)
qed

lemma flush_of_itself_witness:
  "\<exists>s' q. serve 0 1 0 3 (fcall0\<lparr>f_type := Tflush, f_tag := 7, f_oldtag := 7\<rparr>) ex_start = Some s' \<and> s_out s' = s_out ex_start \<and> reqtab s' 7 = Some 0
    \<and> s_reqs s' 0 = Some q \<and> \<not> r_responded q \<and> r_oldreq q = Some 0 \<and> r_flush q = [0]"
proof -
  have e: "s_reqs ex_start 0 = None" "reqtab ex_start 7 = None" by code_simp+
  show ?thesis using flush_of_itself [OF ex_reach(1) e(1), of "fcall0\<lparr>f_type := Tflush, f_tag := 7, f_oldtag := 7\<rparr>" 1 0 2] e(2)
    by (simp add: numeral_3_eq_3 del: respond.simps)
qed

text \<open>Looking up and closing a fid.\<close>

lemma lookupfid_s_eq:
  assumes "fid_inv (s_fpool s) h mf" "mf k = Some b" "fp_fids (s_fpool s) b = Some g"
  shows "lookupfid_s k s = Some (Some b, s\<lparr>s_fpool := (s_fpool s)\<lparr>fp_fids := (fp_fids (s_fpool s))(b := Some (g\<lparr>fid_ref := fid_ref g + 1\<rparr>))\<rparr>\<rparr>)"
proof -
  have "map_of (im_hash (fp_map (s_fpool s)) ! hashid k) k = Some b"
    using chain_props(3) [OF fid_invD(1) [OF assms(1)], of k] assms(2) by simp
  then show ?thesis using assms(3) by (simp add: lookupfid_s_def lookupfid_def lookupkey_def deref_llookup incfidref_def)
qed

text \<open>C39: The check of the open mode lets a read through that has no open before it: a fid that is not open has the mode
  \<open>-1\<close>, whose last two bits are those of \<^verbatim>\<open>OEXEC\<close>. The request is handed to the application.\<close>

lemma read_unopened:
  assumes "srvreach s" "reqtab s (ucast (f_tag f)) = None" "f_type f = Tread" "fidtab s (f_fid f) = Some b" "fp_fids (s_fpool s) b = Some g"
    and "fid_omode g = -1" "q_type (fid_qid g) AND QTDIR = 0" "0 \<le> sint (f_count f)" "0 \<le> sint (f_offset f)" "o_read (s_ops s)"
  shows "\<exists>s'. serve a fake na n f s = Some s' \<and> s_log s' = s_log s @ [Recv (ucast (f_tag f)), Pass a]"
proof -
  obtain m mf where i: "srv_inv s m mf (\<lambda>_. 0)" using srvreach_inv [OF assms(1)] by blast
  then have im: "im_rep (s_rmap s) m" and fi: "fid_inv (s_fpool s) (hold s) mf" by (simp_all add: srv_inv_def reqs_inv_def)
  have mk: "m (ucast (f_tag f)) = None" using assms(2) by (simp add: reqtab_eq [OF im])
  have mf: "mf (f_fid f) = Some b" using assms(4) by (simp add: fidtab_eq [OF fid_invD(1) [OF fi]])
  let ?s = "accepted a f s" and ?q = "(req_new (ucast (f_tag f)))\<lparr>r_ref := 2, r_ifcall := f\<rparr>"
  have r: "s_reqs ?s = (s_reqs s)(a := Some ?q)" "s_fpool ?s = s_fpool s" "s_ops ?s = s_ops s" by (simp_all add: accepted_def)
  note l = lookupfid_s_eq [of ?s "hold s" mf "f_fid f" b g]
  have "dispatch na n a (f_type f) ?s = sread n a ?s" using assms(3) by (simp add: dispatch_def)
  moreover have "\<exists>s'. sread n a ?s = Some s' \<and> s_log s' = s_log ?s @ [Pass a]"
    using l fi mf assms(5-10) by (simp add: sread_def r updreq_def getfid_def pass_def logev_def Let_def)
  ultimately show ?thesis using serve_accepted(1) [OF im mk, of a fake na n] by (simp add: accepted_def)
qed

lemma read_unopened_witness: "\<exists>s'. serve 0 1 1 3 ex_read ex_attached = Some s' \<and> s_log s' = s_log ex_attached @ [Recv 2, Pass 0]"
proof -
  note e = ex_fid
  have g: "fp_fids (s_fpool ex_attached) 0 = Some (the (fp_fids (s_fpool ex_attached) 0))" using e(4) by (simp only: option.collapse not_False_eq_True)
  have f: "f_type ex_read = Tread" "f_fid ex_read = 5" "f_tag ex_read = 2" "0 \<le> sint (f_count ex_read)" "0 \<le> sint (f_offset ex_read)"
    by (simp_all add: ex_read_def fcall0_def)
  have t: "reqtab ex_attached (ucast (f_tag ex_read)) = None" "fidtab ex_attached (f_fid ex_read) = Some 0" using e(1,3) f(2,3) by simp_all
  show ?thesis using read_unopened [OF ex_reach(2) t(1) f(1) t(2) g e(8,9) f(4,5) e(7), of 0 1 1 3] f(3) by simp
qed

text \<open>
  What \<^verbatim>\<open>freefid\<close> does to the tree when the last reference to the fid \<open>g\<close> goes: it closes the directory that
  the fid reads, then the file. The result is \<open>None\<close> where one of the two stops the server.
\<close>

definition closing :: "fid \<Rightarrow> tree option \<Rightarrow> tree option option" where
  "closing g t = do {
     t \<leftarrow> (case fid_rdir g of None \<Rightarrow> Some t | Some d \<Rightarrow> map_option Some (t \<bind> closedirfile d));
     case fid_file g of None \<Rightarrow> Some t | Some x \<Rightarrow> map_option Some (t \<bind> closefile x) }"

lemma fidevent_tree:
  "fidevent (Closedirfile d) s = map_option (\<lambda>t. s\<lparr>s_tree := Some t\<rparr>) (s_tree s \<bind> closedirfile d)"
  "fidevent (Closefile x) s = map_option (\<lambda>t. s\<lparr>s_tree := Some t\<rparr>) (s_tree s \<bind> closefile x)"
  by (cases "s_tree s"; simp add: ontree_def map_option_case split: option.split)+

lemma closefid_s_last:
  assumes "fp_fids (s_fpool s) b = Some g" "fid_ref g = 1"
  shows "case closing g (s_tree s) of None \<Rightarrow> closefid_s (Some b) s = None
    | Some t \<Rightarrow> \<exists>s'. closefid_s (Some b) s = Some s' \<and> same_reqs s s' \<and> s_tree s' = t
        \<and> s_fpool s' = (s_fpool s)\<lparr>fp_fids := (fp_fids (s_fpool s))(b := None), fp_log := []\<rparr>"
proof -
  let ?p = "(s_fpool s)\<lparr>fp_fids := (fp_fids (s_fpool s))(b := None), fp_log := []\<rparr>"
  let ?ev = "(case fid_rdir g of None \<Rightarrow> [] | Some d \<Rightarrow> [Closedirfile d]) @ (if fp_destroy (s_fpool s) then [Destroy b] else [])
      @ (case fid_file g of None \<Rightarrow> [] | Some x \<Rightarrow> [Closefile x])"
  have c: "closefid_s (Some b) s = fidevents (?p\<lparr>fp_log := ?ev\<rparr>) s"
    using assms by (simp add: closefid_s_def closefid_def Let_def)
  show ?thesis unfolding c
    by (cases "fid_rdir g"; cases "fid_file g"; cases "s_tree s")
      (auto simp: fidevents_def closing_def fidevent_tree same_reqs_def split: option.split bind_splits simp del: fidevent.simps(1,3))
qed

lemma closereq_last:
  assumes "s_reqs s a = Some q" "r_ref q = 1" "r_fid q = Some b" "r_newfid q = None" "r_afid q = None" "r_oldreq q = None" "r_flush q = []"
    "f_type (r_ifcall q) = Tclunk" "fp_fids (s_fpool s) b = Some g" "fid_ref g = 1"
  shows "case closing g (s_tree s) of None \<Rightarrow> closereq (Suc n) a s = None
    | Some t \<Rightarrow> \<exists>s'. closereq (Suc n) a s = Some s' \<and> s_reqs s' = (s_reqs s)(a := None) \<and> s_rmap s' = s_rmap s \<and> s_out s' = s_out s
        \<and> s_tree s' = t \<and> s_fpool s' = (s_fpool s)\<lparr>fp_fids := (fp_fids (s_fpool s))(b := None), fp_log := []\<rparr>"
proof -
  let ?s = "s\<lparr>s_reqs := (s_reqs s)(a := Some (q\<lparr>r_ref := 0\<rparr>))\<rparr>"
  have c: "case closing g (s_tree s) of None \<Rightarrow> closefid_s (Some b) ?s = None
    | Some t \<Rightarrow> \<exists>s'. closefid_s (Some b) ?s = Some s' \<and> same_reqs ?s s' \<and> s_tree s' = t
        \<and> s_fpool s' = (s_fpool s)\<lparr>fp_fids := (fp_fids (s_fpool s))(b := None), fp_log := []\<rparr>"
    using closefid_s_last [of ?s b g] assms(9-10) by (cases "closing g (s_tree s)") simp_all
  show ?thesis
  proof (cases "closing g (s_tree s)")
    case None
    then show ?thesis using c assms(1-8) by (simp add: updreq_def closefids_def unlessnil_def)
  next
    case (Some t)
    then obtain s1 where "closefid_s (Some b) ?s = Some s1" "same_reqs ?s s1" "s_tree s1 = t"
        "s_fpool s1 = (s_fpool s)\<lparr>fp_fids := (fp_fids (s_fpool s))(b := None), fp_log := []\<rparr>"
      using c by auto
    then show ?thesis using Some assms(1-8) by (auto simp: updreq_def closefids_def unlessnil_def Let_def same_reqs_def)
  qed
qed

lemma wire_Rclunk:
  assumes "7 \<le> m"
  shows "convS2M (fcall0\<lparr>f_type := Rclunk, f_tag := t\<rparr>) (replicate (unat m) 0) m = (7, w)
    \<Longrightarrow> take 7 w = wire (fcall0\<lparr>f_type := Rclunk, f_tag := t\<rparr>)"
    "fst (convS2M (fcall0\<lparr>f_type := Rclunk, f_tag := t\<rparr>) (replicate (unat m) 0) m) = 7"
proof -
  let ?f = "fcall0\<lparr>f_type := Rclunk, f_tag := t\<rparr>"
  have l: "wire_len ?f = 7" by (simp add: wire_len_def wire_body_def)
  have ok: "fcall_ok ?f" by (simp add: fcall_ok_def legal_type_def l)
  have m: "7 \<le> unat m" using assms by (simp add: word_le_nat_alt)
  have c: "convS2M ?f (replicate (unat m) 0) m = (of_nat (wire_len ?f), poke (replicate (unat m) 0) 0 (wire ?f))"
    by (rule convS2M_wire [OF ok]) (use l m in simp_all)
  show "fst (convS2M ?f (replicate (unat m) 0) m) = 7" unfolding c l by simp
  show "take 7 w = wire ?f" if "convS2M ?f (replicate (unat m) 0) m = (7, w)"
    using that unfolding c by (auto simp: poke_def length_wire l)
qed

lemma encode_Rclunk:
  assumes "s_reqs s r = Some q" "r_ofcall q = fcall0" "r_error q = None" "f_type (r_ifcall q) = Tclunk" "7 \<le> s_msize s"
  shows "encode_reply r s = Some (wire (fcall0\<lparr>f_type := Rclunk, f_tag := f_tag (r_ifcall q)\<rparr>),
    s\<lparr>s_reqs := (s_reqs s)(r := Some (q\<lparr>r_ofcall := fcall0\<lparr>f_type := Rclunk, f_tag := f_tag (r_ifcall q)\<rparr>\<rparr>))\<rparr>)"
proof -
  let ?oc = "fcall0\<lparr>f_type := Rclunk, f_tag := f_tag (r_ifcall q)\<rparr>"
  obtain w where w: "convS2M ?oc (replicate (unat (s_msize s)) 0) (s_msize s) = (7, w)" "take 7 w = wire ?oc"
    using wire_Rclunk [OF assms(5), of "f_tag (r_ifcall q)"] by (metis prod.collapse)
  have oc: "(r_ofcall q)\<lparr>f_tag := f_tag (r_ifcall q), f_type := f_type (r_ifcall q) + 1\<rparr> = ?oc"
    using assms(2,4) by (simp add: fcall0_def)
  show ?thesis unfolding encode_reply_def assms(1) bind.bind_lunit Let_def oc using assms(1,3) w by (simp add: updreq_def)
qed

lemma respond_clunk:
  assumes K: "\<And>s q. s_reqs s a = Some q \<Longrightarrow> r_ref q \<noteq> 1 \<Longrightarrow> closereq k a s = Some (s\<lparr>s_reqs := (s_reqs s)(a := Some (q\<lparr>r_ref := r_ref q - 1\<rparr>))\<rparr>)"
    and q: "s_reqs s a = Some q" "\<not> r_responded q" "r_pool q" "r_ref q = 2" "r_flush q = []" "f_type (r_ifcall q) = Tclunk" "r_ofcall q = fcall0"
    and m: "7 \<le> s_msize s" and d: "fst (deletekey (s_rmap s) (ucast (f_tag (r_ifcall q)))) = Some a"
  shows "\<exists>s3 q3. respond (Suc k) a None s = closereq k a s3 \<and> s_reqs s3 = (s_reqs s)(a := Some q3)
      \<and> r_ref q3 = 1 \<and> r_flush q3 = [] \<and> r_ifcall q3 = r_ifcall q \<and> r_oldreq q3 = r_oldreq q \<and> fids q3 = fids q
      \<and> s_rmap s3 = snd (deletekey (s_rmap s) (ucast (f_tag (r_ifcall q)))) \<and> s_fpool s3 = s_fpool s \<and> s_tree s3 = s_tree s
      \<and> s_out s3 = s_out s @ wire (fcall0\<lparr>f_type := Rclunk, f_tag := f_tag (r_ifcall q)\<rparr>)"
proof -
  let ?s = "s\<lparr>s_reqs := (s_reqs s)(a := Some (q\<lparr>r_error := None\<rparr>))\<rparr>"
  have e: "encode_reply a ?s = Some (wire (fcall0\<lparr>f_type := Rclunk, f_tag := f_tag (r_ifcall q)\<rparr>),
      ?s\<lparr>s_reqs := (s_reqs ?s)(a := Some (q\<lparr>r_error := None, r_ofcall := fcall0\<lparr>f_type := Rclunk, f_tag := f_tag (r_ifcall q)\<rparr>\<rparr>))\<rparr>)"
    using encode_Rclunk [of ?s a "q\<lparr>r_error := None\<rparr>"] q m by simp
  show ?thesis using q e d
    by (simp add: updreq_def answer_def removereq_def unlessnil_def split_beta Let_def K)
      (rule exI, rule conjI, rule refl, rule exI [of _ "q\<lparr>r_error := None, r_ofcall := fcall0\<lparr>f_type := Rclunk, f_tag := f_tag (r_ifcall q)\<rparr>, r_ref := 1,
        r_responded := True, r_flush := []\<rparr>"], simp add: fids_def)
qed

text \<open>A clunk goes to the end of its request: the answer is sent, the number of the fid is free, and the fid is still to be closed.\<close>

lemma clunk_runs:
  assumes im: "im_rep (s_rmap s) m" "m (ucast (f_tag f)) = None" and fm: "im_rep (fp_map (s_fpool s)) mf" "mf (f_fid f) = Some b"
    and t: "f_type f = Tclunk" and z: "7 \<le> s_msize s"
  shows "\<exists>s3 q3. serve a fake na (Suc (Suc n)) f s = closereq (Suc n) a s3 \<and> s_reqs s3 = (s_reqs s)(a := Some q3) \<and> im_rep (s_rmap s3) m
    \<and> s_out s3 = s_out s @ wire (fcall0\<lparr>f_type := Rclunk, f_tag := f_tag f\<rparr>) \<and> s_tree s3 = s_tree s
    \<and> s_fpool s3 = (s_fpool s)\<lparr>fp_map := snd (deletekey (fp_map (s_fpool s)) (f_fid f))\<rparr>
    \<and> r_ref q3 = 1 \<and> r_flush q3 = [] \<and> r_ifcall q3 = f \<and> r_oldreq q3 = None \<and> fids q3 = (Some b, None, None)"
proof -
  let ?k = "ucast (f_tag f) :: uint" and ?q = "(req_new (ucast (f_tag f)))\<lparr>r_ref := 2, r_ifcall := f\<rparr>"
  let ?s = "accepted a f s"
  note acc = serve_accepted(1) [OF im, of a fake na "Suc (Suc n)"] serve_accepted(2) [OF im, of a]
  have r: "s_reqs ?s = (s_reqs s)(a := Some ?q)" "s_fpool ?s = s_fpool s" "s_out ?s = s_out s" "s_msize ?s = s_msize s" "s_tree ?s = s_tree s"
    by (simp_all add: accepted_def)
  have del: "fst (deletekey (fp_map (s_fpool s)) (f_fid f)) = Some b" using intmap.rep_del [OF fm(1), of "f_fid f"] fm(2) by auto
  have rdel: "fst (deletekey (s_rmap ?s) ?k) = Some a" "im_rep (snd (deletekey (s_rmap ?s) ?k)) ((m(?k := Some a))(?k := None))"
    using intmap.rep_del [OF acc(2), of ?k] by auto
  have mm: "(m(?k := Some a))(?k := None) = m" using im(2) by auto
  let ?q1 = "?q\<lparr>r_fid := Some b\<rparr>"
  let ?s1 = "?s\<lparr>s_fpool := (s_fpool s)\<lparr>fp_map := snd (deletekey (fp_map (s_fpool s)) (f_fid f))\<rparr>, s_reqs := (s_reqs s)(a := Some ?q1)\<rparr>"
  have 1: "sclunk (Suc (Suc n)) a ?s = respond (Suc (Suc n)) a None ?s1"
    using del by (simp add: sclunk_def r removefid_s_def removefid_def updreq_def split_beta del: respond.simps)
  have "\<exists>s3 q3. respond (Suc (Suc n)) a None ?s1 = closereq (Suc n) a s3 \<and> s_reqs s3 = (s_reqs ?s1)(a := Some q3)
      \<and> r_ref q3 = 1 \<and> r_flush q3 = [] \<and> r_ifcall q3 = r_ifcall ?q1 \<and> r_oldreq q3 = r_oldreq ?q1 \<and> fids q3 = fids ?q1
      \<and> s_rmap s3 = snd (deletekey (s_rmap ?s1) (ucast (f_tag (r_ifcall ?q1)))) \<and> s_fpool s3 = s_fpool ?s1 \<and> s_tree s3 = s_tree ?s1
      \<and> s_out s3 = s_out ?s1 @ wire (fcall0\<lparr>f_type := Rclunk, f_tag := f_tag (r_ifcall ?q1)\<rparr>)"
    by (rule respond_clunk) (use t z rdel(1) in \<open>simp_all add: r updreq_def req_new_def\<close>)
  then obtain s3 q3 where s3: "respond (Suc (Suc n)) a None ?s1 = closereq (Suc n) a s3" "s_reqs s3 = (s_reqs s)(a := Some q3)"
      "s_rmap s3 = snd (deletekey (s_rmap ?s) ?k)" "s_out s3 = s_out s @ wire (fcall0\<lparr>f_type := Rclunk, f_tag := f_tag f\<rparr>)" "s_tree s3 = s_tree s"
      "s_fpool s3 = (s_fpool s)\<lparr>fp_map := snd (deletekey (fp_map (s_fpool s)) (f_fid f))\<rparr>"
    and q3: "r_ref q3 = 1" "r_flush q3 = []" "r_ifcall q3 = f" "r_oldreq q3 = None" "fids q3 = (Some b, None, None)"
    by (auto simp: r req_new_def fids_def)
  have "serve a fake na (Suc (Suc n)) f s = closereq (Suc n) a s3"
    using acc(1) 1 s3(1) t by (simp add: dispatch_def del: respond.simps closereq.simps)
  then show ?thesis using s3(2-6) q3 rdel(2) mm by (intro exI [of _ s3] exI [of _ q3]) simp
qed

text \<open>C11: A clunk of a fid that no other request uses, whatever the fid stands for (a file of the tree or not, an open
  directory or not). The message is answered at once: the bytes sent are the encoding of \<^verbatim>\<open>Rclunk\<close> with the tag of the
  message, the fid is freed, its directory and its file are closed and nothing else changes in the tree, its number can be used again,
  no other fid changes, and the request is gone, so that its tag is free again. The server stops, without a result, exactly when the file
  tree cannot close the directory or the file of the fid.\<close>

lemma clunk_answered:
  assumes "srvreach s" "s_reqs s a = None" "reqtab s (ucast (f_tag f)) = None" "f_type f = Tclunk"
    and "fidtab s (f_fid f) = Some b" "fp_fids (s_fpool s) b = Some g" "hold s b = 0" "7 \<le> s_msize s"
  shows "case closing g (s_tree s) of None \<Rightarrow> serve a fake na (Suc (Suc n)) f s = None
    | Some t \<Rightarrow> \<exists>s'. serve a fake na (Suc (Suc n)) f s = Some s' \<and> s_out s' = s_out s @ wire (fcall0\<lparr>f_type := Rclunk, f_tag := f_tag f\<rparr>)
        \<and> fp_fids (s_fpool s') = (fp_fids (s_fpool s))(b := None) \<and> (\<forall>k. fidtab s' k = (if k = f_fid f then None else fidtab s k))
        \<and> s_tree s' = t \<and> s_reqs s' = s_reqs s \<and> (\<forall>k. reqtab s' k = reqtab s k)"
proof -
  obtain m mf where i: "srv_inv s m mf (\<lambda>_. 0)" using srvreach_inv [OF assms(1)] by blast
  then have im: "im_rep (s_rmap s) m" and fi: "fid_inv (s_fpool s) (hold s) mf" by (simp_all add: srv_inv_def reqs_inv_def)
  have mk: "m (ucast (f_tag f)) = None" using assms(3) by (simp add: reqtab_eq [OF im])
  note fd = fid_invD [OF fi]
  have mf: "mf (f_fid f) = Some b" using assms(5) by (simp add: fidtab_eq [OF fd(1)])
  have "fid_fid g = f_fid f" using fd(3) [OF mf] assms(6) by simp
  then have gr: "fid_ref g = 1" using fd(2) [of b] assms(6,7) mf by simp
  obtain s3 q3 where s3: "serve a fake na (Suc (Suc n)) f s = closereq (Suc n) a s3" "s_reqs s3 = (s_reqs s)(a := Some q3)" "im_rep (s_rmap s3) m"
      "s_out s3 = s_out s @ wire (fcall0\<lparr>f_type := Rclunk, f_tag := f_tag f\<rparr>)" "s_tree s3 = s_tree s"
      "s_fpool s3 = (s_fpool s)\<lparr>fp_map := snd (deletekey (fp_map (s_fpool s)) (f_fid f))\<rparr>"
    and q3: "r_ref q3 = 1" "r_flush q3 = []" "r_ifcall q3 = f" "r_oldreq q3 = None" "fids q3 = (Some b, None, None)"
    using clunk_runs [OF im mk fd(1) mf assms(4,8), of a fake na n] by blast
  have cl: "case closing g (s_tree s3) of None \<Rightarrow> closereq (Suc n) a s3 = None
    | Some t \<Rightarrow> \<exists>s'. closereq (Suc n) a s3 = Some s' \<and> s_reqs s' = (s_reqs s3)(a := None) \<and> s_rmap s' = s_rmap s3 \<and> s_out s' = s_out s3
        \<and> s_tree s' = t \<and> s_fpool s' = (s_fpool s3)\<lparr>fp_fids := (fp_fids (s_fpool s3))(b := None), fp_log := []\<rparr>"
    by (rule closereq_last [of s3 a q3 b g]) (use s3 q3 assms(4,6) gr in \<open>simp_all add: fids_def\<close>)
  show ?thesis
  proof (cases "closing g (s_tree s)")
    case None
    then show ?thesis using cl by (simp add: s3(1,5))
  next
    case (Some t)
    then obtain s' where s': "closereq (Suc n) a s3 = Some s'" "s_reqs s' = (s_reqs s3)(a := None)" "s_rmap s' = s_rmap s3" "s_out s' = s_out s3"
        "s_tree s' = t" "s_fpool s' = (s_fpool s3)\<lparr>fp_fids := (fp_fids (s_fpool s3))(b := None), fp_log := []\<rparr>"
      using cl by (auto simp: s3(5))
    have "s_reqs s' = s_reqs s" using s'(2) s3(2) assms(2) by (simp add: fun_upd_idem)
    moreover have "fidtab s' k = (if k = f_fid f then None else fidtab s k)" for k
      using fidtab_eq [of s' "mf(f_fid f := None)" k] intmap.rep_del [OF fd(1), of "f_fid f"] s'(6) s3(6)
      by (simp add: fidtab_eq [OF fd(1)])
    moreover have "reqtab s' k = reqtab s k" for k
      using reqtab_eq [of s' m k] s'(3) s3(3) by (simp add: reqtab_eq [OF im])
    ultimately show ?thesis using Some s'(1,4-6) s3(4,6) by (simp add: s3(1))
  qed
qed

text \<open>
  A server with a file tree: fid 5 is attached to its root and opened, so that it holds a reference to the
  root and a directory that is being read (address 3); the clunk closes both.
\<close>

definition ex_dir :: srv where
  "ex_dir = the (deliver 0 1 3 3 (fcall0\<lparr>f_type := Topen, f_tag := 2, f_fid := 5, f_mode := 0\<rparr>)
     (the (deliver 0 1 0 3 (fcall0\<lparr>f_type := Tattach, f_tag := 1, f_fid := 5, f_afid := NOFID, f_uname := Some [103], f_aname := Some []\<rparr>)
       (srv_start nullsrv False (alloctree (Some [103]) None 0x1FF None 0 0) 64))))"

lemma ex_dir_reach: "srvreach ex_dir"
proof -
  let ?s0 = "srv_start nullsrv False (alloctree (Some [103]) None 0x1FF None 0 0) 64"
  let ?f = "fcall0\<lparr>f_type := Tattach, f_tag := 1, f_fid := 5, f_afid := NOFID, f_uname := Some [103], f_aname := Some []\<rparr>"
  let ?g = "fcall0\<lparr>f_type := Topen, f_tag := 2, f_fid := 5, f_mode := 0\<rparr>"
  have "srvreach ?s0" by (auto simp: srvreach_def)
  moreover have "deliver 0 1 0 3 ?f ?s0 \<noteq> None" by code_simp
  ultimately have "srvreach (the (deliver 0 1 0 3 ?f ?s0))" by (rule deliver_reach)
  moreover have "deliver 0 1 3 3 ?g (the (deliver 0 1 0 3 ?f ?s0)) \<noteq> None" by code_simp
  ultimately show ?thesis unfolding ex_dir_def by (rule deliver_reach)
qed

lemma ex_dir_fid:
  "let s = ex_dir; g = the (fp_fids (s_fpool s) 0); t = closing g (s_tree s) in
     reqtab s 9 = None \<and> fidtab s 5 = Some 0 \<and> fp_fids (s_fpool s) 0 \<noteq> None \<and> s_reqs s 0 = None \<and> 7 \<le> s_msize s
     \<and> fid_file g = Some 0 \<and> fid_rdir g = Some 3 \<and> fid_ref g = 1 \<and> fid_fid g = 5
     \<and> tr_rdirs (the (s_tree s)) 3 \<noteq> None \<and> map_option fi_ref (tr_files (the (s_tree s)) 0) = Some 2
     \<and> t \<noteq> None \<and> tr_rdirs (the (the t)) 3 = None \<and> map_option fi_ref (tr_files (the (the t)) 0) = Some 1"
  by code_simp

lemma clunk_answered_witness:
  "\<exists>s' t. serve 0 1 4 2 (fcall0\<lparr>f_type := Tclunk, f_tag := 9, f_fid := 5\<rparr>) ex_dir = Some s'
    \<and> s_out s' = s_out ex_dir @ [7, 0, 0, 0, 121, 9, 0] \<and> fidtab s' 5 = None
    \<and> s_tree s' = Some t \<and> tr_rdirs t 3 = None \<and> map_option fi_ref (tr_files t 0) = Some 1
    \<and> tr_rdirs (the (s_tree ex_dir)) 3 \<noteq> None \<and> map_option fi_ref (tr_files (the (s_tree ex_dir)) 0) = Some 2"
proof -
  let ?f = "fcall0\<lparr>f_type := Tclunk, f_tag := 9, f_fid := 5\<rparr>"
  define g where "g = the (fp_fids (s_fpool ex_dir) 0)"
  define t where "t = closing g (s_tree ex_dir)"
  have e: "reqtab ex_dir 9 = None" "fidtab ex_dir 5 = Some 0" "fp_fids (s_fpool ex_dir) 0 = Some g" "s_reqs ex_dir 0 = None"
      "7 \<le> s_msize ex_dir" "fid_ref g = 1" "fid_fid g = 5"
      "tr_rdirs (the (s_tree ex_dir)) 3 \<noteq> None" "map_option fi_ref (tr_files (the (s_tree ex_dir)) 0) = Some 2"
      "t \<noteq> None" "tr_rdirs (the (the t)) 3 = None" "map_option fi_ref (tr_files (the (the t)) 0) = Some 1" "fid_file g = Some 0"
    using ex_dir_fid unfolding Let_def g_def [symmetric] t_def [symmetric] by (auto simp: g_def)
  obtain v where v: "t = Some v" using e(10) by blast
  have "v \<noteq> None" using v e(13) by (auto simp: t_def closing_def split: option.splits bind_splits)
  then obtain u where u: "t = Some (Some u)" using v by blast
  obtain m mf where "srv_inv ex_dir m mf (\<lambda>_. 0)" using srvreach_inv [OF ex_dir_reach] by blast
  then have fi: "fid_inv (s_fpool ex_dir) (hold ex_dir) mf" by (simp add: srv_inv_def)
  have "mf 5 = Some 0" using e(2) fidtab_eq [OF fid_invD(1) [OF fi], of 5] by simp
  then have h: "hold ex_dir 0 = 0" using fid_invD(2) [OF fi, of 0] e(3,6,7) by simp
  have w: "wire (fcall0\<lparr>f_type := Rclunk, f_tag := f_tag ?f\<rparr>) = [7, 0, 0, 0, 121, 9, 0]" by code_simp
  have f: "reqtab ex_dir (ucast (f_tag ?f)) = None" "f_type ?f = Tclunk" "fidtab ex_dir (f_fid ?f) = Some 0"
    using e(1,2) by simp_all
  from clunk_answered [OF ex_dir_reach e(4) f e(3) h e(5), of 1 4 0] obtain s' where
    s': "serve 0 1 4 (Suc (Suc 0)) ?f ex_dir = Some s'" "s_out s' = s_out ex_dir @ wire (fcall0\<lparr>f_type := Rclunk, f_tag := f_tag ?f\<rparr>)"
      "\<forall>k. fidtab s' k = (if k = f_fid ?f then None else fidtab ex_dir k)" "s_tree s' = Some u"
    unfolding t_def [symmetric] u option.case by blast
  have "fidtab s' 5 = None" using spec [OF s'(3), of 5] by simp
  moreover have "serve 0 1 4 2 ?f ex_dir = Some s'" using s'(1) by (simp only: numeral_2_eq_2)
  ultimately show ?thesis using s'(2,4) e(8,9,11,12) unfolding w u option.sel by blast
qed

end
