(* ===== verification/Xalloc.thy ===== *)
theory Xalloc
  imports Waitq
begin

text \<open>
  The allocator of long-lived kernel memory (\<^verbatim>\<open>kernel/memory/xalloc.c\<close>): a list of free holes of physical
  memory, sorted by address, and a list of unused hole structures, both linked through
  \<^verbatim>\<open>Hole.next\<close>. A hole is its index in \<^verbatim>\<open>xlists.hole\<close>. The machine-dependent functions are those of
  the 386 port (\<^verbatim>\<open>kernel/memory/386/mmu.c\<close>).

  \<open>x_hdr\<close> holds the size and the mark of the header at a kernel address. The rest of memory is not
  modelled, and neither are the printed messages. A pointer to a link is the index of the
  hole that contains it, or \<open>None\<close> for \<^verbatim>\<open>xlists.sorted_holes\<close>. \<open>None\<close> as a result means that a loop does not end
  or that the kernel panics.
\<close>

section \<open>Kernel and physical addresses\<close>

abbreviation (input) KZERO :: uint where "KZERO \<equiv> 0xE0000000"
abbreviation (input) MAXKPA :: uint where "MAXKPA \<equiv> 0x20000000"
abbreviation (input) BY2PG :: uint where "BY2PG \<equiv> 4096"

definition arch_kaddr :: "uint \<Rightarrow> uint option" where
  "arch_kaddr pa = (if pa > MAXKPA then None else Some (pa + KZERO))"

definition arch_paddr :: "uint \<Rightarrow> uint option" where
  "arch_paddr va = (if va < KZERO then None else Some (va - KZERO))"

definition arch_cankaddr :: "uint \<Rightarrow> uint" where
  "arch_cankaddr pa = (if pa \<ge> MAXKPA then 0 else MAXKPA - pa)"

section \<open>The lists of holes\<close>

record hole =
  h_addr :: uint
  h_top :: uint
  h_size :: uint
  h_next :: "nat option"

record xlists =
  x_hole :: "nat \<Rightarrow> hole"
  x_unused :: "nat option"
  x_sorted :: "nat option"
  x_hdr :: "uint \<Rightarrow> uint \<times> uint"

abbreviation (input) Magichole :: uint where "Magichole \<equiv> 0x484F4C45"

definition seth :: "nat \<Rightarrow> (hole \<Rightarrow> hole) \<Rightarrow> xlists \<Rightarrow> xlists" where
  "seth i f x = x\<lparr>x_hole := (x_hole x)(i := f (x_hole x i))\<rparr>"

definition setlink :: "nat option \<Rightarrow> nat option \<Rightarrow> xlists \<Rightarrow> xlists" where
  "setlink l v x = (case l of None \<Rightarrow> x\<lparr>x_sorted := v\<rparr> | Some j \<Rightarrow> seth j (\<lambda>h. h\<lparr>h_next := v\<rparr>) x)"

text \<open>A hole structure that is no longer needed goes to the front of the unused ones.\<close>

definition unuse :: "nat \<Rightarrow> xlists \<Rightarrow> xlists" where
  "unuse i x = (seth i (\<lambda>h. h\<lparr>h_next := x_unused x\<rparr>) x)\<lparr>x_unused := Some i\<rparr>"

section \<open>Allocating\<close>

partial_function (option) xalloc_scan ::
  "(nat \<Rightarrow> hole) \<Rightarrow> uint \<Rightarrow> nat option \<Rightarrow> nat option \<Rightarrow> (nat option \<times> nat option) option" where
  "xalloc_scan hs sz l h =
     (case h of
        None \<Rightarrow> Some (l, None)
      | Some i \<Rightarrow> if h_size (hs i) \<ge> sz then Some (l, Some i)
                 else xalloc_scan hs sz (Some i) (h_next (hs i)))"

definition xallocz :: "uint \<Rightarrow> bool \<Rightarrow> xlists \<Rightarrow> (uint option \<times> xlists) option" where
  "xallocz sz zero x = do {
     let sz = sz + (8 + 8);
     let sz = sz AND NOT 7;
     (l, h) \<leftarrow> xalloc_scan (x_hole x) sz None (x_sorted x);
     case h of
       None \<Rightarrow> Some (None, x)
     | Some i \<Rightarrow> do {
         p \<leftarrow> arch_kaddr (h_addr (x_hole x i));
         let x = seth i (\<lambda>h. h\<lparr>h_addr := h_addr h + sz\<rparr>) x;
         let x = seth i (\<lambda>h. h\<lparr>h_size := h_size h - sz\<rparr>) x;
         let x = (if h_size (x_hole x i) = 0 then unuse i (setlink l (h_next (x_hole x i)) x) else x);
         let x = (if zero then x\<lparr>x_hdr := (\<lambda>a. if unat p \<le> unat a \<and> unat a < unat p + unat sz then (0, 0) else x_hdr x a)\<rparr> else x);
         let x = x\<lparr>x_hdr := (x_hdr x)(p := (sz, Magichole))\<rparr>;
         Some (Some (p + 8), x) } }"

definition xalloc :: "uint \<Rightarrow> xlists \<Rightarrow> (uint option \<times> xlists) option" where
  "xalloc sz x = xallocz sz True x"

section \<open>Freeing\<close>

text \<open>The loop of \<open>xhole\<close>: the link and the hole where it stops, and whether the hole ends at \<open>addr\<close>.\<close>

partial_function (option) xhole_scan ::
  "(nat \<Rightarrow> hole) \<Rightarrow> uint \<Rightarrow> nat option \<Rightarrow> nat option \<Rightarrow> (nat option \<times> nat option \<times> bool) option" where
  "xhole_scan hs addr l h =
     (case h of
        None \<Rightarrow> Some (l, None, False)
      | Some i \<Rightarrow> if h_top (hs i) = addr then Some (l, Some i, True)
                 else if h_addr (hs i) > addr then Some (l, Some i, False)
                 else xhole_scan hs addr (Some i) (h_next (hs i)))"

definition xhole_merge :: "nat \<Rightarrow> uint \<Rightarrow> xlists \<Rightarrow> xlists" where
  "xhole_merge i sz x =
     (let x = seth i (\<lambda>h. h\<lparr>h_size := h_size h + sz\<rparr>) x;
          x = seth i (\<lambda>h. h\<lparr>h_top := h_addr h + h_size h\<rparr>) x
      in case h_next (x_hole x i) of
           None \<Rightarrow> x
         | Some c \<Rightarrow>
             if h_top (x_hole x i) = h_addr (x_hole x c) then
               let hc = x_hole x c;
                   x = seth i (\<lambda>h. h\<lparr>h_top := h_top h + h_size hc\<rparr>) x;
                   x = seth i (\<lambda>h. h\<lparr>h_size := h_size h + h_size hc\<rparr>) x;
                   x = seth i (\<lambda>h. h\<lparr>h_next := h_next hc\<rparr>) x
               in unuse c x
             else x)"

definition xhole_insert :: "nat option \<Rightarrow> nat option \<Rightarrow> uint \<Rightarrow> uint \<Rightarrow> xlists \<Rightarrow> xlists" where
  "xhole_insert l h addr sz x =
     (case x_unused x of
        None \<Rightarrow> x
      | Some n \<Rightarrow>
          let x = x\<lparr>x_unused := h_next (x_hole x n)\<rparr>;
              x = seth n (\<lambda>e. e\<lparr>h_addr := addr, h_top := addr + sz, h_size := sz\<rparr>) x;
              x = seth n (\<lambda>e. e\<lparr>h_next := h\<rparr>) x
          in setlink l (Some n) x)"

definition xhole :: "uint \<Rightarrow> uint \<Rightarrow> xlists \<Rightarrow> xlists option" where
  "xhole addr sz x =
     (if sz = 0 then Some x
      else do {
        let top = addr + sz;
        (l, h, ends) \<leftarrow> xhole_scan (x_hole x) addr None (x_sorted x);
        case h of
          None \<Rightarrow> Some (xhole_insert l None addr sz x)
        | Some i \<Rightarrow>
            if ends then Some (xhole_merge i sz x)
            else if top = h_addr (x_hole x i) then
              Some (seth i (\<lambda>e. e\<lparr>h_addr := h_addr e - sz, h_size := h_size e + sz\<rparr>) x)
            else Some (xhole_insert l (Some i) addr sz x) })"

definition xfree :: "uint \<Rightarrow> xlists \<Rightarrow> xlists option" where
  "xfree p x =
     (let a = p - 8 in
      if snd (x_hdr x a) \<noteq> Magichole then None
      else do { pa \<leftarrow> arch_paddr a; xhole pa (fst (x_hdr x a)) x })"

section \<open>The other operations\<close>

definition xmerge :: "uint \<Rightarrow> uint \<Rightarrow> xlists \<Rightarrow> (bool \<times> xlists) option" where
  "xmerge vp vq x =
     (let p = vp - 8; q = vq - 8 in
      if snd (x_hdr x p) \<noteq> Magichole \<or> snd (x_hdr x q) \<noteq> Magichole then None
      else if p + fst (x_hdr x p) = q then
        Some (True, x\<lparr>x_hdr := (x_hdr x)(p := (fst (x_hdr x p) + fst (x_hdr x q), snd (x_hdr x p)))\<rparr>)
      else Some (False, x))"

text \<open>\<^verbatim>\<open>align\<close> is an \<^verbatim>\<open>int\<close>; it is added and masked as an \<^verbatim>\<open>ulong\<close>.\<close>

definition xspanalloc :: "uint \<Rightarrow> uint \<Rightarrow> uint \<Rightarrow> xlists \<Rightarrow> (uint \<times> xlists) option" where
  "xspanalloc sz align span x = do {
     (r, x) \<leftarrow> xalloc (sz + align + span) x;
     case r of
       None \<Rightarrow> None
     | Some a \<Rightarrow> do {
         (v, x) \<leftarrow> (if span > 2 then do {
             let v = (a + span) AND NOT (span - 1);
             let t = v - a;
             x \<leftarrow> (if t > 0 then do { pa \<leftarrow> arch_paddr a; xhole pa t x } else Some x);
             let t = a + span - v;
             x \<leftarrow> (if t > 0 then do { pa \<leftarrow> arch_paddr (v + sz + align); xhole pa t x } else Some x);
             Some (v, x) }
           else Some (a, x));
         let v = (if sint align > 1 then (v + align) AND NOT (align - 1) else v);
         Some (v, x) } }"

section \<open>Starting\<close>

record confmem =
  cm_base :: uint
  cm_npage :: uint
  cm_kbase :: uint
  cm_klimit :: uint

record pallocmem =
  pm_base :: uint
  pm_npage :: uint

abbreviation (input) Nhole :: nat where "Nhole \<equiv> 128"

definition xinit_holes :: "xlists \<Rightarrow> xlists" where
  "xinit_holes x = x\<lparr>x_hole := (\<lambda>i. if i < Nhole - 1 then (x_hole x i)\<lparr>h_next := Some (i + 1)\<rparr> else x_hole x i), x_unused := Some 0\<rparr>"

text \<open>
  One turn of the loop over \<^verbatim>\<open>conf.mem\<close>. \<open>nkpages\<close> and \<open>kpages\<close> are of type \<^verbatim>\<open>int\<close>, and are compared with \<^verbatim>\<open>ulong\<close>
  values without sign. \<open>pm\<close> is the part of \<^verbatim>\<open>palloc.mem\<close> that has been filled; the array has four elements.
\<close>

definition xinit_bank :: "confmem \<Rightarrow> uint \<times> pallocmem list \<times> xlists \<Rightarrow> (confmem \<times> uint \<times> pallocmem list \<times> xlists) option" where
  "xinit_bank m st = (case st of (kpages, pm, x) \<Rightarrow> do {
     let nkpages = cm_npage m;
     let nkpages = (if sint nkpages > sint kpages then kpages else nkpages);
     let maxpages = arch_cankaddr (cm_base m) div BY2PG;
     let nkpages = (if nkpages > maxpages then maxpages else nkpages);
     (m, kpages, x) \<leftarrow> (if sint nkpages > 0 then do {
         x \<leftarrow> xhole (cm_base m) (nkpages * BY2PG) x;
         kb \<leftarrow> arch_kaddr (cm_base m);
         kl \<leftarrow> arch_kaddr (cm_base m + nkpages * BY2PG);
         Some (m\<lparr>cm_kbase := kb, cm_klimit := kl\<rparr>, kpages - nkpages, x) }
       else Some (m, kpages, x));
     let pm = (if cm_npage m > nkpages \<and> length pm < 4
               then pm @ [\<lparr>pm_base = cm_base m + nkpages * BY2PG, pm_npage = cm_npage m - nkpages\<rparr>] else pm);
     Some (m, kpages, pm, x) })"

fun xinit_banks :: "confmem list \<Rightarrow> uint \<times> pallocmem list \<times> xlists \<Rightarrow> (confmem list \<times> uint \<times> pallocmem list \<times> xlists) option" where
  "xinit_banks [] st = Some ([], st)"
| "xinit_banks (m # ms) st = do {
     (m, st) \<leftarrow> xinit_bank m st;
     (ms, st) \<leftarrow> xinit_banks ms st;
     Some (m # ms, st) }"

definition xinit :: "uint \<Rightarrow> uint \<Rightarrow> confmem list \<Rightarrow> xlists \<Rightarrow> (confmem list \<times> pallocmem list \<times> xlists) option" where
  "xinit npage upages mem x = do {
     let x = xinit_holes x;
     let kpages = npage - upages;
     (mem, kpages, pm, x) \<leftarrow> xinit_banks mem (kpages, [], x);
     Some (mem, pm, x) }"

end
