(* ===== verification/Xalloc_Inv.thy ===== *)
theory Xalloc_Inv
  imports Xalloc
begin

text \<open>
  The free memory as a set of addresses, the invariant of the two lists of holes, and what
  \<open>xallocz\<close> and \<open>xhole\<close> do to them.
\<close>

section \<open>The invariant\<close>

definition hnexts :: "xlists \<Rightarrow> nat \<Rightarrow> nat option" where
  "hnexts x = (\<lambda>i. h_next (x_hole x i))"

definition lists_rep :: "xlists \<Rightarrow> nat list \<Rightarrow> nat list \<Rightarrow> bool" where
  "lists_rep x us fs \<longleftrightarrow> chain (hnexts x) (x_sorted x) us \<and> chain (hnexts x) (x_unused x) fs \<and> distinct (us @ fs)"

text \<open>A hole is not empty and does not wrap around; every hole ends before the next one begins.\<close>

definition hole_ok :: "hole \<Rightarrow> bool" where
  "hole_ok h \<longleftrightarrow> 0 < unat (h_size h) \<and> unat (h_addr h) + unat (h_size h) = unat (h_top h)"

definition sorted_holes :: "(nat \<Rightarrow> hole) \<Rightarrow> nat list \<Rightarrow> bool" where
  "sorted_holes hs us \<longleftrightarrow> (\<forall>i \<in> set us. hole_ok (hs i))
     \<and> sorted_wrt (\<lambda>i j. unat (h_top (hs i)) < unat (h_addr (hs j))) us"

definition xinv :: "xlists \<Rightarrow> nat list \<Rightarrow> nat list \<Rightarrow> bool" where
  "xinv x us fs \<longleftrightarrow> lists_rep x us fs \<and> sorted_holes (x_hole x) us"

definition span :: "hole \<Rightarrow> nat set" where
  "span h = {unat (h_addr h) ..< unat (h_top h)}"

definition free_bytes :: "(nat \<Rightarrow> hole) \<Rightarrow> nat list \<Rightarrow> nat set" where
  "free_bytes hs us = (\<Union>i \<in> set us. span (hs i))"

text \<open>Two holes cover the same memory, whatever they are linked to.\<close>

definition same_extent :: "hole \<Rightarrow> hole \<Rightarrow> bool" where
  "same_extent h h' \<longleftrightarrow> h_addr h = h_addr h' \<and> h_top h = h_top h' \<and> h_size h = h_size h'"

lemma same_extent_refl [simp]: "same_extent h h" "same_extent (h\<lparr>h_next := v\<rparr>) h'\<longleftrightarrow> same_extent h h'"
  by (simp_all add: same_extent_def)

lemma hole_cong: "(\<And>i. i \<in> set us \<Longrightarrow> same_extent (hs' i) (hs i)) \<Longrightarrow> sorted_holes hs' us = sorted_holes hs us"
proof -
  assume same: "\<And>i. i \<in> set us \<Longrightarrow> same_extent (hs' i) (hs i)"
  have "sorted_wrt (\<lambda>i j. unat (h_top (hs' i)) < unat (h_addr (hs' j))) us = sorted_wrt (\<lambda>i j. unat (h_top (hs i)) < unat (h_addr (hs j))) us"
    using same by (induction us) (auto simp: same_extent_def)
  then show ?thesis using same by (simp add: sorted_holes_def hole_ok_def same_extent_def)
qed

lemma free_bytes_same: "(\<And>i. i \<in> set us \<Longrightarrow> same_extent (hs' i) (hs i)) \<Longrightarrow> free_bytes hs' us = free_bytes hs us"
  by (simp add: free_bytes_def span_def same_extent_def)

lemma free_bytes_append [simp]: "free_bytes hs (us @ vs) = free_bytes hs us \<union> free_bytes hs vs"
  "free_bytes hs (i # us) = span (hs i) \<union> free_bytes hs us" "free_bytes hs [] = {}"
  by (auto simp: free_bytes_def)

lemma seth_simps [simp]:
  "x_hole (seth i f x) = (x_hole x)(i := f (x_hole x i))" "x_unused (seth i f x) = x_unused x"
  "x_sorted (seth i f x) = x_sorted x" "x_hdr (seth i f x) = x_hdr x"
  by (simp_all add: seth_def)

section \<open>Relinking\<close>

lemma chain_same: "chain n h xs \<Longrightarrow> (\<And>i. i \<in> set xs \<Longrightarrow> n' i = n i) \<Longrightarrow> chain n' h xs"
  using chain_cong [of xs n n'] by simp

lemma lists_rep_fields:
  assumes "lists_rep x us fs" and "\<And>i. h_next (x_hole x' i) = h_next (x_hole x i)" "x_sorted x' = x_sorted x" "x_unused x' = x_unused x"
  shows "lists_rep x' us fs"
  using assms by (simp add: lists_rep_def hnexts_def)

text \<open>A hole leaves the sorted list and joins the unused ones.\<close>

lemma unlink_rep:
  assumes r: "lists_rep x (as @ i # bs) fs" and l: "l = (if as = [] then None else Some (last as))"
  shows "lists_rep (unuse i (setlink l (h_next (x_hole x i)) x)) (as @ bs) (i # fs)" (is "lists_rep ?x _ _")
proof -
  have c: "chain (hnexts x) (x_sorted x) (as @ i # bs)" "chain (hnexts x) (x_unused x) fs" "distinct ((as @ i # bs) @ fs)"
    using r by (simp_all add: lists_rep_def)
  have d: "i \<notin> set as" "i \<notin> set bs" "i \<notin> set fs" "distinct (as @ i # bs)" using c(3) by auto
  have u: "x_unused ?x = Some i" "hnexts ?x i = x_unused x" by (simp_all add: unuse_def setlink_def l hnexts_def)
  have n: "hnexts ?x j = (if as \<noteq> [] \<and> j = last as then hnexts x i else hnexts x j)" if "j \<noteq> i" for j
    using that by (auto simp: unuse_def setlink_def l hnexts_def)
  have la: "last as \<notin> set fs \<and> last as \<notin> set bs" if "as \<noteq> []" using c(3) last_in_set [OF that] by auto
  have same: "hnexts ?x j = hnexts x j" if "j \<in> set fs \<union> set bs" for j
  proof -
    have "j \<noteq> i" "\<not> (as \<noteq> [] \<and> j = last as)" using la d that by auto
    then show ?thesis using n [of j] by (metis (full_types))
  qed
  have "chain (hnexts ?x) (x_unused x) fs" by (rule chain_same [OF c(2)]) (simp add: same)
  then have f: "chain (hnexts ?x) (x_unused ?x) (i # fs)" using u by simp
  have s: "chain (hnexts ?x) (x_sorted ?x) (as @ bs)"
  proof (cases "as = []")
    case True
    have "chain (hnexts x) (hnexts x i) bs" using c(1) True by simp
    then have "chain (hnexts ?x) (hnexts x i) bs" by (rule chain_same) (simp add: same)
    then show ?thesis using True by (simp add: unuse_def setlink_def l) (simp add: hnexts_def)
  next
    case False
    have "chain ((hnexts x)(last as := hnexts x i)) (x_sorted x) (as @ bs)" using chain_unlink [OF c(1) d(4) False] .
    then have "chain (hnexts ?x) (x_sorted x) (as @ bs)"
    proof (rule chain_same)
      fix j assume "j \<in> set (as @ bs)"
      then have "j \<noteq> i" using d by auto
      then show "hnexts ?x j = ((hnexts x)(last as := hnexts x i)) j" using n [of j] False by simp
    qed
    then show ?thesis using False by (simp add: unuse_def setlink_def l)
  qed
  show ?thesis using f s c(3) by (auto simp: lists_rep_def)
qed

text \<open>An unused hole structure is linked into the sorted list.\<close>

lemma link_rep:
  assumes r: "lists_rep x (as @ bs) (n # fs)" and l: "l = (if as = [] then None else Some (last as))"
    and h: "h = (case bs of [] \<Rightarrow> None | b # _ \<Rightarrow> Some b)" and f: "\<And>e. h_next (f e) = h_next e"
  shows "lists_rep (setlink l (Some n) (seth n (\<lambda>e. e\<lparr>h_next := h\<rparr>) (seth n f (x\<lparr>x_unused := h_next (x_hole x n)\<rparr>)))) (as @ n # bs) fs"
    (is "lists_rep ?x _ _")
proof -
  have c: "chain (hnexts x) (x_sorted x) (as @ bs)" "chain (hnexts x) (x_unused x) (n # fs)" "distinct ((as @ bs) @ n # fs)"
    using r by (simp_all add: lists_rep_def)
  have d: "n \<notin> set as" "n \<notin> set bs" "n \<notin> set fs" and dn: "distinct (as @ n # bs)" using c(3) by auto
  have nx: "hnexts ?x = (if as = [] then (hnexts x)(n := h) else (hnexts x)(n := h, last as := Some n))"
  proof
    fix j
    show "hnexts ?x j = (if as = [] then (hnexts x)(n := h) else (hnexts x)(n := h, last as := Some n)) j"
    proof (cases "as = []")
      case True
      then have "l = None" by (simp add: l)
      then show ?thesis using True by (simp add: setlink_def hnexts_def)
    next
      case False
      then have "l = Some (last as)" by (simp add: l)
      then show ?thesis using False by (simp add: setlink_def hnexts_def)
    qed
  qed
  have hb: "chain (hnexts x) h' bs \<Longrightarrow> h' = h" for h' using h by (cases bs) auto
  have la: "last as \<notin> set fs" if "as \<noteq> []" using c(3) last_in_set [OF that] by auto
  have "chain (hnexts x) (hnexts x n) fs" using c(2) by simp
  then have "chain (hnexts ?x) (hnexts x n) fs" 
  proof (rule chain_same)
    fix i assume "i \<in> set fs"
    then have "i \<noteq> n" "as \<noteq> [] \<Longrightarrow> i \<noteq> last as" using d(3) la by auto
    then show "hnexts ?x i = hnexts x i" unfolding nx by (cases "as = []") simp_all
  qed
  moreover have "x_unused ?x = hnexts x n" by (simp add: setlink_def l hnexts_def)
  moreover have "chain (hnexts ?x) (x_sorted ?x) (as @ n # bs)"
  proof (cases "as = []")
    case True
    have b: "chain (hnexts x) (x_sorted x) bs" using c(1) True by simp
    then have "chain ((hnexts x)(n := h)) h bs" using hb [OF b] chain_update [OF d(2)] by simp
    then show ?thesis using True nx by (simp add: setlink_def l)
  next
    case False
    have "hnexts x (last as) = h" using hb chain_last [OF c(1) False] by simp
    then have "chain ((hnexts x)(n := h, last as := Some n)) (x_sorted x) (as @ n # bs)"
      using chain_insert [OF c(1) dn False] by simp
    then show ?thesis using False nx by (simp add: setlink_def l)
  qed
  ultimately show ?thesis using c(3) by (auto simp: lists_rep_def)
qed

section \<open>Allocating\<close>

definition block :: "uint \<Rightarrow> uint \<Rightarrow> nat set" where
  "block a n = {unat a ..< unat a + unat n}"

lemma uint_bound: "unat a < 2 ^ 32" for a :: uint
  using unsigned_less [of a] by simp

lemma unat_add_exact: "unat a + unat b < 2 ^ 32 \<Longrightarrow> unat (a + b) = unat a + unat b" for a b :: uint
  by (simp add: unat_word_ariths)

lemma xalloc_scan_chain:
  assumes "chain (hnexts x) h us"
  shows "\<exists>l' r. xalloc_scan (x_hole x) n l h = Some (l', r) \<and> (case r of
      None \<Rightarrow> \<forall>i \<in> set us. h_size (x_hole x i) < n
    | Some i \<Rightarrow> \<exists>as bs. us = as @ i # bs \<and> n \<le> h_size (x_hole x i) \<and> l' = (if as = [] then l else Some (last as)))"
  using assms
proof (induction us arbitrary: h l)
  case Nil
  then show ?case by (subst xalloc_scan.simps) simp
next
  case (Cons i us)
  show ?case
  proof (cases "n \<le> h_size (x_hole x i)")
    case True
    then show ?thesis using Cons.prems
      by (subst xalloc_scan.simps) (simp, rule exI [of _ "[]"], simp)
  next
    case False
    obtain l' r where r: "xalloc_scan (x_hole x) n (Some i) (hnexts x i) = Some (l', r)"
      "case r of None \<Rightarrow> \<forall>i \<in> set us. h_size (x_hole x i) < n
        | Some j \<Rightarrow> \<exists>as bs. us = as @ j # bs \<and> n \<le> h_size (x_hole x j) \<and> l' = (if as = [] then Some i else Some (last as))"
      using Cons.IH [of "hnexts x i" "Some i"] Cons.prems by auto
    have e: "xalloc_scan (x_hole x) n l h = Some (l', r)"
      using Cons.prems False r(1) by (subst xalloc_scan.simps) (simp add: hnexts_def)
    show ?thesis
    proof (cases r)
      case None
      then show ?thesis using e r(2) False by (auto simp: not_le)
    next
      case (Some j)
      then obtain as bs where "us = as @ j # bs" "n \<le> h_size (x_hole x j)" "l' = (if as = [] then Some i else Some (last as))"
        using r(2) by auto
      then have "i # us = (i # as) @ j # bs \<and> n \<le> h_size (x_hole x j) \<and> l' = (if i # as = [] then l else Some (last (i # as)))"
        by simp
      then have "case r of None \<Rightarrow> \<forall>i \<in> set (i # us). h_size (x_hole x i) < n
          | Some k \<Rightarrow> \<exists>as bs. i # us = as @ k # bs \<and> n \<le> h_size (x_hole x k) \<and> l' = (if as = [] then l else Some (last as))"
        unfolding Some option.case by blast
      with e show ?thesis by blast
    qed
  qed
qed

lemma sorted_holes_append:
  "sorted_holes hs (as @ bs) \<longleftrightarrow> sorted_holes hs as \<and> sorted_holes hs bs
    \<and> (\<forall>i \<in> set as. \<forall>j \<in> set bs. unat (h_top (hs i)) < unat (h_addr (hs j)))"
  by (auto simp: sorted_holes_def sorted_wrt_append)

lemma sorted_holes_Cons:
  "sorted_holes hs (i # bs) \<longleftrightarrow> hole_ok (hs i) \<and> sorted_holes hs bs \<and> (\<forall>j \<in> set bs. unat (h_top (hs i)) < unat (h_addr (hs j)))"
  by (auto simp: sorted_holes_def)

lemma hole_addr_less: "hole_ok h \<Longrightarrow> unat (h_addr h) < unat (h_top h)"
  by (auto simp: hole_ok_def)

lemma sorted_holes_drop: "sorted_holes hs (as @ i # bs) \<Longrightarrow> sorted_holes hs (as @ bs)"
  by (auto simp: sorted_holes_append sorted_holes_Cons)

lemma same_extent_hole_ok: "same_extent h h' \<Longrightarrow> hole_ok h = hole_ok h'"
  by (simp add: same_extent_def hole_ok_def)

text \<open>A hole in the middle of the list is new or has changed.\<close>

lemma sorted_holes_mid:
  assumes s: "sorted_holes hs (as @ bs)" and same: "\<And>j. j \<in> set as \<union> set bs \<Longrightarrow> same_extent (hs' j) (hs j)" and ok: "hole_ok (hs' i)"
    and lo: "\<And>j. j \<in> set as \<Longrightarrow> unat (h_top (hs j)) < unat (h_addr (hs' i))"
    and hi: "\<And>j. j \<in> set bs \<Longrightarrow> unat (h_top (hs' i)) < unat (h_addr (hs j))"
  shows "sorted_holes hs' (as @ i # bs)"
proof -
  have a: "sorted_holes hs as" "sorted_holes hs bs" "\<forall>i \<in> set as. \<forall>j \<in> set bs. unat (h_top (hs i)) < unat (h_addr (hs j))"
    using s by (auto simp: sorted_holes_append)
  have "sorted_holes hs' as" "sorted_holes hs' bs"
    using a(1,2) hole_cong [of as hs' hs] hole_cong [of bs hs' hs] same by auto
  then show ?thesis using a(3) ok lo hi same by (simp add: sorted_holes_append sorted_holes_Cons same_extent_def)
qed

lemma free_bytes_mid:
  assumes "\<And>j. j \<in> set as \<union> set bs \<Longrightarrow> same_extent (hs' j) (hs j)"
  shows "free_bytes hs' (as @ i # bs) = free_bytes hs (as @ bs) \<union> span (hs' i)"
proof -
  have "free_bytes hs' as = free_bytes hs as" "free_bytes hs' bs = free_bytes hs bs" using assms by (auto intro!: free_bytes_same)
  then show ?thesis by auto
qed

lemma free_bytes_split: "free_bytes hs (as @ i # bs) = span (hs i) \<union> free_bytes hs (as @ bs)"
  by auto

lemma free_bytes_other:
  assumes "sorted_holes hs (as @ i # bs)"
  shows "span (hs i) \<inter> free_bytes hs (as @ bs) = {}"
proof -
  have ok: "\<forall>j \<in> set (as @ i # bs). hole_ok (hs j)" using assms by (simp add: sorted_holes_def)
  have lo: "\<forall>j \<in> set as. unat (h_top (hs j)) < unat (h_addr (hs i))" and hi: "\<forall>j \<in> set bs. unat (h_top (hs i)) < unat (h_addr (hs j))"
    using assms by (auto simp: sorted_holes_append sorted_holes_Cons)
  show ?thesis using lo hi by (fastforce simp: free_bytes_def span_def)
qed


text \<open>What an allocation does: the block comes out of the free memory, and carries its header.\<close>

lemma span_cut:
  assumes ok: "hole_ok h" and n: "unat n \<le> unat (h_size h)" and n0: "0 < unat n"
  shows "unat (h_addr h + n) = unat (h_addr h) + unat n" "unat (h_size h - n) = unat (h_size h) - unat n"
    "span h = block (h_addr h) n \<union> {unat (h_addr h) + unat n ..< unat (h_top h)}"
    "block (h_addr h) n \<subseteq> span h"
proof -
  have t: "unat (h_addr h) + unat (h_size h) = unat (h_top h)" using ok by (simp add: hole_ok_def)
  have "unat (h_addr h) + unat n < 2 ^ 32" using t n uint_bound [of "h_top h"] by simp
  then show "unat (h_addr h + n) = unat (h_addr h) + unat n" by (rule unat_add_exact)
  show "unat (h_size h - n) = unat (h_size h) - unat n" using n by (simp add: unat_sub word_le_nat_alt)
  show "span h = block (h_addr h) n \<union> {unat (h_addr h) + unat n ..< unat (h_top h)}" "block (h_addr h) n \<subseteq> span h"
    using t n n0 by (auto simp: span_def block_def)
qed

text \<open>The kernel address of a physical address in reach, and the headers after an allocation.\<close>

lemma unat_kaddr: "unat a < 0x20000000 \<Longrightarrow> unat (a + KZERO) = unat a + 0xE0000000" for a :: uint
  by (simp add: unat_word_ariths)

lemma kaddr_inj: "a + KZERO = b + KZERO \<Longrightarrow> a = b" for a b :: uint
  by simp

definition headers :: "uint \<Rightarrow> uint \<Rightarrow> xlists \<Rightarrow> xlists \<Rightarrow> bool" where
  "headers p n x x' \<longleftrightarrow> x_hdr x' (p + KZERO) = (n, Magichole)
    \<and> (\<forall>a. unat a < 0x20000000 \<longrightarrow> unat a \<notin> block p n \<longrightarrow> x_hdr x' (a + KZERO) = x_hdr x (a + KZERO))"

text \<open>The two lists after a hole has been cut at its lower end.\<close>

definition cut :: "nat option \<Rightarrow> nat \<Rightarrow> uint \<Rightarrow> xlists \<Rightarrow> xlists" where
  "cut l i n x = (let x = seth i (\<lambda>h. h\<lparr>h_addr := h_addr h + n\<rparr>) x;
                      x = seth i (\<lambda>h. h\<lparr>h_size := h_size h - n\<rparr>) x
     in if h_size (x_hole x i) = 0 then unuse i (setlink l (h_next (x_hole x i)) x) else x)"

lemma cut_inv:
  assumes inv: "xinv x (as @ i # bs) fs" and n: "0 < unat n" "unat n \<le> unat (h_size (x_hole x i))"
    and l: "l = (if as = [] then None else Some (last as))"
  shows "\<exists>us' fs'. xinv (cut l i n x) us' fs'
    \<and> free_bytes (x_hole (cut l i n x)) us' = free_bytes (x_hole x) (as @ i # bs) - block (h_addr (x_hole x i)) n"
proof -
  let ?h = "x_hole x i"
  define y where "y = seth i (\<lambda>h. h\<lparr>h_size := h_size h - n\<rparr>) (seth i (\<lambda>h. h\<lparr>h_addr := h_addr h + n\<rparr>) x)"
  have r: "lists_rep x (as @ i # bs) fs" and s: "sorted_holes (x_hole x) (as @ i # bs)" using inv by (simp_all add: xinv_def)
  have ok: "hole_ok ?h" and d: "distinct (as @ i # bs)" and lo: "\<forall>j \<in> set as. unat (h_top (x_hole x j)) < unat (h_addr ?h)"
    and hi: "\<forall>j \<in> set bs. unat (h_top ?h) < unat (h_addr (x_hole x j))"
    using s r by (auto simp: sorted_holes_append sorted_holes_Cons lists_rep_def)
  note cu = span_cut [OF ok n(2,1)]
  have t: "unat (h_addr ?h) + unat (h_size ?h) = unat (h_top ?h)" using ok by (simp add: hole_ok_def)
  have yr: "lists_rep y (as @ i # bs) fs" by (rule lists_rep_fields [OF r]) (simp_all add: y_def)
  have yi: "x_hole y i = ?h\<lparr>h_addr := h_addr ?h + n, h_size := h_size ?h - n\<rparr>" and yj: "\<And>j. j \<noteq> i \<Longrightarrow> x_hole y j = x_hole x j"
    by (simp_all add: y_def)
  have other: "block (h_addr ?h) n \<inter> free_bytes (x_hole x) (as @ bs) = {}" using free_bytes_other [OF s] cu(4) by blast
  have new: "span (x_hole y i) = {unat (h_addr ?h) + unat n ..< unat (h_top ?h)}" by (simp add: span_def yi cu(1))
  have diff: "free_bytes (x_hole x) (as @ i # bs) - block (h_addr ?h) n = span (x_hole y i) \<union> free_bytes (x_hole x) (as @ bs)"
    unfolding free_bytes_split new using other cu(3) by (auto simp: block_def)
  show ?thesis
  proof (cases "h_size (x_hole y i) = 0")
    case True
    let ?z = "unuse i (setlink l (h_next (x_hole y i)) y)"
    have c: "cut l i n x = ?z" using True unfolding cut_def Let_def y_def by simp
    have zr: "lists_rep ?z (as @ bs) (i # fs)" by (rule unlink_rep [OF yr l])
    have zx: "same_extent (x_hole ?z j) (x_hole x j)" if "j \<in> set (as @ bs)" for j
    proof -
      have "j \<noteq> i" using d that by auto
      then have "x_hole y j = x_hole x j" by (rule yj)
      then show ?thesis using d that by (cases l) (auto simp: unuse_def setlink_def same_extent_def)
    qed
    have "unat (h_size ?h) - unat n = 0" using True cu(2) yi by simp
    then have e: "span (x_hole y i) = {}" using t n unfolding new by simp
    have "sorted_holes (x_hole x) (as @ bs)" using s by (auto simp: sorted_holes_append sorted_holes_Cons)
    then have sz: "sorted_holes (x_hole ?z) (as @ bs)" using hole_cong [of "as @ bs" "x_hole ?z" "x_hole x"] zx by blast
    have "free_bytes (x_hole ?z) (as @ bs) = free_bytes (x_hole x) (as @ bs)" by (rule free_bytes_same [OF zx])
    then show ?thesis unfolding c diff e xinv_def using zr sz by (intro exI [of _ "as @ bs"] exI [of _ "i # fs"]) simp
  next
    case False
    have c: "cut l i n x = y" using False unfolding cut_def Let_def y_def by simp
    have yo: "same_extent (x_hole y j) (x_hole x j)" if "j \<in> set as \<union> set bs" for j
    proof -
      have "j \<noteq> i" using d that by auto
      then show ?thesis using yj by simp
    qed
    have "unat (h_size ?h - n) > 0" using False yi by (simp add: unat_gt_0)
    then have "hole_ok (x_hole y i)" using t n unfolding hole_ok_def yi by (simp add: cu(1,2))
    then have "sorted_holes (x_hole y) (as @ i # bs)"
      using lo hi yo by (intro sorted_holes_mid [OF sorted_holes_drop [OF s]]) (auto simp: yi cu(1) intro!: trans_less_add1)
    moreover have "free_bytes (x_hole y) (as @ bs) = free_bytes (x_hole x) (as @ bs)" using yo by (intro free_bytes_same) auto
    ultimately show ?thesis unfolding c diff xinv_def using yr
      by (intro exI [of _ "as @ i # bs"] exI [of _ fs]) (simp only: free_bytes_split)
  qed
qed

lemma xallocz_inv:
  assumes inv: "xinv x us fs" and n: "0 < unat ((n + 16) AND NOT 7)" and fb: "free_bytes (x_hole x) us \<subseteq> {..<0x20000000}"
  shows "(xallocz n z x = Some (None, x) \<and> (\<forall>i \<in> set us. h_size (x_hole x i) < (n + 16) AND NOT 7))
    \<or> (\<exists>p x' us' fs'. xallocz n z x = Some (Some (p + KZERO + 8), x') \<and> xinv x' us' fs' \<and> headers p ((n + 16) AND NOT 7) x x'
        \<and> block p ((n + 16) AND NOT 7) \<subseteq> free_bytes (x_hole x) us
        \<and> free_bytes (x_hole x') us' = free_bytes (x_hole x) us - block p ((n + 16) AND NOT 7))"
proof -
  define m where "m = (n + 16) AND NOT 7"
  have m': "n + (8 + 8) AND NOT 7 = m" by (simp add: m_def)
  have m0: "0 < unat m" using n by (simp add: m_def)
  have "chain (hnexts x) (x_sorted x) us" using inv by (simp add: xinv_def lists_rep_def)
  then obtain l r where s: "xalloc_scan (x_hole x) m None (x_sorted x) = Some (l, r)"
    and r: "case r of None \<Rightarrow> \<forall>i \<in> set us. h_size (x_hole x i) < m
      | Some i \<Rightarrow> \<exists>as bs. us = as @ i # bs \<and> m \<le> h_size (x_hole x i) \<and> l = (if as = [] then None else Some (last as))"
    using xalloc_scan_chain [of x "x_sorted x" us m None] by blast
  show ?thesis
  proof (cases r)
    case None
    then show ?thesis using s r unfolding xallocz_def by (simp add: m_def)
  next
    case (Some i)
    then obtain as bs where us: "us = as @ i # bs" and mi: "m \<le> h_size (x_hole x i)" and l: "l = (if as = [] then None else Some (last as))"
      using r by auto
    define p where "p = h_addr (x_hole x i)"
    have mi': "unat m \<le> unat (h_size (x_hole x i))" using mi by (simp add: word_le_nat_alt)
    obtain us' fs' where c: "xinv (cut l i m x) us' fs'" "free_bytes (x_hole (cut l i m x)) us' = free_bytes (x_hole x) us - block p m"
      using cut_inv [OF inv [unfolded us] m0 mi' l] unfolding us p_def by blast
    have ok: "hole_ok (x_hole x i)" using inv unfolding us by (simp add: xinv_def sorted_holes_def)
    have sub: "block p m \<subseteq> free_bytes (x_hole x) us" using span_cut(4) [OF ok mi' m0] by (auto simp: us p_def)
    have pm: "unat p \<in> block p m" using m0 by (simp add: block_def)
    have pb: "unat p < 0x20000000" using pm sub fb by blast
    define y where "y = cut l i m x"
    define x1 where "x1 = (if z then y\<lparr>x_hdr := (\<lambda>a. if unat (p + KZERO) \<le> unat a \<and> unat a < unat (p + KZERO) + unat m then (0, 0) else x_hdr y a)\<rparr> else y)"
    define x' where "x' = x1\<lparr>x_hdr := (x_hdr x1)(p + KZERO := (m, Magichole))\<rparr>"
    have k: "arch_kaddr p = Some (p + KZERO)" using pb by (simp add: arch_kaddr_def word_less_nat_alt)
    have e: "xallocz n z x = Some (Some (p + KZERO + 8), x')"
      using s Some k unfolding xallocz_def x'_def x1_def y_def cut_def p_def Let_def m' by simp
    have h: "x_hole x' = x_hole (cut l i m x)" "x_sorted x' = x_sorted (cut l i m x)" "x_unused x' = x_unused (cut l i m x)"
      by (simp_all add: x'_def x1_def y_def)
    have hc: "x_hdr y = x_hdr x" unfolding y_def cut_def Let_def unuse_def setlink_def by (simp split: option.split)
    have "x_hdr x' (a + KZERO) = x_hdr x (a + KZERO)" if a: "unat a < 0x20000000" "unat a \<notin> block p m" for a
    proof -
      have "a \<noteq> p" using a(2) pm by auto
      then show ?thesis using a pb unfolding x'_def x1_def by (auto simp: hc unat_kaddr block_def)
    qed
    then have hd: "headers p m x x'" unfolding headers_def by (simp add: x'_def)
    have "xinv x' us' fs'" using c(1) h by (simp add: xinv_def lists_rep_def hnexts_def)
    then show ?thesis using e hd sub c(2) h(1) unfolding m_def [symmetric] by (intro disjI2) metis
  qed
qed

text \<open>The block has room for the header and the request, and is at most 16 bytes larger.\<close>

lemma round_block:
  fixes n :: uint
  assumes "unat n + 16 < 2 ^ 32"
  shows "unat ((n + 16) AND NOT 7) = (unat n + 16) div 8 * 8"
proof -
  have e: "(n + 16) AND NOT 7 = push_bit 3 (drop_bit 3 (n + 16))"
  proof -
    have "(7 :: uint) = mask 3" by (simp add: mask_eq_exp_minus_1)
    then show ?thesis by (simp add: bit_eq_iff bit_simps) auto
  qed
  have "unat (n + 16) = unat n + 16" using assms by (simp add: unat_add_exact)
  then have "unat (drop_bit 3 (n + 16)) = (unat n + 16) div 8" by (simp add: drop_bit_eq_div unat_div)
  then show ?thesis unfolding e using assms by (simp add: push_bit_eq_mult unat_word_ariths)
qed

end
