(* ===== verification/Xalloc_Free.thy ===== *)
theory Xalloc_Free
  imports Xalloc_Inv
begin

text \<open>What \<open>xhole\<close> does to the lists of holes when memory that is not free is given back.\<close>

section \<open>The place of a block\<close>

lemma xhole_scan_chain:
  assumes "chain (hnexts x) h us"
  shows "\<exists>as bs ends. us = as @ bs
    \<and> xhole_scan (x_hole x) a l h = Some (if as = [] then l else Some (last as), case bs of [] \<Rightarrow> None | i # _ \<Rightarrow> Some i, ends)
    \<and> (\<forall>i \<in> set as. h_top (x_hole x i) \<noteq> a \<and> h_addr (x_hole x i) \<le> a)
    \<and> (case bs of [] \<Rightarrow> \<not> ends
        | i # _ \<Rightarrow> if ends then h_top (x_hole x i) = a else h_top (x_hole x i) \<noteq> a \<and> a < h_addr (x_hole x i))"
  using assms
proof (induction us arbitrary: h l)
  case Nil
  then show ?case by (subst xhole_scan.simps) (simp add: exI [of _ False])
next
  case (Cons i us)
  show ?case
  proof (cases "h_top (x_hole x i) = a \<or> a < h_addr (x_hole x i)")
    case True
    then show ?thesis using Cons.prems
      by (subst xhole_scan.simps) (auto intro!: exI [of _ "[]"])
  next
    case False
    obtain as bs ends where r: "us = as @ bs"
      "xhole_scan (x_hole x) a (Some i) (hnexts x i) = Some (if as = [] then Some i else Some (last as), case bs of [] \<Rightarrow> None | i # _ \<Rightarrow> Some i, ends)"
      "\<forall>i \<in> set as. h_top (x_hole x i) \<noteq> a \<and> h_addr (x_hole x i) \<le> a"
      "case bs of [] \<Rightarrow> \<not> ends | i # _ \<Rightarrow> if ends then h_top (x_hole x i) = a else h_top (x_hole x i) \<noteq> a \<and> a < h_addr (x_hole x i)"
      using Cons.IH [of "hnexts x i" "Some i"] Cons.prems by auto
    have "xhole_scan (x_hole x) a l h = Some (if i # as = [] then l else Some (last (i # as)), case bs of [] \<Rightarrow> None | i # _ \<Rightarrow> Some i, ends)"
      using Cons.prems False r(2) by (subst xhole_scan.simps) (simp add: hnexts_def)
    moreover have "\<forall>j \<in> set (i # as). h_top (x_hole x j) \<noteq> a \<and> h_addr (x_hole x j) \<le> a" using False r(3) by auto
    ultimately show ?thesis using r(1,4) by (intro exI [of _ "i # as"] exI [of _ bs] exI [of _ ends]) simp
  qed
qed

text \<open>The holes that begin before a block that is not free also end before it.\<close>

lemma span_below:
  assumes "hole_ok h" and "span h \<inter> block a n = {}" and "0 < unat n" and "unat (h_addr h) \<le> unat a"
  shows "unat (h_top h) \<le> unat a"
proof (rule ccontr)
  assume "\<not> unat (h_top h) \<le> unat a"
  then have "unat a \<in> span h \<inter> block a n" using assms by (simp add: span_def block_def)
  then show False using assms(2) by simp
qed

lemma span_above:
  assumes "hole_ok h" and "span h \<inter> block a n = {}" and "unat a \<le> unat (h_addr h)"
  shows "unat a + unat n \<le> unat (h_addr h)"
proof (rule ccontr)
  assume "\<not> unat a + unat n \<le> unat (h_addr h)"
  then have "unat (h_addr h) \<in> span h \<inter> block a n" using assms hole_addr_less [OF assms(1)] by (simp add: span_def block_def)
  then show False using assms(2) by simp
qed

lemma sorted_later:
  assumes "sorted_holes hs (as @ i # bs)" and "j \<in> set bs"
  shows "unat (h_addr (hs i)) < unat (h_addr (hs j))"
  using assms hole_addr_less [of "hs i"] by (fastforce simp: sorted_holes_append sorted_holes_Cons)

definition fits :: "uint \<Rightarrow> uint \<Rightarrow> xlists \<Rightarrow> nat list \<Rightarrow> bool" where
  "fits a n x us \<longleftrightarrow> 0 < unat n \<and> unat a + unat n < 2 ^ 32 \<and> free_bytes (x_hole x) us \<inter> block a n = {}"

lemma fits_span: "fits a n x us \<Longrightarrow> i \<in> set us \<Longrightarrow> span (x_hole x i) \<inter> block a n = {}"
  by (auto simp: fits_def free_bytes_def)

lemma fits_below:
  assumes "xinv x us fs" "fits a n x us" "i \<in> set us" "h_addr (x_hole x i) \<le> a" "h_top (x_hole x i) \<noteq> a"
  shows "unat (h_top (x_hole x i)) < unat a"
proof -
  have "hole_ok (x_hole x i)" using assms by (simp add: xinv_def sorted_holes_def)
  then have "unat (h_top (x_hole x i)) \<le> unat a"
    using span_below fits_span [OF assms(2,3)] assms by (simp add: fits_def word_le_nat_alt)
  then show ?thesis using assms(5) by (simp add: order_less_le word_unat_eq_iff)
qed

lemma fits_above:
  assumes "xinv x us fs" "fits a n x us" "i \<in> set us" "unat a \<le> unat (h_addr (x_hole x i))" "a + n \<noteq> h_addr (x_hole x i)"
  shows "unat a + unat n < unat (h_addr (x_hole x i))"
proof -
  have "hole_ok (x_hole x i)" using assms by (simp add: xinv_def sorted_holes_def)
  then have "unat a + unat n \<le> unat (h_addr (x_hole x i))" using span_above fits_span [OF assms(2,3)] assms by simp
  moreover have "unat a + unat n \<noteq> unat (h_addr (x_hole x i))"
    using assms(2,5) unat_add_exact [of a n] by (auto simp: fits_def word_unat_eq_iff)
  ultimately show ?thesis by simp
qed

section \<open>Joining a block to its neighbours\<close>

lemma hole_extend:
  assumes ok: "hole_ok h" and t: "h_top h = a" and a: "unat a + unat n < 2 ^ 32"
  shows "unat (h_size h + n) = unat (h_size h) + unat n" "h_addr h + (h_size h + n) = a + n"
    "unat (a + n) = unat a + unat n"
proof -
  have "unat (h_addr h) + unat (h_size h) = unat a" using ok t by (simp add: hole_ok_def)
  then show "unat (h_size h + n) = unat (h_size h) + unat n" using a by (intro unat_add_exact) simp
  show "unat (a + n) = unat a + unat n" using a by (rule unat_add_exact)
  have "unat (h_addr h + h_size h) = unat a" using ok t uint_bound [of a] by (simp add: hole_ok_def unat_add_exact)
  then have "h_addr h + h_size h = a" by (simp only: word_unat_eq_iff)
  then show "h_addr h + (h_size h + n) = a + n" by (simp add: add.assoc [symmetric])
qed

definition grown :: "nat \<Rightarrow> uint \<Rightarrow> xlists \<Rightarrow> xlists" where
  "grown i n x = seth i (\<lambda>h. h\<lparr>h_top := h_addr h + h_size h\<rparr>) (seth i (\<lambda>h. h\<lparr>h_size := h_size h + n\<rparr>) x)"

lemma grown_facts:
  assumes inv: "xinv x (as @ i # bs) fs" and f: "fits a n x (as @ i # bs)" and t: "h_top (x_hole x i) = a"
  shows "lists_rep (grown i n x) (as @ i # bs) fs"
    "x_hole (grown i n x) i = (x_hole x i)\<lparr>h_size := h_size (x_hole x i) + n, h_top := a + n\<rparr>"
    "\<And>j. j \<in> set as \<union> set bs \<Longrightarrow> x_hole (grown i n x) j = x_hole x j"
    "h_next (x_hole (grown i n x) i) = (case bs of [] \<Rightarrow> None | b # _ \<Rightarrow> Some b)"
    "\<And>j. j \<in> set bs \<Longrightarrow> a + n \<noteq> h_addr (x_hole x j) \<Longrightarrow> unat a + unat n < unat (h_addr (x_hole x j))"
    "{unat (h_addr (x_hole x i)) ..< unat a + unat n} = span (x_hole x i) \<union> block a n"
    "unat (h_addr (x_hole x i)) + unat (h_size (x_hole x i)) = unat a"
proof -
  have r: "lists_rep x (as @ i # bs) fs" and s: "sorted_holes (x_hole x) (as @ i # bs)" using inv by (simp_all add: xinv_def)
  have ok: "hole_ok (x_hole x i)" and d: "distinct (as @ i # bs)" and c: "chain (hnexts x) (x_sorted x) (as @ i # bs)"
    and hi: "\<forall>j \<in> set bs. unat (h_top (x_hole x i)) < unat (h_addr (x_hole x j))"
    using s r by (auto simp: sorted_holes_append sorted_holes_Cons lists_rep_def)
  have a: "unat a + unat n < 2 ^ 32" using f by (simp add: fits_def)
  show "lists_rep (grown i n x) (as @ i # bs) fs" by (rule lists_rep_fields [OF r]) (simp_all add: grown_def)
  show gi: "x_hole (grown i n x) i = (x_hole x i)\<lparr>h_size := h_size (x_hole x i) + n, h_top := a + n\<rparr>"
    using hole_extend(2) [OF ok t a] by (simp add: grown_def)
  show "x_hole (grown i n x) j = x_hole x j" if "j \<in> set as \<union> set bs" for j
    using d that by (auto simp: grown_def)
  have "chain (hnexts x) (hnexts x i) bs" using chain_suffix [OF c] .
  then show "h_next (x_hole (grown i n x) i) = (case bs of [] \<Rightarrow> None | b # _ \<Rightarrow> Some b)"
    by (cases bs) (simp_all add: gi hnexts_def)
  show "unat a + unat n < unat (h_addr (x_hole x j))" if "j \<in> set bs" "a + n \<noteq> h_addr (x_hole x j)" for j
    using fits_above [OF inv f, of j] hi t that by (simp add: order_less_imp_le)
  show at: "unat (h_addr (x_hole x i)) + unat (h_size (x_hole x i)) = unat a" using ok t by (simp add: hole_ok_def)
  show "{unat (h_addr (x_hole x i)) ..< unat a + unat n} = span (x_hole x i) \<union> block a n"
    using at t by (auto simp: span_def block_def)
qed

lemma merge_last:
  assumes inv: "xinv x (as @ i # bs) fs" and f: "fits a n x (as @ i # bs)" and t: "h_top (x_hole x i) = a"
    and nc: "\<And>c cs. bs = c # cs \<Longrightarrow> a + n \<noteq> h_addr (x_hole x c)"
  shows "xinv (xhole_merge i n x) (as @ i # bs) fs"
    "free_bytes (x_hole (xhole_merge i n x)) (as @ i # bs) = free_bytes (x_hole x) (as @ i # bs) \<union> block a n"
proof -
  let ?h = "x_hole x i" and ?y = "grown i n x"
  have s: "sorted_holes (x_hole x) (as @ i # bs)" and ok: "hole_ok ?h" and lo: "\<forall>j \<in> set as. unat (h_top (x_hole x j)) < unat (h_addr ?h)"
    using inv by (auto simp: xinv_def sorted_holes_append sorted_holes_Cons)
  have a: "unat a + unat n < 2 ^ 32" and n0: "0 < unat n" using f by (simp_all add: fits_def)
  note e = hole_extend [OF ok t a] and g = grown_facts [OF inv f t]
  have hi': "unat a + unat n < unat (h_addr (x_hole x j))" if j: "j \<in> set bs" for j
  proof (rule g(5) [OF j])
    obtain c cs where bs: "bs = c # cs" using j by (cases bs) auto
    have "unat a + unat n < unat (h_addr (x_hole x c))" using g(5) [of c] nc [OF bs] bs by simp
    moreover have "j \<noteq> c \<Longrightarrow> unat (h_addr (x_hole x c)) < unat (h_addr (x_hole x j))"
      using sorted_later [of "x_hole x" "as @ [i]" c cs j] s j unfolding bs by simp
    ultimately show "a + n \<noteq> h_addr (x_hole x j)" using e(3) by (cases "j = c") auto
  qed
  have z: "xhole_merge i n x = ?y"
  proof (cases bs)
    case Nil
    then show ?thesis using g(4) unfolding xhole_merge_def Let_def grown_def by simp
  next
    case (Cons b cs)
    then have "h_top (x_hole ?y i) \<noteq> h_addr (x_hole ?y b)" using nc [OF Cons] g(2) g(3) [of b] by simp
    then show ?thesis using g(4) Cons unfolding xhole_merge_def Let_def grown_def [symmetric] by simp
  qed
  have "sorted_holes (x_hole ?y) (as @ i # bs)"
    using lo hi' g(7) n0 e by (intro sorted_holes_mid [OF sorted_holes_drop [OF s]]) (auto simp: g(2,3) hole_ok_def)
  then show "xinv (xhole_merge i n x) (as @ i # bs) fs" unfolding z xinv_def using g(1) by blast
  show "free_bytes (x_hole (xhole_merge i n x)) (as @ i # bs) = free_bytes (x_hole x) (as @ i # bs) \<union> block a n"
    unfolding z using g(3,6) e(3) by (subst free_bytes_mid [of as bs _ "x_hole x"]) (auto simp: g(2) span_def)
qed

lemma merge_both:
  assumes inv: "xinv x (as @ i # c # cs) fs" and f: "fits a n x (as @ i # c # cs)" and t: "h_top (x_hole x i) = a"
    and ac: "a + n = h_addr (x_hole x c)"
  shows "xinv (xhole_merge i n x) (as @ i # cs) (c # fs)"
    "free_bytes (x_hole (xhole_merge i n x)) (as @ i # cs) = free_bytes (x_hole x) (as @ i # c # cs) \<union> block a n"
proof -
  let ?h = "x_hole x i" and ?y = "grown i n x" and ?c = "x_hole x c" and ?x = "xhole_merge i n x"
  have s: "sorted_holes (x_hole x) (as @ i # c # cs)" and ok: "hole_ok ?h" and lo: "\<forall>j \<in> set as. unat (h_top (x_hole x j)) < unat (h_addr ?h)"
    and okc: "hole_ok ?c" and hc: "\<forall>j \<in> set cs. unat (h_top ?c) < unat (h_addr (x_hole x j))" and d: "distinct (as @ i # c # cs)"
    using inv by (auto simp: xinv_def sorted_holes_append sorted_holes_Cons lists_rep_def)
  have a: "unat a + unat n < 2 ^ 32" and n0: "0 < unat n" using f by (simp_all add: fits_def)
  note e = hole_extend [OF ok t a] and g = grown_facts [OF inv f t]
  have ct: "unat a + unat n + unat (h_size ?c) = unat (h_top ?c)" using okc e(3) ac by (simp add: hole_ok_def)
  have ci: "c \<noteq> i" "x_hole ?y c = ?c" using d g(3) [of c] by auto
  have z: "?x = unuse c (seth i (\<lambda>h. h\<lparr>h_next := h_next ?c\<rparr>) (seth i (\<lambda>h. h\<lparr>h_size := h_size h + h_size ?c\<rparr>)
      (seth i (\<lambda>h. h\<lparr>h_top := h_top h + h_size ?c\<rparr>) ?y)))"
    using g(4) ac ci unfolding xhole_merge_def Let_def grown_def [symmetric] by (simp add: g(2))
  have "lists_rep (unuse c (setlink (Some i) (h_next (x_hole ?y c)) ?y)) ((as @ [i]) @ cs) (c # fs)"
    using g(1) by (intro unlink_rep) simp_all
  then have "lists_rep ?x ((as @ [i]) @ cs) (c # fs)" by (rule lists_rep_fields) (simp_all add: z ci setlink_def unuse_def)
  then have zr: "lists_rep ?x (as @ i # cs) (c # fs)" by simp
  have zi: "h_addr (x_hole ?x i) = h_addr ?h" "h_size (x_hole ?x i) = h_size ?h + n + h_size ?c" "h_top (x_hole ?x i) = a + n + h_size ?c"
    using ci by (simp_all add: z unuse_def g(2))
  have zo: "same_extent (x_hole ?x j) (x_hole x j)" if "j \<in> set as \<union> set cs" for j
    using that d g(3) [of j] by (auto simp: z unuse_def)
  have zt: "unat (a + n + h_size ?c) = unat (h_top ?c)"
    using ct e(3) uint_bound [of "h_top ?c"] by (simp add: unat_add_exact)
  have zs: "unat (h_size ?h + n + h_size ?c) = unat (h_size ?h) + unat n + unat (h_size ?c)"
    using e(1) ct g(7) uint_bound [of "h_top ?c"] by (subst unat_add_exact) simp_all
  have "sorted_holes (x_hole x) (as @ cs)" using s by (auto simp: sorted_holes_append sorted_holes_Cons)
  then have "sorted_holes (x_hole ?x) (as @ i # cs)"
    using lo hc g(7) ct n0 zo by (intro sorted_holes_mid) (auto simp: zi hole_ok_def zt zs)
  then show "xinv ?x (as @ i # cs) (c # fs)" using zr by (simp add: xinv_def)
  have sx: "span (x_hole ?x i) = {unat (h_addr ?h) ..< unat (h_top ?c)}" by (simp only: span_def zi zt)
  have sc: "span ?c = {unat a + unat n ..< unat (h_top ?c)}" by (simp only: span_def ac [symmetric] e(3))
  have "span (x_hole ?x i) = span ?h \<union> block a n \<union> span ?c"
    unfolding sx sc g(6) [symmetric] using g(7) ct by auto
  then show "free_bytes (x_hole ?x) (as @ i # cs) = free_bytes (x_hole x) (as @ i # c # cs) \<union> block a n"
    using zo by (subst free_bytes_mid [of as cs _ "x_hole x"]) auto
qed

lemma xhole_merge_inv:
  assumes "xinv x (as @ i # bs) fs" and "fits a n x (as @ i # bs)" and "h_top (x_hole x i) = a"
  shows "\<exists>us' fs'. xinv (xhole_merge i n x) us' fs'
    \<and> free_bytes (x_hole (xhole_merge i n x)) us' = free_bytes (x_hole x) (as @ i # bs) \<union> block a n"
proof (cases "\<exists>c cs. bs = c # cs \<and> a + n = h_addr (x_hole x c)")
  case True
  then obtain c cs where "bs = c # cs" "a + n = h_addr (x_hole x c)" by blast
  then show ?thesis using merge_both [of x as i c cs fs a n] assms by blast
next
  case False
  then show ?thesis using merge_last [OF assms] by blast
qed

section \<open>The other two cases\<close>

lemma grow_down:
  assumes inv: "xinv x (as @ i # bs) fs" and f: "fits a n x (as @ i # bs)"
    and lo: "\<forall>j \<in> set as. h_top (x_hole x j) \<noteq> a \<and> h_addr (x_hole x j) \<le> a" and ai: "a + n = h_addr (x_hole x i)"
    and y: "y = seth i (\<lambda>e. e\<lparr>h_addr := h_addr e - n, h_size := h_size e + n\<rparr>) x"
  shows "xinv y (as @ i # bs) fs" "free_bytes (x_hole y) (as @ i # bs) = free_bytes (x_hole x) (as @ i # bs) \<union> block a n"
proof -
  let ?h = "x_hole x i"
  have r: "lists_rep x (as @ i # bs) fs" and s: "sorted_holes (x_hole x) (as @ i # bs)" and ok: "hole_ok ?h" and d: "distinct (as @ i # bs)"
    and hi: "\<forall>j \<in> set bs. unat (h_top ?h) < unat (h_addr (x_hole x j))"
    using inv by (auto simp: xinv_def sorted_holes_append sorted_holes_Cons lists_rep_def)
  have a: "unat a + unat n = unat (h_addr ?h)" using f unat_add_exact [of a n] ai by (simp add: fits_def)
  have at: "unat a + unat n + unat (h_size ?h) = unat (h_top ?h)" using ok a by (simp add: hole_ok_def)
  have "h_addr ?h - n = a" using ai [symmetric] by simp
  then have yi: "x_hole y i = ?h\<lparr>h_addr := a, h_size := h_size ?h + n\<rparr>" by (simp add: y)
  have yo: "x_hole y j = x_hole x j" if "j \<in> set as \<union> set bs" for j using that d by (auto simp: y)
  have yr: "lists_rep y (as @ i # bs) fs" by (rule lists_rep_fields [OF r]) (simp_all add: y)
  have si: "unat (h_size ?h + n) = unat (h_size ?h) + unat n" using at uint_bound [of "h_top ?h"] by (intro unat_add_exact) simp
  have lo': "unat (h_top (x_hole x j)) < unat a" if "j \<in> set as" for j
    using fits_below [OF inv f, of j] lo that by simp
  have n0: "0 < unat n" using f by (simp add: fits_def)
  have "sorted_holes (x_hole y) (as @ i # bs)"
    using lo' hi yo at n0 by (intro sorted_holes_mid [OF sorted_holes_drop [OF s]]) (auto simp: yi hole_ok_def si)
  then show "xinv y (as @ i # bs) fs" using yr by (simp add: xinv_def)
  have "span (x_hole y i) = span ?h \<union> block a n"
    unfolding yi using a at by (auto simp: span_def block_def)
  then show "free_bytes (x_hole y) (as @ i # bs) = free_bytes (x_hole x) (as @ i # bs) \<union> block a n"
    using yo by (subst free_bytes_mid [of as bs _ "x_hole x"]) auto
qed

lemma insert_inv:
  assumes inv: "xinv x (as @ bs) (k # fs)" and f: "fits a n x (as @ bs)" and l: "l = (if as = [] then None else Some (last as))"
    and h: "h = (case bs of [] \<Rightarrow> None | b # _ \<Rightarrow> Some b)"
    and lo: "\<forall>j \<in> set as. h_top (x_hole x j) \<noteq> a \<and> h_addr (x_hole x j) \<le> a"
    and hi: "\<forall>j \<in> set bs. unat a + unat n < unat (h_addr (x_hole x j))"
  shows "xinv (xhole_insert l h a n x) (as @ k # bs) fs"
    "free_bytes (x_hole (xhole_insert l h a n x)) (as @ k # bs) = free_bytes (x_hole x) (as @ bs) \<union> block a n"
proof -
  let ?x = "xhole_insert l h a n x"
  have r: "lists_rep x (as @ bs) (k # fs)" and s: "sorted_holes (x_hole x) (as @ bs)" using inv by (simp_all add: xinv_def)
  have d: "k \<notin> set as" "k \<notin> set bs" and u: "x_unused x = Some k" using r by (auto simp: lists_rep_def)
  have z: "?x = setlink l (Some k) (seth k (\<lambda>e. e\<lparr>h_next := h\<rparr>)
      (seth k (\<lambda>e. e\<lparr>h_addr := a, h_top := a + n, h_size := n\<rparr>) (x\<lparr>x_unused := h_next (x_hole x k)\<rparr>)))"
    using u by (simp add: xhole_insert_def Let_def)
  have zr: "lists_rep ?x (as @ k # bs) fs" unfolding z by (rule link_rep [OF r l h]) simp
  have lk: "l \<noteq> Some k" using l d last_in_set [of as] by auto
  have zk: "h_addr (x_hole ?x k) = a" "h_top (x_hole ?x k) = a + n" "h_size (x_hole ?x k) = n"
    using lk by (simp_all add: z setlink_def split: option.split)
  have zo: "same_extent (x_hole ?x j) (x_hole x j)" if "j \<in> set as \<union> set bs" for j
  proof -
    have "j \<noteq> k" using that d by auto
    then show ?thesis unfolding z by (simp add: setlink_def split: option.split)
  qed
  have n0: "0 < unat n" and an: "unat (a + n) = unat a + unat n" using f by (simp_all add: fits_def unat_add_exact)
  have lo': "unat (h_top (x_hole x j)) < unat a" if "j \<in> set as" for j
    using fits_below [OF inv f, of j] lo that by simp
  have "sorted_holes (x_hole ?x) (as @ k # bs)"
    using lo' hi zo n0 an by (intro sorted_holes_mid [OF s]) (auto simp: zk hole_ok_def)
  then show "xinv ?x (as @ k # bs) fs" using zr by (simp add: xinv_def)
  show "free_bytes (x_hole ?x) (as @ k # bs) = free_bytes (x_hole x) (as @ bs) \<union> block a n"
    using zo by (subst free_bytes_mid [of as bs _ "x_hole x"]) (auto simp: zk span_def block_def an)
qed

section \<open>Giving memory back\<close>

definition given_back :: "uint \<Rightarrow> uint \<Rightarrow> xlists \<Rightarrow> nat list \<Rightarrow> xlists \<Rightarrow> nat list \<Rightarrow> nat list \<Rightarrow> bool" where
  "given_back a n x us x' us' fs' \<longleftrightarrow> xinv x' us' fs' \<and> x_hdr x' = x_hdr x
    \<and> (free_bytes (x_hole x') us' = free_bytes (x_hole x) us \<union> block a n \<or> x' = x \<and> us' = us \<and> fs' = [])"

lemma hdr_kept [simp]: "x_hdr (xhole_merge i n x) = x_hdr x" "x_hdr (xhole_insert l h a n x) = x_hdr x"
  by (simp_all add: xhole_merge_def xhole_insert_def unuse_def setlink_def Let_def split: option.split)

lemma insert_or_leak:
  assumes inv: "xinv x (as @ bs) fs" and f: "fits a n x (as @ bs)" and l: "l = (if as = [] then None else Some (last as))"
    and h: "h = (case bs of [] \<Rightarrow> None | b # _ \<Rightarrow> Some b)"
    and lo: "\<forall>j \<in> set as. h_top (x_hole x j) \<noteq> a \<and> h_addr (x_hole x j) \<le> a"
    and hi: "\<forall>j \<in> set bs. unat a + unat n < unat (h_addr (x_hole x j))"
  shows "\<exists>us' fs'. given_back a n x (as @ bs) (xhole_insert l h a n x) us' fs'"
proof (cases fs)
  case Nil
  then have "x_unused x = None" using inv by (simp add: xinv_def lists_rep_def)
  then have "xhole_insert l h a n x = x" by (simp add: xhole_insert_def)
  then show ?thesis using inv Nil by (auto simp: given_back_def)
next
  case (Cons k ks)
  have "given_back a n x (as @ bs) (xhole_insert l h a n x) (as @ k # bs) ks"
    using insert_inv [OF inv [unfolded Cons] f l h lo hi] unfolding given_back_def by simp
  then show ?thesis by blast
qed

text \<open>
  Memory that is not free is added to the free memory. When it touches no hole and no hole structure
  is left, it is lost.
\<close>

lemma xhole_inv:
  assumes inv: "xinv x us fs" and f: "fits a n x us"
  shows "\<exists>x' us' fs'. xhole a n x = Some x' \<and> given_back a n x us x' us' fs'"
proof -
  have n0: "n \<noteq> 0" using f by (auto simp: fits_def)
  have "chain (hnexts x) (x_sorted x) us" using inv by (simp add: xinv_def lists_rep_def)
  then obtain as bs ends where us: "us = as @ bs"
    and sc: "xhole_scan (x_hole x) a None (x_sorted x) = Some (if as = [] then None else Some (last as), case bs of [] \<Rightarrow> None | i # _ \<Rightarrow> Some i, ends)"
    and lo: "\<forall>i \<in> set as. h_top (x_hole x i) \<noteq> a \<and> h_addr (x_hole x i) \<le> a"
    and st: "case bs of [] \<Rightarrow> \<not> ends | i # _ \<Rightarrow> if ends then h_top (x_hole x i) = a else h_top (x_hole x i) \<noteq> a \<and> a < h_addr (x_hole x i)"
    using xhole_scan_chain [of x "x_sorted x" us a None] by blast
  let ?l = "if as = [] then None else Some (last as)" and ?h = "case bs of [] \<Rightarrow> None | i # _ \<Rightarrow> Some i"
  show ?thesis
  proof (cases bs)
    case Nil
    then have "xhole a n x = Some (xhole_insert ?l ?h a n x)" using n0 sc unfolding xhole_def by simp
    then show ?thesis using insert_or_leak [OF inv [unfolded us] f [unfolded us] refl refl lo] Nil us by auto
  next
    case (Cons i cs)
    show ?thesis
    proof (cases ends)
      case True
      then have "xhole a n x = Some (xhole_merge i n x)" "h_top (x_hole x i) = a"
        using n0 sc st Cons unfolding xhole_def by simp_all
      then show ?thesis using xhole_merge_inv [of x as i cs fs a n] inv f us Cons by (auto simp: given_back_def)
    next
      case False
      then have ai: "a < h_addr (x_hole x i)" using st Cons by simp
      show ?thesis
      proof (cases "a + n = h_addr (x_hole x i)")
        case True
        then have "xhole a n x = Some (seth i (\<lambda>e. e\<lparr>h_addr := h_addr e - n, h_size := h_size e + n\<rparr>) x)"
          using n0 sc Cons False unfolding xhole_def by simp
        moreover have "given_back a n x us (seth i (\<lambda>e. e\<lparr>h_addr := h_addr e - n, h_size := h_size e + n\<rparr>) x) us fs"
          using grow_down [OF inv [unfolded us Cons] f [unfolded us Cons] lo True refl] unfolding given_back_def us Cons by simp
        ultimately show ?thesis by blast
      next
        case ne: False
        then have e: "xhole a n x = Some (xhole_insert ?l ?h a n x)" using n0 sc Cons False unfolding xhole_def by simp
        have "unat a \<le> unat (h_addr (x_hole x i))" using ai by (simp add: word_less_nat_alt)
        then have "unat a + unat n < unat (h_addr (x_hole x i))" using fits_above [OF inv f _ _ ne] us Cons by simp
        then have "\<forall>j \<in> set bs. unat a + unat n < unat (h_addr (x_hole x j))"
          using sorted_later [of "x_hole x" as i cs] inv unfolding xinv_def us Cons by fastforce
        then show ?thesis using insert_or_leak [OF inv [unfolded us] f [unfolded us] refl refl lo] e us by auto
      qed
    qed
  qed
qed

end
