(* ===== verification/Xalloc_Steps.thy ===== *)
theory Xalloc_Steps
  imports Xalloc_Free
begin

text \<open>
  The allocator in use: memory is given to it, blocks are allocated, merged and freed in any order. The
  history records the memory that was given and the blocks handed out, each with the size its
  owner may use.
\<close>

section \<open>Histories\<close>

definition boot_holes :: "(uint \<Rightarrow> uint \<times> uint) \<Rightarrow> xlists" where
  "boot_holes hm = xinit_holes \<lparr>x_hole = (\<lambda>_. \<lparr>h_addr = 0, h_top = 0, h_size = 0, h_next = None\<rparr>), x_unused = None, x_sorted = None, x_hdr = hm\<rparr>"

inductive xreach :: "xlists \<Rightarrow> nat set \<Rightarrow> (uint \<rightharpoonup> nat) \<Rightarrow> bool" where
  boot: "xreach (boot_holes hm) {} Map.empty"
| give: "xreach x mem bl \<Longrightarrow> xhole a n x = Some x' \<Longrightarrow> block a n \<inter> mem = {} \<Longrightarrow> unat a + unat n \<le> 0x20000000 \<Longrightarrow>
    xreach x' (mem \<union> block a n) bl"
| alloc: "xreach x mem bl \<Longrightarrow> unat n + 16 < 2 ^ 32 \<Longrightarrow> xallocz n z x = Some (Some q, x') \<Longrightarrow> xreach x' mem (bl(q \<mapsto> unat n))"
| free: "xreach x mem bl \<Longrightarrow> bl q = Some n \<Longrightarrow> xfree q x = Some x' \<Longrightarrow> xreach x' mem (bl(q := None))"
| merge: "xreach x mem bl \<Longrightarrow> bl p = Some m \<Longrightarrow> bl q = Some n \<Longrightarrow> xmerge p q x = Some (True, x') \<Longrightarrow>
    xreach x' mem (bl(q := None, p \<mapsto> m + 8 + n))"

section \<open>The invariant\<close>

text \<open>The memory of a block, from its header to its end, and the part of it that belongs to the owner.\<close>

definition xblock :: "xlists \<Rightarrow> uint \<Rightarrow> nat set" where
  "xblock x q = block (q - 8 - KZERO) (fst (x_hdr x (q - 8)))"

definition xdata :: "uint \<Rightarrow> nat \<Rightarrow> nat set" where
  "xdata q n = {unat (q - KZERO) ..< unat (q - KZERO) + n}"

definition block_ok :: "xlists \<Rightarrow> nat set \<Rightarrow> uint \<Rightarrow> nat \<Rightarrow> bool" where
  "block_ok x mem q n \<longleftrightarrow> snd (x_hdr x (q - 8)) = Magichole \<and> 8 + n \<le> unat (fst (x_hdr x (q - 8))) \<and> xblock x q \<subseteq> mem"

definition xok :: "xlists \<Rightarrow> nat set \<Rightarrow> (uint \<rightharpoonup> nat) \<Rightarrow> nat list \<Rightarrow> nat list \<Rightarrow> bool" where
  "xok x mem bl us fs \<longleftrightarrow> xinv x us fs \<and> free_bytes (x_hole x) us \<subseteq> mem \<and> mem \<subseteq> {..<0x20000000}
    \<and> (\<forall>q n. bl q = Some n \<longrightarrow> block_ok x mem q n \<and> xblock x q \<inter> free_bytes (x_hole x) us = {})
    \<and> (\<forall>p q. p \<in> dom bl \<longrightarrow> q \<in> dom bl \<longrightarrow> p \<noteq> q \<longrightarrow> xblock x p \<inter> xblock x q = {})"

lemma block_head:
  assumes "block_ok x mem q n" shows "unat (q - 8 - KZERO) \<in> xblock x q"
  using assms by (simp add: block_ok_def xblock_def block_def)

lemma xok_boot: "\<exists>us fs. xok (boot_holes hm) {} Map.empty us fs"
proof -
  let ?x = "boot_holes hm"
  have n: "hnexts ?x i = (if i < 127 then Some (i + 1) else None)" for i
    by (simp add: boot_holes_def xinit_holes_def hnexts_def)
  have "chain (hnexts ?x) (if k < 128 then Some k else None) [k ..< 128]" if "k \<le> 128" for k
    using that
  proof (induction k rule: inc_induct)
    case (step k)
    then show ?case using n [of k] by (auto simp: upt_rec [of k] split: if_splits)
  qed simp
  from this [of 0] have "lists_rep ?x [] [0 ..< 128]" by (simp add: lists_rep_def) (simp add: boot_holes_def xinit_holes_def)
  then have "xok ?x {} Map.empty [] [0 ..< 128]" by (simp add: xok_def xinv_def sorted_holes_def)
  then show ?thesis by blast
qed

section \<open>Steps keep it\<close>

lemma xok_give:
  assumes ok: "xok x mem bl us fs" and e: "xhole a n x = Some x'" and d: "block a n \<inter> mem = {}" and b: "unat a + unat n \<le> 0x20000000"
  shows "\<exists>us' fs'. xok x' (mem \<union> block a n) bl us' fs'"
proof (cases "n = 0")
  case True
  then show ?thesis using e ok by (auto simp: xhole_def block_def)
next
  case False
  have i: "xinv x us fs" and fm: "free_bytes (x_hole x) us \<subseteq> mem" using ok by (simp_all add: xok_def)
  have "fits a n x us" using False b d fm by (auto simp: fits_def unat_gt_0)
  then obtain us' fs' where g: "given_back a n x us x' us' fs'" using xhole_inv [OF i, of a n] e by auto
  have h: "x_hdr x' = x_hdr x" and i': "xinv x' us' fs'" and f': "free_bytes (x_hole x') us' \<subseteq> free_bytes (x_hole x) us \<union> block a n"
    using g by (auto simp: given_back_def)
  have xb: "xblock x' q = xblock x q" for q by (simp add: xblock_def h)
  have bb: "block a n \<subseteq> {..<0x20000000}" using b by (auto simp: block_def)
  have "block_ok x' (mem \<union> block a n) q k \<and> xblock x' q \<inter> free_bytes (x_hole x') us' = {}" if "bl q = Some k" for q k
  proof -
    have "block_ok x mem q k" "xblock x q \<inter> free_bytes (x_hole x) us = {}" using ok that by (auto simp: xok_def)
    then show ?thesis using f' d h unfolding block_ok_def xb by auto
  qed
  then have "xok x' (mem \<union> block a n) bl us' fs'" using ok i' f' fm bb unfolding xok_def xb by auto
  then show ?thesis by blast
qed

lemma xok_alloc:
  assumes ok: "xok x mem bl us fs" and n: "unat n + 16 < 2 ^ 32" and e: "xallocz n z x = Some (Some q, x')"
  shows "\<exists>us' fs'. xok x' mem (bl(q \<mapsto> unat n)) us' fs'"
proof -
  define m where "m = (n + 16) AND NOT 7"
  have m8: "8 + unat n \<le> unat m" and m0: "0 < unat m" using round_block [OF n] by (simp_all add: m_def)
  have i: "xinv x us fs" and fm: "free_bytes (x_hole x) us \<subseteq> mem" and mm: "mem \<subseteq> {..<0x20000000}" using ok by (simp_all add: xok_def)
  obtain p us' fs' where q: "q = p + KZERO + 8" and i': "xinv x' us' fs'" and hd: "headers p m x x'"
    and sub: "block p m \<subseteq> free_bytes (x_hole x) us" and f': "free_bytes (x_hole x') us' = free_bytes (x_hole x) us - block p m"
    using xallocz_inv [OF i m0 [unfolded m_def] order_trans [OF fm mm], of z] e unfolding m_def [symmetric] by auto
  have hq: "x_hdr x' (q - 8) = (m, Magichole)" and pq: "q - 8 - KZERO = p" using hd by (simp_all add: headers_def q add.commute)
  have xq: "xblock x' q = block p m" by (simp add: xblock_def hq pq)
  have old: "x_hdr x' (r - 8) = x_hdr x (r - 8) \<and> r \<noteq> q" if r: "bl r = Some k" for r k
  proof -
    have b: "block_ok x mem r k" "xblock x r \<inter> free_bytes (x_hole x) us = {}" using ok r by (auto simp: xok_def)
    let ?a = "r - 8 - KZERO"
    have a: "unat ?a \<in> xblock x r" by (rule block_head [OF b(1)])
    have "unat ?a < 0x20000000" "unat ?a \<notin> block p m" using a b mm sub by (auto simp: block_ok_def)
    moreover have "?a + KZERO = r - 8" by simp
    moreover have "unat p \<in> block p m" using m0 by (simp add: block_def)
    ultimately show ?thesis using hd pq unfolding headers_def by metis
  qed
  have xr: "xblock x' r = xblock x r" if "bl r = Some k" for r k using old [OF that] by (simp add: xblock_def)
  have dr: "xblock x r \<inter> block p m = {}" if "bl r = Some k" for r k using ok that sub unfolding xok_def by blast
  have "block_ok x' mem r k \<and> xblock x' r \<inter> free_bytes (x_hole x') us' = {}" if r: "(bl(q \<mapsto> unat n)) r = Some k" for r k
  proof (cases "r = q")
    case True
    then show ?thesis using r hq m8 sub fm f' xq by (auto simp: block_ok_def)
  next
    case False
    then have b: "bl r = Some k" using r by simp
    then have "block_ok x mem r k" "xblock x r \<inter> free_bytes (x_hole x) us = {}" using ok by (auto simp: xok_def)
    then show ?thesis using old [OF b] xr [OF b] f' by (auto simp: block_ok_def)
  qed
  moreover have "xblock x' r \<inter> xblock x' s = {}" if r: "r \<in> dom (bl(q \<mapsto> unat n))" "s \<in> dom (bl(q \<mapsto> unat n))" "r \<noteq> s" for r s
  proof (cases "r = q \<or> s = q")
    case True
    then obtain t k where "bl t = Some k" "r = q \<and> s = t \<or> s = q \<and> r = t" using r by (auto split: if_splits)
    then show ?thesis using dr xr xq by (metis Int_commute)
  next
    case False
    then obtain k l where "bl r = Some k" "bl s = Some l" using r by auto
    then show ?thesis using xr ok r(3) unfolding xok_def by (metis domI)
  qed
  ultimately have "xok x' mem (bl(q \<mapsto> unat n)) us' fs'" using i' f' fm mm unfolding xok_def by blast
  then show ?thesis by blast
qed

lemma xok_free:
  assumes ok: "xok x mem bl us fs" and b: "bl q = Some n"
  shows "\<exists>x' us' fs'. xfree q x = Some x' \<and> xok x' mem (bl(q := None)) us' fs'"
proof -
  define a m where "a = q - 8 - KZERO" and "m = fst (x_hdr x (q - 8))"
  have i: "xinv x us fs" and fm: "free_bytes (x_hole x) us \<subseteq> mem" and mm: "mem \<subseteq> {..<0x20000000}" using ok by (simp_all add: xok_def)
  have bo: "block_ok x mem q n" and dis: "xblock x q \<inter> free_bytes (x_hole x) us = {}" using ok b by (auto simp: xok_def)
  have xq: "xblock x q = block a m" by (simp add: xblock_def a_def m_def)
  have m0: "0 < unat m" and sub: "block a m \<subseteq> mem" and mg: "snd (x_hdr x (q - 8)) = Magichole"
    using bo by (auto simp: block_ok_def m_def xq [unfolded m_def])
  have "unat a + unat m - 1 \<in> block a m" "unat a \<in> block a m" using m0 by (auto simp: block_def)
  then have "unat a + unat m - 1 < 0x20000000" and ab: "unat a < 0x20000000" using sub mm by blast+
  then have "fits a m x us" using m0 dis by (auto simp: fits_def xq)
  then obtain x' us' fs' where g: "xhole a m x = Some x'" "given_back a m x us x' us' fs'" using xhole_inv [OF i] by blast
  have k: "a + KZERO = q - 8" by (simp add: a_def)
  have "\<not> q - 8 < KZERO" using unat_kaddr [OF ab] unfolding k by (simp add: word_less_nat_alt)
  then have "arch_paddr (q - 8) = Some a" by (simp add: arch_paddr_def a_def)
  then have e: "xfree q x = Some x'" using mg g(1) by (simp add: xfree_def m_def)
  have h: "x_hdr x' = x_hdr x" and i': "xinv x' us' fs'" and f': "free_bytes (x_hole x') us' \<subseteq> free_bytes (x_hole x) us \<union> block a m"
    using g(2) by (auto simp: given_back_def)
  have xb: "xblock x' r = xblock x r" for r by (simp add: xblock_def h)
  have "block_ok x' mem r k \<and> xblock x' r \<inter> free_bytes (x_hole x') us' = {}" if "(bl(q := None)) r = Some k" for r k
  proof -
    have r: "bl r = Some k" "r \<noteq> q" using that by (auto split: if_splits)
    then have "block_ok x mem r k" "xblock x r \<inter> free_bytes (x_hole x) us = {}" "xblock x r \<inter> block a m = {}"
      using ok b xq unfolding xok_def by (blast | metis domI)+
    then show ?thesis using f' h unfolding block_ok_def xb by auto
  qed
  then have "xok x' mem (bl(q := None)) us' fs'" using ok i' f' fm sub unfolding xok_def xb by auto
  then show ?thesis using e by blast
qed

lemma xok_merge:
  assumes ok: "xok x mem bl us fs" and b: "bl p = Some m" "bl q = Some n" and e: "xmerge p q x = Some (True, x')"
  shows "xok x' mem (bl(q := None, p \<mapsto> m + 8 + n)) us fs"
proof -
  let ?bl = "bl(q := None, p \<mapsto> m + 8 + n)"
  define a c where "a = p - 8 - KZERO" and "c = q - 8 - KZERO"
  define k l where "k = fst (x_hdr x (p - 8))" and "l = fst (x_hdr x (q - 8))"
  have bo: "block_ok x mem p m" "block_ok x mem q n" "xblock x p \<inter> free_bytes (x_hole x) us = {}" "xblock x q \<inter> free_bytes (x_hole x) us = {}"
    and mm: "mem \<subseteq> {..<0x20000000}" using ok b by (auto simp: xok_def)
  have xp: "xblock x p = block a k" "xblock x q = block c l" by (simp_all add: xblock_def a_def c_def k_def l_def)
  have kl: "8 + m \<le> unat k" "8 + n \<le> unat l" using bo by (simp_all add: block_ok_def k_def l_def)
  have adj: "p - 8 + k = q - 8" and x': "x' = x\<lparr>x_hdr := (x_hdr x)(p - 8 := (k + l, Magichole))\<rparr>"
    using e bo(1) by (auto simp: xmerge_def Let_def k_def l_def block_ok_def split: if_splits)
  have ac: "c = a + k" using adj unfolding a_def c_def by (simp add: algebra_simps)
  have "unat a + unat k - 1 \<in> block a k" "unat c + unat l - 1 \<in> block c l" using kl by (auto simp: block_def)
  then have top: "unat a + unat k - 1 < 0x20000000" "unat c + unat l - 1 < 0x20000000" using bo(1,2) mm unfolding block_ok_def xp by blast+
  have uc: "unat c = unat a + unat k" unfolding ac using top(1) by (intro unat_add_exact) simp
  have ukl: "unat (k + l) = unat k + unat l" using top(2) uc by (intro unat_add_exact) simp
  have pq: "p \<noteq> q" using adj kl by auto
  have xp': "xblock x' p = xblock x p \<union> xblock x q"
    unfolding xp by (auto simp: xblock_def x' block_def ukl uc a_def [symmetric])
  have xr: "xblock x' r = xblock x r" "x_hdr x' (r - 8) = x_hdr x (r - 8)" if "r \<noteq> p" for r
    using that by (simp_all add: xblock_def x')
  have "block_ok x' mem r j \<and> xblock x' r \<inter> free_bytes (x_hole x') us = {}" if r: "?bl r = Some j" for r j
  proof (cases "r = p")
    case True
    have "xblock x p \<subseteq> mem" "xblock x q \<subseteq> mem" using bo(1,2) by (simp_all add: block_ok_def)
    then show ?thesis using True r bo(3,4) kl unfolding block_ok_def xp' True by (auto simp: x' ukl)
  next
    case False
    then have "bl r = Some j" using r by (auto split: if_splits)
    then show ?thesis using ok xr [OF False] unfolding xok_def block_ok_def by (simp add: x')
  qed
  moreover have "xblock x' r \<inter> xblock x' s = {}" if r: "r \<in> dom ?bl" "s \<in> dom ?bl" "r \<noteq> s" for r s
  proof -
    have d: "\<And>r s. r \<in> dom bl \<Longrightarrow> s \<in> dom bl \<Longrightarrow> r \<noteq> s \<Longrightarrow> xblock x r \<inter> xblock x s = {}" using ok by (simp add: xok_def)
    have "t \<in> dom bl \<and> t \<noteq> q" if "t \<in> dom ?bl" for t using that b pq by (auto split: if_splits)
    then have "r \<in> dom bl" "s \<in> dom bl" "r \<noteq> q" "s \<noteq> q" "p \<in> dom bl" "q \<in> dom bl" using r b by blast+
    then show ?thesis using d r(3) xp' xr(1) [of r] xr(1) [of s] by (cases "r = p"; cases "s = p") auto
  qed
  moreover have "xinv x' us fs" "x_hole x' = x_hole x" using ok by (auto simp: xok_def xinv_def lists_rep_def hnexts_def x')
  ultimately show ?thesis using ok unfolding xok_def by metis
qed

lemma xreach_ok: "xreach x mem bl \<Longrightarrow> \<exists>us fs. xok x mem bl us fs"
proof (induction rule: xreach.induct)
  case (boot hm)
  show ?case by (rule xok_boot)
next
  case (give x mem bl a n x')
  then show ?case using xok_give by blast
next
  case (alloc x mem bl n z q x')
  then show ?case using xok_alloc by blast
next
  case (free x mem bl q n x')
  then obtain us fs where "xok x mem bl us fs" by blast
  then obtain y us' fs' where "xfree q x = Some y" "xok y mem (bl(q := None)) us' fs'" using xok_free [of x mem bl us fs q n] free.hyps(2) by blast
  then show ?case using free.hyps(3) by (metis option.inject)
next
  case (merge x mem bl p m q n x')
  then show ?case using xok_merge by blast
qed

section \<open>Starting\<close>

definition bank_bytes :: "confmem \<Rightarrow> nat set" where
  "bank_bytes m = {unat (cm_base m) ..< unat (cm_base m) + unat (cm_npage m) * 4096}"

lemma sint_unat: "sint n = (if unat n < 2 ^ 31 then int (unat n) else int (unat n) - 2 ^ 32)" for n :: uint
proof -
  let ?u = "int (unat n)"
  note of_nat_unat [simp del]
  have s: "sint n = (?u + 2 ^ 31) mod 2 ^ 32 - 2 ^ 31"
    by (simp add: sint_uint signed_take_bit_eq_take_bit_shift take_bit_eq_mod of_nat_unat)
  show ?thesis
  proof (cases "unat n < 2 ^ 31")
    case True
    then have "(?u + 2 ^ 31) mod 2 ^ 32 = ?u + 2 ^ 31" by (intro mod_pos_pos_trivial) simp_all
    then show ?thesis using s True by simp
  next
    case False
    have "(?u + 2 ^ 31) mod 2 ^ 32 = (?u + 2 ^ 31 - 2 ^ 32) mod 2 ^ 32" by (simp only: minus_mod_self2)
    also have "\<dots> = ?u + 2 ^ 31 - 2 ^ 32" using False uint_bound [of n] by (intro mod_pos_pos_trivial) simp_all
    finally show ?thesis using s False by simp
  qed
qed

text \<open>The number of pages of a bank that go to the kernel.\<close>

definition kernel_pages :: "confmem \<Rightarrow> uint \<Rightarrow> uint" where
  "kernel_pages m kpages =
     (let nk = (if sint (cm_npage m) > sint kpages then kpages else cm_npage m);
          mx = arch_cankaddr (cm_base m) div BY2PG
      in if nk > mx then mx else nk)"

lemma kernel_pages_bounds:
  assumes n: "unat (cm_npage m) < 2 ^ 20" and k: "unat kpages < 2 ^ 31"
  shows "unat (kernel_pages m kpages) \<le> unat (cm_npage m)" "unat (kernel_pages m kpages) \<le> unat kpages"
    "0 < unat (kernel_pages m kpages) \<Longrightarrow> unat (cm_base m) + unat (kernel_pages m kpages) * 4096 \<le> 0x20000000"
proof -
  let ?mx = "arch_cankaddr (cm_base m) div BY2PG"
  have e: "unat (kernel_pages m kpages) = min (min (unat (cm_npage m)) (unat kpages)) (unat ?mx)"
    using n k by (auto simp: kernel_pages_def Let_def sint_unat word_less_nat_alt simp del: of_nat_unat)
  then show "unat (kernel_pages m kpages) \<le> unat (cm_npage m)" "unat (kernel_pages m kpages) \<le> unat kpages" by simp_all
  have "unat ?mx = unat (arch_cankaddr (cm_base m)) div 4096" by (simp add: unat_div)
  moreover have "unat (arch_cankaddr (cm_base m)) = 0x20000000 - unat (cm_base m)"
    by (auto simp: arch_cankaddr_def word_le_nat_alt unat_sub not_le)
  ultimately have "unat (kernel_pages m kpages) \<le> (0x20000000 - unat (cm_base m)) div 4096" using e by simp
  then have "unat (kernel_pages m kpages) * 4096 \<le> 0x20000000 - unat (cm_base m)" by linarith
  then show "0 < unat (kernel_pages m kpages) \<Longrightarrow> unat (cm_base m) + unat (kernel_pages m kpages) * 4096 \<le> 0x20000000" by simp
qed

lemma xinit_bank_reach:
  assumes r: "xreach x mem Map.empty" and n: "unat (cm_npage m) < 2 ^ 20" and k: "unat kpages < 2 ^ 31" and d: "bank_bytes m \<inter> mem = {}"
  shows "\<exists>m' kp' pm' x' mem'. xinit_bank m (kpages, pm, x) = Some (m', kp', pm', x') \<and> xreach x' mem' Map.empty
    \<and> unat kp' < 2 ^ 31 \<and> mem' \<subseteq> mem \<union> bank_bytes m"
proof -
  define nk where "nk = kernel_pages m kpages"
  note b = kernel_pages_bounds [OF n k, folded nk_def]
  have s: "sint nk > 0 \<longleftrightarrow> 0 < unat nk" using b(2) k by (simp add: sint_unat del: of_nat_unat)
  have u: "unat (nk * BY2PG) = unat nk * 4096" if "0 < unat nk" using b(3) [OF that] by (simp add: unat_word_ariths)
  show ?thesis
  proof (cases "0 < unat nk")
    case False
    have "\<exists>pm'. xinit_bank m (kpages, pm, x) = Some (m, kpages, pm', x)"
      using False s unfolding xinit_bank_def Let_def nk_def kernel_pages_def by simp
    then show ?thesis using r k by blast
  next
    case True
    have sub: "block (cm_base m) (nk * BY2PG) \<subseteq> bank_bytes m" using b(1) u [OF True] by (auto simp: block_def bank_bytes_def)
    obtain us fs where ok: "xok x mem Map.empty us fs" using xreach_ok [OF r] by blast
    then have i: "xinv x us fs" and fm: "free_bytes (x_hole x) us \<subseteq> mem" by (simp_all add: xok_def)
    have "fits (cm_base m) (nk * BY2PG) x us" using b(3) [OF True] u [OF True] True sub d fm by (auto simp: fits_def)
    then obtain x' where x': "xhole (cm_base m) (nk * BY2PG) x = Some x'" using xhole_inv [OF i] by blast
    have r': "xreach x' (mem \<union> block (cm_base m) (nk * BY2PG)) Map.empty"
      using b(3) [OF True] u [OF True] sub d by (intro xreach.give [OF r x']) auto
    have "unat (cm_base m + nk * BY2PG) = unat (cm_base m) + unat nk * 4096"
      using b(3) [OF True] u [OF True] by (simp add: unat_add_exact)
    then have "arch_kaddr (cm_base m) = Some (cm_base m + KZERO)" "arch_kaddr (cm_base m + nk * BY2PG) = Some (cm_base m + nk * BY2PG + KZERO)"
      using b(3) [OF True] by (simp_all add: arch_kaddr_def word_less_nat_alt)
    then have "\<exists>m' pm'. xinit_bank m (kpages, pm, x) = Some (m', kpages - nk, pm', x')"
      using True s x' unfolding xinit_bank_def Let_def nk_def kernel_pages_def by simp
    moreover have "unat (kpages - nk) < 2 ^ 31" using b(2) k by (simp add: unat_sub word_le_nat_alt)
    ultimately show ?thesis using r' sub by blast
  qed
qed

lemma xinit_banks_reach:
  assumes "xreach x mem Map.empty" and "\<forall>m \<in> set ms. unat (cm_npage m) < 2 ^ 20 \<and> bank_bytes m \<inter> mem = {}"
    and "unat kpages < 2 ^ 31" and "sorted_wrt (\<lambda>m m'. bank_bytes m \<inter> bank_bytes m' = {}) ms"
  shows "\<exists>ms' kp' pm' x' mem'. xinit_banks ms (kpages, pm, x) = Some (ms', kp', pm', x') \<and> xreach x' mem' Map.empty
    \<and> mem' \<subseteq> mem \<union> (\<Union>m \<in> set ms. bank_bytes m)"
  using assms
proof (induction ms arbitrary: x mem kpages pm)
  case (Cons m ms)
  have n: "unat (cm_npage m) < 2 ^ 20" and d: "bank_bytes m \<inter> mem = {}" using Cons.prems(2) by simp_all
  obtain m' kp pm' x' mem' where e: "xinit_bank m (kpages, pm, x) = Some (m', kp, pm', x')" and r: "xreach x' mem' Map.empty"
    and k: "unat kp < 2 ^ 31" and s: "mem' \<subseteq> mem \<union> bank_bytes m" using xinit_bank_reach [OF Cons.prems(1) n Cons.prems(3) d] by blast
  have "\<forall>m \<in> set ms. unat (cm_npage m) < 2 ^ 20 \<and> bank_bytes m \<inter> mem' = {}" using Cons.prems(2,4) s by fastforce
  then obtain ms' kp' pm2 x2 mem2 where "xinit_banks ms (kp, pm', x') = Some (ms', kp', pm2, x2)" "xreach x2 mem2 Map.empty"
    "mem2 \<subseteq> mem' \<union> (\<Union>m \<in> set ms. bank_bytes m)" using Cons.IH [OF r _ k, of pm'] Cons.prems(4) by auto
  moreover have "mem2 \<subseteq> mem \<union> (\<Union>m \<in> set (m # ms). bank_bytes m)" using calculation(3) s by auto
  ultimately show ?case using e by auto
qed auto

end
