(* ===== verification/Xalloc_Props.thy ===== *)
theory Xalloc_Props
  imports Xalloc_Steps
begin

text \<open>The properties of the kernel memory allocator, over all histories that begin with an empty list of holes.\<close>

section \<open>Blocks\<close>

lemma xdata_block:
  assumes "block_ok x mem q n" and "mem \<subseteq> {..<0x20000000}"
  shows "xdata q n \<subseteq> xblock x q"
proof -
  let ?a = "q - 8 - KZERO"
  have "unat ?a < 0x20000000" using block_head [OF assms(1)] assms by (auto simp: block_ok_def)
  then have e: "unat (?a + 8) = unat ?a + 8" using unat_add_exact [of ?a 8] by simp
  have q: "q - KZERO = ?a + 8" by simp
  have "unat (q - KZERO) = unat ?a + 8" unfolding q by (rule e)
  then show ?thesis using assms(1) by (auto simp: xdata_def xblock_def block_def block_ok_def)
qed

text \<open>
  C32: the bytes that two owners may use never overlap: as long as both blocks are allocated, whatever
  was allocated, merged or freed before, the data of one lies outside the data of the other, and no
  byte of it is in a hole on the list of free holes \<open>us\<close>.
\<close>

theorem xalloc_separation:
  assumes "xreach x mem bl" and "bl p = Some m" and "bl q = Some n" and "p \<noteq> q" and "chain (hnexts x) (x_sorted x) us"
  shows "xdata p m \<inter> xdata q n = {} \<and> xdata p m \<inter> free_bytes (x_hole x) us = {}"
proof -
  obtain vs fs where ok: "xok x mem bl vs fs" using xreach_ok [OF assms(1)] by blast
  then have "block_ok x mem p m" "block_ok x mem q n" "mem \<subseteq> {..<0x20000000}" using assms(2,3) by (auto simp: xok_def)
  then have "xdata p m \<subseteq> xblock x p" "xdata q n \<subseteq> xblock x q" using xdata_block by blast+
  moreover have "xblock x p \<inter> xblock x q = {}" "xblock x p \<inter> free_bytes (x_hole x) vs = {}" using ok assms unfolding xok_def by blast+
  moreover have "us = vs" using ok assms(5) by (auto simp: xok_def xinv_def lists_rep_def intro: chain_unique)
  ultimately show ?thesis by blast
qed

text \<open>A concrete history: a megabyte-aligned bank of 64 kilobytes and two blocks.\<close>

definition ex1 :: xlists where "ex1 = the (xhole 0x100000 0x10000 (boot_holes (\<lambda>_. (0, 0))))"
definition ex2 :: xlists where "ex2 = snd (the (xallocz 100 True ex1))"
definition ex3 :: xlists where "ex3 = snd (the (xallocz 200 False ex2))"

lemma ex1_step: "xhole 0x100000 0x10000 (boot_holes (\<lambda>_. (0, 0))) = Some ex1"
  by (simp add: ex1_def boot_holes_def xinit_holes_def xhole_def xhole_scan.simps)

lemma ex2_step: "xallocz 100 True ex1 = Some (Some 0xE0100008, ex2)"
  by (simp add: ex2_def ex1_def boot_holes_def xinit_holes_def xhole_def xhole_scan.simps xallocz_def xalloc_scan.simps xhole_insert_def setlink_def seth_def arch_kaddr_def Let_def)

lemma ex3_step: "xallocz 200 False ex2 = Some (Some 0xE0100078, ex3)"
  by (simp add: ex3_def ex2_def ex1_def boot_holes_def xinit_holes_def xhole_def xhole_scan.simps xallocz_def xalloc_scan.simps xhole_insert_def setlink_def seth_def arch_kaddr_def Let_def)

lemma ex3_list: "chain (hnexts ex3) (x_sorted ex3) [0]"
  by (simp add: ex3_def ex2_def ex1_def boot_holes_def xinit_holes_def xhole_def xhole_scan.simps xallocz_def xalloc_scan.simps xhole_insert_def setlink_def seth_def arch_kaddr_def Let_def hnexts_def)

lemma ex1_list: "chain (hnexts ex1) (x_sorted ex1) [0]"
  by (simp add: ex1_def boot_holes_def xinit_holes_def xhole_def xhole_scan.simps xhole_insert_def setlink_def seth_def Let_def hnexts_def)

lemma ex1_reach: "xreach ex1 (block 0x100000 0x10000) Map.empty"
proof -
  have "xreach ex1 ({} \<union> block 0x100000 0x10000) Map.empty"
    by (rule xreach.give [OF xreach.boot ex1_step]) simp_all
  then show ?thesis by simp
qed

lemma ex3_reach: "xreach ex3 (block 0x100000 0x10000) [0xE0100008 \<mapsto> 100, 0xE0100078 \<mapsto> 200]"
proof -
  from xreach.alloc [OF ex1_reach _ ex2_step] have "xreach ex2 (block 0x100000 0x10000) [0xE0100008 \<mapsto> 100]" by simp
  from xreach.alloc [OF this _ ex3_step] show ?thesis by simp
qed

theorem xalloc_separation_witness:
  "xdata 0xE0100008 100 \<inter> xdata 0xE0100078 200 = {} \<and> xdata 0xE0100008 100 \<inter> free_bytes (x_hole ex3) [0] = {}"
  by (rule xalloc_separation [OF ex3_reach _ _ _ ex3_list]) simp_all

text \<open>
  A request within 16 bytes of the largest size wraps around: the block has room for the header only.
\<close>

lemma xallocz_wraps: "map_option fst (xallocz 0xFFFFFFF8 True ex1) = Some (Some 0xE0100008) \<and> (0xFFFFFFF8 + 16 AND NOT 7 :: uint) = 8"
  by (simp add: ex1_def boot_holes_def xinit_holes_def xhole_def xhole_scan.simps xallocz_def xalloc_scan.simps xhole_insert_def setlink_def seth_def arch_kaddr_def Let_def)

section \<open>Operations return\<close>

text \<open>
  C33: in every history, an allocation of a size that leaves room for the header returns: a block, or
  nil, and nil only when every hole is too small. This holds from the first allocation on, whether or
  not a block is live. Freeing any block that is allocated returns too, without a panic.
\<close>

theorem xalloc_returns:
  assumes "xreach x mem bl" and "unat n + 16 < 2 ^ 32" and "chain (hnexts x) (x_sorted x) us"
  shows "(\<exists>r x'. xallocz n z x = Some (r, x')
      \<and> (r = None \<longrightarrow> (\<forall>i \<in> set us. unat (h_size (x_hole x i)) < (unat n + 16) div 8 * 8)))
    \<and> (\<forall>q k. bl q = Some k \<longrightarrow> (\<exists>x'. xfree q x = Some x'))"
proof -
  obtain vs fs where ok: "xok x mem bl vs fs" using xreach_ok [OF assms(1)] by blast
  then have i: "xinv x vs fs" and f: "free_bytes (x_hole x) vs \<subseteq> {..<0x20000000}" by (auto simp: xok_def)
  have us: "us = vs" using i assms(3) by (auto simp: xinv_def lists_rep_def intro: chain_unique)
  have r: "unat ((n + 16) AND NOT 7) = (unat n + 16) div 8 * 8" by (rule round_block [OF assms(2)])
  then have p: "0 < unat ((n + 16) AND NOT 7)" by simp
  have "\<exists>r x'. xallocz n z x = Some (r, x')
    \<and> (r = None \<longrightarrow> (\<forall>i \<in> set us. unat (h_size (x_hole x i)) < (unat n + 16) div 8 * 8))"
    using xallocz_inv [OF i p f, of z] unfolding us r [symmetric] word_less_nat_alt by fastforce
  then show ?thesis using xok_free [OF ok] by blast
qed

theorem xalloc_returns_witness:
  "(\<exists>x'. xfree 0xE0100078 ex3 = Some x') \<and> (\<exists>r x'. xallocz 1000000 True ex3 = Some (r, x')
      \<and> (r = None \<longrightarrow> (\<forall>i \<in> set [0]. unat (h_size (x_hole ex3 i)) < (unat (1000000 :: uint) + 16) div 8 * 8)))
    \<and> (\<exists>r x'. xallocz 100 True ex1 = Some (r, x')
      \<and> (r = None \<longrightarrow> (\<forall>i \<in> set [0]. unat (h_size (x_hole ex1 i)) < (unat (100 :: uint) + 16) div 8 * 8)))"
  using xalloc_returns [OF ex3_reach _ ex3_list, of 1000000 True] xalloc_returns [OF ex1_reach _ ex1_list, of 100 True]
  by simp

section \<open>Starting\<close>

text \<open>
  when the banks of memory do not overlap and fewer pages are reserved for users than there are,
  \<open>xinit\<close> returns, without a panic, and the allocator is then in the state of a history in which only memory of
  the banks was given to it.
\<close>

lemma xinit_starts:
  assumes "\<forall>m \<in> set ms. unat (cm_npage m) < 2 ^ 20" and "sorted_wrt (\<lambda>m m'. bank_bytes m \<inter> bank_bytes m' = {}) ms"
    and "upages \<le> npage" and "unat npage < 2 ^ 31"
  shows "\<exists>ms' pm x mem. xinit npage upages ms \<lparr>x_hole = (\<lambda>_. \<lparr>h_addr = 0, h_top = 0, h_size = 0, h_next = None\<rparr>), x_unused = None, x_sorted = None, x_hdr = hm\<rparr> = Some (ms', pm, x)
    \<and> xreach x mem Map.empty \<and> mem \<subseteq> (\<Union>m \<in> set ms. bank_bytes m)"
proof -
  have "unat (npage - upages) < 2 ^ 31" using assms(3,4) by (simp add: unat_sub word_le_nat_alt)
  then obtain ms' kp pm x mem where "xinit_banks ms (npage - upages, [], boot_holes hm) = Some (ms', kp, pm, x)"
    "xreach x mem Map.empty" "mem \<subseteq> {} \<union> (\<Union>m \<in> set ms. bank_bytes m)"
    using xinit_banks_reach [OF xreach.boot, of ms "npage - upages" "[]" hm] assms(1,2) by auto
  then show ?thesis by (auto simp: xinit_def boot_holes_def)
qed

theorem xinit_starts_witness:
  "\<exists>ms' pm x mem. xinit 256 200 [\<lparr>cm_base = 0, cm_npage = 156, cm_kbase = 0, cm_klimit = 0\<rparr>, \<lparr>cm_base = 0x100000, cm_npage = 100, cm_kbase = 0, cm_klimit = 0\<rparr>]
      \<lparr>x_hole = (\<lambda>_. \<lparr>h_addr = 0, h_top = 0, h_size = 0, h_next = None\<rparr>), x_unused = None, x_sorted = None, x_hdr = (\<lambda>_. (0, 0))\<rparr> = Some (ms', pm, x)
    \<and> xreach x mem Map.empty \<and> mem \<subseteq> (\<Union>m \<in> set [\<lparr>cm_base = 0, cm_npage = 156, cm_kbase = 0, cm_klimit = 0\<rparr>, \<lparr>cm_base = 0x100000, cm_npage = 100, cm_kbase = 0, cm_klimit = 0\<rparr>]. bank_bytes m)"
  by (rule xinit_starts) (simp_all add: bank_bytes_def word_le_nat_alt)

end
