(* ===== verification/Strto.thy ===== *)
theory Strto
  imports Cstring
begin

text \<open>
  Reading numbers: \<^verbatim>\<open>strtol\<close>, \<^verbatim>\<open>strtoll\<close>, \<^verbatim>\<open>strtoul\<close>, \<^verbatim>\<open>strtoull\<close>, \<^verbatim>\<open>atol\<close>, \<^verbatim>\<open>atoi\<close> and \<^verbatim>\<open>atoll\<close> of
  \<^verbatim>\<open>lib_core/libc/port\<close>. A pointer into the string is the list of the bytes that follow; its end stands for
  the NUL. The functions return the value and the offset that is stored through \<^verbatim>\<open>endptr\<close>. Values are
  integers, with the wrap-around of the C type written out: \<open>swrap w\<close> for a signed type of \<open>w\<close> bits,
  \<open>uwrap w\<close> for an unsigned one.
\<close>

definition swrap :: "nat \<Rightarrow> int \<Rightarrow> int" where
  "swrap w x = (x + 2 ^ (w - 1)) mod 2 ^ w - 2 ^ (w - 1)"

definition uwrap :: "nat \<Rightarrow> int \<Rightarrow> int" where
  "uwrap w x = x mod 2 ^ w"

section \<open>What the functions share\<close>

definition ch :: "bytes \<Rightarrow> int" where
  "ch p = uint (rd p 0)"

definition white :: "uchar \<Rightarrow> bool" where
  "white c \<longleftrightarrow> c \<in> {0x20, 0x09, 0x0A, 0x0C, 0x0D, 0x0B}"

fun skip_white :: "bytes \<Rightarrow> bytes" where
  "skip_white [] = []"
| "skip_white (c # p) = (if white c then skip_white p else c # p)"

text \<open>The sign: whether it is a minus, and the rest.\<close>

definition read_sign :: "bytes \<Rightarrow> bool \<times> bytes" where
  "read_sign p = (if ch p = 0x2D \<or> ch p = 0x2B then (ch p = 0x2D, tl p) else (False, p))"

definition is_x :: "int \<Rightarrow> bool" where
  "is_x c \<longleftrightarrow> c = 0x78 \<or> c = 0x58"

text \<open>The base and its prefix, in \<^verbatim>\<open>strtol\<close>, \<^verbatim>\<open>strtoll\<close> and \<^verbatim>\<open>strtoull\<close>; \<open>None\<close> is the jump to \<^verbatim>\<open>Return\<close>.\<close>

definition strtol_base :: "int \<Rightarrow> bytes \<Rightarrow> (int \<times> bytes) option" where
  "strtol_base base p =
     (if base = 0 then
        if ch p = 0x30 then if is_x (ch (tl p)) then Some (16, tl (tl p)) else Some (8, p)
        else Some (10, p)
      else if base = 16 \<and> ch p = 0x30 then
        if is_x (ch (tl p)) then Some (base, tl (tl p)) else Some (base, p)
      else if base < 0 \<or> 36 < base then None
      else Some (base, p))"

definition is_hex :: "int \<Rightarrow> bool" where
  "is_hex c \<longleftrightarrow> 0x30 \<le> c \<and> c \<le> 0x39 \<or> 0x61 \<le> c \<and> c \<le> 0x66 \<or> 0x41 \<le> c \<and> c \<le> 0x46"

definition strtoul_base :: "int \<Rightarrow> bytes \<Rightarrow> (int \<times> bytes) option" where
  "strtoul_base base p =
     (let base = (if base = 0 then if ch p \<noteq> 0x30 then 10 else if is_x (ch (tl p)) then 16 else 8 else base) in
      if base < 2 \<or> 36 < base then None
      else if base = 16 \<and> ch p = 0x30 \<and> is_x (ch (tl p)) \<and> is_hex (ch (tl (tl p))) then Some (base, tl (tl p))
      else Some (base, p))"

definition digit_val :: "int \<Rightarrow> int \<Rightarrow> int" where
  "digit_val base c =
     (if 0x30 \<le> c \<and> c \<le> 0x39 then c - 0x30
      else if 0x61 \<le> c \<and> c \<le> 0x7A then c - 0x61 + 10
      else if 0x41 \<le> c \<and> c \<le> 0x5A then c - 0x41 + 10
      else base)"

text \<open>The loop over the digits; \<open>wrap\<close> is that of the type of \<^verbatim>\<open>n\<close>.\<close>

fun digits :: "(int \<Rightarrow> int) \<Rightarrow> int \<Rightarrow> int \<Rightarrow> bytes \<Rightarrow> int \<Rightarrow> bool \<Rightarrow> nat \<Rightarrow> bytes \<times> int \<times> bool \<times> nat" where
  "digits wrap base m [] n ovfl ndig = ([], n, ovfl, ndig)"
| "digits wrap base m (c # p) n ovfl ndig =
     (let v = digit_val base (uint c) in
      if v \<ge> base then (c # p, n, ovfl, ndig)
      else
        let ovfl = (ovfl \<or> n > m);
            nn = wrap (n * base + v);
            ovfl = (ovfl \<or> nn < n)
        in digits wrap base m p nn ovfl (ndig + 1))"

section \<open>The functions\<close>

abbreviation (input) LONG_MAX :: int where "LONG_MAX \<equiv> 2147483647"
abbreviation (input) LONG_MIN :: int where "LONG_MIN \<equiv> - 2147483648"
abbreviation (input) VLONG_MAX :: int where "VLONG_MAX \<equiv> 9223372036854775807"
abbreviation (input) VLONG_MIN :: int where "VLONG_MIN \<equiv> - 9223372036854775808"
abbreviation (input) ULONG_MAX :: int where "ULONG_MAX \<equiv> 4294967295"

text \<open>\<^verbatim>\<open>UVLONG_MAX\<close> is \<^verbatim>\<open>1LL<<63\<close>, a negative \<^verbatim>\<open>vlong\<close>.\<close>

abbreviation (input) UVLONG_MAX :: int where "UVLONG_MAX \<equiv> - 9223372036854775808"

definition strtol :: "bytes \<Rightarrow> int \<Rightarrow> int \<times> nat" where
  "strtol nptr base =
     (let p = skip_white nptr; (neg, p) = read_sign p in
      case strtol_base base p of
        None \<Rightarrow> (0, 0)
      | Some (base, p) \<Rightarrow>
          let m = LONG_MAX div base;
              (p, n, ovfl, ndig) = digits (swrap 32) base m p 0 False 0;
              e = (if ndig = 0 then 0 else length nptr - length p)
          in (if ovfl then if neg then LONG_MIN else LONG_MAX
              else if neg then swrap 32 (- n) else n, e))"

definition strtoll :: "bytes \<Rightarrow> int \<Rightarrow> int \<times> nat" where
  "strtoll nptr base =
     (let p = skip_white nptr; (neg, p) = read_sign p in
      case strtol_base base p of
        None \<Rightarrow> (0, 0)
      | Some (base, p) \<Rightarrow>
          let m = VLONG_MAX div base;
              (p, n, ovfl, ndig) = digits (swrap 64) base m p 0 False 0;
              e = (if ndig = 0 then 0 else length nptr - length p)
          in (if ovfl then if neg then VLONG_MIN else VLONG_MAX
              else if neg then swrap 64 (- n) else n, e))"

definition strtoul :: "bytes \<Rightarrow> int \<Rightarrow> int \<times> nat" where
  "strtoul nptr base =
     (let p = skip_white nptr; (neg, p) = read_sign p in
      case strtoul_base base p of
        None \<Rightarrow> (0, 0)
      | Some (base, p) \<Rightarrow>
          let m = ULONG_MAX div base;
              (p, n, ovfl, ndig) = digits (uwrap 32) base m p 0 False 0;
              e = (if ndig = 0 then 0 else length nptr - length p)
          in (if ovfl then ULONG_MAX else if neg then uwrap 32 (- n) else n, e))"

text \<open>The division by the base rounds to zero.\<close>

definition strtoull :: "bytes \<Rightarrow> int \<Rightarrow> int \<times> nat" where
  "strtoull nptr base =
     (let p = skip_white nptr; (neg, p) = read_sign p in
      case strtol_base base p of
        None \<Rightarrow> (0, 0)
      | Some (base, p) \<Rightarrow>
          let m = uwrap 64 (- (- UVLONG_MAX div base));
              (p, n, ovfl, ndig) = digits (uwrap 64) base m p 0 False 0;
              e = (if ndig = 0 then 0 else length nptr - length p)
          in (if ovfl then uwrap 64 UVLONG_MAX else if neg then uwrap 64 (- n) else n, e))"

definition atoll :: "bytes \<Rightarrow> int" where
  "atoll s = fst (strtoll s 0)"

fun skip_blank :: "bytes \<Rightarrow> bytes" where
  "skip_blank [] = []"
| "skip_blank (c # s) = (if c = 0x20 \<or> c = 0x09 then skip_blank s else c # s)"

fun atol_hex :: "int \<Rightarrow> bytes \<Rightarrow> int" where
  "atol_hex n [] = n"
| "atol_hex n (c # s) =
     (let c = uint c in
      if c \<ge> 0x30 \<and> c \<le> 0x39 then atol_hex (swrap 32 (n * 16 + c - 0x30)) s
      else if c \<ge> 0x61 \<and> c \<le> 0x66 then atol_hex (swrap 32 (n * 16 + c - 0x61 + 10)) s
      else if c \<ge> 0x41 \<and> c \<le> 0x46 then atol_hex (swrap 32 (n * 16 + c - 0x41 + 10)) s
      else n)"

text \<open>The loops for octal and decimal digits differ in the base only.\<close>

fun atol_digits :: "int \<Rightarrow> int \<Rightarrow> bytes \<Rightarrow> int" where
  "atol_digits b n [] = n"
| "atol_digits b n (c # s) =
     (if 0x30 \<le> uint c \<and> uint c < 0x30 + b then atol_digits b (swrap 32 (n * b + uint c - 0x30)) s else n)"

definition atol :: "bytes \<Rightarrow> int" where
  "atol s =
     (let s = skip_blank s;
          (f, s) = (if ch s = 0x2D \<or> ch s = 0x2B then (ch s = 0x2D, skip_blank (tl s)) else (False, s));
          n = (if ch s = 0x30 \<and> ch (tl s) \<noteq> 0 then
                 if is_x (ch (tl s)) then atol_hex 0 (tl (tl s)) else atol_digits 8 0 s
               else atol_digits 10 0 s)
      in if f then swrap 32 (- n) else n)"

definition atoi :: "bytes \<Rightarrow> int" where
  "atoi s = atol s"

section \<open>What a number means\<close>

text \<open>The digits at the front of a string, their value, and what the whole string stands for.\<close>

definition digit_run :: "int \<Rightarrow> bytes \<Rightarrow> bytes" where
  "digit_run b p = takeWhile (\<lambda>c. digit_val b (uint c) < b) p"

definition run_val :: "int \<Rightarrow> int \<Rightarrow> bytes \<Rightarrow> int" where
  "run_val b a ds = foldl (\<lambda>n c. n * b + digit_val b (uint c)) a ds"

definition parsed :: "(int \<Rightarrow> bytes \<Rightarrow> (int \<times> bytes) option) \<Rightarrow> bytes \<Rightarrow> int \<Rightarrow> int \<times> nat" where
  "parsed f s base =
     (let (neg, p) = read_sign (skip_white s) in
      case f base p of
        None \<Rightarrow> (0, 0)
      | Some (b, q) \<Rightarrow>
          let ds = digit_run b q; v = run_val b 0 ds
          in (if neg then - v else v, if ds = [] then 0 else length s - length (drop (length ds) q)))"

definition clamp :: "int \<Rightarrow> int \<Rightarrow> int \<Rightarrow> int" where
  "clamp lo hi v = max lo (min hi v)"

section \<open>The loop detects every overflow\<close>

text \<open>
  What the loop needs of the arithmetic of a type with largest value \<open>top\<close>: values in range are exact,
  and a value that is out of range by less than a digit becomes smaller than 36.
\<close>

locale accumulator =
  fixes wrap :: "int \<Rightarrow> int" and top :: int
  assumes exact: "0 \<le> x \<Longrightarrow> x \<le> top \<Longrightarrow> wrap x = x"
    and over: "top < x \<Longrightarrow> x \<le> top + 35 \<Longrightarrow> wrap x < 36"
    and large: "36 * 36 + 36 < top"
begin

definition tracks :: "int \<Rightarrow> bool \<Rightarrow> int \<Rightarrow> bool" where
  "tracks n ovfl a \<longleftrightarrow> 0 \<le> a \<and> (ovfl \<longleftrightarrow> top < a) \<and> (\<not> ovfl \<longrightarrow> n = a)"

lemma tracks_step:
  assumes t: "tracks n ovfl a" and b: "1 \<le> b" "b \<le> 36" and v: "0 \<le> v" "v < b"
  shows "tracks (wrap (n * b + v)) ((ovfl \<or> n > top div b) \<or> wrap (n * b + v) < n) (a * b + v)"
proof -
  have a0: "0 \<le> a" using t by (simp add: tracks_def)
  have ab: "a \<le> a * b" using a0 b(1) mult_left_mono [of 1 b a] by simp
  have dm: "top = top div b * b + top mod b" "top mod b < b" "0 \<le> top mod b" using b(1) by simp_all
  show ?thesis
  proof (cases ovfl)
    case True
    then have "top < a" using t by (simp add: tracks_def)
    then show ?thesis using True ab a0 v by (simp add: tracks_def)
  next
    case False
    then have na: "n = a" "a \<le> top" using t by (auto simp: tracks_def)
    show ?thesis
    proof (cases "a > top div b")
      case True
      then have "(top div b + 1) * b \<le> a * b" using b(1) by (intro mult_right_mono) simp_all
      then have "top < a * b" using dm unfolding distrib_right mult_1_left by linarith
      then show ?thesis using True na a0 ab v by (simp add: tracks_def)
    next
      case le: False
      then have "a * b \<le> top div b * b" using b(1) by (intro mult_right_mono) simp_all
      then have at: "a * b \<le> top" using dm by linarith
      show ?thesis
      proof (cases "a * b + v \<le> top")
        case True
        then have "wrap (a * b + v) = a * b + v" using exact a0 ab v by simp
        then show ?thesis using True False le na a0 ab v by (simp add: tracks_def)
      next
        case out: False
        have "wrap (a * b + v) < 36" using over [of "a * b + v"] out at v b by simp
        moreover have "a * b \<le> a * 36" using a0 b(2) by (intro mult_left_mono) simp_all
        then have "36 \<le> a" using out v b(2) large by linarith
        ultimately show ?thesis using out na a0 ab v by (simp add: tracks_def)
      qed
    qed
  qed
qed

lemma digits_tracks:
  assumes "tracks n ovfl a" and "1 \<le> b" "b \<le> 36"
  shows "\<exists>n' ovfl'. digits wrap b (top div b) p n ovfl k
      = (drop (length (digit_run b p)) p, n', ovfl', k + length (digit_run b p))
    \<and> tracks n' ovfl' (run_val b a (digit_run b p))"
  using assms(1)
proof (induction p arbitrary: n ovfl a k)
  case Nil
  then show ?case by (simp add: digit_run_def run_val_def)
next
  case (Cons c p)
  let ?v = "digit_val b (uint c)"
  show ?case
  proof (cases "?v < b")
    case False
    then show ?thesis using Cons.prems by (simp add: digit_run_def run_val_def)
  next
    case True
    have v0: "0 \<le> ?v" using assms(2) by (simp add: digit_val_def)
    from Cons.IH [OF tracks_step [OF Cons.prems assms(2,3) v0 True], of "k + 1"]
    show ?thesis using True by (simp add: digit_run_def run_val_def Let_def)
  qed
qed

text \<open>A function that reads a number with this loop and finishes with \<open>fin\<close>.\<close>

definition convert :: "(int \<Rightarrow> bytes \<Rightarrow> (int \<times> bytes) option) \<Rightarrow> (bool \<Rightarrow> bool \<Rightarrow> int \<Rightarrow> int) \<Rightarrow> bytes \<Rightarrow> int \<Rightarrow> int \<times> nat" where
  "convert f fin s base =
     (let (neg, p) = read_sign (skip_white s) in
      case f base p of
        None \<Rightarrow> (0, 0)
      | Some (b, q) \<Rightarrow>
          let (p, n, ovfl, ndig) = digits wrap b (top div b) q 0 False 0
          in (fin neg ovfl n, if ndig = 0 then 0 else length s - length p))"

lemma convert_parsed:
  assumes f: "\<And>p b q. f base p = Some (b, q) \<Longrightarrow> 1 \<le> b \<and> b \<le> 36" and g0: "g 0 = 0"
    and fin: "\<And>neg n v. 0 \<le> v \<Longrightarrow> (v \<le> top \<Longrightarrow> n = v) \<Longrightarrow> fin neg (top < v) n = g (if neg then - v else v)"
  shows "convert f fin s base = apfst g (parsed f s base)"
proof -
  obtain neg p where p: "read_sign (skip_white s) = (neg, p)" by fastforce
  show ?thesis
  proof (cases "f base p")
    case None
    then show ?thesis by (simp add: convert_def parsed_def p g0)
  next
    case (Some bq)
    obtain b q where bq: "bq = (b, q)" by fastforce
    let ?d = "digit_run b q"
    have b: "1 \<le> b" "b \<le> 36" using f Some bq by auto
    have "tracks 0 False 0" using large by (simp add: tracks_def)
    from digits_tracks [OF this b, of q 0] obtain n ovfl where d: "digits wrap b (top div b) q 0 False 0 = (drop (length ?d) q, n, ovfl, length ?d)"
      and t: "tracks n ovfl (run_val b 0 ?d)" by auto
    have "fin neg ovfl n = g (if neg then - run_val b 0 ?d else run_val b 0 ?d)"
      using fin [of "run_val b 0 ?d" n neg] t by (auto simp: tracks_def not_less)
    then show ?thesis using Some bq d by (simp add: convert_def parsed_def p Let_def)
  qed
qed

end

text \<open>The types \<^verbatim>\<open>long\<close>, \<^verbatim>\<open>vlong\<close> and \<^verbatim>\<open>ulong\<close>.\<close>

lemma swrap_exact: "- (2 ^ (w - 1)) \<le> x \<Longrightarrow> x < 2 ^ (w - 1) \<Longrightarrow> 0 < w \<Longrightarrow> swrap w x = x"
  by (cases w) (simp_all add: swrap_def)

lemma swrap_over: "2 ^ (w - 1) \<le> x \<Longrightarrow> x < 2 ^ w \<Longrightarrow> 0 < w \<Longrightarrow> swrap w x < 0"
proof -
  assume a: "2 ^ (w - 1) \<le> x" "x < 2 ^ w" "0 < w"
  obtain k where w: "w = Suc k" using a(3) by (cases w) auto
  have "(x + 2 ^ k) mod 2 ^ w = (x + 2 ^ k - 2 ^ w) mod 2 ^ w" by (simp only: minus_mod_self2)
  also have "\<dots> = x + 2 ^ k - 2 ^ w" using a(1,2) by (intro mod_pos_pos_trivial) (simp_all add: w)
  finally show ?thesis using a(1,2) by (simp add: swrap_def w)
qed

interpretation long: accumulator "swrap 32" LONG_MAX
proof
  fix x :: int
  show "0 \<le> x \<Longrightarrow> x \<le> LONG_MAX \<Longrightarrow> swrap 32 x = x" by (simp add: swrap_exact)
  show "LONG_MAX < x \<Longrightarrow> x \<le> LONG_MAX + 35 \<Longrightarrow> swrap 32 x < 36" using swrap_over [of 32 x] by simp
qed simp

interpretation vlong: accumulator "swrap 64" VLONG_MAX
proof
  fix x :: int
  show "0 \<le> x \<Longrightarrow> x \<le> VLONG_MAX \<Longrightarrow> swrap 64 x = x" by (simp add: swrap_exact)
  show "VLONG_MAX < x \<Longrightarrow> x \<le> VLONG_MAX + 35 \<Longrightarrow> swrap 64 x < 36" using swrap_over [of 64 x] by simp
qed simp

interpretation ulong: accumulator "uwrap 32" ULONG_MAX
proof
  fix x :: int
  show "0 \<le> x \<Longrightarrow> x \<le> ULONG_MAX \<Longrightarrow> uwrap 32 x = x" by (simp add: uwrap_def)
  assume x: "ULONG_MAX < x" "x \<le> ULONG_MAX + 35"
  have "x mod 2 ^ 32 = (x - 2 ^ 32) mod 2 ^ 32" by (simp only: minus_mod_self2)
  also have "\<dots> = x - 2 ^ 32" using x by (intro mod_pos_pos_trivial) simp_all
  finally have e: "uwrap 32 x = x - 2 ^ 32" by (simp only: uwrap_def)
  show "uwrap 32 x < 36" unfolding e using x(2) by simp
qed simp

section \<open>What the functions return\<close>

lemma strtol_base_range: "strtol_base base p = Some (b, q) \<Longrightarrow> 1 \<le> b \<and> b \<le> 36"
  by (auto simp: strtol_base_def split: if_splits)

lemma strtoul_base_range: "strtoul_base base p = Some (b, q) \<Longrightarrow> 1 \<le> b \<and> b \<le> 36"
  by (auto simp: strtoul_base_def Let_def split: if_splits)

lemma strtol_value: "strtol s base = apfst (clamp LONG_MIN LONG_MAX) (parsed strtol_base s base)"
proof -
  have "strtol s base = long.convert strtol_base (\<lambda>neg ovfl n. if ovfl then if neg then LONG_MIN else LONG_MAX else if neg then swrap 32 (- n) else n) s base"
    unfolding strtol_def long.convert_def Let_def by simp
  also have "\<dots> = apfst (clamp LONG_MIN LONG_MAX) (parsed strtol_base s base)"
    by (rule long.convert_parsed) (auto simp: strtol_base_range clamp_def swrap_exact)
  finally show ?thesis .
qed

lemma strtoll_value: "strtoll s base = apfst (clamp VLONG_MIN VLONG_MAX) (parsed strtol_base s base)"
proof -
  have "strtoll s base = vlong.convert strtol_base (\<lambda>neg ovfl n. if ovfl then if neg then VLONG_MIN else VLONG_MAX else if neg then swrap 64 (- n) else n) s base"
    unfolding strtoll_def vlong.convert_def Let_def by simp
  also have "\<dots> = apfst (clamp VLONG_MIN VLONG_MAX) (parsed strtol_base s base)"
    by (rule vlong.convert_parsed) (auto simp: strtol_base_range clamp_def swrap_exact)
  finally show ?thesis .
qed

lemma strtoul_value:
  "strtoul s base = apfst (\<lambda>v. if ULONG_MAX < \<bar>v\<bar> then ULONG_MAX else uwrap 32 v) (parsed strtoul_base s base)"
proof -
  have "strtoul s base = ulong.convert strtoul_base (\<lambda>neg ovfl n. if ovfl then ULONG_MAX else if neg then uwrap 32 (- n) else n) s base"
    unfolding strtoul_def ulong.convert_def Let_def by simp
  also have "\<dots> = apfst (\<lambda>v. if ULONG_MAX < \<bar>v\<bar> then ULONG_MAX else uwrap 32 v) (parsed strtoul_base s base)"
    by (rule ulong.convert_parsed) (auto simp: strtoul_base_range uwrap_def)
  finally show ?thesis .
qed

section \<open>Numbers in range, and numbers that are not\<close>

text \<open>The decimal digits of a number.\<close>

fun decimal :: "nat \<Rightarrow> bytes" where
  "decimal n = (if n < 10 then [0x30 + of_nat n] else decimal (n div 10) @ [0x30 + of_nat (n mod 10)])"

declare decimal.simps [simp del]

lemma digit_byte: "n < 10 \<Longrightarrow> uint (0x30 + of_nat n :: uchar) = 0x30 + int n"
proof -
  assume n: "n < 10"
  then have "unat (of_nat n :: uchar) = n" by (intro unat_of_nat_small) simp
  then have "unat (0x30 + of_nat n :: uchar) = 0x30 + n" using n by (simp add: unat_word_ariths)
  then show ?thesis by (metis of_nat_unat of_nat_add of_nat_numeral)
qed

lemma digit_val_byte: "n < 10 \<Longrightarrow> digit_val 10 (uint (0x30 + of_nat n :: uchar)) = int n"
  by (simp add: digit_val_def digit_byte)

lemma decimal_digits: "c \<in> set (decimal n) \<Longrightarrow> \<exists>d < 10. c = 0x30 + of_nat d"
proof (induction n rule: decimal.induct)
  case (1 n)
  show ?case
  proof (cases "n < 10")
    case True
    then show ?thesis using 1(2) by (auto simp: decimal.simps [of n])
  next
    case False
    then have "c \<in> set (decimal (n div 10)) \<or> c = 0x30 + of_nat (n mod 10)" using 1(2) by (auto simp: decimal.simps [of n])
    moreover have "n mod 10 < 10" by simp
    ultimately show ?thesis using 1(1) [OF False] by blast
  qed
qed

lemma decimal_value: "run_val 10 0 (decimal n) = int n"
proof (induction n rule: decimal.induct)
  case (1 n)
  show ?case
  proof (cases "n < 10")
    case True
    then show ?thesis by (simp add: decimal.simps [of n] run_val_def digit_val_byte)
  next
    case False
    have "run_val 10 0 (decimal n) = run_val 10 0 (decimal (n div 10)) * 10 + digit_val 10 (uint (0x30 + of_nat (n mod 10) :: uchar))"
      using False by (subst decimal.simps) (simp add: run_val_def)
    then have "run_val 10 0 (decimal n) = int (n div 10) * 10 + int (n mod 10)" using 1 False by (simp add: digit_val_byte)
    moreover have "int (n div 10) * 10 + int (n mod 10) = int n" by (metis div_mult_mod_eq of_nat_add of_nat_mult of_nat_numeral)
    ultimately show ?thesis by simp
  qed
qed

lemma decimal_run: "digit_run 10 (decimal n) = decimal n"
  unfolding digit_run_def
proof (subst takeWhile_eq_all_conv, rule ballI)
  fix c assume "c \<in> set (decimal n)"
  then obtain d where "d < 10" "c = 0x30 + of_nat d" using decimal_digits by blast
  then show "digit_val 10 (uint c) < 10" by (simp add: digit_val_byte)
qed

lemma decimal_nonempty: "decimal n \<noteq> []"
  by (subst decimal.simps) simp

lemma decimal_head: "skip_white (decimal n) = decimal n" "read_sign (decimal n) = (False, decimal n)"
proof -
  obtain c cs where c: "decimal n = c # cs" using decimal_nonempty by (cases "decimal n") auto
  then obtain d where d: "d < 10" "c = 0x30 + of_nat d" using decimal_digits [of c n] by auto
  have u: "uint c = 0x30 + int d" using digit_byte d by simp
  then have "c \<notin> {0x20, 0x09, 0x0A, 0x0C, 0x0D, 0x0B}" using d(1) by auto
  then show "skip_white (decimal n) = decimal n" by (simp add: c white_def)
  show "read_sign (decimal n) = (False, decimal n)" using u d(1) by (simp add: c read_sign_def ch_def rd_def)
qed

lemma strtol_decimal: "strtol (decimal n) 10 = (min LONG_MAX (int n), length (decimal n))"
  by (simp add: strtol_value parsed_def decimal_head strtol_base_def decimal_run decimal_value decimal_nonempty clamp_def)

text \<open>
  \<^verbatim>\<open>strtoull\<close> does not detect every overflow, because \<^verbatim>\<open>UVLONG_MAX\<close> is not the largest \<^verbatim>\<open>uvlong\<close>: thirty million
  million million is read as a number that is less than half of it.
\<close>

lemma strtoull_overflow:
  "strtoull [0x33, 0x30, 0x30, 0x30, 0x30, 0x30, 0x30, 0x30, 0x30, 0x30, 0x30, 0x30, 0x30, 0x30, 0x30, 0x30, 0x30, 0x30, 0x30, 0x30] 10
    = (11553255926290448384, 20)"
  by code_simp

text \<open>\<^verbatim>\<open>atol\<close> does not detect overflows; its result is the value modulo \<open>2 ^ 32\<close>.\<close>

lemma swrap_mod: "swrap w x mod 2 ^ w = x mod 2 ^ w"
  by (simp add: swrap_def mod_diff_left_eq)

lemma swrap_cong: "x mod 2 ^ w = y mod 2 ^ w \<Longrightarrow> swrap w x = swrap w y"
  unfolding swrap_def by (metis mod_add_left_eq)

lemma atol_digits_value: "atol_digits 10 (swrap 32 a) (decimal n @ s) = atol_digits 10 (swrap 32 (run_val 10 a (decimal n))) s"
proof -
  have "\<forall>c \<in> set ds. \<exists>d < 10. c = 0x30 + of_nat d \<Longrightarrow> atol_digits 10 (swrap 32 a) (ds @ s) = atol_digits 10 (swrap 32 (run_val 10 a ds)) s" for ds :: bytes
  proof (induction ds arbitrary: a)
    case Nil
    then show ?case by (simp add: run_val_def)
  next
    case (Cons c ds)
    then obtain d where d: "d < 10" "uint c = 0x30 + int d" "digit_val 10 (uint c) = int d" using digit_byte digit_val_byte by auto
    have "swrap 32 (swrap 32 a * 10 + int d) = swrap 32 (a * 10 + int d)"
      by (rule swrap_cong) (metis mod_add_cong mod_mult_cong swrap_mod)
    then have "atol_digits 10 (swrap 32 a) ((c # ds) @ s) = atol_digits 10 (swrap 32 (a * 10 + int d)) (ds @ s)" using d by simp
    also have "\<dots> = atol_digits 10 (swrap 32 (run_val 10 (a * 10 + int d) ds)) s" using Cons by simp
    finally show ?case using d(3) by (simp add: run_val_def)
  qed
  then show ?thesis using decimal_digits by blast
qed

end
