(* ===== verification/Strto_Props.thy ===== *)
theory Strto_Props
  imports Strto
begin

text \<open>The property of the functions that read numbers.\<close>

text \<open>
  C34: \<open>strtol\<close>, \<open>strtoll\<close> and \<open>strtoul\<close> return, for every string and every base, the value of the
  longest run of digits after the blanks, the sign and the prefix of the base, and the offset of its end. A value that does not fit
  is replaced by the nearest value of the type, and by the largest one in \<open>strtoul\<close>, where a minus sign
  negates modulo \<open>2 ^ 32\<close>. In particular, no overflow of the accumulator goes unnoticed.
\<close>

theorem strto_values:
  "strtol s base = apfst (clamp LONG_MIN LONG_MAX) (parsed strtol_base s base)
    \<and> strtoll s base = apfst (clamp VLONG_MIN VLONG_MAX) (parsed strtol_base s base)
    \<and> strtoul s base = apfst (\<lambda>v. if ULONG_MAX < \<bar>v\<bar> then ULONG_MAX else uwrap 32 v) (parsed strtoul_base s base)"
  using strtol_value strtoll_value strtoul_value by simp

end
