(* ===== verification/Qsort.thy ===== *)
theory Qsort
  imports Prelude "HOL-Library.Multiset"
begin

text \<open>
  The sorting function of \<^verbatim>\<open>lib_core/libc/port/qsort.c\<close>. \<open>sort\<close> is the structure of function pointers that
  \<^verbatim>\<open>qsorts\<close> is given; \<open>'m\<close> is the memory that they work on. A pointer into the array is the index of the element, so that
  \<^verbatim>\<open>pi += es\<close> is \<open>pi + 1\<close>; the byte addresses are in \<open>Qsort_Mem\<close>.
\<close>

record 'm sort =
  s_cmp :: "'m \<Rightarrow> nat \<Rightarrow> nat \<Rightarrow> int"
  s_swap :: "nat \<Rightarrow> nat \<Rightarrow> 'm \<Rightarrow> 'm"

section \<open>The code\<close>

definition pivot :: "'m sort \<Rightarrow> 'm \<Rightarrow> nat \<Rightarrow> nat \<Rightarrow> nat" where
  "pivot p m a n =
     (let j = n div 6;
          pi = a + j;
          j = j + j;
          pj = pi + j;
          pk = pj + j
      in if s_cmp p m pi pj < 0 then
           if s_cmp p m pi pk < 0 then if s_cmp p m pj pk < 0 then pj else pk
           else pi
         else if s_cmp p m pj pk < 0 then if s_cmp p m pi pk < 0 then pi else pk
         else pj)"

text \<open>The two inner loops and the loop around them.\<close>

function scan_up :: "'m sort \<Rightarrow> 'm \<Rightarrow> nat \<Rightarrow> nat \<Rightarrow> nat \<Rightarrow> nat" where
  "scan_up p m a pn pi =
     (let pi = pi + 1 in if pi < pn \<and> s_cmp p m pi a < 0 then scan_up p m a pn pi else pi)"
  by pat_completeness auto
termination by (relation "measure (\<lambda>(p, m, a, pn, pi). pn - pi)") auto

function scan_down :: "'m sort \<Rightarrow> 'm \<Rightarrow> nat \<Rightarrow> nat \<Rightarrow> nat" where
  "scan_down p m a pj =
     (let pj = pj - 1 in if pj > a \<and> s_cmp p m pj a > 0 then scan_down p m a pj else pj)"
  by pat_completeness auto
termination by (relation "measure (\<lambda>(p, m, a, pj). pj)") auto

declare scan_up.simps [simp del] scan_down.simps [simp del]

lemma scan_up_gt: "pi < scan_up p m a pn pi"
  by (induction p m a pn pi rule: scan_up.induct) (subst scan_up.simps, auto simp: Let_def)

lemma scan_down_lt: "0 < pj \<Longrightarrow> scan_down p m a pj < pj"
  by (induction p m a pj rule: scan_down.induct) (subst scan_down.simps, force simp: Let_def)

function partition_loop :: "'m sort \<Rightarrow> nat \<Rightarrow> nat \<Rightarrow> nat \<Rightarrow> nat \<Rightarrow> 'm \<Rightarrow> nat \<times> 'm" where
  "partition_loop p a pn pi pj m =
     (let pi = scan_up p m a pn pi;
          pj = scan_down p m a pj
      in if pj < pi then (pj, m)
         else partition_loop p a pn pi pj (s_swap p pi pj m))"
  by pat_completeness auto
termination
proof (relation "measure (\<lambda>(p, a, pn, pi, pj, m). pj)", goal_cases)
  case (2 p a pn pi pj m x y)
  then show ?case using scan_up_gt [of pi p m a pn] scan_down_lt [of pj p m a] by (cases "pj = 0") (auto simp: scan_down.simps [of p m a 0])
qed simp

declare partition_loop.simps [simp del]

lemma partition_loop_lt: "partition_loop p a pn pi pj m = (k, m') \<Longrightarrow> 0 < pj \<Longrightarrow> k < pj"
proof (induction p a pn pi pj m arbitrary: k m' rule: partition_loop.induct)
  case (1 p a pn pi pj m)
  let ?i = "scan_up p m a pn pi" and ?j = "scan_down p m a pj"
  have j: "?j < pj" using scan_down_lt 1(3) .
  show ?case
  proof (cases "?j < ?i")
    case True
    then show ?thesis using 1(2) j by (auto simp: partition_loop.simps [of p a pn pi pj m])
  next
    case False
    then have e: "partition_loop p a pn ?i ?j (s_swap p ?i ?j m) = (k, m')" using 1(2) by (simp add: partition_loop.simps [of p a pn pi pj m] Let_def)
    have "0 < ?j" using False scan_up_gt [of pi p m a pn] by linarith
    then show ?thesis using 1(1) [OF refl refl False e] j by simp
  qed
qed

function qsorts :: "'m sort \<Rightarrow> nat \<Rightarrow> nat \<Rightarrow> 'm \<Rightarrow> 'm" where
  "qsorts p a n m =
     (if n > 1 then
        let pi = (if n > 10 then pivot p m a n else a + n div 2);
            m = s_swap p a pi m;
            (pj, m) = partition_loop p a (a + n) a (a + n) m;
            m = s_swap p a pj m;
            j = pj - a;
            n = n - j - 1
        in if j \<ge> n then qsorts p (a + j + 1) n (qsorts p a j m)
           else qsorts p a j (qsorts p (a + j + 1) n m)
      else m)"
  by pat_completeness auto
termination
  by (relation "measure (\<lambda>(p, a, n, m). n)") (auto dest!: sym [of "(_, _)"] partition_loop_lt)

declare qsorts.simps [simp del]

section \<open>Rearranging part of a list\<close>

definition swapl :: "nat \<Rightarrow> nat \<Rightarrow> 'a list \<Rightarrow> 'a list" where
  "swapl i j xs = xs[i := xs ! j, j := xs ! i]"

definition seg :: "nat \<Rightarrow> nat \<Rightarrow> 'a list \<Rightarrow> 'a list" where
  "seg lo hi xs = take (hi - lo) (drop lo xs)"

text \<open>\<open>ys\<close> is \<open>xs\<close> with the elements from \<open>lo\<close> to \<open>hi\<close> in another order.\<close>

definition perm_in :: "nat \<Rightarrow> nat \<Rightarrow> 'a list \<Rightarrow> 'a list \<Rightarrow> bool" where
  "perm_in lo hi xs ys \<longleftrightarrow> length ys = length xs \<and> (\<forall>k < length xs. k < lo \<or> hi \<le> k \<longrightarrow> ys ! k = xs ! k) \<and> mset ys = mset xs"

lemma perm_in_refl [simp]: "perm_in lo hi xs xs"
  by (simp add: perm_in_def)

lemma perm_in_trans: "perm_in lo hi xs ys \<Longrightarrow> perm_in lo hi ys zs \<Longrightarrow> perm_in lo hi xs zs"
  by (auto simp: perm_in_def)

lemma perm_in_wider: "perm_in lo hi xs ys \<Longrightarrow> lo' \<le> lo \<Longrightarrow> hi \<le> hi' \<Longrightarrow> perm_in lo' hi' xs ys"
  by (auto simp: perm_in_def)

lemma perm_in_swapl: "lo \<le> i \<Longrightarrow> i < hi \<Longrightarrow> lo \<le> j \<Longrightarrow> j < hi \<Longrightarrow> hi \<le> length xs \<Longrightarrow> perm_in lo hi xs (swapl i j xs)"
  by (auto simp: perm_in_def swapl_def mset_swap nth_list_update)

lemma split3: "lo \<le> hi \<Longrightarrow> xs = take lo xs @ seg lo hi xs @ drop hi xs"
  by (simp add: seg_def) (metis append_assoc append_take_drop_id drop_drop le_add_diff_inverse2 le_add_diff_inverse)

lemma seg_mset:
  assumes "perm_in lo hi xs ys" and "lo \<le> hi" "hi \<le> length xs"
  shows "mset (seg lo hi ys) = mset (seg lo hi xs)"
proof -
  have "take lo ys = take lo xs" "drop hi ys = drop hi xs" using assms by (auto simp: perm_in_def intro!: nth_equalityI)
  moreover have "mset xs = mset (take lo xs) + (mset (seg lo hi xs) + mset (drop hi xs))"
    "mset ys = mset (take lo ys) + (mset (seg lo hi ys) + mset (drop hi ys))"
    using split3 [OF assms(2), of xs] split3 [OF assms(2), of ys] by (metis mset_append)+
  ultimately show ?thesis using assms(1) by (simp add: perm_in_def)
qed

lemma seg_map: "hi \<le> length xs \<Longrightarrow> seg lo hi xs = map (\<lambda>k. xs ! k) [lo ..< hi]"
  by (rule nth_equalityI) (auto simp: seg_def)

lemma seg_set: "hi \<le> length xs \<Longrightarrow> set (seg lo hi xs) = (\<lambda>k. xs ! k) ` {lo ..< hi}"
  by (simp add: seg_map)

text \<open>What holds of every element of the part holds after it has been rearranged.\<close>

lemma perm_in_all:
  assumes "perm_in lo hi xs ys" and "lo \<le> hi" "hi \<le> length xs" and "\<forall>k. lo \<le> k \<longrightarrow> k < hi \<longrightarrow> P (xs ! k)"
  shows "\<forall>k. lo \<le> k \<longrightarrow> k < hi \<longrightarrow> P (ys ! k)"
proof -
  have l: "length ys = length xs" using assms(1) by (simp add: perm_in_def)
  have "set (seg lo hi ys) = set (seg lo hi xs)" using seg_mset [OF assms(1-3)] by (metis set_mset_mset)
  then have "(\<lambda>k. ys ! k) ` {lo ..< hi} = (\<lambda>k. xs ! k) ` {lo ..< hi}" using seg_set assms(3) l by metis
  then show ?thesis using assms(4) by (metis (no_types, lifting) atLeastLessThan_iff image_iff)
qed

lemma seg_split:
  assumes "lo \<le> k" "k < hi" "hi \<le> length xs"
  shows "seg lo hi xs = seg lo k xs @ xs ! k # seg (k + 1) hi xs"
proof -
  have "[lo ..< hi] = [lo ..< k] @ k # [k + 1 ..< hi]" using assms upt_conv_Cons [of k hi] by (metis Suc_eq_plus1 le_add_diff_inverse less_imp_le_nat upt_add_eq_append)
  then show ?thesis using assms by (simp add: seg_map)
qed

section \<open>Sorting through an interface\<close>

text \<open>
  What \<^verbatim>\<open>qsorts\<close> needs of the two functions: the memory shows a list of elements, \<^verbatim>\<open>cmp\<close> compares two of them
  by a total preorder, \<^verbatim>\<open>swap\<close> exchanges two of them and leaves the rest of the memory, \<open>rest\<close>, alone.
\<close>

locale sorting =
  fixes p :: "'m sort" and view :: "'m \<Rightarrow> 'a list" and rest :: "'m \<Rightarrow> 'r" and c :: "'a \<Rightarrow> 'a \<Rightarrow> int" and ok :: "'m \<Rightarrow> bool"
  assumes cmp: "ok m \<Longrightarrow> i < length (view m) \<Longrightarrow> j < length (view m) \<Longrightarrow> s_cmp p m i j = c (view m ! i) (view m ! j)"
    and swap: "ok m \<Longrightarrow> i < length (view m) \<Longrightarrow> j < length (view m) \<Longrightarrow> view (s_swap p i j m) = swapl i j (view m)"
    and swap_rest: "ok m \<Longrightarrow> i < length (view m) \<Longrightarrow> j < length (view m) \<Longrightarrow> rest (s_swap p i j m) = rest m \<and> ok (s_swap p i j m)"
    and antisym: "c x y < 0 \<longleftrightarrow> 0 < c y x"
    and trans: "c x y \<le> 0 \<Longrightarrow> c y z \<le> 0 \<Longrightarrow> c x z \<le> 0"
begin

lemma c_refl [simp]: "c x x = 0"
  using antisym [of x x] by linarith

lemma c_flip: "0 \<le> c x y \<longleftrightarrow> c y x \<le> 0"
  using antisym [of x y] antisym [of y x] by linarith

text \<open>The memory after some exchanges within a part of the array.\<close>

definition moved :: "nat \<Rightarrow> nat \<Rightarrow> 'm \<Rightarrow> 'm \<Rightarrow> bool" where
  "moved lo hi m m' \<longleftrightarrow> ok m' \<and> rest m' = rest m \<and> perm_in lo hi (view m) (view m')"

lemma moved_trans: "moved lo hi m m' \<Longrightarrow> moved lo hi m' m'' \<Longrightarrow> moved lo hi m m''"
  using perm_in_trans by (auto simp: moved_def)

lemma moved_wider: "moved lo hi m m' \<Longrightarrow> lo' \<le> lo \<Longrightarrow> hi \<le> hi' \<Longrightarrow> moved lo' hi' m m'"
  using perm_in_wider by (auto simp: moved_def)

lemma moved_swap:
  "ok m \<Longrightarrow> lo \<le> i \<Longrightarrow> i < hi \<Longrightarrow> lo \<le> j \<Longrightarrow> j < hi \<Longrightarrow> hi \<le> length (view m) \<Longrightarrow> moved lo hi m (s_swap p i j m)"
  by (simp add: moved_def swap swap_rest perm_in_swapl)

lemma moved_length: "moved lo hi m m' \<Longrightarrow> length (view m') = length (view m)"
  by (simp add: moved_def perm_in_def)

subsection \<open>The scans\<close>

lemma scan_up_stops:
  assumes "ok m" and "a \<le> i" "i < n" "n \<le> length (view m)" and "pi = scan_up p m a n i"
  shows "i < pi \<and> pi \<le> n \<and> (\<forall>k. i < k \<longrightarrow> k < pi \<longrightarrow> c (view m ! k) (view m ! a) < 0)
    \<and> (pi < n \<longrightarrow> 0 \<le> c (view m ! pi) (view m ! a))"
  using assms
proof (induction "n - i" arbitrary: i rule: less_induct)
  case less
  have e: "s_cmp p m (i + 1) a = c (view m ! (i + 1)) (view m ! a)" if "i + 1 < n" using cmp [of m "i + 1" a] less.prems that by simp
  show ?case
  proof (cases "i + 1 < n \<and> s_cmp p m (i + 1) a < 0")
    case False
    then have "pi = i + 1" using less.prems(5) by (subst (asm) scan_up.simps) (auto simp: Let_def)
    then show ?thesis using False e less.prems by auto
  next
    case True
    have "pi = scan_up p m a n (i + 1)" using less.prems(5) True by (subst (asm) scan_up.simps) (simp add: Let_def)
    then have r: "i + 1 < pi \<and> pi \<le> n \<and> (\<forall>k. i + 1 < k \<longrightarrow> k < pi \<longrightarrow> c (view m ! k) (view m ! a) < 0)
      \<and> (pi < n \<longrightarrow> 0 \<le> c (view m ! pi) (view m ! a))" using less.hyps [of "i + 1"] less.prems(1-4) True by auto
    have "c (view m ! k) (view m ! a) < 0" if "i < k" "k < pi" for k using r that e True by (cases "k = i + 1") auto
    then show ?thesis using r by simp
  qed
qed

lemma scan_down_stops:
  assumes "ok m" and "a < j" "j \<le> n" "n \<le> length (view m)" and "pj = scan_down p m a j"
  shows "a \<le> pj \<and> pj < j \<and> (\<forall>k. pj < k \<longrightarrow> k < j \<longrightarrow> 0 < c (view m ! k) (view m ! a))
    \<and> (a < pj \<longrightarrow> c (view m ! pj) (view m ! a) \<le> 0)"
  using assms
proof (induction j rule: less_induct)
  case (less j)
  have e: "s_cmp p m (j - 1) a = c (view m ! (j - 1)) (view m ! a)" using cmp [of m "j - 1" a] less.prems by simp
  show ?case
  proof (cases "j - 1 > a \<and> s_cmp p m (j - 1) a > 0")
    case False
    then have "pj = j - 1" using less.prems(5) by (subst (asm) scan_down.simps) (auto simp: Let_def)
    then show ?thesis using False e less.prems by auto
  next
    case True
    have "pj = scan_down p m a (j - 1)" using less.prems(5) True by (subst (asm) scan_down.simps) (simp add: Let_def)
    then have r: "a \<le> pj \<and> pj < j - 1 \<and> (\<forall>k. pj < k \<longrightarrow> k < j - 1 \<longrightarrow> 0 < c (view m ! k) (view m ! a))
      \<and> (a < pj \<longrightarrow> c (view m ! pj) (view m ! a) \<le> 0)" using less.IH [of "j - 1"] less.prems True by simp
    have "0 < c (view m ! k) (view m ! a)" if "pj < k" "k < j" for k using r that e True by (cases "k = j - 1") auto
    then show ?thesis using r by auto
  qed
qed

subsection \<open>Partitioning\<close>

definition split_at :: "nat \<Rightarrow> nat \<Rightarrow> nat \<Rightarrow> nat \<Rightarrow> 'm \<Rightarrow> bool" where
  "split_at a n i j m \<longleftrightarrow> (\<forall>k. a < k \<longrightarrow> k \<le> i \<longrightarrow> c (view m ! k) (view m ! a) \<le> 0)
    \<and> (\<forall>k. j \<le> k \<longrightarrow> k < n \<longrightarrow> 0 \<le> c (view m ! k) (view m ! a))"

lemma partition_step:
  assumes ok: "ok m" and b: "a \<le> i" "i < n" "a < j" "i \<le> j" "j \<le> n" "n \<le> length (view m)" and s: "split_at a n i j m"
    and ij: "pi = scan_up p m a n i" "pj = scan_down p m a j"
  shows "pj < pi \<Longrightarrow> split_at a n pj (pj + 1) m"
    "\<not> pj < pi \<Longrightarrow> split_at a n pi pj (s_swap p pi pj m)"
proof -
  note u = scan_up_stops [OF ok b(1,2,6) ij(1)] and d = scan_down_stops [OF ok b(3,5,6) ij(2)]
  let ?v = "view m"
  have lo: "c (?v ! k) (?v ! a) \<le> 0" if "a < k" "k < pi" for k using u s that unfolding split_at_def by (cases "k \<le> i") (auto simp: order_less_imp_le)
  have hi: "0 \<le> c (?v ! k) (?v ! a)" if "pj < k" "k < n" for k using d s that unfolding split_at_def by (cases "j \<le> k") (auto simp: order_less_imp_le)
  show "pj < pi \<Longrightarrow> split_at a n pj (pj + 1) m" using lo hi unfolding split_at_def by auto
  assume np: "\<not> pj < pi"
  have pos: "a < pi" "a < pj" "pj < length ?v" "pi < length ?v" "pi < n" "pj < n" using np u d b by auto
  let ?w = "swapl pi pj ?v"
  have w: "view (s_swap p pi pj m) = ?w" using swap ok pos by simp
  have wa: "?w ! a = ?v ! a" and wi: "?w ! pi = ?v ! pj" and wj: "?w ! pj = ?v ! pi" and wk: "\<And>k. k \<noteq> pi \<Longrightarrow> k \<noteq> pj \<Longrightarrow> ?w ! k = ?v ! k"
    using pos by (auto simp: swapl_def nth_list_update)
  have "c (?w ! k) (?w ! a) \<le> 0" if "a < k" "k \<le> pi" for k
    using lo [of k] d pos np that wk [of k] wi wa by (cases "k = pi") auto
  moreover have "0 \<le> c (?w ! k) (?w ! a)" if "pj \<le> k" "k < n" for k
    using hi [of k] u pos np that wk [of k] wj wa by (cases "k = pj") auto
  ultimately show "split_at a n pi pj (s_swap p pi pj m)" unfolding split_at_def w by simp
qed

lemma partition_splits:
  assumes "partition_loop p a n i j m = (k, m')" and "ok m" and "a \<le> i" "i < n" "a < j" "i \<le> j" "j \<le> n" "n \<le> length (view m)" and "split_at a n i j m"
  shows "a \<le> k \<and> k < n \<and> moved (a + 1) n m m' \<and> split_at a n k (k + 1) m'"
  using assms
proof (induction j arbitrary: i m rule: less_induct)
  case (less j)
  let ?i = "scan_up p m a n i" and ?j = "scan_down p m a j"
  note u = scan_up_stops [OF less.prems(2,3,4,8) refl] and d = scan_down_stops [OF less.prems(2,5,7,8) refl]
    and st = partition_step [OF less.prems(2-9) refl refl]
  show ?case
  proof (cases "?j < ?i")
    case True
    then have "k = ?j" "m' = m" using less.prems(1) by (auto simp: partition_loop.simps [of p a n i j m])
    then show ?thesis using d less.prems st(1) [OF True] by (simp add: moved_def)
  next
    case False
    let ?m = "s_swap p ?i ?j m"
    have e: "partition_loop p a n ?i ?j ?m = (k, m')" using less.prems(1) False by (simp add: partition_loop.simps [of p a n i j m] Let_def)
    have mv: "moved (a + 1) n m ?m" using u d False less.prems by (intro moved_swap) auto
    have "a \<le> k \<and> k < n \<and> moved (a + 1) n ?m m' \<and> split_at a n k (k + 1) m'"
      using less.IH [OF _ e] u d False less.prems st(2) [OF False] mv moved_length [OF mv] by (simp add: moved_def)
    then show ?thesis using moved_trans [OF mv] by blast
  qed
qed

subsection \<open>The whole\<close>

abbreviation sorted_part :: "nat \<Rightarrow> nat \<Rightarrow> 'm \<Rightarrow> bool" where
  "sorted_part lo hi m \<equiv> sorted_wrt (\<lambda>x y. c x y \<le> 0) (seg lo hi (view m))"

text \<open>The element at \<open>k\<close> is in its place.\<close>

definition cut :: "nat \<Rightarrow> nat \<Rightarrow> nat \<Rightarrow> 'm \<Rightarrow> bool" where
  "cut a k n m \<longleftrightarrow> (\<forall>q. a \<le> q \<longrightarrow> q < k \<longrightarrow> c (view m ! q) (view m ! k) \<le> 0) \<and> (\<forall>q. k + 1 \<le> q \<longrightarrow> q < n \<longrightarrow> c (view m ! k) (view m ! q) \<le> 0)"

lemma moved_outside: "moved lo hi m m' \<Longrightarrow> k < length (view m) \<Longrightarrow> k < lo \<or> hi \<le> k \<Longrightarrow> view m' ! k = view m ! k"
  by (auto simp: moved_def perm_in_def)

lemma moved_seg:
  assumes "moved lo hi m m'" "hi' \<le> length (view m)" "hi' \<le> lo \<or> hi \<le> lo'"
  shows "seg lo' hi' (view m') = seg lo' hi' (view m)"
  using assms moved_outside [OF assms(1)] moved_length [OF assms(1)] by (auto simp: seg_map)

lemma cut_kept:
  assumes cu: "cut a k n m" and b: "a \<le> k" "k < n" "n \<le> length (view m)" and mv: "moved a k m m' \<or> moved (k + 1) n m m'"
  shows "cut a k n m'"
proof -
  have vk: "view m' ! k = view m ! k" using mv b moved_outside by fastforce
  let ?P = "\<lambda>x. c x (view m ! k) \<le> 0" and ?Q = "\<lambda>x. c (view m ! k) x \<le> 0"
  have lo: "\<forall>q. a \<le> q \<longrightarrow> q < k \<longrightarrow> ?P (view m ! q)" and hi: "\<forall>q. k + 1 \<le> q \<longrightarrow> q < n \<longrightarrow> ?Q (view m ! q)"
    using cu by (simp_all add: cut_def)
  have "(\<forall>q. a \<le> q \<longrightarrow> q < k \<longrightarrow> ?P (view m' ! q)) \<and> (\<forall>q. k + 1 \<le> q \<longrightarrow> q < n \<longrightarrow> ?Q (view m' ! q))"
    using mv
  proof
    assume "moved a k m m'"
    then show ?thesis using perm_in_all [of a k "view m" "view m'" ?P] lo hi b moved_outside by (auto simp: moved_def)
  next
    assume "moved (k + 1) n m m'"
    then show ?thesis using perm_in_all [of "k + 1" n "view m" "view m'" ?Q] lo hi b moved_outside by (auto simp: moved_def)
  qed
  then show ?thesis by (simp add: cut_def vk)
qed

lemma join_sorted:
  assumes "cut a k n m" and b: "a \<le> k" "k < n" "n \<le> length (view m)" and s: "sorted_part a k m" "sorted_part (k + 1) n m"
  shows "sorted_part a n m"
proof -
  let ?v = "view m"
  have lo: "c x (?v ! k) \<le> 0" if "x \<in> set (seg a k ?v)" for x using that assms by (auto simp: seg_set cut_def)
  have hi: "c (?v ! k) x \<le> 0" if "x \<in> set (seg (k + 1) n ?v)" for x using that assms by (auto simp: seg_set cut_def)
  show ?thesis unfolding seg_split [OF b] using s lo hi by (auto simp: sorted_wrt_append intro: trans [OF lo hi])
qed

lemma both_parts:
  assumes cu: "cut a k n m" and b: "a \<le> k" "k < n" "n \<le> length (view m)"
    and h: "moved a k m m4 \<and> sorted_part a k m4 \<and> moved (k + 1) n m4 m5 \<and> sorted_part (k + 1) n m5
      \<or> moved (k + 1) n m m4 \<and> sorted_part (k + 1) n m4 \<and> moved a k m4 m5 \<and> sorted_part a k m5"
  shows "moved a n m m5 \<and> sorted_part a n m5"
proof -
  have p4: "moved a k m m4 \<or> moved (k + 1) n m m4" and p5: "moved a k m4 m5 \<or> moved (k + 1) n m4 m5" using h by blast+
  have l4: "length (view m4) = length (view m)" and l5: "length (view m5) = length (view m)" using p4 p5 moved_length by metis+
  have "cut a k n m4" by (rule cut_kept [OF cu b p4])
  then have c5: "cut a k n m5" using cut_kept [of a k n m4 m5] b l4 p5 by simp
  have s: "sorted_part a k m5 \<and> sorted_part (k + 1) n m5"
    using h moved_seg [of "k + 1" n m4 m5 k a] moved_seg [of a k m4 m5 n "k + 1"] b l4 by auto
  have "moved a n m m4" "moved a n m4 m5" using p4 p5 b moved_wider by fastforce+
  then have "moved a n m m5" by (rule moved_trans)
  moreover have "sorted_part a n m5" using b l5 s by (intro join_sorted [OF c5]) simp_all
  ultimately show ?thesis by blast
qed

lemma pivot_range: "6 \<le> n \<Longrightarrow> a \<le> pivot p m a n \<and> pivot p m a n < a + n"
proof -
  assume "6 \<le> n"
  then have "5 * (n div 6) < n" by linarith
  then show ?thesis by (simp add: pivot_def Let_def)
qed

lemma first_cut:
  assumes ok: "ok m" and n: "1 < n" "a + n \<le> length (view m)" and pi: "a \<le> pi" "pi < a + n"
    and pl: "partition_loop p a (a + n) a (a + n) (s_swap p a pi m) = (k, m2)"
  shows "a \<le> k \<and> k < a + n \<and> moved a (a + n) m (s_swap p a k m2) \<and> cut a k (a + n) (s_swap p a k m2)"
proof -
  let ?m1 = "s_swap p a pi m" and ?m3 = "s_swap p a k m2"
  have m1: "moved a (a + n) m ?m1" using ok n pi by (intro moved_swap) auto
  have "split_at a (a + n) a (a + n) ?m1" by (simp add: split_at_def)
  then have s: "a \<le> k \<and> k < a + n \<and> moved (a + 1) (a + n) ?m1 m2 \<and> split_at a (a + n) k (k + 1) m2"
    using partition_splits [OF pl] m1 n moved_length [OF m1] by (simp add: moved_def)
  then have m2: "moved a (a + n) m m2" using moved_trans [OF m1 moved_wider [of "a + 1" "a + n"]] by simp
  then have l: "length (view m2) = length (view m)" and ok2: "ok m2" by (simp_all add: moved_length) (simp add: moved_def)
  have m3: "moved a (a + n) m2 ?m3" using s n l ok2 by (intro moved_swap) auto
  have v: "view ?m3 = swapl a k (view m2)" using swap ok2 s n l by simp
  have vk: "view ?m3 ! k = view m2 ! a" "view ?m3 ! a = view m2 ! k" "\<And>q. q \<noteq> a \<Longrightarrow> q \<noteq> k \<Longrightarrow> view ?m3 ! q = view m2 ! q"
    using s n l unfolding v by (auto simp: swapl_def nth_list_update)
  have "c (view ?m3 ! q) (view ?m3 ! k) \<le> 0" if "a \<le> q" "q < k" for q
    using s that vk by (cases "q = a") (auto simp: split_at_def)
  moreover have "c (view ?m3 ! k) (view ?m3 ! q) \<le> 0" if "k + 1 \<le> q" "q < a + n" for q
    using s that vk(1) vk(3) [of q] by (auto simp: split_at_def c_flip)
  ultimately show ?thesis using s moved_trans [OF m2 m3] by (simp add: cut_def)
qed

lemma qsorts_sorts:
  assumes "ok m" and "a + n \<le> length (view m)"
  shows "moved a (a + n) m (qsorts p a n m) \<and> sorted_part a (a + n) (qsorts p a n m)"
  using assms
proof (induction n arbitrary: a m rule: less_induct)
  case (less n)
  show ?case
  proof (cases "1 < n")
    case False
    then have "length (seg a (a + n) (view m)) \<le> 1" by (simp add: seg_def)
    then have "sorted_part a (a + n) m" by (cases "seg a (a + n) (view m)") auto
    then show ?thesis using False less.prems by (simp add: qsorts.simps [of p a n m] moved_def)
  next
    case True
    define pi where "pi = (if n > 10 then pivot p m a n else a + n div 2)"
    have pi: "a \<le> pi" "pi < a + n" using True pivot_range [of n a m] by (auto simp: pi_def)
    obtain k m2 where pl: "partition_loop p a (a + n) a (a + n) (s_swap p a pi m) = (k, m2)" by fastforce
    define m3 where "m3 = s_swap p a k m2"
    have f: "a \<le> k" "k < a + n" "moved a (a + n) m m3" "cut a k (a + n) m3"
      using first_cut [OF less.prems(1) True less.prems(2) pi pl] by (simp_all add: m3_def)
    have ok3: "ok m3" and l3: "length (view m3) = length (view m)" using f(3) by (simp_all add: moved_length) (simp add: moved_def)
    define j n' where "j = k - a" and "n' = n - j - 1"
    have jn: "j < n" "n' < n" "a + j = k" "a + j + 1 + n' = a + n" using f True by (auto simp: j_def n'_def)
    have q: "qsorts p a n m = (if j \<ge> n' then qsorts p (a + j + 1) n' (qsorts p a j m3) else qsorts p a j (qsorts p (a + j + 1) n' m3))"
      using True pl unfolding qsorts.simps [of p a n m] Let_def pi_def [symmetric]
      by (simp only: prod.case m3_def [symmetric] j_def [symmetric] n'_def [symmetric] if_True)
    have A: "moved a k x (qsorts p a j x) \<and> sorted_part a k (qsorts p a j x)" if "ok x" "length (view x) = length (view m)" for x
      using less.IH [OF jn(1) that(1), of a] jn less.prems that by simp
    have B: "moved (k + 1) (a + n) x (qsorts p (a + j + 1) n' x) \<and> sorted_part (k + 1) (a + n) (qsorts p (a + j + 1) n' x)"
      if "ok x" "length (view x) = length (view m)" for x
      using less.IH [OF jn(2) that(1), of "a + j + 1"] jn less.prems that by simp
    have "moved a (a + n) m3 (qsorts p a n m) \<and> sorted_part a (a + n) (qsorts p a n m)"
    proof (cases "j \<ge> n'")
      case True
      let ?m4 = "qsorts p a j m3"
      have m4: "moved a k m3 ?m4 \<and> sorted_part a k ?m4" using A [OF ok3 l3] .
      then have "ok ?m4" "length (view ?m4) = length (view m)" using l3 moved_length [of a k m3 ?m4] by (simp_all add: moved_def)
      from B [OF this] m4 show ?thesis using True q less.prems l3 by (intro both_parts [OF f(4,1,2)]) auto
    next
      case False
      let ?m4 = "qsorts p (a + j + 1) n' m3"
      have m4: "moved (k + 1) (a + n) m3 ?m4 \<and> sorted_part (k + 1) (a + n) ?m4" using B [OF ok3 l3] .
      then have "ok ?m4" "length (view ?m4) = length (view m)" using l3 moved_length [of "k + 1" "a + n" m3 ?m4] by (simp_all add: moved_def)
      from A [OF this] m4 show ?thesis using False q less.prems l3 by (intro both_parts [OF f(4,1,2)]) auto
    qed
    then show ?thesis using moved_trans [OF f(3)] by blast
  qed
qed

end

end
