(* ===== verification/Qsort_Mem.thy ===== *)
theory Qsort_Mem
  imports Qsort Bits
begin

text \<open>
  \<^verbatim>\<open>qsort\<close> on memory: the array begins at the address \<open>va\<close> and its elements are \<open>es\<close> bytes long. The
  comparison function is a parameter; it is given the bytes of the two elements. \<^verbatim>\<open>swapb\<close> is called with
  a positive size and \<^verbatim>\<open>swapi\<close> with a positive multiple of 4, the size of a \<^verbatim>\<open>long\<close>.
\<close>

section \<open>The code\<close>

function swapb :: "nat \<Rightarrow> nat \<Rightarrow> nat \<Rightarrow> bytes \<Rightarrow> bytes" where
  "swapb i j es m =
     (let c = rd m i;
          m = poke m i [rd m j];
          m = poke m j [c];
          es = es - 1
      in if es \<noteq> 0 then swapb (i + 1) (j + 1) es m else m)"
  by pat_completeness auto
termination by (relation "measure (\<lambda>(i, j, es, m). es)") auto

definition rd4 :: "bytes \<Rightarrow> nat \<Rightarrow> bytes" where
  "rd4 m i = [rd m i, rd m (i + 1), rd m (i + 2), rd m (i + 3)]"

function swapi :: "nat \<Rightarrow> nat \<Rightarrow> nat \<Rightarrow> bytes \<Rightarrow> bytes" where
  "swapi i j es m =
     (let c = rd4 m i;
          m = poke m i (rd4 m j);
          m = poke m j c;
          es = es - 4
      in if es \<noteq> 0 then swapi (i + 4) (j + 4) es m else m)"
  by pat_completeness auto
termination by (relation "measure (\<lambda>(i, j, es, m). es)") auto

declare swapb.simps [simp del] swapi.simps [simp del]

definition elem :: "nat \<Rightarrow> nat \<Rightarrow> nat \<Rightarrow> bytes \<Rightarrow> bytes" where
  "elem va es k m = take es (drop (va + k * es) m)"

definition qsort_struct :: "nat \<Rightarrow> nat \<Rightarrow> (bytes \<Rightarrow> bytes \<Rightarrow> int) \<Rightarrow> bytes sort" where
  "qsort_struct va es cmp =
     (let s = \<lparr>s_cmp = (\<lambda>m i j. cmp (elem va es i m) (elem va es j m)), s_swap = (\<lambda>i j. swapi (va + i * es) (va + j * es) es)\<rparr>
      in if (va OR es) mod 4 \<noteq> 0 then s\<lparr>s_swap := (\<lambda>i j. swapb (va + i * es) (va + j * es) es)\<rparr> else s)"

definition qsort :: "nat \<Rightarrow> int \<Rightarrow> nat \<Rightarrow> (bytes \<Rightarrow> bytes \<Rightarrow> int) \<Rightarrow> bytes \<Rightarrow> bytes" where
  "qsort va n es cmp m = qsorts (qsort_struct va es cmp) 0 (nat n) m"

section \<open>Exchanging two elements\<close>

definition swapped :: "nat \<Rightarrow> nat \<Rightarrow> nat \<Rightarrow> bytes \<Rightarrow> bytes \<Rightarrow> bool" where
  "swapped i j es m m' \<longleftrightarrow> length m' = length m \<and> (\<forall>k < length m. m' ! k =
     (if i \<le> k \<and> k < i + es then m ! (j + (k - i)) else if j \<le> k \<and> k < j + es then m ! (i + (k - j)) else m ! k))"

text \<open>Exchanging the first \<open>d\<close> bytes and then the rest.\<close>

lemma swapped_join:
  assumes a: "swapped i j d m m1" and b: "swapped (i + d) (j + d) es m1 m'" and dis: "i = j \<or> i + (d + es) \<le> j \<or> j + (d + es) \<le> i"
    and bnd: "i + (d + es) \<le> length m" "j + (d + es) \<le> length m"
  shows "swapped i j (d + es) m m'"
proof -
  have l: "length m1 = length m" "length m' = length m" using a b by (simp_all add: swapped_def)
  have e1: "m1 ! k = (if i \<le> k \<and> k < i + d then m ! (j + (k - i)) else if j \<le> k \<and> k < j + d then m ! (i + (k - j)) else m ! k)"
    if "k < length m" for k using a that by (simp add: swapped_def)
  have "m' ! k = (if i \<le> k \<and> k < i + (d + es) then m ! (j + (k - i)) else if j \<le> k \<and> k < j + (d + es) then m ! (i + (k - j)) else m ! k)"
    if k: "k < length m" for k
  proof -
    have e2: "m' ! k = (if i + d \<le> k \<and> k < i + d + es then m1 ! (j + d + (k - (i + d))) else if j + d \<le> k \<and> k < j + d + es then m1 ! (i + d + (k - (j + d))) else m1 ! k)"
      using b k l by (simp add: swapped_def)
    consider "i + d \<le> k \<and> k < i + d + es" | "\<not> (i + d \<le> k \<and> k < i + d + es)" "j + d \<le> k \<and> k < j + d + es"
      | "\<not> (i + d \<le> k \<and> k < i + d + es)" "\<not> (j + d \<le> k \<and> k < j + d + es)" by blast
    then show ?thesis
    proof cases
      case 1
      have q: "j + d + (k - (i + d)) = j + (k - i)" "j + (k - i) < length m" using 1 bnd by auto
      have "m1 ! (j + (k - i)) = m ! (j + (k - i))" using e1 [OF q(2)] dis 1 by auto
      then show ?thesis using e2 1 q by auto
    next
      case 2
      have q: "i + d + (k - (j + d)) = i + (k - j)" "i + (k - j) < length m" using 2 bnd by auto
      have "m1 ! (i + (k - j)) = m ! (i + (k - j))" using e1 [OF q(2)] dis 2 by auto
      then show ?thesis using e2 2 q dis by auto
    next
      case 3
      then show ?thesis using e2 e1 [OF k] dis by auto
    qed
  qed
  then show ?thesis using l by (simp add: swapped_def)
qed

lemma swapped_pokes:
  assumes dis: "i = j \<or> i + d \<le> j \<or> j + d \<le> i" and bnd: "i + d \<le> length m" "j + d \<le> length m"
  shows "swapped i j d m (poke (poke m i (map (\<lambda>q. rd m (j + q)) [0 ..< d])) j (map (\<lambda>q. rd m (i + q)) [0 ..< d]))"
proof -
  let ?y = "map (\<lambda>q. rd m (j + q)) [0 ..< d]" and ?x = "map (\<lambda>q. rd m (i + q)) [0 ..< d]"
  have x: "?x ! (k - j) = m ! (i + (k - j))" if "j \<le> k" "k < j + d" for k
    using that bnd by (simp add: rd_def) linarith
  have y: "?y ! (k - i) = m ! (j + (k - i))" if "i \<le> k" "k < i + d" for k
    using that bnd by (simp add: rd_def) linarith
  have "poke (poke m i ?y) j ?x ! k
      = (if i \<le> k \<and> k < i + d then m ! (j + (k - i)) else if j \<le> k \<and> k < j + d then m ! (i + (k - j)) else m ! k)" if k: "k < length m" for k
  proof -
    have "poke (poke m i ?y) j ?x ! k = (if j \<le> k \<and> k < j + d then ?x ! (k - j) else if i \<le> k \<and> k < i + d then ?y ! (k - i) else m ! k)"
      using bnd k by (simp add: nth_poke)
    then show ?thesis using x [of k] y [of k] dis by auto
  qed
  then show ?thesis using bnd by (simp add: swapped_def)
qed

lemma swapb_swaps:
  assumes "0 < es" and "i = j \<or> i + es \<le> j \<or> j + es \<le> i" and "i + es \<le> length m" "j + es \<le> length m"
  shows "swapped i j es m (swapb i j es m)"
  using assms
proof (induction i j es m rule: swapb.induct)
  case (1 i j es m)
  define m1 where "m1 = poke (poke m i [rd m j]) j [rd m i]"
  have s1: "swapped i j 1 m m1" using swapped_pokes [of i j 1 m] 1(2-5) by (auto simp: m1_def)
  then have l: "length m1 = length m" by (simp add: swapped_def)
  have e: "swapb i j es m = (if es - 1 \<noteq> 0 then swapb (i + 1) (j + 1) (es - 1) m1 else m1)"
    by (subst swapb.simps) (simp add: Let_def m1_def)
  show ?case
  proof (cases "es = 1")
    case True
    then show ?thesis using s1 e by simp
  next
    case False
    then have "swapped (i + 1) (j + 1) (es - 1) m1 (swapb (i + 1) (j + 1) (es - 1) m1)"
      using 1(1) [OF refl refl refl refl, folded m1_def] 1(2-5) l by (auto simp: m1_def)
    then show ?thesis using swapped_join [OF s1, of "es - 1"] e False 1(2-5) by simp
  qed
qed

lemma swapi_swaps:
  assumes "0 < es" and "es mod 4 = 0" and "i = j \<or> i + es \<le> j \<or> j + es \<le> i" and "i + es \<le> length m" "j + es \<le> length m"
  shows "swapped i j es m (swapi i j es m)"
  using assms
proof (induction i j es m rule: swapi.induct)
  case (1 i j es m)
  have es: "4 \<le> es" using 1(2,3) by (cases "es < 4") auto
  define m1 where "m1 = poke (poke m i (rd4 m j)) j (rd4 m i)"
  have r: "rd4 m q = map (\<lambda>k. rd m (q + k)) [0 ..< 4]" for q by (simp add: rd4_def upt_rec numeral_eq_Suc)
  have s1: "swapped i j 4 m m1" using swapped_pokes [of i j 4 m] 1(4-6) es unfolding m1_def r by auto
  then have l: "length m1 = length m" by (simp add: swapped_def)
  have e: "swapi i j es m = (if es - 4 \<noteq> 0 then swapi (i + 4) (j + 4) (es - 4) m1 else m1)"
    by (subst swapi.simps) (simp add: Let_def m1_def)
  show ?case
  proof (cases "es = 4")
    case True
    then show ?thesis using s1 e by simp
  next
    case False
    have "swapped (i + 4) (j + 4) (es - 4) m1 (swapi (i + 4) (j + 4) (es - 4) m1)"
      using 1(1) [OF refl refl refl refl, folded m1_def] 1(2-6) l es False by (auto simp: mod_if)
    then show ?thesis using swapped_join [OF s1, of "es - 4"] e False 1(4-6) es by simp
  qed
qed

section \<open>The memory as a list of elements\<close>

definition elems :: "nat \<Rightarrow> nat \<Rightarrow> nat \<Rightarrow> bytes \<Rightarrow> bytes list" where
  "elems va es n m = map (\<lambda>k. elem va es k m) [0 ..< n]"

definition outside :: "nat \<Rightarrow> nat \<Rightarrow> nat \<Rightarrow> bytes \<Rightarrow> bytes \<times> bytes" where
  "outside va es n m = (take va m, drop (va + n * es) m)"

lemma length_elems [simp]: "length (elems va es n m) = n"
  by (simp add: elems_def)

lemma nth_elems [simp]: "k < n \<Longrightarrow> elems va es n m ! k = elem va es k m"
  by (simp add: elems_def)

lemma in_elem: "t < es \<Longrightarrow> i * es \<le> k * es + t \<and> k * es + t < i * es + es \<longleftrightarrow> k = i" for t es i k :: nat
proof
  assume t: "t < es" and h: "i * es \<le> k * es + t \<and> k * es + t < i * es + es"
  have "(k * es + t) div es = k" using t by simp
  moreover have "(k * es + t) div es = i" using h t by (intro div_nat_eqI) (simp_all add: algebra_simps)
  ultimately show "k = i" by simp
qed simp

lemma elem_end: "k < n \<Longrightarrow> k * es + es \<le> n * es" for k n es :: nat
  using mult_le_mono1 [of "k + 1" n es] by simp

lemma elems_swapped:
  assumes s: "swapped (va + i * es) (va + j * es) es m m'" and ij: "i < n" "j < n" and b: "va + n * es \<le> length m"
  shows "elems va es n m' = swapl i j (elems va es n m)" "outside va es n m' = outside va es n m"
proof -
  have l: "length m' = length m" using s by (simp add: swapped_def)
  have at: "m' ! (va + k * es + t) = m ! (va + (if k = i then j else if k = j then i else k) * es + t)" if k: "k < n" "t < es" for k t
  proof -
    have "va + k * es + t < length m" using elem_end [OF k(1), of es] k(2) b by linarith
    then show ?thesis using s in_elem [OF k(2), of i k] in_elem [OF k(2), of j k] unfolding swapped_def by auto
  qed
  have ln: "length (elem va es k x) = es" if "k < n" "length x = length m" for k x
    using elem_end [OF that(1), of es] that(2) b by (simp add: elem_def)
  have el: "elem va es k m' = elem va es (if k = i then j else if k = j then i else k) m" if k: "k < n" for k
  proof (rule nth_equalityI)
    show "length (elem va es k m') = length (elem va es (if k = i then j else if k = j then i else k) m)"
      using k ij l by (simp add: ln)
    fix t assume "t < length (elem va es k m')"
    then have t: "t < es" using ln [OF k l] by simp
    have "elem va es q x ! t = x ! (va + q * es + t)" if "q < n" "length x = length m" for q x
      using elem_end [OF that(1), of es] that(2) b t by (simp add: elem_def)
    then show "elem va es k m' ! t = elem va es (if k = i then j else if k = j then i else k) m ! t"
      using at [OF k t] k ij l by auto
  qed
  show "elems va es n m' = swapl i j (elems va es n m)"
    using el ij by (intro nth_equalityI) (auto simp: swapl_def nth_list_update)
  have "m' ! q = m ! q" if q: "q < length m" "q < va \<or> va + n * es \<le> q" for q
    using s q elem_end [OF ij(1), of es] elem_end [OF ij(2), of es] unfolding swapped_def by auto
  then show "outside va es n m' = outside va es n m" using l b by (auto simp: outside_def intro!: nth_equalityI)
qed

lemma or_mod4: "(a OR b) mod 4 = 0 \<Longrightarrow> b mod 4 = 0" for a b :: nat
proof -
  assume "(a OR b) mod 4 = 0"
  then have "take_bit 2 (a OR b) = 0" by (simp add: take_bit_eq_mod)
  then have "take_bit 2 b = 0" by (simp add: take_bit_or or_eq_0_iff)
  then show ?thesis by (simp add: take_bit_eq_mod)
qed

lemma qsort_swaps:
  assumes e: "0 < es" and ij: "i < n" "j < n" and b: "va + n * es \<le> length m"
  shows "swapped (va + i * es) (va + j * es) es m (s_swap (qsort_struct va es cmp) i j m)"
proof -
  have d: "va + i * es = va + j * es \<or> va + i * es + es \<le> va + j * es \<or> va + j * es + es \<le> va + i * es"
    using elem_end [of i j es] elem_end [of j i es] by (cases i j rule: linorder_cases) auto
  have l: "va + i * es + es \<le> length m" "va + j * es + es \<le> length m" using elem_end [OF ij(1), of es] elem_end [OF ij(2), of es] b by linarith+
  show ?thesis
  proof (cases "(va OR es) mod 4 = 0")
    case True
    then show ?thesis using swapi_swaps [OF e or_mod4 d l] by (simp add: qsort_struct_def)
  next
    case False
    then show ?thesis using swapb_swaps [OF e d l] by (simp add: qsort_struct_def)
  qed
qed

section \<open>The interface holds\<close>

locale byte_array =
  fixes va es n :: nat and c :: "bytes \<Rightarrow> bytes \<Rightarrow> int"
  assumes es: "0 < es"
    and c_antisym: "c x y < 0 \<longleftrightarrow> 0 < c y x"
    and c_trans: "c x y \<le> 0 \<Longrightarrow> c y z \<le> 0 \<Longrightarrow> c x z \<le> 0"
begin

lemma total: "c x y \<le> 0 \<or> c y x \<le> 0"
  using c_antisym [of y x] by linarith

end

sublocale byte_array \<subseteq> arr: sorting "qsort_struct va es c" "elems va es n" "outside va es n" c "\<lambda>m. va + n * es \<le> length m"
proof
  fix m i j
  assume m: "va + n * es \<le> length m" and i: "i < length (elems va es n m)" and j: "j < length (elems va es n m)"
  have ij: "i < n" "j < n" using i j by simp_all
  note s = qsort_swaps [OF es ij m, of c]
  show "s_cmp (qsort_struct va es c) m i j = c (elems va es n m ! i) (elems va es n m ! j)" using ij by (simp add: qsort_struct_def Let_def)
  show "elems va es n (s_swap (qsort_struct va es c) i j m) = swapl i j (elems va es n m)" by (rule elems_swapped(1) [OF s ij m])
  show "outside va es n (s_swap (qsort_struct va es c) i j m) = outside va es n m \<and> va + n * es \<le> length (s_swap (qsort_struct va es c) i j m)"
    using elems_swapped(2) [OF s ij m] s m by (simp add: swapped_def)
qed (use c_antisym c_trans in blast)+

context byte_array
begin

lemma sorts:
  assumes "va + n * es \<le> length m"
  shows "sorted_wrt (\<lambda>x y. c x y \<le> 0) (elems va es n (qsort va (int n) es c m))
    \<and> mset (elems va es n (qsort va (int n) es c m)) = mset (elems va es n m)
    \<and> outside va es n (qsort va (int n) es c m) = outside va es n m"
proof -
  have "seg 0 n (elems va es n x) = elems va es n x" for x by (simp add: seg_def)
  then show ?thesis using arr.qsorts_sorts [of m 0 n] assms by (simp add: qsort_def arr.moved_def perm_in_def)
qed

end

text \<open>Numbers of four bytes, the least significant one first.\<close>

definition long_cmp :: "bytes \<Rightarrow> bytes \<Rightarrow> int" where
  "long_cmp x y = sgn (uint (GBIT32 x 0) - uint (GBIT32 y 0))"

interpretation longs: byte_array 8 4 3 long_cmp
  by unfold_locales (auto simp: long_cmp_def sgn_if split: if_splits)

section \<open>The property\<close>

text \<open>
  C35: for every element size and every comparison function that is a total preorder, \<open>qsort\<close> returns,
  the array is then sorted, holds the same elements as before, and no byte outside it has changed.
\<close>

theorem qsort_sorts:
  assumes "0 < es" and "\<forall>x y. cmp x y < 0 \<longleftrightarrow> 0 < cmp y x" and "\<forall>x y z. cmp x y \<le> 0 \<longrightarrow> cmp y z \<le> 0 \<longrightarrow> cmp x z \<le> 0"
    and "va + nat n * es \<le> length m"
  shows "sorted_wrt (\<lambda>x y. cmp x y \<le> 0) (elems va es (nat n) (qsort va n es cmp m))
    \<and> mset (elems va es (nat n) (qsort va n es cmp m)) = mset (elems va es (nat n) m)
    \<and> outside va es (nat n) (qsort va n es cmp m) = outside va es (nat n) m"
proof -
  have "byte_array es cmp" using assms(1-3) by (simp add: byte_array_def)
  moreover have e: "qsort va (int (nat n)) es cmp m = qsort va n es cmp m" by (simp add: qsort_def del: int_nat_eq)
  ultimately show ?thesis using byte_array.sorts [OF _ assms(4), of cmp] unfolding e by blast
qed

theorem qsort_sorts_witness:
  "sorted_wrt (\<lambda>x y. long_cmp x y \<le> 0) (elems 2 4 (nat 2) (qsort 2 2 4 long_cmp [9, 9, 7, 0, 0, 0, 5, 0, 0, 0]))
    \<and> mset (elems 2 4 (nat 2) (qsort 2 2 4 long_cmp [9, 9, 7, 0, 0, 0, 5, 0, 0, 0])) = mset (elems 2 4 (nat 2) [9, 9, 7, 0, 0, 0, 5, 0, 0, 0])
    \<and> outside 2 4 (nat 2) (qsort 2 2 4 long_cmp [9, 9, 7, 0, 0, 0, 5, 0, 0, 0]) = outside 2 4 (nat 2) [9, 9, 7, 0, 0, 0, 5, 0, 0, 0]"
proof (rule qsort_sorts)
  show "\<forall>x y. long_cmp x y < 0 \<longleftrightarrow> 0 < long_cmp y x" by (auto simp: long_cmp_def sgn_if)
  show "\<forall>x y z. long_cmp x y \<le> 0 \<longrightarrow> long_cmp y z \<le> 0 \<longrightarrow> long_cmp x z \<le> 0" by (auto simp: long_cmp_def sgn_if split: if_splits)
qed simp_all

end
