(* ===== verification/Encode.thy ===== *)
theory Encode
  imports Cstring
begin

text \<open>
  Binary data as text, in base 16, 32 and 64: \<^verbatim>\<open>u16.c\<close>, \<^verbatim>\<open>u32.c\<close> and \<^verbatim>\<open>u64.c\<close> of \<^verbatim>\<open>lib_core/libc/port\<close>. Each function
  takes the destination buffer and its size, the source and its length, and returns the buffer
  and the number of bytes stored, which is the difference of pointers that the C function returns.
\<close>

text \<open>The \<open>n\<close> bytes at the start of the source.\<close>

definition source :: "bytes \<Rightarrow> int \<Rightarrow> bytes" where
  "source m n = map (rd m) [0 ..< nat n]"

section \<open>Base 16\<close>

definition t16e :: bytes where
  "t16e = [0x30, 0x31, 0x32, 0x33, 0x34, 0x35, 0x36, 0x37, 0x38, 0x39, 0x41, 0x42, 0x43, 0x44, 0x45, 0x46]"

definition hexval :: "uchar \<Rightarrow> int option" where
  "hexval b = (let c = uint b in
     if 0x30 \<le> c \<and> c \<le> 0x39 then Some (c - 0x30)
     else if 0x61 \<le> c \<and> c \<le> 0x7A then Some (c - 0x61 + 10)
     else if 0x41 \<le> c \<and> c \<le> 0x5A then Some (c - 0x41 + 10)
     else None)"

fun dec16_loop :: "int \<Rightarrow> bytes \<Rightarrow> int \<Rightarrow> nat \<Rightarrow> bytes \<Rightarrow> nat \<Rightarrow> bytes \<times> nat" where
  "dec16_loop lim [] w i out pos = (out, pos)"
| "dec16_loop lim (b # src) w i out pos =
     (case hexval b of
        None \<Rightarrow> dec16_loop lim src w i out pos
      | Some c \<Rightarrow>
          let w = w * 16 + c; i = i + 1 in
          if i = 2 then
            if int pos + 1 > lim then (out, pos)
            else dec16_loop lim src 0 0 (poke out pos [word_of_int w]) (pos + 1)
          else dec16_loop lim src w i out pos)"

definition dec16 :: "bytes \<Rightarrow> int \<Rightarrow> bytes \<Rightarrow> int \<Rightarrow> bytes \<times> nat" where
  "dec16 out lim src n = dec16_loop lim (source src n) 0 0 out 0"

fun enc16_loop :: "int \<Rightarrow> bytes \<Rightarrow> bytes \<Rightarrow> nat \<Rightarrow> bytes \<times> nat" where
  "enc16_loop lim [] out pos = (out, pos)"
| "enc16_loop lim (c # src) out pos =
     (if int pos + 2 \<ge> lim then (out, pos)
      else enc16_loop lim src (poke out pos [t16e ! unat (drop_bit 4 c), t16e ! unat (c AND 0xF)]) (pos + 2))"

definition enc16 :: "bytes \<Rightarrow> int \<Rightarrow> bytes \<Rightarrow> int \<Rightarrow> bytes \<times> nat" where
  "enc16 out lim src n = (let (out, pos) = enc16_loop lim (source src n) out 0 in (poke out pos [0], pos))"

section \<open>Base 64\<close>

text \<open>\<^verbatim>\<open>t64e\<close>, and \<^verbatim>\<open>t64d\<close>, whose entries are 255 for the characters that are not digits.\<close>

definition t64e :: bytes where
  "t64e = [0x41, 0x42, 0x43, 0x44, 0x45, 0x46, 0x47, 0x48, 0x49, 0x4A, 0x4B, 0x4C, 0x4D, 0x4E, 0x4F, 0x50,
           0x51, 0x52, 0x53, 0x54, 0x55, 0x56, 0x57, 0x58, 0x59, 0x5A, 0x61, 0x62, 0x63, 0x64, 0x65, 0x66,
           0x67, 0x68, 0x69, 0x6A, 0x6B, 0x6C, 0x6D, 0x6E, 0x6F, 0x70, 0x71, 0x72, 0x73, 0x74, 0x75, 0x76,
           0x77, 0x78, 0x79, 0x7A, 0x30, 0x31, 0x32, 0x33, 0x34, 0x35, 0x36, 0x37, 0x38, 0x39, 0x2B, 0x2F]"

definition t64d :: "uchar \<Rightarrow> nat" where
  "t64d b = (replicate 43 255 @ [62, 255, 255, 255, 63, 52, 53, 54, 55, 56, 57, 58, 59, 60, 61]
     @ replicate 7 255 @ [0 ..< 26] @ replicate 6 255 @ [26 ..< 52] @ replicate 133 255) ! unat b"

fun dec64_loop :: "int \<Rightarrow> bytes \<Rightarrow> uint \<Rightarrow> nat \<Rightarrow> bytes \<Rightarrow> nat \<Rightarrow> bytes \<times> nat" where
  "dec64_loop lim [] b24 i out pos =
     (if i = 2 then
        if int pos + 1 > lim then (out, pos)
        else (poke out pos [ucast (drop_bit 16 b24)], pos + 1)
      else if i = 3 then
        if int pos + 2 > lim then (out, pos)
        else (poke out pos [ucast (drop_bit 16 b24), ucast (drop_bit 8 b24)], pos + 2)
      else (out, pos))"
| "dec64_loop lim (b # src) b24 i out pos =
     (let c = t64d b in
      if c = 255 then dec64_loop lim src b24 i out pos
      else if i = 0 then dec64_loop lim src (push_bit 18 (of_nat c)) 1 out pos
      else if i = 1 then dec64_loop lim src (b24 OR push_bit 12 (of_nat c)) 2 out pos
      else if i = 2 then dec64_loop lim src (b24 OR push_bit 6 (of_nat c)) 3 out pos
      else if int pos + 3 > lim then (out, pos)
      else
        let b24 = b24 OR of_nat c
        in dec64_loop lim src b24 0 (poke out pos [ucast (drop_bit 16 b24), ucast (drop_bit 8 b24), ucast b24]) (pos + 3))"

definition dec64 :: "bytes \<Rightarrow> int \<Rightarrow> bytes \<Rightarrow> int \<Rightarrow> bytes \<times> nat" where
  "dec64 out lim src n = dec64_loop lim (source src n) 0 0 out 0"

definition e64 :: "uint \<Rightarrow> nat \<Rightarrow> uchar" where
  "e64 b24 k = t64e ! unat (drop_bit k b24 AND 0x3F)"

text \<open>The loop over the groups of three bytes, and the switch for what is left.\<close>

fun enc64_loop :: "int \<Rightarrow> bytes \<Rightarrow> bytes \<Rightarrow> nat \<Rightarrow> bytes \<times> nat" where
  "enc64_loop lim (x # y # z # src) out pos =
     (let b24 = push_bit 16 (ucast x) OR push_bit 8 (ucast y) OR ucast z in
      if int pos + 4 \<ge> lim then (out, pos)
      else enc64_loop lim src (poke out pos [t64e ! unat (drop_bit 18 b24), e64 b24 12, e64 b24 6, e64 b24 0]) (pos + 4))"
| "enc64_loop lim [x, y] out pos =
     (let b24 = push_bit 16 (ucast x) OR push_bit 8 (ucast y) in
      if int pos + 4 \<ge> lim then (out, pos)
      else (poke out pos [t64e ! unat (drop_bit 18 b24), e64 b24 12, e64 b24 6, 0x3D], pos + 4))"
| "enc64_loop lim [x] out pos =
     (let b24 = push_bit 16 (ucast x) in
      if int pos + 4 \<ge> lim then (out, pos)
      else (poke out pos [t64e ! unat (drop_bit 18 b24), e64 b24 12, 0x3D, 0x3D], pos + 4))"
| "enc64_loop lim [] out pos = (out, pos)"

definition enc64 :: "bytes \<Rightarrow> int \<Rightarrow> bytes \<Rightarrow> int \<Rightarrow> bytes \<times> nat" where
  "enc64 out lim src n = (let (out, pos) = enc64_loop lim (source src n) out 0 in (poke out pos [0], pos))"

section \<open>Base 32\<close>

definition tab32 :: bytes where
  "tab32 = [0x32, 0x33, 0x34, 0x35, 0x36, 0x37, 0x38, 0x39, 0x61, 0x62, 0x63, 0x64, 0x65, 0x66, 0x67, 0x68,
            0x69, 0x6A, 0x6B, 0x6D, 0x6E, 0x70, 0x71, 0x72, 0x73, 0x74, 0x75, 0x76, 0x77, 0x78, 0x79, 0x7A]"

definition val32 :: "uchar \<Rightarrow> uint" where
  "val32 c = (case strchr tab32 0 (sint c) of Some s \<Rightarrow> of_nat s | None \<Rightarrow> 0)"

text \<open>The bytes made from the digits \<open>u\<close>.\<close>

definition d32 :: "nat \<Rightarrow> uint list \<Rightarrow> uchar" where
  "d32 k u = ucast (if k = 0 then push_bit 3 (u ! 0) OR (7 AND drop_bit 2 (u ! 1))
     else if k = 1 then push_bit 6 (3 AND u ! 1) OR push_bit 1 (u ! 2) OR (1 AND drop_bit 4 (u ! 3))
     else if k = 2 then push_bit 4 (15 AND u ! 3) OR (15 AND drop_bit 1 (u ! 4))
     else if k = 3 then push_bit 7 (1 AND u ! 4) OR push_bit 2 (u ! 5) OR (3 AND drop_bit 3 (u ! 6))
     else push_bit 5 (7 AND u ! 6) OR u ! 7)"

text \<open>The result is \<open>None\<close> where the function returns -1, after it has stored the whole groups.\<close>

fun dec32_loop :: "bytes \<Rightarrow> bytes \<Rightarrow> nat \<Rightarrow> nat option \<times> bytes" where
  "dec32_loop (a # b # c # d # e # f # g # h # src) dest pos =
     (let u = map val32 [a, b, c, d, e, f, g, h]
      in dec32_loop src (poke dest pos [d32 0 u, d32 1 u, d32 2 u, d32 3 u, d32 4 u]) (pos + 5))"
| "dec32_loop src dest pos =
     (let nsrc = length src; u = map val32 src in
      if nsrc = 0 then (Some pos, dest)
      else if nsrc = 1 \<or> nsrc = 3 \<or> nsrc = 6 then (None, dest)
      else
        let dest = poke dest pos [d32 0 u] in
        if nsrc = 2 then (Some (pos + 1), dest)
        else
          let dest = poke dest (pos + 1) [d32 1 u] in
          if nsrc = 4 then (Some (pos + 2), dest)
          else
            let dest = poke dest (pos + 2) [d32 2 u] in
            if nsrc = 5 then (Some (pos + 3), dest)
            else (Some (pos + 4), poke dest (pos + 3) [d32 3 u]))"

definition dec32 :: "bytes \<Rightarrow> int \<Rightarrow> bytes \<Rightarrow> int \<Rightarrow> nat option \<times> bytes" where
  "dec32 dest ndest src nsrc =
     (if ndest + 1 < (5 * nsrc + 7) div 8 then (None, dest) else dec32_loop (source src nsrc) dest 0)"

definition e32 :: "uchar \<Rightarrow> uchar" where
  "e32 j = tab32 ! unat j"

fun enc32_loop :: "bytes \<Rightarrow> bytes \<Rightarrow> nat \<Rightarrow> bytes \<times> nat" where
  "enc32_loop (a # b # c # d # e # src) dest pos =
     enc32_loop src (poke dest pos
       [e32 (0x1F AND drop_bit 3 a), e32 ((0x1C AND push_bit 2 a) OR (3 AND drop_bit 6 b)),
        e32 (0x1F AND drop_bit 1 b), e32 ((0x10 AND push_bit 4 b) OR (0xF AND drop_bit 4 c)),
        e32 ((0x1E AND push_bit 1 c) OR (1 AND drop_bit 7 d)), e32 (0x1F AND drop_bit 2 d),
        e32 ((0x18 AND push_bit 3 d) OR (7 AND drop_bit 5 e)), e32 (0x1F AND e)]) (pos + 8)"
| "enc32_loop [] dest pos = (dest, pos)"
| "enc32_loop [a] dest pos = (poke dest pos [e32 (0x1F AND drop_bit 3 a), e32 (0x1C AND push_bit 2 a)], pos + 2)"
| "enc32_loop [a, b] dest pos = (poke dest pos [e32 (0x1F AND drop_bit 3 a), e32 ((0x1C AND push_bit 2 a) OR (3 AND drop_bit 6 b)),
     e32 (0x1F AND drop_bit 1 b)], pos + 3)"
| "enc32_loop [a, b, c] dest pos = (poke dest pos [e32 (0x1F AND drop_bit 3 a), e32 ((0x1C AND push_bit 2 a) OR (3 AND drop_bit 6 b)),
     e32 (0x1F AND drop_bit 1 b), e32 (0x10 AND push_bit 4 b)], pos + 4)"
| "enc32_loop [a, b, c, d] dest pos = (poke dest pos [e32 (0x1F AND drop_bit 3 a), e32 ((0x1C AND push_bit 2 a) OR (3 AND drop_bit 6 b)),
     e32 (0x1F AND drop_bit 1 b), e32 ((0x10 AND push_bit 4 b) OR (0xF AND drop_bit 4 c)), e32 (0x1E AND push_bit 1 c)], pos + 5)"

definition enc32 :: "bytes \<Rightarrow> int \<Rightarrow> bytes \<Rightarrow> int \<Rightarrow> (bytes \<times> nat) option" where
  "enc32 dest ndest src nsrc =
     (if ndest \<le> (8 * nsrc + 4) div 5 then None
      else let (dest, pos) = enc32_loop (source src nsrc) dest 0 in Some (poke dest pos [0], pos))"

end
