(* ===== verification/Encode_Props.thy ===== *)
theory Encode_Props
  imports Encode Cstring_Spec
begin

text \<open>Decoding inverts encoding when the buffers are large enough, and what goes wrong in base 32.\<close>

section \<open>Buffers\<close>

lemma source_take: "n \<le> length m \<Longrightarrow> source m (int n) = take n m"
  by (rule nth_equalityI) (simp_all add: source_def rd_def)

lemma source_poke: "length ys \<le> length out \<Longrightarrow> source (poke (poke out 0 ys) (length ys) [b]) (int (length ys)) = ys"
  by (subst source_take) (simp_all add: poke_def)

section \<open>Base 16\<close>

definition hx :: "uchar \<Rightarrow> bytes" where
  "hx c = [t16e ! unat (drop_bit 4 c), t16e ! unat (c AND 0xF)]"

lemma hexval_digit: "k < 16 \<Longrightarrow> hexval (t16e ! k) = Some (int k)"
proof -
  have "\<forall>k \<in> set [0 ..< 16]. hexval (t16e ! k) = Some (int k)" by code_simp
  then show "k < 16 \<Longrightarrow> hexval (t16e ! k) = Some (int k)" by simp
qed

lemma byte_halves:
  fixes c :: uchar
  shows "unat (drop_bit 4 c) = unat c div 16" "unat (c AND 0xF) = unat c mod 16"
proof -
  show "unat (drop_bit 4 c) = unat c div 16" by (simp add: drop_bit_eq_div unat_div)
  have "c AND 0xF = take_bit 4 c" by (simp add: take_bit_eq_mask mask_eq_exp_minus_1)
  then show "unat (c AND 0xF) = unat c mod 16" by (simp add: take_bit_eq_mod unat_mod)
qed

lemma enc16_loop_fits:
  "int pos + 2 * int (length xs) < lim \<Longrightarrow> pos + 2 * length xs \<le> length out \<Longrightarrow>
    enc16_loop lim xs out pos = (poke out pos (concat (map hx xs)), pos + 2 * length xs)"
proof (induction xs arbitrary: out pos)
  case (Cons c xs)
  have "enc16_loop lim (c # xs) out pos = enc16_loop lim xs (poke out pos (hx c)) (pos + 2)" using Cons.prems by (simp add: hx_def)
  also have "\<dots> = (poke (poke out pos (hx c)) (pos + 2) (concat (map hx xs)), pos + 2 + 2 * length xs)"
    using Cons.prems by (intro Cons.IH) (simp_all add: hx_def)
  also have "poke (poke out pos (hx c)) (pos + 2) (concat (map hx xs)) = poke out pos (hx c @ concat (map hx xs))"
    using poke_poke_adjacent [of pos out "hx c" "concat (map hx xs)"] Cons.prems by (simp add: hx_def)
  finally show ?case by simp
qed simp

lemma dec16_loop_hx:
  "int pos + int (length xs) \<le> lim \<Longrightarrow> pos \<le> length out \<Longrightarrow>
    dec16_loop lim (concat (map hx xs)) 0 0 out pos = (poke out pos xs, pos + length xs)"
proof (induction xs arbitrary: out pos)
  case (Cons c xs)
  have b: "unat c < 256" using unsigned_less [of c] by simp
  then have h: "hexval (t16e ! unat (drop_bit 4 c)) = Some (int (unat c div 16))" "hexval (t16e ! unat (c AND 0xF)) = Some (int (unat c mod 16))"
    unfolding byte_halves by (intro hexval_digit; simp add: less_mult_imp_div_less)+
  have "int (unat c div 16) * 16 + int (unat c mod 16) = int (unat c)" by (metis div_mult_mod_eq of_nat_add of_nat_mult of_nat_numeral)
  then have w: "word_of_int (int (unat c div 16) * 16 + int (unat c mod 16)) = c" by simp
  have "dec16_loop lim (concat (map hx (c # xs))) 0 0 out pos = dec16_loop lim (concat (map hx xs)) 0 0 (poke out pos [c]) (pos + 1)"
    using Cons.prems(1) by (simp add: hx_def h w [simplified])
  also have "\<dots> = (poke (poke out pos [c]) (pos + 1) xs, pos + 1 + length xs)"
    using Cons.prems length_poke_ge(2) [of pos out "[c]"] by (intro Cons.IH) simp_all
  also have "poke (poke out pos [c]) (pos + 1) xs = poke out pos (c # xs)"
    using poke_poke_adjacent [of pos out "[c]" xs] Cons.prems by simp
  finally show ?case by simp
qed simp

section \<open>Base 64\<close>

lemma t64d_digit: "k < 64 \<Longrightarrow> t64d (t64e ! k) = k"
proof -
  have "map t64d t64e = [0 ..< 64]" by (simp add: t64d_def t64e_def nth_append upt_rec)
  then have "map t64d t64e ! k = [0 ..< 64] ! k" by simp
  moreover have "length t64e = 64" by (simp add: t64e_def)
  ultimately show "k < 64 \<Longrightarrow> t64d (t64e ! k) = k" by simp
qed

lemma t64d_pad: "t64d 0x3D = 255"
  by code_simp

definition b24 :: "uchar \<Rightarrow> uchar \<Rightarrow> uchar \<Rightarrow> uint" where
  "b24 x y z = push_bit 16 (ucast x) OR push_bit 8 (ucast y) OR ucast z"

lemma b24_bytes: "ucast (drop_bit 16 (b24 x y z)) = x" "ucast (drop_bit 8 (b24 x y z)) = y" "ucast (b24 x y z) = z"
  by (rule bit_word_eqI, auto simp: b24_def bit_simps dest: bit_imp_le_length)+

lemma b24_top: "unat (drop_bit 18 (b24 x y z)) < 64"
proof -
  have "drop_bit 18 (b24 x y z) = take_bit 6 (drop_bit 18 (b24 x y z))"
    by (rule bit_word_eqI) (auto simp: b24_def bit_simps dest: bit_imp_le_length)
  then have "unat (drop_bit 18 (b24 x y z)) = unat (take_bit 6 (drop_bit 18 (b24 x y z)))" by simp
  also have "\<dots> < 64" by (simp add: take_bit_eq_mod unat_mod)
  finally show ?thesis .
qed

lemma six_bits: "unat (v AND 0x3F) < 64" for v :: uint
proof -
  have "v AND 0x3F = take_bit 6 v" by (simp add: take_bit_eq_mask mask_eq_exp_minus_1)
  then show ?thesis by (simp add: take_bit_eq_mod unat_mod)
qed

lemma e64_val: "t64d (e64 v k) = unat (drop_bit k v AND 0x3F)" "t64d (e64 v k) \<noteq> 255"
  using t64d_digit [OF six_bits [of "drop_bit k v"]] six_bits [of "drop_bit k v"] by (simp_all add: e64_def)

text \<open>The digits of a 24-bit number, put together again; and those of one that ends in zeros.\<close>

lemma b24_join:
  fixes v :: uint
  shows "((push_bit 18 (drop_bit 18 v) OR push_bit 12 (drop_bit 12 v AND 0x3F)) OR push_bit 6 (drop_bit 6 v AND 0x3F)) OR (drop_bit 0 v AND 0x3F) = v"
proof -
  have m: "(0x3F :: uint) = mask 6" by (simp add: mask_eq_exp_minus_1)
  show ?thesis
  proof (rule bit_word_eqI)
    fix n assume n: "n < LENGTH(32)"
    consider "n < 6" | "6 \<le> n" "n < 12" | "12 \<le> n" "n < 18" | "18 \<le> n" by linarith
    then show "bit (((push_bit 18 (drop_bit 18 v) OR push_bit 12 (drop_bit 12 v AND 0x3F)) OR push_bit 6 (drop_bit 6 v AND 0x3F)) OR (drop_bit 0 v AND 0x3F)) n = bit v n"
      unfolding m using n by cases (auto simp: bit_simps)
  qed
qed

lemma b24_tail: "b24 x y 0 AND 0x3F = 0" "b24 x 0 0 AND 0x3F = 0" "drop_bit 6 (b24 x 0 0) AND 0x3F = 0"
proof -
  have m: "(0x3F :: uint) = mask 6" by (simp add: mask_eq_exp_minus_1)
  show "b24 x y 0 AND 0x3F = 0" "b24 x 0 0 AND 0x3F = 0" "drop_bit 6 (b24 x 0 0) AND 0x3F = 0"
    unfolding m by (rule bit_word_eqI, auto simp: b24_def bit_simps)+
qed

definition group64 :: "uchar \<Rightarrow> uchar \<Rightarrow> uchar \<Rightarrow> bytes" where
  "group64 x y z = (let v = b24 x y z in [t64e ! unat (drop_bit 18 v), e64 v 12, e64 v 6, e64 v 0])"

fun text64 :: "bytes \<Rightarrow> bytes" where
  "text64 (x # y # z # src) = group64 x y z @ text64 src"
| "text64 [x, y] = take 3 (group64 x y 0) @ [0x3D]"
| "text64 [x] = take 2 (group64 x 0 0) @ [0x3D, 0x3D]"
| "text64 [] = []"

lemma length_group64 [simp]: "length (group64 x y z) = 4"
  by (simp add: group64_def Let_def)

lemma length_text64: "length (text64 xs) = (length xs + 2) div 3 * 4"
proof (induction xs rule: text64.induct)
  case (1 x y z src)
  have "(length (x # y # z # src) + 2) div 3 = (length src + 2) div 3 + 1" by simp
  then show ?case using 1 by (simp only: text64.simps length_append length_group64) simp
qed simp_all

lemma enc64_loop_fits:
  "int pos + int (length (text64 xs)) < lim \<Longrightarrow> pos + length (text64 xs) \<le> length out \<Longrightarrow>
    enc64_loop lim xs out pos = (poke out pos (text64 xs), pos + length (text64 xs))"
proof (induction lim xs out pos rule: enc64_loop.induct)
  case (1 lim x y z src out pos)
  let ?g = "group64 x y z"
  have l: "length ?g = 4" by simp
  have "enc64_loop lim (x # y # z # src) out pos = enc64_loop lim src (poke out pos ?g) (pos + 4)"
    using 1(2) l by (simp add: group64_def b24_def Let_def)
  also have "\<dots> = (poke (poke out pos ?g) (pos + 4) (text64 src), pos + 4 + length (text64 src))"
    using 1(1) [OF refl] 1(2,3) l by (simp add: group64_def b24_def Let_def)
  also have "poke (poke out pos ?g) (pos + 4) (text64 src) = poke out pos (?g @ text64 src)"
    using poke_poke_adjacent [of pos out ?g "text64 src"] 1(3) l by simp
  finally show ?case using l by simp
next
  case (2 lim x y out pos)
  then show ?case by (simp add: group64_def b24_def Let_def numeral_eq_Suc)
next
  case (3 lim x out pos)
  then show ?case by (simp add: group64_def b24_def Let_def numeral_eq_Suc)
qed simp

text \<open>Decoding a group of four digits, and the shorter groups at the end.\<close>

definition join4 :: "nat \<Rightarrow> nat \<Rightarrow> nat \<Rightarrow> nat \<Rightarrow> uint" where
  "join4 p q r s = ((push_bit 18 (of_nat p) OR push_bit 12 (of_nat q)) OR push_bit 6 (of_nat r)) OR of_nat s"

lemma dec64_group:
  assumes "p < 64" "q < 64" "r < 64" "s < 64" and "int pos + 3 \<le> lim"
  shows "dec64_loop lim (t64e ! p # t64e ! q # t64e ! r # t64e ! s # src) v 0 out pos
    = dec64_loop lim src (join4 p q r s) 0
        (poke out pos [ucast (drop_bit 16 (join4 p q r s)), ucast (drop_bit 8 (join4 p q r s)), ucast (join4 p q r s)]) (pos + 3)"
  using assms by (simp add: t64d_digit join4_def Let_def)

lemma dec64_tail3:
  assumes "p < 64" "q < 64" "r < 64" and "int pos + 2 \<le> lim"
  shows "dec64_loop lim [t64e ! p, t64e ! q, t64e ! r, 0x3D] v 0 out pos
    = (poke out pos [ucast (drop_bit 16 (join4 p q r 0)), ucast (drop_bit 8 (join4 p q r 0))], pos + 2)"
  using assms by (simp add: t64d_digit t64d_pad join4_def)

lemma dec64_tail2:
  assumes "p < 64" "q < 64" and "int pos + 1 \<le> lim"
  shows "dec64_loop lim [t64e ! p, t64e ! q, 0x3D, 0x3D] v 0 out pos = (poke out pos [ucast (drop_bit 16 (join4 p q 0 0))], pos + 1)"
  using assms by (simp add: t64d_digit t64d_pad join4_def)

lemma join4_digits: "join4 (unat (drop_bit 18 v)) (unat (drop_bit 12 v AND 0x3F)) (unat (drop_bit 6 v AND 0x3F)) (unat (drop_bit 0 v AND 0x3F)) = v"
proof -
  have u: "(of_nat (unat w) :: uint) = w" for w :: uint by simp
  show ?thesis unfolding join4_def u by (rule b24_join)
qed

lemma dec64_loop_text:
  "int pos + int (length xs) \<le> lim \<Longrightarrow> pos \<le> length out \<Longrightarrow> dec64_loop lim (text64 xs) v 0 out pos = (poke out pos xs, pos + length xs)"
proof (induction xs arbitrary: v out pos rule: text64.induct)
  case (1 x y z src)
  let ?v = "b24 x y z"
  have "int pos + 3 \<le> lim" using 1(2) by simp
  from dec64_group [OF b24_top six_bits six_bits six_bits this, of x y z "drop_bit 12 ?v" "drop_bit 6 ?v" "drop_bit 0 ?v" "text64 src" v out]
  have "dec64_loop lim (group64 x y z @ text64 src) v 0 out pos = dec64_loop lim (text64 src) ?v 0 (poke out pos [x, y, z]) (pos + 3)"
    unfolding join4_digits b24_bytes by (simp only: group64_def e64_def Let_def append.simps)
  also have "\<dots> = (poke (poke out pos [x, y, z]) (pos + 3) src, pos + 3 + length src)"
    using 1(2,3) length_poke_ge(2) [of pos out "[x, y, z]"] by (intro 1(1)) simp_all
  also have "poke (poke out pos [x, y, z]) (pos + 3) src = poke out pos (x # y # z # src)"
    using poke_poke_adjacent [of pos out "[x, y, z]" src] 1(3) by (simp add: eval_nat_numeral)
  finally show ?case by simp
next
  case (2 x y)
  let ?v = "b24 x y 0"
  have j: "join4 (unat (drop_bit 18 ?v)) (unat (drop_bit 12 ?v AND 0x3F)) (unat (drop_bit 6 ?v AND 0x3F)) 0 = ?v"
    using join4_digits [of ?v] b24_tail(1) [of x y] by simp
  have "int pos + 2 \<le> lim" using 2(1) by simp
  from dec64_tail3 [OF b24_top six_bits six_bits this, of x y 0 "drop_bit 12 ?v" "drop_bit 6 ?v" v out]
  show ?case unfolding j b24_bytes by (simp add: group64_def e64_def Let_def numeral_eq_Suc)
next
  case (3 x)
  let ?v = "b24 x 0 0"
  have j: "join4 (unat (drop_bit 18 ?v)) (unat (drop_bit 12 ?v AND 0x3F)) 0 0 = ?v"
    using join4_digits [of ?v] b24_tail(2,3) [of x] by simp
  have "int pos + 1 \<le> lim" using 3(1) by simp
  from dec64_tail2 [OF b24_top six_bits this, of x 0 0 "drop_bit 12 ?v" v out]
  show ?case unfolding j b24_bytes by (simp add: group64_def e64_def Let_def numeral_eq_Suc)
qed simp

section \<open>Base 32\<close>

lemma val32_digit: "k < 32 \<Longrightarrow> val32 (tab32 ! k) = of_nat k"
proof -
  have "map val32 tab32 = map of_nat [0 ..< 32]" by code_simp
  then have "map val32 tab32 ! k = map of_nat [0 ..< 32] ! k" by simp
  moreover have "length tab32 = 32" by (simp add: tab32_def)
  ultimately show "k < 32 \<Longrightarrow> val32 (tab32 ! k) = of_nat k" by simp
qed

lemma val32_e32: "val32 (e32 j) = ucast j" if "unat j < 32"
  using val32_digit [OF that] by (simp add: e32_def)

lemma byte_eqI: "bit x 0 = bit y 0 \<Longrightarrow> bit x 1 = bit y 1 \<Longrightarrow> bit x 2 = bit y 2 \<Longrightarrow> bit x 3 = bit y 3 \<Longrightarrow>
    bit x 4 = bit y 4 \<Longrightarrow> bit x 5 = bit y 5 \<Longrightarrow> bit x 6 = bit y 6 \<Longrightarrow> bit x 7 = bit y 7 \<Longrightarrow> x = y" for x y :: uchar
proof (rule bit_word_eqI)
  assume h: "bit x 0 = bit y 0" "bit x 1 = bit y 1" "bit x 2 = bit y 2" "bit x 3 = bit y 3" "bit x 4 = bit y 4" "bit x 5 = bit y 5" "bit x 6 = bit y 6" "bit x 7 = bit y 7"
  fix n :: nat assume "n < LENGTH(8)"
  then have "n = 0 \<or> n = 1 \<or> n = 2 \<or> n = 3 \<or> n = 4 \<or> n = 5 \<or> n = 6 \<or> n = 7" by auto
  then show "bit x n = bit y n" using h by auto
qed

definition digits32 :: "uchar \<Rightarrow> uchar \<Rightarrow> uchar \<Rightarrow> uchar \<Rightarrow> uchar \<Rightarrow> uchar list" where
  "digits32 a b c d e =
     [0x1F AND drop_bit 3 a, (0x1C AND push_bit 2 a) OR (3 AND drop_bit 6 b),
      0x1F AND drop_bit 1 b, (0x10 AND push_bit 4 b) OR (0xF AND drop_bit 4 c),
      (0x1E AND push_bit 1 c) OR (1 AND drop_bit 7 d), 0x1F AND drop_bit 2 d,
      (0x18 AND push_bit 3 d) OR (7 AND drop_bit 5 e), 0x1F AND e]"

lemma d32_list:
  "d32 0 [p, q, r, s, t, u, v, w] = ucast (push_bit 3 p OR (7 AND drop_bit 2 q))"
  "d32 1 [p, q, r, s, t, u, v, w] = ucast (push_bit 6 (3 AND q) OR push_bit 1 r OR (1 AND drop_bit 4 s))"
  "d32 2 [p, q, r, s, t, u, v, w] = ucast (push_bit 4 (15 AND s) OR (15 AND drop_bit 1 t))"
  "d32 3 [p, q, r, s, t, u, v, w] = ucast (push_bit 7 (1 AND t) OR push_bit 2 u OR (3 AND drop_bit 3 v))"
  "d32 4 [p, q, r, s, t, u, v, w] = ucast (push_bit 5 (7 AND v) OR w)"
  by (simp_all add: d32_def)

lemma bit_twice: "Suc n < 8 \<Longrightarrow> bit (x * 2) (Suc n) = bit x n" for x :: uchar
  using bit_double_iff [of x "Suc n"] by (simp add: mult.commute)

lemma digits32_join:
  "d32 0 (map ucast (digits32 a b c d e)) = a" "d32 1 (map ucast (digits32 a b c d e)) = b" "d32 2 (map ucast (digits32 a b c d e)) = c"
  "d32 3 (map ucast (digits32 a b c d e)) = d" "d32 4 (map ucast (digits32 a b c d e)) = e"
  unfolding digits32_def list.map d32_list
  by (rule byte_eqI; simp only: bit_simps; (simp add: bit_simps)?; (simp add: eval_nat_numeral bit_twice)?)+

lemma digits32_small: "j \<in> set (digits32 a b c d e) \<Longrightarrow> unat j < 32"
proof -
  have t: "unat j < 32" if "take_bit 5 j = j" for j :: uchar
  proof -
    have "unat j = unat (take_bit 5 j)" using that by simp
    also have "\<dots> < 32" by (simp add: take_bit_eq_mod unat_mod)
    finally show ?thesis .
  qed
  have "\<forall>j \<in> set (digits32 a b c d e). take_bit 5 j = j"
    unfolding digits32_def by (simp, intro conjI) (rule byte_eqI; simp add: bit_simps)+
  then show "j \<in> set (digits32 a b c d e) \<Longrightarrow> unat j < 32" using t by blast
qed

lemma digits32_vals: "map val32 (map e32 (digits32 a b c d e)) = map ucast (digits32 a b c d e)"
  using digits32_small [of _ a b c d e] val32_e32 by (simp del: set_simps)

text \<open>What \<open>enc32\<close> writes for whole groups, and for one byte that is left.\<close>

fun text32 :: "bytes \<Rightarrow> bytes" where
  "text32 (a # b # c # d # e # src) = map e32 (digits32 a b c d e) @ text32 src"
| "text32 [a] = take 2 (map e32 (digits32 a 0 0 0 0))"
| "text32 _ = []"

lemma length_digits32: "length (digits32 a b c d e) = 8"
  by (simp add: digits32_def)

lemma text32_single: "text32 [a] = [e32 (0x1F AND drop_bit 3 a), e32 (0x1C AND push_bit 2 a)]"
  by (simp add: digits32_def numeral_eq_Suc)

lemma enc32_loop_fits:
  "length xs mod 5 \<le> 1 \<Longrightarrow> pos + length (text32 xs) \<le> length out \<Longrightarrow> enc32_loop xs out pos = (poke out pos (text32 xs), pos + length (text32 xs))"
proof (induction xs out pos rule: enc32_loop.induct)
  case (1 a b c d e src dest pos)
  let ?g = "map e32 (digits32 a b c d e)"
  have l: "length ?g = 8" by (simp add: length_digits32)
  have m: "length src mod 5 \<le> 1" using 1(2) by simp
  have "enc32_loop (a # b # c # d # e # src) dest pos = enc32_loop src (poke dest pos ?g) (pos + 8)" by (simp add: digits32_def)
  also have "\<dots> = (poke (poke dest pos ?g) (pos + 8) (text32 src), pos + 8 + length (text32 src))"
    using 1(1) m 1(3) l by (simp add: digits32_def)
  also have "poke (poke dest pos ?g) (pos + 8) (text32 src) = poke dest pos (?g @ text32 src)"
    using poke_poke_adjacent [of pos dest ?g "text32 src"] 1(3) l by simp
  finally show ?case using l by simp
next
  case (3 a dest pos)
  have "text32 [a] = [e32 (0x1F AND drop_bit 3 a), e32 (0x1C AND push_bit 2 a)]" by (rule text32_single)
  then show ?case by (simp only: enc32_loop.simps list.size) simp
qed simp_all

lemma dec32_group:
  assumes "length us = 8"
  shows "dec32_loop (us @ src) dest pos = (let u = map val32 us
    in dec32_loop src (poke dest pos [d32 0 u, d32 1 u, d32 2 u, d32 3 u, d32 4 u]) (pos + 5))"
proof -
  obtain a b c d e f g h where "us = [a, b, c, d, e, f, g, h]" using assms by (auto simp: length_Suc_conv numeral_eq_Suc)
  then show ?thesis by (simp del: d32_list)
qed

lemma dec32_pair: "dec32_loop [a, b] dest pos = (Some (pos + 1), poke dest pos [d32 0 [val32 a, val32 b]])"
  by simp

lemma dec32_loop_text:
  "length xs mod 5 \<le> 1 \<Longrightarrow> pos \<le> length out \<Longrightarrow> dec32_loop (text32 xs) out pos = (Some (pos + length xs), poke out pos xs)"
proof (induction xs arbitrary: out pos rule: text32.induct)
  case (1 a b c d e src)
  have l: "length (map e32 (digits32 a b c d e)) = 8" by (simp add: length_digits32)
  have m: "length src mod 5 \<le> 1" using 1(2) by simp
  have "dec32_loop (text32 (a # b # c # d # e # src)) out pos = dec32_loop src' (poke out pos [a, b, c, d, e]) (pos + 5)"
    if "src' = text32 src" for src'
    unfolding text32.simps that dec32_group [OF l] Let_def digits32_vals digits32_join by (rule refl)
  then have "dec32_loop (text32 (a # b # c # d # e # src)) out pos = dec32_loop (text32 src) (poke out pos [a, b, c, d, e]) (pos + 5)" by blast
  also have "\<dots> = (Some (pos + 5 + length src), poke (poke out pos [a, b, c, d, e]) (pos + 5) src)"
    using m 1(3) length_poke_ge(2) [of pos out "[a, b, c, d, e]"] by (intro 1(1)) simp_all
  also have "poke (poke out pos [a, b, c, d, e]) (pos + 5) src = poke out pos (a # b # c # d # e # src)"
    using poke_poke_adjacent [of pos out "[a, b, c, d, e]" src] 1(3) by (simp add: eval_nat_numeral)
  finally show ?case by simp
next
  case (2 a)
  have "take 2 (map val32 (map e32 (digits32 a 0 0 0 0))) = take 2 (map ucast (digits32 a 0 0 0 0))" by (simp only: digits32_vals)
  then have v: "val32 (e32 (0x1F AND drop_bit 3 a)) = ucast (0x1F AND drop_bit 3 a)" "val32 (e32 (0x1C AND push_bit 2 a)) = ucast (0x1C AND push_bit 2 a)"
    by (simp_all add: digits32_def numeral_eq_Suc)
  have "d32 0 [ucast (0x1F AND drop_bit 3 a), ucast (0x1C AND push_bit 2 a)] = d32 0 (map ucast (digits32 a 0 0 0 0))"
    by (simp add: d32_def digits32_def)
  also have "\<dots> = a" by (rule digits32_join)
  finally have d: "d32 0 [ucast (0x1F AND drop_bit 3 a), ucast (0x1C AND push_bit 2 a)] = a" .
  show ?case unfolding text32_single dec32_pair v d by simp
qed simp_all

lemma length_text32: "length xs mod 5 \<le> 1 \<Longrightarrow> length (text32 xs) = length xs div 5 * 8 + length xs mod 5 * 2"
proof (induction xs rule: text32.induct)
  case (1 a b c d e src)
  have "length (a # b # c # d # e # src) = 5 + length src" by simp
  then have "length (a # b # c # d # e # src) div 5 = length src div 5 + 1" "length (a # b # c # d # e # src) mod 5 = length src mod 5" by simp_all
  then show ?case using 1 by (simp only: text32.simps length_append length_map length_digits32) simp
qed (simp_all add: length_digits32)

section \<open>The properties\<close>

text \<open>
  C36: when the buffers are large enough, decoding what was encoded gives the original bytes, in base 16, in base
  64, and in base 32 when the number of bytes is a multiple of 5, or one more.
\<close>

theorem encode_roundtrip:
  assumes "2 * length xs + 4 < length out" and "length xs \<le> length dst"
  shows "(case enc16 out (int (length out)) xs (int (length xs)) of (t, k) \<Rightarrow> dec16 dst (int (length dst)) t (int k)) = (poke dst 0 xs, length xs)
    \<and> (case enc64 out (int (length out)) xs (int (length xs)) of (t, k) \<Rightarrow> dec64 dst (int (length dst)) t (int k)) = (poke dst 0 xs, length xs)
    \<and> (length xs mod 5 \<le> 1 \<longrightarrow> (case enc32 out (int (length out)) xs (int (length xs)) of
          None \<Rightarrow> None | Some (t, k) \<Rightarrow> Some (dec32 dst (int (length dst)) t (int k))) = Some (Some (length xs), poke dst 0 xs))"
proof (intro conjI impI)
  have src: "source xs (int (length xs)) = xs" by (simp add: source_take)
  have l: "length (concat (map hx xs)) = 2 * length xs" by (induction xs) (simp_all add: hx_def)
  have "enc16 out (int (length out)) xs (int (length xs)) = (poke (poke out 0 (concat (map hx xs))) (length (concat (map hx xs))) [0], length (concat (map hx xs)))"
    using enc16_loop_fits [of 0 xs "int (length out)" out] assms(1) by (simp add: enc16_def src l)
  then show "(case enc16 out (int (length out)) xs (int (length xs)) of (t, k) \<Rightarrow> dec16 dst (int (length dst)) t (int k)) = (poke dst 0 xs, length xs)"
    using source_poke [of "concat (map hx xs)" out 0] dec16_loop_hx [of 0 xs "int (length dst)" dst] assms l by (simp add: dec16_def)
  have l64: "length (text64 xs) < length out" using assms(1) by (simp add: length_text64)
  have "enc64 out (int (length out)) xs (int (length xs)) = (poke (poke out 0 (text64 xs)) (length (text64 xs)) [0], length (text64 xs))"
    using enc64_loop_fits [of 0 xs "int (length out)" out] l64 by (simp add: enc64_def src)
  then show "(case enc64 out (int (length out)) xs (int (length xs)) of (t, k) \<Rightarrow> dec64 dst (int (length dst)) t (int k)) = (poke dst 0 xs, length xs)"
    using source_poke [of "text64 xs" out 0] dec64_loop_text [of 0 xs "int (length dst)" dst 0] assms l64 by (simp add: dec64_def)
next
  assume m: "length xs mod 5 \<le> 1"
  show "(case enc32 out (int (length out)) xs (int (length xs)) of
      None \<Rightarrow> None | Some (t, k) \<Rightarrow> Some (dec32 dst (int (length dst)) t (int k))) = Some (Some (length xs), poke dst 0 xs)"
  proof -
    let ?q = "length xs div 5" and ?r = "length xs mod 5"
    have n: "length xs = 5 * ?q + ?r" by simp
    have l32: "length (text32 xs) = ?q * 8 + ?r * 2" by (rule length_text32 [OF m])
    have fit: "length (text32 xs) < length out" using l32 n assms(1) m by linarith
    have "(8 * int (length xs) + 4) div 5 < int (length out)" using assms(1) by linarith
    then have e: "enc32 out (int (length out)) xs (int (length xs)) = Some (poke (poke out 0 (text32 xs)) (length (text32 xs)) [0], length (text32 xs))"
      using enc32_loop_fits [OF m, of 0 out] fit by (simp add: enc32_def source_take)
    have "(5 * int (length (text32 xs)) + 7) div 8 \<le> int (length dst) + 1" using l32 n assms(2) m by linarith
    then have "dec32 dst (int (length dst)) (poke (poke out 0 (text32 xs)) (length (text32 xs)) [0]) (int (length (text32 xs))) = (Some (length xs), poke dst 0 xs)"
      using source_poke [of "text32 xs" out 0] dec32_loop_text [OF m, of 0 dst] fit by (simp add: dec32_def)
    then show ?thesis by (simp add: e)
  qed
qed

theorem encode_roundtrip_witness:
  "(case enc16 (replicate 30 0) 30 [1, 2, 3, 254, 255, 0] 6 of (t, k) \<Rightarrow> dec16 (replicate 6 0) 6 t (int k)) = (poke (replicate 6 0) 0 [1, 2, 3, 254, 255, 0], 6)
    \<and> (case enc32 (replicate 30 0) 30 [1, 2, 3, 254, 255, 0] 6 of
          None \<Rightarrow> None | Some (t, k) \<Rightarrow> Some (dec32 (replicate 6 0) 6 t (int k))) = Some (Some 6, poke (replicate 6 0) 0 [1, 2, 3, 254, 255, 0])"
proof -
  have "2 * length [1, 2, 3, 254, 255, 0 :: uchar] + 4 < length (replicate 30 (0 :: uchar))" "length [1, 2, 3, 254, 255, 0 :: uchar] \<le> length (replicate 6 (0 :: uchar))"
    by simp_all
  note r = encode_roundtrip [OF this]
  have n: "length [1, 2, 3, 254, 255, 0 :: uchar] = 6" "length (replicate k (0 :: uchar)) = k" "int 6 = 6" "int 30 = 30" for k by simp_all
  show ?thesis using r unfolding n by simp
qed

lemma length_poke_max: "i \<le> length m \<Longrightarrow> length (poke m i bs) = max (length m) (i + length bs)"
  by (auto simp: poke_def max_def)

text \<open>The number of bytes that \<open>dec32\<close> stores for \<open>r\<close> characters after the whole groups.\<close>

definition left32 :: "nat \<Rightarrow> nat" where
  "left32 r = (if r = 2 then 1 else if r = 4 then 2 else if r = 5 then 3 else if r = 7 then 4 else 0)"

lemma dec32_loop_length:
  "pos \<le> length dest \<Longrightarrow> length (snd (dec32_loop src dest pos))
    = max (length dest) (pos + 5 * (length src div 8) + left32 (length src mod 8))"
proof (induction src dest pos rule: dec32_loop.induct)
  case (1 a b c d e f g h src dest pos)
  let ?src = "a # b # c # d # e # f # g # h # src"
  have n: "length ?src = 8 + length src" by simp
  have l: "length ?src div 8 = Suc (length src div 8)" "length ?src mod 8 = length src mod 8"
    unfolding n by simp_all
  have p: "length (poke dest pos [v, w, x, y, z]) = max (length dest) (pos + 5)" for v w x y z
    using length_poke_max [OF 1(2), of "[v, w, x, y, z]"] by simp
  show ?case unfolding l
    using 1(1) [OF refl] by (simp add: p Let_def max_def)
qed (simp_all add: left32_def Let_def length_poke_max)

lemma dec32_loop_whole: "length src mod 8 = 0 \<Longrightarrow> fst (dec32_loop src dest pos) = Some (pos + 5 * (length src div 8))"
proof (induction src dest pos rule: dec32_loop.induct)
  case (1 a b c d e f g h src dest pos)
  let ?src = "a # b # c # d # e # f # g # h # src"
  have n: "length ?src = 8 + length src" by simp
  have l: "length ?src div 8 = Suc (length src div 8)" "length ?src mod 8 = length src mod 8"
    unfolding n by simp_all
  show ?case using 1(1) [OF refl] 1(2) unfolding l by (simp add: Let_def)
qed simp_all

lemma enc32_loop_append:
  "length xs mod 5 = 0 \<Longrightarrow> enc32_loop (xs @ ys) dest pos = (case enc32_loop xs dest pos of (d, p) \<Rightarrow> enc32_loop ys d p)"
proof (induction xs dest pos rule: enc32_loop.induct)
  case (1 a b c d e src dest pos)
  have "length (a # b # c # d # e # src) = 5 + length src" by simp
  then have "length src mod 5 = 0" using 1(2) by (simp only: mod_add_self1)
  then show ?case using 1(1) by simp
qed simp_all

lemma enc32_left:
  "enc32_loop [a, b] d p = enc32_loop [a, b XOR 1] d p"
  "enc32_loop [a, b, x] d p = enc32_loop [a, b, x'] d p"
  "enc32_loop [a, b, x, y] d p = enc32_loop [a, b, x, y'] d p"
proof -
  have "drop_bit 6 (b XOR 1) = drop_bit 6 b" "drop_bit 1 (b XOR 1) = drop_bit 1 b"
    by (simp_all add: drop_bit_xor drop_bit_of_1)
  then show "enc32_loop [a, b] d p = enc32_loop [a, b XOR 1] d p" by simp
qed simp_all

lemma source_exact: "k = int (length xs) \<Longrightarrow> source xs k = xs"
  by (simp add: source_take)

lemma dec32_room:
  assumes "r < 8" and "(5 * (8 * q + r) + 7) div 8 \<le> n + 1"
  shows "5 * q + left32 r \<le> n \<or> r = 0 \<and> 5 * q = n + 1"
proof -
  have "(5 * (8 * q + r) + 7) div 8 = ((5 * r + 7) + 8 * (5 * q)) div 8" by (simp add: algebra_simps)
  also have "\<dots> = 5 * q + (5 * r + 7) div 8" by (simp only: div_mult_self2)
  finally have le: "5 * q + (5 * r + 7) div 8 \<le> n + 1" using assms(2) by simp
  have "\<forall>r \<in> set [0 ..< 8]. r = 0 \<or> Suc (left32 r) \<le> (5 * r + 7) div 8" by code_simp
  then have "r = 0 \<or> Suc (left32 r) \<le> (5 * r + 7) div 8" using assms(1) by simp
  then show ?thesis using le by (auto simp: left32_def)
qed

lemma dec32_inside:
  "length (snd (dec32 dst (int (length dst)) src (int k))) = length dst
    \<longleftrightarrow> \<not> (8 dvd k \<and> 5 * (k div 8) = length dst + 1)"
proof (cases "length dst + 1 < (5 * k + 7) div 8")
  case True
  have "\<not> (8 dvd k \<and> 5 * (k div 8) = length dst + 1)" using True by (auto elim!: dvdE)
  moreover have "int (length dst) + 1 < (5 * int k + 7) div 8" using True by linarith
  ultimately show ?thesis by (simp add: dec32_def)
next
  case False
  have l: "length (source src (int k)) = k" by (simp add: source_def)
  have room: "5 * (k div 8) + left32 (k mod 8) \<le> length dst \<or> k mod 8 = 0 \<and> 5 * (k div 8) = length dst + 1"
    using False by (intro dec32_room) simp_all
  have "\<not> int (length dst) + 1 < (5 * int k + 7) div 8" using False by linarith
  then have "length (snd (dec32 dst (int (length dst)) src (int k)))
      = max (length dst) (5 * (k div 8) + left32 (k mod 8))"
    using dec32_loop_length [of 0 dst "source src (int k)"] unfolding l by (simp add: dec32_def)
  moreover have "8 dvd k \<longleftrightarrow> k mod 8 = 0" by (rule dvd_eq_mod_eq_0)
  moreover have "left32 0 = 0" by (simp add: left32_def)
  ultimately show ?thesis using room by (cases "k mod 8 = 0") (auto simp: max_def)
qed

text \<open>
  C37: What base 32 gets wrong, for all inputs. After any number of whole groups, \<open>enc32\<close> drops
  the lowest bit of the second of two bytes that are left, the third of three and the fourth of
  four, so different sources get the same text. \<open>dec32\<close> checks the size of its buffer and stays
  inside of it, but for one case: whole groups of characters that decode to one byte more than
  the buffer has, where it stores that byte behind the end and returns the count.
\<close>

theorem base32_defects:
  assumes "length xs mod 5 = 0"
  shows "enc32 dest n (xs @ [a, b]) (int (length xs) + 2) = enc32 dest n (xs @ [a, b XOR 1]) (int (length xs) + 2)
    \<and> enc32 dest n (xs @ [a, b, c]) (int (length xs) + 3) = enc32 dest n (xs @ [a, b, c']) (int (length xs) + 3)
    \<and> enc32 dest n (xs @ [a, b, c, d]) (int (length xs) + 4) = enc32 dest n (xs @ [a, b, c, d']) (int (length xs) + 4)
    \<and> (length (snd (dec32 dst (int (length dst)) src (int k))) = length dst
        \<longleftrightarrow> \<not> (8 dvd k \<and> 5 * (k div 8) = length dst + 1))
    \<and> (8 dvd k \<and> 5 * (k div 8) = length dst + 1 \<longrightarrow>
        fst (dec32 dst (int (length dst)) src (int k)) = Some (length dst + 1)
        \<and> length (snd (dec32 dst (int (length dst)) src (int k))) = length dst + 1)"
proof (intro conjI impI)
  have e: "enc32 dest n (xs @ ys) (int (length xs) + m) = enc32 dest n (xs @ zs) (int (length xs) + m)"
    if "\<And>d p. enc32_loop ys d p = enc32_loop zs d p" "m = int (length ys)" "length zs = length ys" for ys zs m
  proof -
    have s: "source (xs @ ys) (int (length xs) + m) = xs @ ys" "source (xs @ zs) (int (length xs) + m) = xs @ zs"
      using that(2,3) by (intro source_exact; simp)+
    show ?thesis unfolding enc32_def s enc32_loop_append [OF assms] that(1) ..
  qed
  show "enc32 dest n (xs @ [a, b]) (int (length xs) + 2) = enc32 dest n (xs @ [a, b XOR 1]) (int (length xs) + 2)"
    by (rule e [OF enc32_left(1)]) simp_all
  show "enc32 dest n (xs @ [a, b, c]) (int (length xs) + 3) = enc32 dest n (xs @ [a, b, c']) (int (length xs) + 3)"
    by (rule e [OF enc32_left(2)]) simp_all
  show "enc32 dest n (xs @ [a, b, c, d]) (int (length xs) + 4) = enc32 dest n (xs @ [a, b, c, d']) (int (length xs) + 4)"
    by (rule e [OF enc32_left(3)]) simp_all
  show "length (snd (dec32 dst (int (length dst)) src (int k))) = length dst
      \<longleftrightarrow> \<not> (8 dvd k \<and> 5 * (k div 8) = length dst + 1)"
    by (rule dec32_inside)
next
  assume k: "8 dvd k \<and> 5 * (k div 8) = length dst + 1"
  then have "\<not> int (length dst) + 1 < (5 * int k + 7) div 8" by auto
  then have d: "dec32 dst (int (length dst)) src (int k) = dec32_loop (source src (int k)) dst 0"
    by (simp add: dec32_def)
  show "fst (dec32 dst (int (length dst)) src (int k)) = Some (length dst + 1)"
    using dec32_loop_whole [of "source src (int k)" dst 0] k unfolding d by (simp add: source_def)
  show "length (snd (dec32 dst (int (length dst)) src (int k))) = length dst + 1"
    using dec32_loop_length [of 0 dst "source src (int k)"] k unfolding d by (simp add: source_def left32_def)
qed

theorem base32_defects_witness:
  "enc32 (replicate 14 0) 14 [1, 2, 3, 4, 5, 6, 7, 8] 8 = enc32 (replicate 14 0) 14 [1, 2, 3, 4, 5, 6, 7, 9] 8
    \<and> fst (dec32 (replicate 9 0) 9 (replicate 16 0x33) 16) = Some 10
    \<and> length (snd (dec32 (replicate 9 0) 9 (replicate 16 0x33) 16)) = 10"
  using base32_defects [of "[1, 2, 3, 4, 5]" "replicate 14 0" 14 6 7 8 9 0 0 "replicate 9 0" "replicate 16 0x33" 16]
  by simp

end
