(* ===== verification/Spec2Isabelle.thy ===== *)
theory Spec2Isabelle
  imports Ninep Dir_Props Text_Props Kern_Props Fid_Props File_Props Srv_Props Xalloc_Props Strto_Props Qsort_Mem Encode_Props
begin

text \<open>
  \<^bold>\<open>Verification of core parts of Principia Softwarica, a Plan 9 system for 386 and ARM machines.\<close>

  \<^bold>\<open>The program.\<close> The repository holds a whole operating system: a kernel (\<^verbatim>\<open>src/kernel\<close>), the C library
  (\<^verbatim>\<open>src/lib_core/libc\<close>), libraries for the 9P file protocol (\<^verbatim>\<open>src/lib_core/libc/9sys\<close>,
  \<^verbatim>\<open>src/lib_networking/lib9p\<close>), and the tools, servers and applications built on them. All resources are files
  served over 9P: clients and servers exchange messages that \<^verbatim>\<open>convS2M\<close> encodes and \<^verbatim>\<open>convM2S\<close> decodes;
  a server keeps its files in a tree and its open files in a fid pool, and answers each message once; text is UTF-8 and is handled by the string and rune functions; the
  kernel schedules the processes, which synchronise with sleeping locks, and takes its long-lived memory from
  \<^verbatim>\<open>xalloc\<close>. The development models these parts, bottom up.

  \<^bold>\<open>Machine model.\<close> \<open>Prelude\<close>: C integers are words of their width (\<open>uchar\<close>, \<open>ushort\<close>, \<open>uint\<close>, \<open>uvlong\<close>),
  or integers with the wrap-around written out; buffers are lists of bytes, read with \<open>rd\<close> and written with
  \<open>poke\<close>. A write past the end of a buffer makes the list longer, so that theorems about lengths are
  theorems about overruns. Errors are \<open>None\<close>, or the error value of the C function. Pointers to structures
  are indices into a map or a function. \<open>Bits\<close> holds the byte-order macros of \<^verbatim>\<open>fcall.h\<close>.

  \<^bold>\<open>9P messages.\<close> \<open>Fcall\<close> (\<^verbatim>\<open>convS2M.c\<close>), \<open>Fcall_Decode\<close> (\<^verbatim>\<open>convM2S.c\<close>), \<open>Dirstat\<close> (\<^verbatim>\<open>convD2M.c\<close>,
  \<^verbatim>\<open>convM2D.c\<close>, \<^verbatim>\<open>dirread.c\<close>) and \<open>Transport\<close> (\<^verbatim>\<open>readn.c\<close>, \<^verbatim>\<open>read9pmsg.c\<close>, the receive loop of
  \<^verbatim>\<open>lib9p/srv.c\<close>) translate the code. The fields of the anonymous union of \<^verbatim>\<open>Fcall\<close> are separate fields of the record. \<open>Fcall_Wire\<close> gives the wire format as a specification; \<open>Framing\<close> is
  the interface of length-prefixed frames, a locale that messages and directory entries both
  interpret; \<open>Fcall_Roundtrip\<close>, \<open>Dir_Roundtrip\<close> and \<open>Fcall_Safety\<close> hold the proofs. The properties in \<open>Ninep\<close> and
  \<open>Dir_Props\<close> show that the encoder writes the wire format, that decoding inverts encoding for
  every message type and every directory entry, that malformed input is refused without a read
  or a write outside the buffer (and the one case where it is not: a count that wraps around), and that the
  receive loop recovers the sequence of messages from any chunking of the byte stream. The chunks that \<^verbatim>\<open>read\<close>
  returns are a parameter, a list.

  \<^bold>\<open>Text.\<close> \<open>Rune\<close> (\<^verbatim>\<open>rune.c\<close>), \<open>Utf\<close> (\<^verbatim>\<open>utf*.c\<close>), \<open>Cstring\<close> (\<^verbatim>\<open>str*.c\<close>, \<^verbatim>\<open>mem*.c\<close>) and
  \<open>Strto\<close> (\<^verbatim>\<open>strto*.c\<close>, \<^verbatim>\<open>ato*.c\<close>) translate the code; \<open>Cstring_Spec\<close> and \<open>Utf_String\<close> relate it to lists, sublists and
  lexicographic order, and \<open>Text_Props\<close> states the properties. Decoding is that of the UTF-8 standard on every byte
  string; the searching functions find first occurrences, but for \<^verbatim>\<open>utfutf\<close> on U+FFFD and malformed text; \<^verbatim>\<open>strecpy\<close> and
  \<^verbatim>\<open>utfecpy\<close> stay inside their space, \<^verbatim>\<open>strncat\<close>, which is not told how large the buffer is, exactly when there is room. In
  \<open>Strto\<close>, the locale \<open>accumulator\<close> says what the digit loop needs of the arithmetic of a C type, and is interpreted for
  \<^verbatim>\<open>long\<close>, \<^verbatim>\<open>vlong\<close> and \<^verbatim>\<open>ulong\<close>; \<^verbatim>\<open>strtoull\<close> uses a limit for which it does not hold, and a concrete overflow that it misses is proved. The
  value that a number is compared with shares the scanning of white space, sign, base prefix and digits with the model;
  what is proved is the arithmetic of the digit loops.

  \<^bold>\<open>Binary data as text.\<close> \<open>Encode\<close> translates the base 16, 32 and 64 conversions of \<^verbatim>\<open>u16.c\<close>, \<^verbatim>\<open>u32.c\<close> and \<^verbatim>\<open>u64.c\<close>; \<open>Encode_Props\<close>
  shows that decoding inverts encoding, which inputs lose bytes in base 32, and for which buffer \<^verbatim>\<open>dec32\<close> stores a byte too many.

  \<^bold>\<open>Sorting.\<close> \<open>Qsort\<close> translates the algorithm of \<^verbatim>\<open>qsort.c\<close> over the structure of function pointers that it
  is given, and proves it correct for every comparison and exchange that obey the locale \<open>sorting\<close>; \<open>Qsort_Mem\<close>
  shows that the two exchange functions of the code obey it on bytes in memory, and states the property. Positions in the array are
  natural numbers, without the bound of a \<^verbatim>\<open>long\<close>.

  \<^bold>\<open>Kernel processes.\<close> \<open>Waitq\<close> models linked queues of processes and proves them to be FIFO queues (locale
  \<open>fifo\<close>). \<open>Sched\<close> translates the scheduler of \<^verbatim>\<open>kernel/processes/proc.c\<close>: run queues, priorities, \<^verbatim>\<open>sched\<close>, \<^verbatim>\<open>runproc\<close>,
  \<^verbatim>\<open>rebalance\<close>, sleep and wakeup; \<open>Klock\<close> the locks of \<^verbatim>\<open>kernel/concurrency/qlock.c\<close> and \<^verbatim>\<open>ref.c\<close>. \<open>Sched_Inv\<close>,
  \<open>Sched_Ops\<close>, \<open>Sched_Pick\<close>, \<open>Sched_Switch\<close>, \<open>Klock_Inv\<close>, \<open>Klock_Ops\<close> and \<open>Klock_Release\<close> prove that every operation keeps the
  invariant of the queues and of the locks; \<open>Kern_Steps\<close> is the step relation of the kernel on one processor, whose
  reachable states \<open>Kern_Props\<close> speaks about: mutual exclusion, the run queues hold exactly the ready
  processes, releases never panic, waiters are served in order, the highest priority runs first, and \<^verbatim>\<open>sched\<close>
  returns. \<open>Kern_Example\<close> is a concrete history for the witnesses. Loops that need not end are
  \<open>partial_function (option)\<close>, where \<open>None\<close> means that the loop does not end or the kernel panics, and
  the theorems that a function returns state that its value is not \<open>None\<close>. \<^verbatim>\<open>runproc\<close> idles until an
  interrupt makes a process ready; the interrupts are a parameter, and the theorem that \<^verbatim>\<open>sched\<close> returns assumes
  that they are well-behaved and that one process may run. Spin locks are taken and released within one step; so \<^verbatim>\<open>qunlock\<close> is one step, although the code
  releases its spin lock before it makes the next process ready; the panic of \<^verbatim>\<open>sched\<close> on a lock held with interrupts off
  (\<^verbatim>\<open>ilockdepth\<close>) is left out; and \<^verbatim>\<open>schedinit\<close> does not model the two spin locks that \<^verbatim>\<open>pexit\<close>, which is not modelled, leaves to it to
  release.

  \<^bold>\<open>Kernel memory.\<close> \<open>Xalloc\<close> translates \<^verbatim>\<open>kernel/memory/xalloc.c\<close> with the address functions of the 386 port. \<open>Xalloc_Inv\<close> and
  \<open>Xalloc_Free\<close> show how allocation and release change the sorted list of holes, \<open>Xalloc_Steps\<close> follows histories of
  operations, and \<open>Xalloc_Props\<close> shows that blocks in use never overlap each other or a hole, that the
  operations return, and that \<^verbatim>\<open>xinit\<close> starts such a history. The allocations of a history are of sizes \<open>n\<close> with \<open>n + 16 < 2 ^ 32\<close>
  (\<open>xallocz_wraps\<close> shows what a larger one does) and do not go through \<^verbatim>\<open>xspanalloc\<close>. Owners are assumed to write only to their own bytes.

  \<^bold>\<open>The 9P server library.\<close> \<open>Intmap\<close> (\<^verbatim>\<open>lib9p/intmap.c\<close>) implements the contract of a finite map (locale \<open>keymap\<close>), and \<open>Fidpool\<close>
  (\<^verbatim>\<open>fid.c\<close>) counts references on top of it (\<open>Fid_Props\<close>). \<open>Filetree\<close> translates the file trees of \<^verbatim>\<open>file.c\<close> and the permissions of
  \<^verbatim>\<open>uid.c\<close>; \<open>Filetree_Inv\<close> proves that every operation keeps the links and the counts, and \<open>File_Props\<close> that
  a tree is a map from directories and names to files, that a directory read in pieces is read
  completely, and three defects. \<open>Srv_Reply\<close> (the requests of \<^verbatim>\<open>req.c\<close>, \<^verbatim>\<open>respond\<close> and the functions \<^verbatim>\<open>rversion\<close> to \<^verbatim>\<open>rwstat\<close> of
  \<^verbatim>\<open>srv.c\<close>) and \<open>Srv\<close> (the functions \<^verbatim>\<open>sversion\<close> to \<^verbatim>\<open>swstat\<close>, \<^verbatim>\<open>getreq\<close> and \<^verbatim>\<open>srv\<close>) translate the server; a message
  goes through \<open>serve\<close>, which calls a handler, which answers it or hands it to the application. \<open>Srv_Inv\<close> states the
  invariant and rules for going through a handler backwards (\<open>post\<close>), \<open>Srv_Respond\<close> proves that \<^verbatim>\<open>respond\<close> and \<^verbatim>\<open>closereq\<close> keep it and what they
  send, \<open>Fcall_Header\<close> what every encoded message begins with, \<open>Srv_Handlers\<close> and \<open>Srv_Steps\<close> that every message and everything that the
  application may do keeps it. \<open>Srv_Props\<close> states what follows in every reachable state: exact reference counts, one answer for
  every message and of the right type, the order of flushes, and the messages that stop the server or are treated wrongly. A call
  that ends in an \<^verbatim>\<open>assert\<close>, \<^verbatim>\<open>abort\<close> or a use of nil is \<open>None\<close>. \<^verbatim>\<open>respond\<close> and \<^verbatim>\<open>closereq\<close> call each other, a level deeper for
  every flush that waits for a flush; their first argument bounds the depth, \<open>respond_deeper\<close> shows that a larger bound gives the same
  result, and the theorems hold for every bound. \<open>clunk_answered\<close> needs a depth of two, as a request has that no flush waits for; the function \<open>closing\<close> in it is
  what the end of a fid does to the file tree.

  \<^bold>\<open>Not modelled.\<close> The rest of \<^verbatim>\<open>lib9p\<close> (posting and announcing a server, authentication, helpers for control files), real-time
  scheduling (\<^verbatim>\<open>edf.c\<close>), notes, process creation and exit, several processors, virtual memory and page
  management (they rest on the MMU code of each machine), device drivers and the network stack (I/O and
  timers), floating-point conversion, printing (\<^verbatim>\<open>libfmt\<close>), and the compilers, tools, windowing system and
  applications, which are programs of their own. The messages that the modelled functions print are left out.
\<close>

end
